(* ===== verification/Prelude.thy ===== *)
theory Prelude
  imports Main "HOL-Library.Word"
begin

unbundle bit_operations_syntax

text \<open>
  Shared vocabulary of the development: the outcome of a kernel routine, loops over arrays,
  machine words as sequences of bytes, and byte-addressed memory.
\<close>

named_theorems kernel_simps \<open>evaluation rules for kernel routines on well-behaved states\<close>

type_synonym byte = "8 word"
type_synonym ushort = "16 word"
type_synonym uint = "32 word"
type_synonym uint64 = "64 word"
type_synonym memory = "uint64 \<Rightarrow> byte"

section \<open>Outcomes of kernel routines\<close>

text \<open>
  A kernel routine either returns, or ends in \<open>panic(msg)\<close> (which prints the message and then
  loops for ever), or waits: it spins on a lock another CPU holds or sleeps on a channel, and does
  not return before another thread has run.
\<close>

datatype 'a res = Ok 'a | Panic string | Wait

fun andthen :: "'a res \<Rightarrow> ('a \<Rightarrow> 'b res) \<Rightarrow> 'b res" where
  "andthen (Ok x) f = f x"
| "andthen (Panic e) f = Panic e"
| "andthen Wait f = Wait"

lemma andthen_eq_Ok_iff: "andthen m f = Ok y \<longleftrightarrow> (\<exists>x. m = Ok x \<and> f x = Ok y)"
  by (cases m) auto

lemma andthen_OkE [elim!]:
  assumes "andthen m f = Ok y"
  obtains x where "m = Ok x" and "f x = Ok y"
  using assms by (cases m) auto

lemma andthen_Ok_right [simp]: "andthen m Ok = m"
  by (cases m) auto

lemma andthen_assoc [simp]: "andthen (andthen m f) g = andthen m (\<lambda>x. andthen (f x) g)"
  by (cases m) auto

lemma andthen_cong [fundef_cong]:
  "m = m' \<Longrightarrow> (\<And>x. m' = Ok x \<Longrightarrow> f x = f' x) \<Longrightarrow> andthen m f = andthen m' f'"
  by (cases m') auto

text \<open>A \<open>for\<close> loop over the elements of an array, whose body changes the state.\<close>

fun for_each :: "'a list \<Rightarrow> ('a \<Rightarrow> 's \<Rightarrow> 's res) \<Rightarrow> 's \<Rightarrow> 's res" where
  "for_each [] f s = Ok s"
| "for_each (x # xs) f s = andthen (f x s) (for_each xs f)"

lemma for_each_append:
  "for_each (xs @ ys) f s = andthen (for_each xs f s) (\<lambda>s'. for_each ys f s')"
proof (induction xs arbitrary: s)
  case (Cons x xs)
  have "andthen (f x s) (for_each (xs @ ys) f)
      = andthen (f x s) (\<lambda>s'. andthen (for_each xs f s') (for_each ys f))"
    by (cases "f x s") (simp_all add: Cons.IH)
  then show ?case by simp
qed simp

lemma for_each_cong [fundef_cong]:
  assumes "xs = ys" and "s = t" and "\<And>x s. x \<in> set ys \<Longrightarrow> f x s = g x s"
  shows "for_each xs f s = for_each ys g t"
proof -
  have "(\<And>x s. x \<in> set ys \<Longrightarrow> f x s = g x s) \<Longrightarrow> for_each ys f t = for_each ys g t" for t
    by (induction ys arbitrary: t) (auto intro: andthen_cong)
  with assms show ?thesis by blast
qed

text \<open>Total correctness of a routine: it returns, and what it returns satisfies \<open>Q\<close>.\<close>

definition returns :: "'a res \<Rightarrow> ('a \<Rightarrow> bool) \<Rightarrow> bool" where
  "returns m Q \<longleftrightarrow> (\<exists>x. m = Ok x \<and> Q x)"

lemma returns_Ok [simp]: "returns (Ok x) Q \<longleftrightarrow> Q x"
  by (simp add: returns_def)

lemma returns_Panic [simp]: "\<not> returns (Panic e) Q"
  by (simp add: returns_def)

lemma returns_Wait [simp]: "\<not> returns Wait Q"
  by (simp add: returns_def)

lemma returnsI: "m = Ok x \<Longrightarrow> Q x \<Longrightarrow> returns m Q"
  by (simp add: returns_def)

lemma returnsE:
  assumes "returns m Q"
  obtains x where "m = Ok x" and "Q x"
  using assms by (auto simp: returns_def)

lemma returns_mono: "returns m P \<Longrightarrow> (\<And>x. P x \<Longrightarrow> Q x) \<Longrightarrow> returns m Q"
  by (auto simp: returns_def)

lemma returns_andthen:
  assumes "returns m P" and "\<And>x. P x \<Longrightarrow> returns (f x) Q"
  shows "returns (andthen m f) Q"
  using assms by (auto simp: returns_def)

lemma returns_for_each:
  assumes "I 0 s"
    and "\<And>k s. k < length xs \<Longrightarrow> I k s \<Longrightarrow> returns (f (xs ! k) s) (I (Suc k))"
  shows "returns (for_each xs f s) (I (length xs))"
proof -
  have "k \<le> length xs \<Longrightarrow> returns (for_each (take k xs) f s) (I k)" for k
  proof (induction k)
    case 0
    with assms(1) show ?case by simp
  next
    case (Suc k)
    then have IH: "returns (for_each (take k xs) f s) (I k)" by simp
    have eq: "take (Suc k) xs = take k xs @ [xs ! k]"
      using Suc.prems by (simp add: take_Suc_conv_app_nth)
    have step: "I k t \<Longrightarrow> returns (for_each [xs ! k] f t) (I (Suc k))" for t
      using assms(2) [of k t] Suc.prems by (cases "f (xs ! k) t") (simp_all add: Suc_le_eq)
    show ?case
      unfolding eq for_each_append by (rule returns_andthen [OF IH step])
  qed
  from this [of "length xs"] show ?thesis by simp
qed

section \<open>Words as little-endian byte sequences\<close>

text \<open>
  RISC-V is little-endian: \<open>le_bytes n w\<close> are the \<open>n\<close> bytes a store of \<open>w\<close> leaves in memory
  (or in a disk block), lowest address first, and \<open>of_le\<close> is the load.
\<close>

definition le_bytes :: "nat \<Rightarrow> 'a::len word \<Rightarrow> byte list" where
  "le_bytes n w = map (\<lambda>i. ucast (drop_bit (8 * i) w)) [0..<n]"

definition of_le :: "byte list \<Rightarrow> 'a::len word" where
  "of_le bs = foldr (\<lambda>b w. ucast b OR push_bit 8 w) bs 0"

lemma length_le_bytes [simp]: "length (le_bytes n w) = n"
  by (simp add: le_bytes_def)

lemma bit_le_bytes:
  "i < n \<Longrightarrow> bit (le_bytes n (w :: 'a::len word) ! i) j \<longleftrightarrow> j < 8 \<and> bit w (8 * i + j)"
  by (simp add: le_bytes_def bit_ucast_iff bit_drop_bit_eq)

lemma bit_of_le:
  "bit (of_le bs :: 'a::len word) k \<longleftrightarrow>
     k < LENGTH('a) \<and> k div 8 < length bs \<and> bit (bs ! (k div 8)) (k mod 8)"
proof (induction bs arbitrary: k)
  case Nil
  show ?case by (simp add: of_le_def)
next
  case (Cons b bs)
  have unfold: "of_le (b # bs) = (ucast b OR push_bit 8 (of_le bs) :: 'a word)"
    by (simp add: of_le_def)
  have low: "bit (ucast b :: 'a word) k \<longleftrightarrow> k < LENGTH('a) \<and> k < 8 \<and> bit b k"
    using bit_imp_le_length [of b k] by (auto simp: bit_ucast_iff)
  show ?case
  proof (cases "k < 8")
    case True
    then show ?thesis
      using low by (simp add: unfold bit_or_iff bit_push_bit_iff)
  next
    case False
    then obtain j where k: "k = j + 8" by (metis add.commute le_Suc_ex not_less)
    have "bit (of_le (b # bs) :: 'a word) k \<longleftrightarrow> k < LENGTH('a) \<and> bit (of_le bs :: 'a word) j"
      using low False by (simp add: unfold bit_or_iff bit_push_bit_iff k)
    also have "\<dots> \<longleftrightarrow> k < LENGTH('a) \<and> j div 8 < length bs \<and> bit (bs ! (j div 8)) (j mod 8)"
      by (auto simp: Cons.IH k)
    finally have eq: "bit (of_le (b # bs) :: 'a word) k \<longleftrightarrow>
      k < LENGTH('a) \<and> j div 8 < length bs \<and> bit (bs ! (j div 8)) (j mod 8)" .
    have "k div 8 = Suc (j div 8)" and "k mod 8 = j mod 8" by (simp_all add: k)
    with eq show ?thesis by simp
  qed
qed

lemma of_le_le_bytes:
  assumes "LENGTH('a::len) \<le> 8 * n"
  shows "of_le (le_bytes n w) = (w :: 'a word)"
proof (rule bit_word_eqI)
  fix k
  assume k: "k < LENGTH('a)"
  with assms have "k div 8 < n" by (simp add: less_mult_imp_div_less mult.commute)
  with k show "bit (of_le (le_bytes n w) :: 'a word) k = bit w k"
    by (simp add: bit_of_le bit_le_bytes)
qed

lemma le_bytes_of_le:
  assumes "8 * length bs \<le> LENGTH('a::len)"
  shows "le_bytes (length bs) (of_le bs :: 'a word) = bs"
proof (rule nth_equalityI)
  fix i
  assume i: "i < length (le_bytes (length bs) (of_le bs :: 'a word))"
  show "le_bytes (length bs) (of_le bs :: 'a word) ! i = bs ! i"
  proof (rule bit_word_eqI)
    fix j
    assume "j < LENGTH(8)"
    with i assms show "bit (le_bytes (length bs) (of_le bs :: 'a word) ! i) j = bit (bs ! i) j"
      by (simp add: bit_le_bytes bit_of_le)
  qed
qed simp

section \<open>Byte-addressed memory\<close>

definition read_bytes :: "memory \<Rightarrow> uint64 \<Rightarrow> nat \<Rightarrow> byte list" where
  "read_bytes m a n = map (\<lambda>i. m (a + of_nat i)) [0..<n]"

definition write_bytes :: "uint64 \<Rightarrow> byte list \<Rightarrow> memory \<Rightarrow> memory" where
  "write_bytes a bs m = (\<lambda>x. if unat (x - a) < length bs then bs ! unat (x - a) else m x)"

definition read64 :: "memory \<Rightarrow> uint64 \<Rightarrow> uint64" where
  "read64 m a = of_le (read_bytes m a 8)"

definition write64 :: "uint64 \<Rightarrow> uint64 \<Rightarrow> memory \<Rightarrow> memory" where
  "write64 a v m = write_bytes a (le_bytes 8 v) m"

text \<open>The \<open>n\<close> addresses from \<open>a\<close> on (modulo \<open>2 ^ 64\<close>).\<close>

definition range64 :: "uint64 \<Rightarrow> nat \<Rightarrow> uint64 set" where
  "range64 a n = {x. unat (x - a) < n}"

lemma length_read_bytes [simp]: "length (read_bytes m a n) = n"
  by (simp add: read_bytes_def)

lemma nth_read_bytes [simp]: "i < n \<Longrightarrow> read_bytes m a n ! i = m (a + of_nat i)"
  by (simp add: read_bytes_def)

lemma unat_of_nat64: "n < 2 ^ 64 \<Longrightarrow> unat (of_nat n :: uint64) = n"
  by (simp add: unat_of_nat take_bit_nat_eq_self)

lemma write_bytes_outside: "x \<notin> range64 a (length bs) \<Longrightarrow> write_bytes a bs m x = m x"
  by (simp add: write_bytes_def range64_def)

lemma range64_add: "i < n \<Longrightarrow> n \<le> 2 ^ 64 \<Longrightarrow> a + of_nat i \<in> range64 a n"
  by (simp add: range64_def unat_of_nat64)

lemma range64_iff: "n \<le> 2 ^ 64 \<Longrightarrow> x \<in> range64 a n \<longleftrightarrow> (\<exists>i < n. x = a + of_nat i)"
proof
  assume "x \<in> range64 a n"
  then have "unat (x - a) < n" and "x = a + of_nat (unat (x - a))"
    by (simp_all add: range64_def)
  then show "\<exists>i < n. x = a + of_nat i" by blast
qed (auto intro: range64_add)

lemma read_write_bytes_same:
  assumes "length bs \<le> 2 ^ 64" and "n = length bs"
  shows "read_bytes (write_bytes a bs m) a n = bs"
  using assms by (auto intro!: nth_equalityI simp: write_bytes_def unat_of_nat64)

lemma read_bytes_cong:
  assumes "\<And>x. x \<in> range64 a n \<Longrightarrow> m x = m' x" and "n \<le> 2 ^ 64"
  shows "read_bytes m a n = read_bytes m' a n"
  using assms range64_add [of _ n a] by (auto intro!: nth_equalityI)

lemma read_write_bytes_disjoint:
  assumes "range64 a n \<inter> range64 b (length bs) = {}" and "n \<le> 2 ^ 64"
  shows "read_bytes (write_bytes b bs m) a n = read_bytes m a n"
  using assms by (intro read_bytes_cong write_bytes_outside) auto

lemma read64_write64_same [simp]: "read64 (write64 a v m) a = v"
  by (simp add: read64_def write64_def read_write_bytes_same of_le_le_bytes)

lemma read64_write64_disjoint:
  "range64 a 8 \<inter> range64 b 8 = {} \<Longrightarrow> read64 (write64 b v m) a = read64 m a"
  by (simp add: read64_def write64_def read_write_bytes_disjoint)

lemma read64_cong: "(\<And>x. x \<in> range64 a 8 \<Longrightarrow> m x = m' x) \<Longrightarrow> read64 m a = read64 m' a"
  unfolding read64_def by (rule arg_cong [where f = of_le], rule read_bytes_cong) auto

lemma write64_outside: "x \<notin> range64 a 8 \<Longrightarrow> write64 a v m x = m x"
  by (simp add: write64_def write_bytes_outside)

subsection \<open>Writing one byte at a time\<close>

lemma offset64E:
  fixes x a :: uint64
  obtains i where "x = a + of_nat i" and "i < 2 ^ 64"
proof
  show "x = a + of_nat (unat (x - a))" by simp
  show "unat (x - a) < 2 ^ 64" using unsigned_less [of "x - a"] by simp
qed

lemma of_nat64_inj: "i < 2 ^ 64 \<Longrightarrow> j < 2 ^ 64 \<Longrightarrow> (of_nat i :: uint64) = of_nat j \<longleftrightarrow> i = j"
  by (metis unat_of_nat64)

lemma write_bytes_at:
  "i < 2 ^ 64 \<Longrightarrow>
   write_bytes a bs m (a + of_nat i) = (if i < length bs then bs ! i else m (a + of_nat i))"
  by (simp add: write_bytes_def unat_of_nat64)

lemma write_bytes_Nil [simp]: "write_bytes a [] m = m"
  by (simp add: write_bytes_def)

lemma read_bytes_0 [simp]: "read_bytes m a 0 = []"
  by (simp add: read_bytes_def)

lemma read_bytes_Suc: "read_bytes m a (Suc n) = m a # read_bytes m (a + 1) n"
  by (rule nth_equalityI) (auto simp: nth_Cons add.assoc split: nat.split)

lemma read_bytes_snoc: "read_bytes m a (Suc n) = read_bytes m a n @ [m (a + of_nat n)]"
  by (simp add: read_bytes_def)

lemma read_bytes_append:
  "read_bytes m a (k + n) = read_bytes m a k @ read_bytes m (a + of_nat k) n"
  by (rule nth_equalityI) (auto simp: nth_append add.assoc)

lemma write_bytes_Cons:
  assumes "length bs < 2 ^ 64"
  shows "write_bytes a (b # bs) m = write_bytes (a + 1) bs (m(a := b))"
proof
  fix x
  obtain i where x: "x = a + of_nat i" and i: "i < 2 ^ 64" by (rule offset64E)
  show "write_bytes a (b # bs) m x = write_bytes (a + 1) bs (m(a := b)) x"
  proof (cases i)
    case 0
    have "x = a + 1 + of_nat (2 ^ 64 - 1)" by (simp add: x 0)
    then have "write_bytes (a + 1) bs (m(a := b)) x = (m(a := b)) x"
      using assms write_bytes_at [of "2 ^ 64 - 1" "a + 1" bs "m(a := b)"] by simp
    then show ?thesis using write_bytes_at [of 0 a "b # bs" m] by (simp add: x 0)
  next
    case (Suc j)
    then have xj: "x = a + 1 + of_nat j" by (simp add: x)
    have "x \<noteq> a" using i of_nat64_inj [of i 0] by (simp add: x Suc)
    then have "write_bytes (a + 1) bs (m(a := b)) x = (if j < length bs then bs ! j else m x)"
      using i write_bytes_at [of j "a + 1" bs "m(a := b)"] by (simp add: xj Suc)
    then show ?thesis
      using i write_bytes_at [of i a "b # bs" m] by (simp add: x Suc)
  qed
qed

lemma write_bytes_snoc:
  assumes "length bs < 2 ^ 64"
  shows "write_bytes a (bs @ [b]) m = write_bytes a bs (m(a + of_nat (length bs) := b))"
proof
  fix x
  obtain i where x: "x = a + of_nat i" and i: "i < 2 ^ 64" by (rule offset64E)
  have "x = a + of_nat (length bs) \<longleftrightarrow> i = length bs"
    using assms i of_nat64_inj [of i "length bs"] by (simp add: x)
  then show "write_bytes a (bs @ [b]) m x = write_bytes a bs (m(a + of_nat (length bs) := b)) x"
    using i by (auto simp: x write_bytes_at nth_append)
qed

lemma fun_upd_write_bytes:
  assumes "length bs < 2 ^ 64"
  shows "(write_bytes a bs m)(a + of_nat (length bs) := b) = write_bytes a (bs @ [b]) m"
proof
  fix x
  obtain i where x: "x = a + of_nat i" and i: "i < 2 ^ 64" by (rule offset64E)
  have "x = a + of_nat (length bs) \<longleftrightarrow> i = length bs"
    using assms i of_nat64_inj [of i "length bs"] by (simp add: x)
  then show "((write_bytes a bs m)(a + of_nat (length bs) := b)) x = write_bytes a (bs @ [b]) m x"
    using i by (auto simp: x write_bytes_at nth_append)
qed

lemma unat_add_of_nat:
  "unat (a :: uint64) + i < 2 ^ 64 \<Longrightarrow> unat (a + of_nat i) = unat a + i"
  by (subst unat_add_lem [THEN iffD1]) (simp_all add: unat_of_nat64)

lemma range64_disjoint:
  assumes "unat a + n \<le> unat b" and "unat b + k \<le> 2 ^ 64"
  shows "range64 a n \<inter> range64 b k = {}"
proof (rule ccontr)
  assume "range64 a n \<inter> range64 b k \<noteq> {}"
  moreover have "n \<le> 2 ^ 64" using assms by simp
  ultimately obtain i j where "i < n" "j < k" and eq: "a + of_nat i = b + of_nat j"
    using assms by (auto simp: range64_iff)
  moreover have "unat (a + of_nat i) = unat a + i" "unat (b + of_nat j) = unat b + j"
    using assms \<open>i < n\<close> \<open>j < k\<close> by (auto intro!: unat_add_of_nat)
  ultimately show False using assms by simp
qed

lemma range64_Suc: "n < 2 ^ 64 \<Longrightarrow> range64 a (Suc n) = insert a (range64 (a + 1) n)"
  by (auto simp: range64_iff Ex_less_Suc2 add.assoc)

lemma unat_lt64: "unat (a :: uint64) < 2 ^ 64"
proof -
  have "unat a < 2 ^ LENGTH(64)" by (rule unsigned_less)
  then show ?thesis by simp
qed

section \<open>Structures inside a block of bytes\<close>

text \<open>Bytes \<open>off, \<dots>\<close> of a buffer replaced by \<open>new\<close>; the store and the load of a word there.\<close>

definition put_bytes :: "nat \<Rightarrow> byte list \<Rightarrow> byte list \<Rightarrow> byte list" where
  "put_bytes off new bs = take off bs @ new @ drop (off + length new) bs"

definition get_bytes :: "nat \<Rightarrow> nat \<Rightarrow> byte list \<Rightarrow> byte list" where
  "get_bytes off n bs = take n (drop off bs)"

definition get32 :: "nat \<Rightarrow> byte list \<Rightarrow> uint" where
  "get32 off bs = of_le (get_bytes off 4 bs)"

definition put32 :: "nat \<Rightarrow> uint \<Rightarrow> byte list \<Rightarrow> byte list" where
  "put32 off w bs = put_bytes off (le_bytes 4 w) bs"

definition get16 :: "nat \<Rightarrow> byte list \<Rightarrow> ushort" where
  "get16 off bs = of_le (get_bytes off 2 bs)"

definition put16 :: "nat \<Rightarrow> ushort \<Rightarrow> byte list \<Rightarrow> byte list" where
  "put16 off w bs = put_bytes off (le_bytes 2 w) bs"

lemma length_put_bytes [simp]: "off + length new \<le> length bs \<Longrightarrow> length (put_bytes off new bs) = length bs"
  by (simp add: put_bytes_def)

lemma nth_put_bytes:
  "off + length new \<le> length bs \<Longrightarrow> i < length bs \<Longrightarrow>
   put_bytes off new bs ! i = (if off \<le> i \<and> i < off + length new then new ! (i - off) else bs ! i)"
  by (auto simp: put_bytes_def nth_append min_def)

lemma get_put_bytes_same:
  "off + length new \<le> length bs \<Longrightarrow> n = length new \<Longrightarrow> get_bytes off n (put_bytes off new bs) = new"
  by (simp add: get_bytes_def put_bytes_def)

lemma get_put_bytes_other:
  assumes "off + length new \<le> length bs" and "off' + n \<le> off \<or> off + length new \<le> off'"
  shows "get_bytes off' n (put_bytes off new bs) = get_bytes off' n bs"
proof (rule nth_equalityI)
  show "length (get_bytes off' n (put_bytes off new bs)) = length (get_bytes off' n bs)"
    using assms(1) by (simp add: get_bytes_def)
  fix i
  assume "i < length (get_bytes off' n (put_bytes off new bs))"
  then have "i < n" and "off' + i < length bs" using assms(1) by (auto simp: get_bytes_def)
  then show "get_bytes off' n (put_bytes off new bs) ! i = get_bytes off' n bs ! i"
    using assms nth_put_bytes [of off new bs "off' + i"] by (auto simp: get_bytes_def)
qed

lemma length_put32 [simp]: "off + 4 \<le> length bs \<Longrightarrow> length (put32 off w bs) = length bs"
  by (simp add: put32_def)

lemma length_put16 [simp]: "off + 2 \<le> length bs \<Longrightarrow> length (put16 off w bs) = length bs"
  by (simp add: put16_def)

lemma get32_put32 [simp]: "off + 4 \<le> length bs \<Longrightarrow> get32 off (put32 off w bs) = w"
  by (simp add: get32_def put32_def get_put_bytes_same of_le_le_bytes)

lemma get16_put16 [simp]: "off + 2 \<le> length bs \<Longrightarrow> get16 off (put16 off w bs) = w"
  by (simp add: get16_def put16_def get_put_bytes_same of_le_le_bytes)

lemma get32_put32_other:
  "off + 4 \<le> length bs \<Longrightarrow> off' + 4 \<le> off \<or> off + 4 \<le> off' \<Longrightarrow> get32 off' (put32 off w bs) = get32 off' bs"
  by (simp add: get32_def put32_def get_put_bytes_other)

end
