(* ===== verification/Spinlock.thy ===== *)
theory Spinlock
  imports Prelude
begin

text \<open>
  Spin locks and interrupt nesting (\<^verbatim>\<open>kernel/spinlock.c\<close>, with \<open>intr_on\<close>, \<open>intr_off\<close>, \<open>intr_get\<close>
  of \<^verbatim>\<open>kernel/riscv.h\<close> and \<open>cpuid\<close>, \<open>mycpu\<close>, \<open>myproc\<close> of \<^verbatim>\<open>kernel/proc.c\<close>). The first part is
  the code as one hart executes it: \<open>acquire\<close> of a lock another hart holds waits. The second part
  is the interleaved execution of many harts, one atomic action of \<open>acquire\<close> or \<open>release\<close> at a
  time, with mutual exclusion as an invariant.
\<close>

section \<open>State\<close>

definition NCPU :: nat where "NCPU = 8"

text \<open>
  A C pointer to a lock is a name here: one constructor for each lock the kernel declares.
  The sleep locks of buffers and inodes each hold a spin lock of their own.
\<close>

datatype sleepid = BufLock nat | InodeLock nat

datatype lockid =
    KmemLock | PidLock | WaitLock | ProcLock nat
  | SleepLk sleepid | BcacheLock | LogLock | ItableLock | FtableLock
  | PipeLock uint64 | ConsLock | UartLock | PrLock | TicksLock | VdiskLock

record spinlock =
  locked :: bool
  lk_name :: string
  lk_cpu :: "nat option"

text \<open>The process a CPU runs is an index into \<open>proc[]\<close>.\<close>

record cpu =
  c_proc :: "nat option"
  noff :: int
  intena :: bool

text \<open>
  \<open>tp\<close> is the register that holds the hart number, \<open>sie\<close> the bit SIE of each hart's \<open>sstatus\<close>.
\<close>

record mach =
  tp :: nat
  sie :: "nat \<Rightarrow> bool"
  cpus :: "nat \<Rightarrow> cpu"
  locks :: "lockid \<Rightarrow> spinlock"

section \<open>The operations\<close>

definition intr_on :: "'z mach_scheme \<Rightarrow> 'z mach_scheme" where
  "intr_on s = s\<lparr>sie := (sie s)(tp s := True)\<rparr>"

definition intr_off :: "'z mach_scheme \<Rightarrow> 'z mach_scheme" where
  "intr_off s = s\<lparr>sie := (sie s)(tp s := False)\<rparr>"

definition intr_get :: "'z mach_scheme \<Rightarrow> bool" where
  "intr_get s = sie s (tp s)"

definition cpuid :: "'z mach_scheme \<Rightarrow> nat" where
  "cpuid s = tp s"

definition mycpu :: "'z mach_scheme \<Rightarrow> cpu" where
  "mycpu s = cpus s (cpuid s)"

definition set_mycpu :: "cpu \<Rightarrow> 'z mach_scheme \<Rightarrow> 'z mach_scheme" where
  "set_mycpu c s = s\<lparr>cpus := (cpus s)(cpuid s := c)\<rparr>"

definition initlock :: "lockid \<Rightarrow> string \<Rightarrow> 'z mach_scheme \<Rightarrow> 'z mach_scheme" where
  "initlock l name s =
     s\<lparr>locks := (locks s)(l := \<lparr>locked = False, lk_name = name, lk_cpu = None\<rparr>)\<rparr>"

definition holding :: "lockid \<Rightarrow> 'z mach_scheme \<Rightarrow> bool" where
  "holding l s \<longleftrightarrow> locked (locks s l) \<and> lk_cpu (locks s l) = Some (cpuid s)"

definition push_off :: "'z mach_scheme \<Rightarrow> 'z mach_scheme" where
  "push_off s =
     (let old = intr_get s;
          s1 = intr_off s;
          s2 = (if noff (mycpu s1) = 0 then set_mycpu ((mycpu s1)\<lparr>intena := old\<rparr>) s1 else s1)
      in set_mycpu ((mycpu s2)\<lparr>noff := noff (mycpu s2) + 1\<rparr>) s2)"

definition pop_off :: "'z mach_scheme \<Rightarrow> 'z mach_scheme res" where
  "pop_off s =
     (if intr_get s then Panic ''pop_off - interruptible''
      else if noff (mycpu s) < 1 then Panic ''pop_off''
      else let s1 = set_mycpu ((mycpu s)\<lparr>noff := noff (mycpu s) - 1\<rparr>) s
           in Ok (if noff (mycpu s1) = 0 \<and> intena (mycpu s1) then intr_on s1 else s1))"

definition acquire :: "lockid \<Rightarrow> 'z mach_scheme \<Rightarrow> 'z mach_scheme res" where
  "acquire l s =
     (let s1 = push_off s in
      if holding l s1 then Panic ''acquire''
      else if locked (locks s1 l) then Wait
      else Ok (s1\<lparr>locks := (locks s1)(l := (locks s1 l)\<lparr>locked := True, lk_cpu := Some (cpuid s1)\<rparr>)\<rparr>))"

definition release :: "lockid \<Rightarrow> 'z mach_scheme \<Rightarrow> 'z mach_scheme res" where
  "release l s =
     (if \<not> holding l s then Panic ''release''
      else pop_off (s\<lparr>locks := (locks s)(l := (locks s l)\<lparr>locked := False, lk_cpu := None\<rparr>)\<rparr>))"

definition myproc :: "'z mach_scheme \<Rightarrow> (nat option \<times> 'z mach_scheme) res" where
  "myproc s =
     (let s1 = push_off s; p = c_proc (mycpu s1)
      in andthen (pop_off s1) (\<lambda>s2. Ok (p, s2)))"

lemmas mach_defs =
  intr_on_def intr_off_def intr_get_def cpuid_def mycpu_def set_mycpu_def holding_def push_off_def
  pop_off_def acquire_def release_def myproc_def initlock_def

section \<open>Balanced use on one hart\<close>

text \<open>
  A state is settled when the interrupt bookkeeping of the running hart is consistent: interrupts
  are off inside \<open>push_off\<close>, and outside it \<open>intena\<close> records the current setting, as it does after
  the first \<open>push_off\<close>.
\<close>

definition settled :: "'z mach_scheme \<Rightarrow> bool" where
  "settled s \<longleftrightarrow> 0 \<le> noff (mycpu s) \<and> (noff (mycpu s) = 0 \<longrightarrow> intena (mycpu s) = intr_get s)
      \<and> (0 < noff (mycpu s) \<longrightarrow> \<not> intr_get s)"

definition lock_free :: "lockid \<Rightarrow> 'z mach_scheme \<Rightarrow> bool" where
  "lock_free l s \<longleftrightarrow> \<not> locked (locks s l) \<and> lk_cpu (locks s l) = None"

text \<open>\<open>hold l s\<close> is \<open>s\<close> with lock \<open>l\<close> held by the running hart: what \<open>acquire\<close> leaves.\<close>

definition hold :: "lockid \<Rightarrow> 'z mach_scheme \<Rightarrow> 'z mach_scheme" where
  "hold l s =
     s\<lparr>sie := (sie s)(tp s := False),
       cpus := (cpus s)(tp s := (cpus s (tp s))\<lparr>noff := noff (cpus s (tp s)) + 1\<rparr>),
       locks := (locks s)(l := (locks s l)\<lparr>locked := True, lk_cpu := Some (tp s)\<rparr>)\<rparr>"

lemma push_off_settled:
  assumes "settled s"
  shows "push_off s = s\<lparr>sie := (sie s)(tp s := False),
           cpus := (cpus s)(tp s := (cpus s (tp s))\<lparr>noff := noff (cpus s (tp s)) + 1\<rparr>)\<rparr>"
  using assms by (cases "cpus s (tp s)") (auto simp: settled_def mach_defs Let_def)

lemma pop_off_push_off [simp]: "settled s \<Longrightarrow> pop_off (push_off s) = Ok s"
  by (simp add: push_off_settled) (auto simp: settled_def mach_defs Let_def fun_upd_idem)

lemma acquire_ok [kernel_simps]: "settled s \<Longrightarrow> lock_free l s \<Longrightarrow> acquire l s = Ok (hold l s)"
  by (simp add: acquire_def push_off_settled Let_def hold_def)
    (auto simp: lock_free_def holding_def cpuid_def)

lemma release_ok [kernel_simps]: "settled s \<Longrightarrow> lock_free l s \<Longrightarrow> release l (hold l s) = Ok s"
  by (auto simp: release_def hold_def settled_def lock_free_def mach_defs Let_def fun_upd_idem)

lemma settled_hold [kernel_simps]: "settled s \<Longrightarrow> settled (hold l s)"
  by (simp add: settled_def hold_def mach_defs)

lemma lock_free_hold [kernel_simps]: "lock_free l' (hold l s) \<longleftrightarrow> l' \<noteq> l \<and> lock_free l' s"
  by (auto simp: lock_free_def hold_def)

lemma holding_hold [kernel_simps]: "holding l' (hold l s) \<longleftrightarrow> l' = l \<or> holding l' s"
  by (auto simp: holding_def hold_def cpuid_def)

lemma hold_commute: "hold l (hold l' s) = hold l' (hold l s)"
  by (cases "l = l'") (auto simp: hold_def fun_upd_twist)

lemma c_proc_hold [kernel_simps]: "c_proc (mycpu (hold l s)) = c_proc (mycpu s)"
  by (simp add: hold_def mach_defs)

lemma tp_hold [kernel_simps]: "tp (hold l s) = tp s"
  by (simp add: hold_def)

lemma myproc_ok [kernel_simps]: "settled s \<Longrightarrow> myproc s = Ok (c_proc (mycpu s), s)"
proof -
  assume "settled s"
  then have "pop_off (push_off s) = Ok s" by simp
  moreover have "c_proc (mycpu (push_off s)) = c_proc (mycpu s)"
    using \<open>settled s\<close> by (simp add: push_off_settled) (simp add: mycpu_def cpuid_def)
  ultimately show ?thesis by (simp add: myproc_def Let_def)
qed

lemma acquire_twice_panics:
  "settled s \<Longrightarrow> lock_free l s \<Longrightarrow> acquire l (hold l s) = Panic ''acquire''"
  by (simp add: acquire_def push_off_settled settled_hold) (simp add: holding_def hold_def cpuid_def)

lemma release_unheld_panics: "lock_free l s \<Longrightarrow> release l s = Panic ''release''"
  by (simp add: release_def holding_def lock_free_def)

section \<open>Many harts\<close>

text \<open>
  Each hart is at a point of its own in \<open>acquire\<close> or \<open>release\<close>: running other code; past \<open>push_off\<close>
  and the \<open>holding\<close> check of \<open>acquire\<close> and spinning on the atomic swap; past the swap but before
  \<open>lk->cpu = mycpu()\<close>; past \<open>lk->cpu = 0\<close> but before \<open>__sync_lock_release\<close>; before \<open>pop_off\<close>.
  \<open>held\<close> lists the locks whose \<open>acquire\<close> has returned and whose \<open>release\<close> has not started.
\<close>

datatype phase = Run | Spin lockid | Swapped lockid | Cleared lockid | Popping

record smp = mach +
  phase_of :: "nat \<Rightarrow> phase"
  held :: "nat \<Rightarrow> lockid list"

definition smp_init :: smp where
  "smp_init = \<lparr>tp = 0, sie = (\<lambda>_. False),
     cpus = (\<lambda>_. \<lparr>c_proc = None, noff = 0, intena = False\<rparr>),
     locks = (\<lambda>_. \<lparr>locked = False, lk_name = [], lk_cpu = None\<rparr>),
     phase_of = (\<lambda>_. Run), held = (\<lambda>_. [])\<rparr>"

definition upd_lock :: "lockid \<Rightarrow> (spinlock \<Rightarrow> spinlock) \<Rightarrow> 'z mach_scheme \<Rightarrow> 'z mach_scheme" where
  "upd_lock l f s = s\<lparr>locks := (locks s)(l := f (locks s l))\<rparr>"

text \<open>
  One atomic action of hart \<open>h\<close>. A failing check of \<open>acquire\<close> or \<open>release\<close> (a panic) has no step.
  The last rule is any other code of the hart turning its interrupts on or off outside
  \<open>push_off\<close>.
\<close>

inductive spin_step :: "smp \<Rightarrow> smp \<Rightarrow> bool" where
  acquire_start:
    "phase_of s h = Run \<Longrightarrow> s1 = push_off (s\<lparr>tp := h\<rparr>) \<Longrightarrow> \<not> holding l s1 \<Longrightarrow>
     spin_step s (s1\<lparr>phase_of := (phase_of s)(h := Spin l)\<rparr>)"
| swap_busy:
    "phase_of s h = Spin l \<Longrightarrow> locked (locks s l) \<Longrightarrow> spin_step s (s\<lparr>tp := h\<rparr>)"
| swap_free:
    "phase_of s h = Spin l \<Longrightarrow> \<not> locked (locks s l) \<Longrightarrow>
     spin_step s ((upd_lock l (\<lambda>k. k\<lparr>locked := True\<rparr>) (s\<lparr>tp := h\<rparr>))
       \<lparr>phase_of := (phase_of s)(h := Swapped l)\<rparr>)"
| acquire_return:
    "phase_of s h = Swapped l \<Longrightarrow>
     spin_step s ((upd_lock l (\<lambda>k. k\<lparr>lk_cpu := Some h\<rparr>) (s\<lparr>tp := h\<rparr>))
       \<lparr>phase_of := (phase_of s)(h := Run), held := (held s)(h := l # held s h)\<rparr>)"
| release_start:
    "phase_of s h = Run \<Longrightarrow> holding l (s\<lparr>tp := h\<rparr>) \<Longrightarrow>
     spin_step s ((upd_lock l (\<lambda>k. k\<lparr>lk_cpu := None\<rparr>) (s\<lparr>tp := h\<rparr>))
       \<lparr>phase_of := (phase_of s)(h := Cleared l), held := (held s)(h := remove1 l (held s h))\<rparr>)"
| release_unlock:
    "phase_of s h = Cleared l \<Longrightarrow>
     spin_step s ((upd_lock l (\<lambda>k. k\<lparr>locked := False\<rparr>) (s\<lparr>tp := h\<rparr>))
       \<lparr>phase_of := (phase_of s)(h := Popping)\<rparr>)"
| release_return:
    "phase_of s h = Popping \<Longrightarrow> pop_off (s\<lparr>tp := h\<rparr>) = Ok s1 \<Longrightarrow>
     spin_step s (s1\<lparr>phase_of := (phase_of s)(h := Run)\<rparr>)"
| interrupts:
    "phase_of s h = Run \<Longrightarrow> noff (cpus s h) = 0 \<Longrightarrow> spin_step s (s\<lparr>tp := h, sie := (sie s)(h := b)\<rparr>)"

inductive spin_reachable :: "smp \<Rightarrow> bool" where
  start: "spin_reachable smp_init"
| step: "spin_reachable s \<Longrightarrow> spin_step s t \<Longrightarrow> spin_reachable t"

text \<open>A hart owns a lock from its successful swap to its \<open>__sync_lock_release\<close>.\<close>

definition owns :: "smp \<Rightarrow> nat \<Rightarrow> lockid \<Rightarrow> bool" where
  "owns s h l \<longleftrightarrow> l \<in> set (held s h) \<or> phase_of s h = Swapped l \<or> phase_of s h = Cleared l"

definition lock_inv :: "smp \<Rightarrow> lockid \<Rightarrow> bool" where
  "lock_inv s l \<longleftrightarrow>
     (locked (locks s l) \<longleftrightarrow> (\<exists>h. owns s h l)) \<and>
     (\<forall>h h'. owns s h l \<longrightarrow> owns s h' l \<longrightarrow> h = h') \<and>
     (\<forall>h. lk_cpu (locks s l) = Some h \<longleftrightarrow> l \<in> set (held s h)) \<and>
     (\<forall>h. phase_of s h = Swapped l \<or> phase_of s h = Cleared l \<longrightarrow> l \<notin> set (held s h))"

definition hart_inv :: "smp \<Rightarrow> nat \<Rightarrow> bool" where
  "hart_inv s h \<longleftrightarrow>
     distinct (held s h) \<and>
     noff (cpus s h) = int (length (held s h)) + (if phase_of s h = Run then 0 else 1) \<and>
     (0 < noff (cpus s h) \<longrightarrow> \<not> sie s h)"

definition spin_inv :: "smp \<Rightarrow> bool" where
  "spin_inv s \<longleftrightarrow> (\<forall>l. lock_inv s l) \<and> (\<forall>h. hart_inv s h)"

lemma push_off_fields [simp]:
  "locks (push_off s) = locks s" "tp (push_off s) = tp s"
  "phase_of (push_off t) = phase_of t" "held (push_off t) = held t"
  "sie (push_off s) = (sie s)(tp s := False)"
  "noff (cpus (push_off s) h) = (if h = tp s then noff (cpus s h) + 1 else noff (cpus s h))"
  by (simp_all add: mach_defs Let_def)

lemma pop_off_fields:
  assumes "pop_off s = Ok t"
  shows "locks t = locks s" "phase_of t = phase_of s" "held t = held s"
    "noff (cpus t h) = (if h = tp s then noff (cpus s h) - 1 else noff (cpus s h))"
    "h \<noteq> tp s \<Longrightarrow> sie t h = sie s h" "0 < noff (cpus t (tp s)) \<Longrightarrow> \<not> sie t (tp s)"
  using assms by (auto simp: mach_defs Let_def split: if_splits)

text \<open>How a step changes who owns what.\<close>

lemma lock_invI:
  assumes "locked (locks s l) \<longleftrightarrow> (\<exists>h. owns s h l)"
    and "\<And>h h'. owns s h l \<Longrightarrow> owns s h' l \<Longrightarrow> h = h'"
    and "\<And>h. lk_cpu (locks s l) = Some h \<longleftrightarrow> l \<in> set (held s h)"
    and "\<And>h. phase_of s h = Swapped l \<or> phase_of s h = Cleared l \<Longrightarrow> l \<notin> set (held s h)"
  shows "lock_inv s l"
  using assms unfolding lock_inv_def by blast

lemma lock_inv_frame:
  assumes "lock_inv s l" and "locks t l = locks s l"
    and "\<And>h. l \<in> set (held t h) \<longleftrightarrow> l \<in> set (held s h)"
    and "\<And>h. phase_of t h = Swapped l \<longleftrightarrow> phase_of s h = Swapped l"
    and "\<And>h. phase_of t h = Cleared l \<longleftrightarrow> phase_of s h = Cleared l"
  shows "lock_inv t l"
  using assms by (simp add: lock_inv_def owns_def)

lemma swap_free_lock_inv:
  assumes "phase_of s h = Spin l" and "\<not> locked (locks s l)" and inv: "lock_inv s l"
    and t: "t = (upd_lock l (\<lambda>k. k\<lparr>locked := True\<rparr>) (s\<lparr>tp := h\<rparr>))\<lparr>phase_of := (phase_of s)(h := Swapped l)\<rparr>"
  shows "lock_inv t l"
proof -
  have none: "\<not> owns s i l" for i
    using assms(2) inv by (auto simp: lock_inv_def)
  then have own: "owns t i l \<longleftrightarrow> i = h" for i
    by (auto simp: t owns_def upd_lock_def)
  show ?thesis
  proof (rule lock_invI)
    show "lk_cpu (locks t l) = Some i \<longleftrightarrow> l \<in> set (held t i)" for i
      using inv by (simp add: t upd_lock_def lock_inv_def)
    show "l \<notin> set (held t i)" for i
      using none [of i] by (simp add: t upd_lock_def owns_def)
  qed (simp_all add: own, simp add: t upd_lock_def)
qed

lemma acquire_return_lock_inv:
  assumes ph: "phase_of s h = Swapped l" and inv: "lock_inv s l"
    and t: "t = (upd_lock l (\<lambda>k. k\<lparr>lk_cpu := Some h\<rparr>) (s\<lparr>tp := h\<rparr>))
       \<lparr>phase_of := (phase_of s)(h := Run), held := (held s)(h := l # held s h)\<rparr>"
  shows "lock_inv t l"
proof -
  have only: "owns s i l \<longleftrightarrow> i = h" for i
    using ph inv by (auto simp: lock_inv_def owns_def)
  then have own: "owns t i l \<longleftrightarrow> i = h" for i
    by (auto simp: t owns_def upd_lock_def)
  show ?thesis
  proof (rule lock_invI)
    show "lk_cpu (locks t l) = Some i \<longleftrightarrow> l \<in> set (held t i)" for i
      using only [of i] by (auto simp: t upd_lock_def owns_def)
    show "phase_of t i = Swapped l \<or> phase_of t i = Cleared l \<Longrightarrow> l \<notin> set (held t i)" for i
      using own [of i] by (auto simp: t upd_lock_def owns_def)
  qed (simp_all add: own, insert only inv, simp add: t upd_lock_def lock_inv_def)
qed

lemma release_start_lock_inv:
  assumes "phase_of s h = Run" and hd: "holding l (s\<lparr>tp := h\<rparr>)" and inv: "lock_inv s l" and "hart_inv s h"
    and t: "t = (upd_lock l (\<lambda>k. k\<lparr>lk_cpu := None\<rparr>) (s\<lparr>tp := h\<rparr>))
       \<lparr>phase_of := (phase_of s)(h := Cleared l), held := (held s)(h := remove1 l (held s h))\<rparr>"
  shows "lock_inv t l"
proof -
  have mem: "l \<in> set (held s h)"
    using hd inv by (auto simp: lock_inv_def holding_def cpuid_def)
  then have only: "owns s i l \<longleftrightarrow> i = h" for i
    using inv by (auto simp: lock_inv_def owns_def)
  have gone: "l \<notin> set (held t i)" for i
    using only [of i] \<open>hart_inv s h\<close> by (auto simp: t upd_lock_def owns_def hart_inv_def)
  have own: "owns t i l \<longleftrightarrow> i = h" for i
    using gone [of i] only [of i] by (auto simp: t owns_def upd_lock_def)
  show ?thesis
  proof (rule lock_invI)
    show "lk_cpu (locks t l) = Some i \<longleftrightarrow> l \<in> set (held t i)" for i
      using gone [of i] by (simp add: t upd_lock_def)
  qed (simp_all add: own gone, insert hd, simp add: t upd_lock_def holding_def)
qed

lemma release_unlock_lock_inv:
  assumes ph: "phase_of s h = Cleared l" and inv: "lock_inv s l"
    and t: "t = (upd_lock l (\<lambda>k. k\<lparr>locked := False\<rparr>) (s\<lparr>tp := h\<rparr>))\<lparr>phase_of := (phase_of s)(h := Popping)\<rparr>"
  shows "lock_inv t l"
proof -
  have only: "owns s i l \<longleftrightarrow> i = h" for i
    using ph inv by (auto simp: lock_inv_def owns_def)
  have none: "\<not> owns t i l" for i
    using only [of i] ph inv by (auto simp: t owns_def upd_lock_def lock_inv_def)
  show ?thesis
  proof (rule lock_invI)
    show "lk_cpu (locks t l) = Some i \<longleftrightarrow> l \<in> set (held t i)" for i
      using inv by (simp add: t upd_lock_def lock_inv_def)
    show "l \<notin> set (held t i)" for i
      using none [of i] by (simp add: owns_def)
  qed (simp_all add: none, simp add: t upd_lock_def)
qed

lemma spin_step_lock_inv:
  "spin_step s t \<Longrightarrow> (\<And>h. hart_inv s h) \<Longrightarrow> lock_inv s k \<Longrightarrow> lock_inv t k"
proof (induction rule: spin_step.induct)
  case (acquire_start s h s1 l)
  then show ?case by (elim lock_inv_frame) auto
next
  case (swap_busy s h l)
  then show ?case by (elim lock_inv_frame) auto
next
  case (swap_free s h l)
  show ?case
  proof (cases "k = l")
    case True
    with swap_free show ?thesis by (blast intro: swap_free_lock_inv)
  next
    case False
    with swap_free show ?thesis
      by (intro lock_inv_frame [OF \<open>lock_inv s k\<close>]) (auto simp: upd_lock_def)
  qed
next
  case (acquire_return s h l)
  show ?case
  proof (cases "k = l")
    case True
    with acquire_return show ?thesis by (blast intro: acquire_return_lock_inv)
  next
    case False
    with acquire_return show ?thesis
      by (intro lock_inv_frame [OF \<open>lock_inv s k\<close>]) (auto simp: upd_lock_def)
  qed
next
  case (release_start s h l)
  show ?case
  proof (cases "k = l")
    case True
    with release_start show ?thesis by (blast intro: release_start_lock_inv)
  next
    case False
    with release_start show ?thesis
      by (intro lock_inv_frame [OF \<open>lock_inv s k\<close>]) (auto simp: upd_lock_def)
  qed
next
  case (release_unlock s h l)
  show ?case
  proof (cases "k = l")
    case True
    with release_unlock show ?thesis by (blast intro: release_unlock_lock_inv)
  next
    case False
    with release_unlock show ?thesis
      by (intro lock_inv_frame [OF \<open>lock_inv s k\<close>]) (auto simp: upd_lock_def)
  qed
next
  case (release_return s h s1)
  then show ?case using pop_off_fields [OF release_return(2)] by (elim lock_inv_frame) auto
next
  case (interrupts s h b)
  then show ?case by (elim lock_inv_frame) auto
qed

lemma spin_step_hart_inv:
  "spin_step s t \<Longrightarrow> (\<And>l. lock_inv s l) \<Longrightarrow> hart_inv s i \<Longrightarrow> hart_inv t i"
proof (induction rule: spin_step.induct)
  case (acquire_start s h s1 l)
  then show ?case by (auto simp: hart_inv_def)
next
  case (swap_busy s h l)
  then show ?case by (auto simp: hart_inv_def)
next
  case (swap_free s h l)
  then show ?case by (auto simp: hart_inv_def upd_lock_def)
next
  case (acquire_return s h l)
  then have "l \<notin> set (held s h)" by (simp add: lock_inv_def)
  with acquire_return show ?case by (auto simp: hart_inv_def upd_lock_def)
next
  case (release_start s h l)
  then have "lock_inv s l" by blast
  with release_start have "l \<in> set (held s h)" by (auto simp: lock_inv_def holding_def cpuid_def)
  moreover from this obtain n where "length (held s h) = Suc n" by (cases "held s h") auto
  ultimately show ?case
    using release_start by (auto simp: hart_inv_def upd_lock_def length_remove1)
next
  case (release_unlock s h l)
  then show ?case by (auto simp: hart_inv_def upd_lock_def)
next
  case (release_return s h s1)
  then show ?case
    using pop_off_fields(1-3,6) [OF release_return(2)] pop_off_fields(4,5) [OF release_return(2), of i]
    by (auto simp: hart_inv_def)
next
  case (interrupts s h b)
  then show ?case by (auto simp: hart_inv_def)
qed

theorem spin_reachable_inv: "spin_reachable s \<Longrightarrow> spin_inv s"
proof (induction rule: spin_reachable.induct)
  case start
  show ?case
    by (simp add: spin_inv_def lock_inv_def hart_inv_def owns_def smp_init_def)
next
  case (step s t)
  then show ?case
    by (auto simp: spin_inv_def intro: spin_step_lock_inv spin_step_hart_inv)
qed

text \<open>
  C16. Mutual exclusion: in every interleaving of \<open>acquire\<close> and \<open>release\<close> by any number of harts,
  two harts never own the same spin lock, where owning starts at the successful atomic swap of
  \<open>acquire\<close> and ends with the \<open>__sync_lock_release\<close> of \<open>release\<close>.
\<close>

theorem spinlock_mutual_exclusion:
  assumes "spin_reachable s" and "owns s h l" and "owns s h' l"
  shows "h = h'"
  using spin_reachable_inv [OF assms(1)] assms(2,3) by (auto simp: spin_inv_def lock_inv_def)

lemma spin_reachable_held: "\<exists>s. spin_reachable s \<and> owns s 3 KmemLock"
proof -
  let ?s1 = "(push_off (smp_init\<lparr>tp := 3\<rparr>))\<lparr>phase_of := (phase_of smp_init)(3 := Spin KmemLock)\<rparr>"
  have "spin_reachable ?s1"
    by (rule spin_reachable.step [OF spin_reachable.start], rule spin_step.acquire_start)
      (simp_all add: smp_init_def holding_def)
  moreover have "spin_step ?s1 ((upd_lock KmemLock (\<lambda>k. k\<lparr>locked := True\<rparr>) (?s1\<lparr>tp := 3\<rparr>))
       \<lparr>phase_of := (phase_of ?s1)(3 := Swapped KmemLock)\<rparr>)" (is "spin_step _ ?s2")
    by (rule spin_step.swap_free) (simp_all add: smp_init_def)
  ultimately have "spin_reachable ?s2" by (rule spin_reachable.step)
  moreover have "owns ?s2 3 KmemLock" by (simp add: owns_def)
  ultimately show ?thesis by blast
qed

theorem spinlock_mutual_exclusion_witness:
  "\<exists>s. spin_reachable s \<and> owns s 3 KmemLock \<and> \<not> owns s 5 KmemLock"
proof -
  obtain s where s: "spin_reachable s" "owns s 3 KmemLock" using spin_reachable_held by blast
  with spinlock_mutual_exclusion [of s 3 KmemLock 5] show ?thesis by auto
qed

text \<open>
  C17. A hart that runs ordinary code sees \<open>holding(lk)\<close> true exactly for the locks it has acquired
  and not yet released, and while it holds any lock its interrupts are off: the code of
  \<open>push_off\<close> and \<open>pop_off\<close> nests correctly under every interleaving.
\<close>

theorem holding_exact_and_interrupts_off:
  assumes "spin_reachable s" and "phase_of s h = Run"
  shows "(holding l (s\<lparr>tp := h\<rparr>) \<longleftrightarrow> l \<in> set (held s h))
    \<and> noff (cpus s h) = int (length (held s h)) \<and> (held s h \<noteq> [] \<longrightarrow> \<not> sie s h)"
proof -
  from assms(1) have inv: "lock_inv s l" "hart_inv s h"
    using spin_reachable_inv by (auto simp: spin_inv_def)
  then have "holding l (s\<lparr>tp := h\<rparr>) \<longleftrightarrow> l \<in> set (held s h)"
    by (auto simp: lock_inv_def holding_def cpuid_def owns_def)
  moreover have "noff (cpus s h) = int (length (held s h))"
    using inv(2) assms(2) by (simp add: hart_inv_def)
  moreover have "held s h \<noteq> [] \<longrightarrow> \<not> sie s h"
    using inv(2) assms(2) by (auto simp: hart_inv_def)
  ultimately show ?thesis by blast
qed

theorem holding_exact_and_interrupts_off_witness:
  "spin_reachable smp_init \<and> phase_of smp_init 0 = Run \<and> \<not> holding KmemLock (smp_init\<lparr>tp := 0\<rparr>)"
  using holding_exact_and_interrupts_off [OF spin_reachable.start, of 0 KmemLock]
  by (simp add: spin_reachable.start) (simp add: smp_init_def)

lemma release_return_possible:
  assumes "spin_reachable s" and "phase_of s h = Popping"
  shows "\<exists>t. pop_off (s\<lparr>tp := h\<rparr>) = Ok t"
proof -
  from assms have "hart_inv s h" using spin_reachable_inv by (auto simp: spin_inv_def)
  with assms(2) show ?thesis by (simp add: hart_inv_def mach_defs Let_def)
qed

end
