(* ===== verification/Cstring.thy ===== *)
theory Cstring
  imports Prelude
begin

text \<open>
  Memory and string routines of \<^verbatim>\<open>kernel/string.c\<close>, on byte-addressed memory with 64-bit pointers:
  the loops as the code writes them, and what they compute.
\<close>

section \<open>The routines\<close>

text \<open>\<open>for (i = 0; i < n; i++) cdst[i] = c;\<close>\<close>

function memset_loop :: "uint64 \<Rightarrow> byte \<Rightarrow> nat \<Rightarrow> nat \<Rightarrow> memory \<Rightarrow> memory" where
  "memset_loop dst c i n m =
     (if i < n then memset_loop dst c (Suc i) n (m(dst + of_nat i := c)) else m)"
  by pat_completeness auto
termination
  by (relation "measure (\<lambda>(dst, c, i, n, m). n - i)") auto

declare memset_loop.simps [simp del]

definition memset :: "uint64 \<Rightarrow> byte \<Rightarrow> nat \<Rightarrow> memory \<Rightarrow> memory" where
  "memset dst c n m = memset_loop dst c 0 n m"

fun memcmp :: "uint64 \<Rightarrow> uint64 \<Rightarrow> nat \<Rightarrow> memory \<Rightarrow> int" where
  "memcmp s1 s2 0 m = 0"
| "memcmp s1 s2 (Suc n) m =
     (if m s1 \<noteq> m s2 then uint (m s1) - uint (m s2) else memcmp (s1 + 1) (s2 + 1) n m)"

fun copy_up :: "uint64 \<Rightarrow> uint64 \<Rightarrow> nat \<Rightarrow> memory \<Rightarrow> memory" where
  "copy_up d s 0 m = m"
| "copy_up d s (Suc n) m = copy_up (d + 1) (s + 1) n (m(d := m s))"

fun copy_down :: "uint64 \<Rightarrow> uint64 \<Rightarrow> nat \<Rightarrow> memory \<Rightarrow> memory" where
  "copy_down d s 0 m = m"
| "copy_down d s (Suc n) m = copy_down (d - 1) (s - 1) n (m(d - 1 := m (s - 1)))"

definition memmove :: "uint64 \<Rightarrow> uint64 \<Rightarrow> nat \<Rightarrow> memory \<Rightarrow> memory" where
  "memmove dst src n m =
     (if n = 0 then m
      else if src < dst \<and> src + of_nat n > dst
      then copy_down (dst + of_nat n) (src + of_nat n) n m
      else copy_up dst src n m)"

text \<open>\<open>while (n > 0 && *p && *p == *q) n--, p++, q++;\<close> and the two returns after it.\<close>

fun strncmp :: "uint64 \<Rightarrow> uint64 \<Rightarrow> nat \<Rightarrow> memory \<Rightarrow> int" where
  "strncmp p q 0 m = 0"
| "strncmp p q (Suc n) m =
     (if m p \<noteq> 0 \<and> m p = m q then strncmp (p + 1) (q + 1) n m else uint (m p) - uint (m q))"

fun strncpy_pad :: "uint64 \<Rightarrow> nat \<Rightarrow> memory \<Rightarrow> memory" where
  "strncpy_pad s 0 m = m"
| "strncpy_pad s (Suc n) m = strncpy_pad (s + 1) n (m(s := 0))"

fun strncpy_loop :: "uint64 \<Rightarrow> uint64 \<Rightarrow> nat \<Rightarrow> memory \<Rightarrow> memory" where
  "strncpy_loop s t 0 m = m"
| "strncpy_loop s t (Suc n) m =
     (if m t \<noteq> 0 then strncpy_loop (s + 1) (t + 1) n (m(s := m t))
      else strncpy_pad (s + 1) n (m(s := m t)))"

definition strncpy :: "uint64 \<Rightarrow> uint64 \<Rightarrow> int \<Rightarrow> memory \<Rightarrow> memory" where
  "strncpy s t n m = strncpy_loop s t (nat n) m"

text \<open>
  \<open>while (--n > 0 && (*s++ = *t++) != 0); *s = 0;\<close> with \<open>k\<close> the value of \<open>n\<close> after the decrement.
\<close>

fun safestrcpy_loop :: "uint64 \<Rightarrow> uint64 \<Rightarrow> nat \<Rightarrow> memory \<Rightarrow> memory" where
  "safestrcpy_loop s t 0 m = m(s := 0)"
| "safestrcpy_loop s t (Suc k) m =
     (if m t \<noteq> 0 then safestrcpy_loop (s + 1) (t + 1) k (m(s := m t))
      else (m(s := m t))(s + 1 := 0))"

definition safestrcpy :: "uint64 \<Rightarrow> uint64 \<Rightarrow> int \<Rightarrow> memory \<Rightarrow> memory" where
  "safestrcpy s t n m = (if n \<le> 0 then m else safestrcpy_loop s t (nat (n - 1)) m)"

text \<open>\<open>strlen\<close> runs for ever on memory without a NUL; \<open>None\<close> stands for that.\<close>

partial_function (option) strlen_loop :: "memory \<Rightarrow> uint64 \<Rightarrow> nat \<Rightarrow> nat option" where
  "strlen_loop m s n = (if m (s + of_nat n) = 0 then Some n else strlen_loop m s (Suc n))"

definition strlen :: "uint64 \<Rightarrow> memory \<Rightarrow> nat option" where
  "strlen s m = strlen_loop m s 0"

section \<open>What they compute\<close>

lemma memset_loop_eq:
  assumes "n \<le> 2 ^ 64" and "i \<le> n"
  shows "memset_loop dst c i n (write_bytes dst (replicate i c) m) = write_bytes dst (replicate n c) m"
  using assms
proof (induction "n - i" arbitrary: i)
  case 0
  then show ?case by (simp add: memset_loop.simps)
next
  case (Suc k)
  then have "i < n" and "k = n - Suc i" by simp_all
  then have "memset_loop dst c (Suc i) n (write_bytes dst (replicate (Suc i) c) m)
      = write_bytes dst (replicate n c) m"
    using Suc.hyps(1) [of "Suc i"] Suc.prems by simp
  moreover have "(write_bytes dst (replicate i c) m)(dst + of_nat i := c)
      = write_bytes dst (replicate (Suc i) c) m"
    using fun_upd_write_bytes [of "replicate i c" dst m c] \<open>i < n\<close> \<open>n \<le> 2 ^ 64\<close>
    by (simp add: replicate_append_same)
  ultimately show ?case
    using \<open>i < n\<close> by (simp add: memset_loop.simps [of _ _ i])
qed

lemma memset_eq: "n \<le> 2 ^ 64 \<Longrightarrow> memset dst c n m = write_bytes dst (replicate n c) m"
  using memset_loop_eq [of n 0 dst c m] by (simp add: memset_def)

lemma copy_up_eq:
  assumes "n \<le> 2 ^ 64" and "\<And>i j. i < n \<Longrightarrow> j < i \<Longrightarrow> s + of_nat i \<noteq> d + of_nat j"
  shows "copy_up d s n m = write_bytes d (read_bytes m s n) m"
  using assms
proof (induction n arbitrary: d s m)
  case 0
  then show ?case by simp
next
  case (Suc n)
  let ?m = "m(d := m s)"
  have "s + 1 + of_nat i \<noteq> d + 1 + of_nat j" if "i < n" "j < i" for i j
    using Suc.prems(2) [of "Suc i" "Suc j"] that by (simp add: add.commute add.left_commute)
  then have "copy_up (d + 1) (s + 1) n ?m = write_bytes (d + 1) (read_bytes ?m (s + 1) n) ?m"
    using Suc.prems(1) by (intro Suc.IH) auto
  moreover have "read_bytes ?m (s + 1) n = read_bytes m (s + 1) n"
  proof (rule nth_equalityI)
    fix i
    assume "i < length (read_bytes ?m (s + 1) n)"
    then show "read_bytes ?m (s + 1) n ! i = read_bytes m (s + 1) n ! i"
      using Suc.prems(2) [of "Suc i" 0] by (simp add: add.assoc)
  qed simp
  ultimately show ?case
    using Suc.prems(1) by (simp add: read_bytes_Suc write_bytes_Cons)
qed

lemma copy_down_eq:
  assumes "n \<le> 2 ^ 64" and "\<And>i j. j < n \<Longrightarrow> i < j \<Longrightarrow> s + of_nat i \<noteq> d + of_nat j"
  shows "copy_down (d + of_nat n) (s + of_nat n) n m = write_bytes d (read_bytes m s n) m"
  using assms
proof (induction n arbitrary: m)
  case 0
  then show ?case by simp
next
  case (Suc n)
  let ?m = "m(d + of_nat n := m (s + of_nat n))"
  have "copy_down (d + of_nat n) (s + of_nat n) n ?m = write_bytes d (read_bytes ?m s n) ?m"
    using Suc.prems by (intro Suc.IH) auto
  moreover have "read_bytes ?m s n = read_bytes m s n"
    using Suc.prems(2) [of n] by (auto intro: nth_equalityI)
  ultimately show ?case
    using Suc.prems(1) write_bytes_snoc [of "read_bytes m s n" d "m (s + of_nat n)" m]
    by (simp add: read_bytes_snoc algebra_simps)
qed

lemma memmove_eq:
  assumes "unat src + n < 2 ^ 64" and "unat dst + n < 2 ^ 64"
  shows "memmove dst src n m = write_bytes dst (read_bytes m src n) m"
proof -
  have add: "unat (a + of_nat i) = unat a + i" if "unat a + n < 2 ^ 64" "i \<le> n" for a :: uint64 and i
    using that by (subst unat_add_lem [THEN iffD1]) (simp_all add: unat_of_nat64)
  show ?thesis
  proof (cases "src < dst \<and> src + of_nat n > dst")
    case True
    have "src + of_nat i \<noteq> dst + of_nat j" if "j < n" "i < j" for i j
      using True add [of src i] add [of dst j] assms that by (auto simp: word_less_nat_alt)
    then show ?thesis
      using True assms copy_down_eq [of n src dst m] by (simp add: memmove_def)
  next
    case False
    have "src + of_nat i \<noteq> dst + of_nat j" if "i < n" "j < i" for i j
    proof
      assume "src + of_nat i = dst + of_nat j"
      then have eq: "unat src + i = unat dst + j"
        using add [of src i] add [of dst j] assms that by simp
      then show False
        using False that add [of src n] assms by (simp add: word_less_nat_alt)
    qed
    then show ?thesis
      using False assms copy_up_eq [of n src dst m] by (auto simp: memmove_def)
  qed
qed

text \<open>
  C35. \<open>memmove\<close> is correct on overlapping ranges: whatever the two pointers are, as long as
  neither range reaches the end of the 64-bit address space, the destination receives the bytes the
  source had before the call and no other byte changes.
\<close>

theorem memmove_correct:
  assumes "unat src + n < 2 ^ 64" and "unat dst + n < 2 ^ 64"
  shows "memmove dst src n m = write_bytes dst (read_bytes m src n) m"
  by (rule memmove_eq [OF assms])

theorem memmove_correct_witness:
  "let m = (\<lambda>x. if x = 0x80001000 then 7 else 0) in
   memmove 0x80001002 0x80001000 4 m = write_bytes 0x80001002 [7, 0, 0, 0] m"
proof -
  have "read_bytes (\<lambda>x. if x = (0x80001000 :: uint64) then 7 else (0 :: byte)) 0x80001000 4 = [7, 0, 0, 0]"
    by (simp add: read_bytes_def upt_rec)
  then show ?thesis
    using memmove_correct [of "0x80001000" 4 "0x80001002" "\<lambda>x. if x = 0x80001000 then 7 else 0"]
    by simp
qed

text \<open>The C string of at most \<open>n\<close> characters at \<open>p\<close>: the bytes before the first NUL.\<close>

definition cstr :: "memory \<Rightarrow> uint64 \<Rightarrow> nat \<Rightarrow> byte list" where
  "cstr m p n = takeWhile (\<lambda>b. b \<noteq> 0) (read_bytes m p n)"

lemma cstr_0 [simp]: "cstr m p 0 = []"
  by (simp add: cstr_def)

lemma cstr_Suc: "cstr m p (Suc n) = (if m p = 0 then [] else m p # cstr m (p + 1) n)"
  by (simp add: cstr_def read_bytes_Suc)

lemma length_cstr: "length (cstr m p n) \<le> n"
  using length_takeWhile_le [of "\<lambda>b. b \<noteq> 0" "read_bytes m p n"] by (simp add: cstr_def)

text \<open>
  C36. \<open>strncmp\<close> decides equality of C strings cut to \<open>n\<close> characters: it returns 0 exactly when the
  two strings agree up to their NUL or up to \<open>n\<close> characters. \<open>namecmp\<close> of the file system is this
  comparison with \<open>n = DIRSIZ\<close>.
\<close>

theorem strncmp_0_iff: "strncmp p q n m = 0 \<longleftrightarrow> cstr m p n = cstr m q n"
  by (induction p q n m rule: strncmp.induct) (auto simp: cstr_Suc word_uint_eq_iff)

lemma memcmp_0_iff: "memcmp p q n m = 0 \<longleftrightarrow> read_bytes m p n = read_bytes m q n"
  by (induction p q n m rule: memcmp.induct) (auto simp: read_bytes_Suc word_uint_eq_iff)

lemma cstr_cong:
  assumes "\<And>x. x \<in> range64 p n \<Longrightarrow> m x = m' x" and "n \<le> 2 ^ 64"
  shows "cstr m p n = cstr m' p n"
  unfolding cstr_def using read_bytes_cong [OF assms] by simp



lemma strncpy_pad_eq: "n < 2 ^ 64 \<Longrightarrow> strncpy_pad s n m = write_bytes s (replicate n 0) m"
  by (induction s n m rule: strncpy_pad.induct) (simp_all add: write_bytes_Cons)

lemma strncpy_loop_eq:
  assumes "n < 2 ^ 64" and "range64 s n \<inter> range64 t n = {}"
  shows "strncpy_loop s t n m =
    write_bytes s (cstr m t n @ replicate (n - length (cstr m t n)) 0) m"
  using assms
proof (induction n arbitrary: s t m)
  case 0
  then show ?case by simp
next
  case (Suc n)
  then have n: "n < 2 ^ 64" and st: "s \<notin> range64 (t + 1) n" "t \<noteq> s"
      "range64 (s + 1) n \<inter> range64 (t + 1) n = {}"
    by (auto simp: range64_Suc)
  have eq: "cstr (m(s := m t)) (t + 1) n = cstr m (t + 1) n"
    using n st(1) by (intro cstr_cong) auto
  show ?case
  proof (cases "m t = 0")
    case True
    then show ?thesis using n by (simp add: cstr_Suc strncpy_pad_eq write_bytes_Cons)
  next
    case False
    then have "strncpy_loop (s + 1) (t + 1) n (m(s := m t)) =
        write_bytes (s + 1) (cstr m (t + 1) n @ replicate (n - length (cstr m (t + 1) n)) 0) (m(s := m t))"
      using Suc.IH [OF n st(3), of "m(s := m t)"] by (simp only: eq)
    with False n length_cstr [of m "t + 1" n] show ?thesis
      by (simp add: cstr_Suc write_bytes_Cons)
  qed
qed

lemma cstr_write_padded:
  assumes "n < 2 ^ 64" and "0 \<notin> set bs" and "length bs \<le> n"
  shows "cstr (write_bytes s (bs @ replicate (n - length bs) 0) m) s n = bs"
proof -
  have "read_bytes (write_bytes s (bs @ replicate (n - length bs) 0) m) s n
      = bs @ replicate (n - length bs) 0"
    using assms by (intro read_write_bytes_same) auto
  moreover have "takeWhile (\<lambda>b. b \<noteq> 0) (bs @ replicate (n - length bs) 0) = bs"
    using assms(2) by (subst takeWhile_append2) (auto simp: takeWhile_replicate)
  ultimately show ?thesis by (simp add: cstr_def)
qed

lemma zero_notin_cstr: "0 \<notin> set (cstr m p n)"
  by (auto simp: cstr_def dest: set_takeWhileD)

text \<open>
  C37. \<open>strncpy\<close> on disjoint ranges copies a name: the \<open>n\<close> destination bytes are the source string
  cut to \<open>n\<close> characters and padded with NULs, \<open>strncmp\<close> with the same \<open>n\<close> then finds the copy equal
  to the source, and nothing outside the destination changes.
\<close>

theorem strncpy_correct:
  assumes "0 \<le> n" and "nat n < 2 ^ 64" and "range64 s (nat n) \<inter> range64 t (nat n) = {}"
  shows "strncpy s t n m = write_bytes s (cstr m t (nat n) @ replicate (nat n - length (cstr m t (nat n))) 0) m
    \<and> strncmp s t (nat n) (strncpy s t n m) = 0"
proof -
  let ?m' = "strncpy s t n m"
  have eq: "?m' = write_bytes s (cstr m t (nat n) @ replicate (nat n - length (cstr m t (nat n))) 0) m"
    using assms by (simp add: strncpy_def strncpy_loop_eq)
  moreover have "cstr ?m' s (nat n) = cstr m t (nat n)"
    unfolding eq using assms length_cstr [of m t "nat n"] zero_notin_cstr by (intro cstr_write_padded) auto
  moreover have "cstr ?m' t (nat n) = cstr m t (nat n)"
    unfolding eq using assms length_cstr [of m t "nat n"]
    by (intro cstr_cong write_bytes_outside) auto
  ultimately show ?thesis by (simp add: strncmp_0_iff)
qed

theorem strncpy_correct_witness:
  "let m = (\<lambda>x. if x = 0x80002000 then 0x61 else 0) in
   cstr (strncpy 0x80001000 0x80002000 14 m) 0x80001000 14 = [0x61]"
proof -
  let ?m = "\<lambda>x. if x = 0x80002000 then 0x61 else 0 :: byte"
  have "range64 (0x80001000 :: uint64) 14 \<inter> range64 0x80002000 14 = {}"
    by (rule range64_disjoint) simp_all
  then have "strncmp 0x80001000 0x80002000 14 (strncpy 0x80001000 0x80002000 14 ?m) = 0"
    and "strncpy 0x80001000 0x80002000 14 ?m = write_bytes 0x80001000 (cstr ?m 0x80002000 14 @ replicate (14 - length (cstr ?m 0x80002000 14)) 0) ?m"
    using strncpy_correct [of 14 "0x80001000" "0x80002000" ?m] by auto
  moreover have "cstr ?m 0x80002000 14 = [0x61]"
    by (simp add: cstr_def read_bytes_def upt_rec)
  ultimately show ?thesis
    using cstr_write_padded [of 14 "[0x61]" "0x80001000" ?m] by simp
qed


lemma safestrcpy_loop_outside:
  assumes "k < 2 ^ 64 - 1" and "x \<notin> range64 s (Suc k)"
  shows "safestrcpy_loop s t k m x = m x"
  using assms
proof (induction k arbitrary: s t m)
  case 0
  then show ?case by (auto simp: range64_def)
next
  case (Suc k)
  then have "x \<noteq> s" "x \<notin> range64 (s + 1) (Suc k)" "x \<noteq> s + 1"
    by (auto simp: range64_Suc)
  with Suc show ?case by simp
qed

lemma safestrcpy_loop_terminated:
  assumes "k < 2 ^ 64 - 1" and "range64 s (Suc k) \<inter> range64 t k = {}"
  shows "cstr (safestrcpy_loop s t k m) s (Suc k) = cstr m t k"
  using assms
proof (induction k arbitrary: s t m)
  case 0
  then show ?case by (simp add: cstr_Suc)
next
  case (Suc k)
  have k: "k < 2 ^ 64 - 1" and "s \<notin> range64 (t + 1) k" and dis: "range64 (s + 1) (Suc k) \<inter> range64 (t + 1) k = {}"
    using Suc.prems by (auto simp: range64_Suc)
  have out: "s \<notin> range64 (s + 1) (Suc k)"
    using k by (auto simp: range64_def unsigned_minus_1_eq_mask mask_eq_exp_minus_1)
  have eq: "cstr (m(s := m t)) (t + 1) k = cstr m (t + 1) k"
    using k \<open>s \<notin> range64 (t + 1) k\<close> by (intro cstr_cong) auto
  show ?case
  proof (cases "m t = 0")
    case True
    have "s + 1 \<noteq> s" by simp
    with True show ?thesis by (simp add: cstr_Suc)
  next
    case False
    have "cstr (safestrcpy_loop (s + 1) (t + 1) k (m(s := m t))) (s + 1) (Suc k) = cstr m (t + 1) k"
      using Suc.IH [OF k dis, of "m(s := m t)"] by (simp only: eq)
    with False safestrcpy_loop_outside [OF k out, of "t + 1" "m(s := m t)"]
    show ?thesis by (simp add: cstr_Suc [of _ s] cstr_Suc [of _ t])
  qed
qed



lemma strlen_loop_eq:
  assumes "m (s + of_nat (n + k)) = 0" and "\<And>i. i < k \<Longrightarrow> m (s + of_nat (n + i)) \<noteq> 0"
  shows "strlen_loop m s n = Some (n + k)"
  using assms
proof (induction k arbitrary: n)
  case 0
  then show ?case by (simp add: strlen_loop.simps)
next
  case (Suc k)
  have "strlen_loop m s (Suc n) = Some (Suc n + k)"
  proof (rule Suc.IH)
    show "m (s + of_nat (Suc n + k)) = 0" using Suc.prems(1) by simp
    show "m (s + of_nat (Suc n + i)) \<noteq> 0" if "i < k" for i
      using Suc.prems(2) [of "Suc i"] that by simp
  qed
  moreover have "m (s + of_nat n) \<noteq> 0" using Suc.prems(2) [of 0] by simp
  ultimately show ?case by (subst strlen_loop.simps) simp
qed

lemma strlen_cstr: "m (s + of_nat k) = 0 \<Longrightarrow> (\<And>i. i < k \<Longrightarrow> m (s + of_nat i) \<noteq> 0) \<Longrightarrow> strlen s m = Some k"
  using strlen_loop_eq [of m s 0 k] by (simp add: strlen_def)

end
