(* ===== verification/Kalloc.thy ===== *)
theory Kalloc
  imports Spinlock Cstring
begin

text \<open>
  The physical page allocator (\<^verbatim>\<open>kernel/kalloc.c\<close>): a free list threaded through the first eight
  bytes of the free pages themselves, protected by \<open>kmem.lock\<close>. The abstraction of the list in
  memory is a list of page addresses.
\<close>

section \<open>State and operations\<close>

abbreviation PGSIZE :: nat where "PGSIZE \<equiv> 4096"

definition KERNBASE :: uint64 where "KERNBASE = 0x80000000"
definition PHYSTOP :: uint64 where "PHYSTOP = KERNBASE + 128 * 1024 * 1024"

definition PGROUNDUP :: "uint64 \<Rightarrow> uint64" where
  "PGROUNDUP sz = (sz + 4096 - 1) AND NOT (4096 - 1)"

definition PGROUNDDOWN :: "uint64 \<Rightarrow> uint64" where
  "PGROUNDDOWN a = a AND NOT (4096 - 1)"

text \<open>
  \<open>kend\<close> is the linker symbol \<open>end\<close>, the first address after the kernel; \<open>freelist\<close> is
  \<open>kmem.freelist\<close>, whose \<open>next\<close> pointers are in \<open>mem\<close>.
\<close>

record kmem = mach +
  mem :: memory
  freelist :: uint64
  kend :: uint64

definition kfree :: "uint64 \<Rightarrow> 'z kmem_scheme \<Rightarrow> 'z kmem_scheme res" where
  "kfree pa s =
     (if unat pa mod PGSIZE \<noteq> 0 \<or> pa < kend s \<or> pa \<ge> PHYSTOP then Panic ''kfree''
      else
        let s1 = s\<lparr>mem := memset pa 1 PGSIZE (mem s)\<rparr> in
        andthen (acquire KmemLock s1) (\<lambda>s2.
        release KmemLock (s2\<lparr>mem := write64 pa (freelist s2) (mem s2), freelist := pa\<rparr>)))"

definition kalloc :: "'z kmem_scheme \<Rightarrow> (uint64 \<times> 'z kmem_scheme) res" where
  "kalloc s =
     andthen (acquire KmemLock s) (\<lambda>s1.
     let r = freelist s1;
         s2 = (if r \<noteq> 0 then s1\<lparr>freelist := read64 (mem s1) r\<rparr> else s1) in
     andthen (release KmemLock s2) (\<lambda>s3.
     Ok (r, if r \<noteq> 0 then s3\<lparr>mem := memset r 5 PGSIZE (mem s3)\<rparr> else s3)))"

lemma kfree_Ok_bound: "kfree p s = Ok t \<Longrightarrow> p < PHYSTOP"
  by (auto simp: kfree_def split: if_splits)

text \<open>\<open>for (; p + PGSIZE <= (char *)pa_end; p += PGSIZE) kfree(p);\<close>\<close>

function freerange_loop :: "uint64 \<Rightarrow> uint64 \<Rightarrow> 'z kmem_scheme \<Rightarrow> 'z kmem_scheme res" where
  "freerange_loop p pa_end s =
     (if p + of_nat PGSIZE \<le> pa_end
      then andthen (kfree p s) (freerange_loop (p + of_nat PGSIZE) pa_end)
      else Ok s)"
  by pat_completeness auto
termination
proof (relation "measure (\<lambda>(p, pa_end, s). unat PHYSTOP - unat p)")
  fix p pa_end :: uint64 and s s' :: "'z kmem_scheme"
  assume "kfree p s = Ok s'"
  then have p: "unat p < unat PHYSTOP"
    using kfree_Ok_bound word_less_nat_alt by blast
  moreover have "unat (p + of_nat PGSIZE) = unat p + PGSIZE"
    using p by (intro unat_add_of_nat) (simp add: PHYSTOP_def KERNBASE_def)
  ultimately show "((p + of_nat PGSIZE, pa_end, s'), (p, pa_end, s)) \<in> measure (\<lambda>(p, pa_end, s). unat PHYSTOP - unat p)"
    by simp
qed simp

declare freerange_loop.simps [simp del]

definition freerange :: "uint64 \<Rightarrow> uint64 \<Rightarrow> 'z kmem_scheme \<Rightarrow> 'z kmem_scheme res" where
  "freerange pa_start pa_end s = freerange_loop (PGROUNDUP pa_start) pa_end s"

definition kinit :: "'z kmem_scheme \<Rightarrow> 'z kmem_scheme res" where
  "kinit s = freerange (kend s) PHYSTOP (initlock KmemLock ''kmem'' s)"

section \<open>Frame rules\<close>

lemma hold_kmem [simp]:
  "mem (hold l s) = mem s" "freelist (hold l s) = freelist s" "kend (hold l s) = kend s"
  "(hold l s)\<lparr>mem := m\<rparr> = hold l (s\<lparr>mem := m\<rparr>)"
  "(hold l s)\<lparr>freelist := p\<rparr> = hold l (s\<lparr>freelist := p\<rparr>)"
  by (simp_all add: hold_def)

lemma settled_kmem [simp]:
  "settled (s\<lparr>mem := m\<rparr>) = settled s" "settled (s\<lparr>freelist := p\<rparr>) = settled s"
  "lock_free l (s\<lparr>mem := m\<rparr>) = lock_free l s" "lock_free l (s\<lparr>freelist := p\<rparr>) = lock_free l s"
  by (simp_all add: settled_def lock_free_def mycpu_def intr_get_def cpuid_def)

section \<open>Pages\<close>

definition page_ok :: "uint64 \<Rightarrow> uint64 \<Rightarrow> bool" where
  "page_ok e p \<longleftrightarrow> unat p mod PGSIZE = 0 \<and> e \<le> p \<and> p < PHYSTOP"

abbreviation page :: "uint64 \<Rightarrow> uint64 set" where
  "page p \<equiv> range64 p PGSIZE"

lemma aligned_step:
  fixes a b :: nat
  assumes "a mod PGSIZE = 0" and "b mod PGSIZE = 0" and "a < b"
  shows "a + PGSIZE \<le> b"
proof -
  obtain j k where "a = PGSIZE * j" and "b = PGSIZE * k"
    using assms(1,2) by (metis mod_0_imp_dvd dvdE)
  with assms(3) have "Suc j \<le> k" by simp
  then have "PGSIZE * Suc j \<le> PGSIZE * k" by (rule mult_le_mono2)
  then show ?thesis by (simp add: \<open>a = PGSIZE * j\<close> \<open>b = PGSIZE * k\<close>)
qed

lemma aligned_page_top: "unat (p :: uint64) mod PGSIZE = 0 \<Longrightarrow> unat p + PGSIZE \<le> 2 ^ 64"
  using unsigned_less [of p] by (intro aligned_step) simp_all

lemma aligned_pages_disjoint:
  assumes "unat p mod PGSIZE = 0" and "unat q mod PGSIZE = 0" and "p \<noteq> q"
  shows "page p \<inter> page q = {}"
proof -
  have "unat p \<noteq> unat q" using assms(3) by (simp add: word_unat_eq_iff)
  then consider "unat p < unat q" | "unat q < unat p" by linarith
  then show ?thesis
  proof cases
    case 1
    with assms show ?thesis by (intro range64_disjoint aligned_step aligned_page_top)
  next
    case 2
    with assms have "page q \<inter> page p = {}" by (intro range64_disjoint aligned_step aligned_page_top)
    then show ?thesis by blast
  qed
qed

lemma range64_mono: "k \<le> n \<Longrightarrow> range64 a k \<subseteq> range64 a n"
  by (auto simp: range64_def)

lemma memset_outside: "n \<le> 2 ^ 64 \<Longrightarrow> x \<notin> range64 p n \<Longrightarrow> memset p c n m x = m x"
  by (simp add: memset_eq write_bytes_outside)

lemma read64_memset_other:
  assumes "unat p mod PGSIZE = 0" and "unat q mod PGSIZE = 0" and "p \<noteq> q"
  shows "read64 (memset p c PGSIZE m) q = read64 m q"
proof (rule read64_cong)
  fix x
  assume "x \<in> range64 q 8"
  then have "x \<in> page q" using range64_mono [of 8 PGSIZE q] by auto
  then have "x \<notin> page p" using aligned_pages_disjoint [OF assms] by blast
  then show "memset p c PGSIZE m x = m x" by (simp add: memset_outside)
qed

lemma read64_write64_other_page:
  assumes "unat p mod PGSIZE = 0" and "unat q mod PGSIZE = 0" and "p \<noteq> q"
  shows "read64 (write64 p v m) q = read64 m q"
proof (rule read64_write64_disjoint)
  show "range64 q 8 \<inter> range64 p 8 = {}"
    using aligned_pages_disjoint [OF assms] range64_mono [of 8 PGSIZE q] range64_mono [of 8 PGSIZE p]
    by auto
qed

section \<open>The free list\<close>

fun fl :: "memory \<Rightarrow> uint64 \<Rightarrow> uint64 list \<Rightarrow> bool" where
  "fl m h [] \<longleftrightarrow> h = 0"
| "fl m h (p # ps) \<longleftrightarrow> h = p \<and> p \<noteq> 0 \<and> fl m (read64 m p) ps"

lemma fl_cong: "(\<And>p. p \<in> set ps \<Longrightarrow> read64 m p = read64 m' p) \<Longrightarrow> fl m h ps = fl m' h ps"
  by (induction ps arbitrary: h) auto

definition kmem_inv :: "'z kmem_scheme \<Rightarrow> uint64 list \<Rightarrow> bool" where
  "kmem_inv s ps \<longleftrightarrow> 0 < kend s \<and> fl (mem s) (freelist s) ps \<and> distinct ps
     \<and> (\<forall>p \<in> set ps. page_ok (kend s) p)"

definition kmem_ready :: "'z kmem_scheme \<Rightarrow> bool" where
  "kmem_ready s \<longleftrightarrow> settled s \<and> lock_free KmemLock s"

lemma and_not_mask_eq: "(a :: uint64) AND NOT (mask n) = push_bit n (drop_bit n a)"
  by (rule bit_word_eqI) (auto simp: bit_simps)

lemma unat_and_not_mask: "unat ((a :: uint64) AND NOT (mask n)) = unat a div 2 ^ n * 2 ^ n"
proof -
  have "unat a div 2 ^ n * 2 ^ n \<le> unat a" by simp
  then have "unat a div 2 ^ n * 2 ^ n < 2 ^ 64"
    using unat_lt64 [of a] by (rule le_less_trans)
  moreover have "unat (push_bit n (drop_bit n a)) = take_bit 64 (unat a div 2 ^ n * 2 ^ n)"
    unfolding unsigned_push_bit_eq unat_drop_bit_eq by (simp add: push_bit_eq_mult drop_bit_eq_div)
  ultimately show ?thesis by (simp add: and_not_mask_eq take_bit_nat_eq_self)
qed

lemma unat_PGROUNDDOWN: "unat (PGROUNDDOWN a) = unat a div PGSIZE * PGSIZE"
  using unat_and_not_mask [of a 12] by (simp add: PGROUNDDOWN_def mask_eq_exp_minus_1)

lemma unat_PGROUNDUP:
  assumes "unat a + 4095 < 2 ^ 64"
  shows "unat (PGROUNDUP a) = (unat a + 4095) div PGSIZE * PGSIZE"
proof -
  have "a + 4096 - 1 = a + of_nat 4095" by simp
  moreover have "unat (a + of_nat 4095) = unat a + 4095"
    using assms by (rule unat_add_of_nat)
  ultimately show ?thesis
    using unat_and_not_mask [of "a + 4096 - 1" 12]
    by (simp add: PGROUNDUP_def mask_eq_exp_minus_1 add.commute)
qed

lemma PGROUNDUP_aligned: "unat a + 4095 < 2 ^ 64 \<Longrightarrow> unat (PGROUNDUP a) mod PGSIZE = 0"
  by (simp add: unat_PGROUNDUP)

lemma kalloc_empty [kernel_simps]: "kmem_ready s \<Longrightarrow> freelist s = 0 \<Longrightarrow> kalloc s = Ok (0, s)"
  by (simp add: kalloc_def kmem_ready_def kernel_simps)

lemma kalloc_nonempty [kernel_simps]:
  "kmem_ready s \<Longrightarrow> freelist s \<noteq> 0 \<Longrightarrow>
   kalloc s = Ok (freelist s, s\<lparr>mem := memset (freelist s) 5 PGSIZE (mem s),
                               freelist := read64 (mem s) (freelist s)\<rparr>)"
  by (simp add: kalloc_def kmem_ready_def kernel_simps Let_def)

lemma kfree_ok [kernel_simps]:
  "kmem_ready s \<Longrightarrow> page_ok (kend s) pa \<Longrightarrow>
   kfree pa s = Ok (s\<lparr>mem := write64 pa (freelist s) (memset pa 1 PGSIZE (mem s)), freelist := pa\<rparr>)"
  by (simp add: kfree_def page_ok_def kmem_ready_def kernel_simps not_less not_le Let_def)

lemma kfree_bad_page: "\<not> page_ok (kend s) pa \<Longrightarrow> kfree pa s = Panic ''kfree''"
  by (auto simp: kfree_def page_ok_def not_less not_le)

lemma kmem_ready_upd [simp]:
  "kmem_ready (s\<lparr>mem := m\<rparr>) = kmem_ready s" "kmem_ready (s\<lparr>freelist := p\<rparr>) = kmem_ready s"
  by (simp_all add: kmem_ready_def)

lemma kmem_inv_alloc:
  assumes inv: "kmem_inv s (p # ps)"
  shows "freelist s = p" and "p \<noteq> 0"
    and "kmem_inv (s\<lparr>mem := memset p c PGSIZE (mem s), freelist := read64 (mem s) p\<rparr>) ps"
proof -
  show "freelist s = p" "p \<noteq> 0" using inv by (simp_all add: kmem_inv_def)
  have "read64 (memset p c PGSIZE (mem s)) q = read64 (mem s) q" if "q \<in> set ps" for q
    using inv that by (intro read64_memset_other) (auto simp: kmem_inv_def page_ok_def)
  then have "fl (memset p c PGSIZE (mem s)) h ps = fl (mem s) h ps" for h
    by (intro fl_cong) auto
  with inv show "kmem_inv (s\<lparr>mem := memset p c PGSIZE (mem s), freelist := read64 (mem s) p\<rparr>) ps"
    by (simp add: kmem_inv_def)
qed

lemma kmem_inv_free:
  assumes inv: "kmem_inv s ps" and "page_ok (kend s) p" and "p \<notin> set ps"
  shows "kmem_inv (s\<lparr>mem := write64 p (freelist s) (memset p c PGSIZE (mem s)), freelist := p\<rparr>) (p # ps)"
proof -
  have "read64 (write64 p (freelist s) (memset p c PGSIZE (mem s))) q = read64 (mem s) q" if "q \<in> set ps" for q
    using assms that
    by (subst read64_write64_other_page, auto simp: kmem_inv_def page_ok_def intro!: read64_memset_other)
  then have "fl (write64 p (freelist s) (memset p c PGSIZE (mem s))) h ps = fl (mem s) h ps" for h
    by (intro fl_cong) auto
  moreover have "p \<noteq> 0" using assms by (auto simp: kmem_inv_def page_ok_def)
  ultimately show ?thesis using assms by (simp add: kmem_inv_def)
qed

text \<open>
  C27. \<open>kalloc\<close> hands out exactly the pages of the free list: on an allocator whose list in memory
  holds the pages \<open>ps\<close>, it returns 0 and changes nothing when there is none, and otherwise returns
  the first one, filled with the byte 5, and leaves the others; the page returned is page-aligned,
  within \<open>[end, PHYSTOP)\<close> and not on the list any more. All locks are released.
\<close>

theorem kalloc_correct:
  assumes "kmem_ready s" and "kmem_inv s ps"
  shows "case ps of
      [] \<Rightarrow> kalloc s = Ok (0, s)
    | p # qs \<Rightarrow> \<exists>s'. kalloc s = Ok (p, s') \<and> kmem_inv s' qs \<and> kmem_ready s' \<and> p \<notin> set qs
        \<and> page_ok (kend s) p \<and> p \<noteq> 0 \<and> read_bytes (mem s') p PGSIZE = replicate PGSIZE 5
        \<and> (\<forall>x. x \<notin> page p \<longrightarrow> mem s' x = mem s x)"
proof (cases ps)
  case Nil
  with assms show ?thesis by (simp add: kalloc_empty kmem_inv_def)
next
  case (Cons p qs)
  let ?s' = "s\<lparr>mem := memset p 5 PGSIZE (mem s), freelist := read64 (mem s) p\<rparr>"
  note inv = kmem_inv_alloc [OF assms(2) [unfolded Cons]]
  have "kalloc s = Ok (p, ?s')"
    using assms(1) inv(1,2) by (simp add: kalloc_nonempty)
  moreover have "read_bytes (mem ?s') p PGSIZE = replicate PGSIZE 5"
    by (simp add: memset_eq read_write_bytes_same)
  moreover have "\<forall>x. x \<notin> page p \<longrightarrow> mem ?s' x = mem s x"
    by (simp add: memset_outside)
  ultimately show ?thesis
    using assms inv(2,3) by (simp add: Cons kmem_inv_def) 
qed

text \<open>
  C28. \<open>kfree\<close> of a page that is not free puts it in front of the list and keeps the allocator's
  invariant, so that the next \<open>kalloc\<close> returns it; a pointer that is not page-aligned or lies outside
  \<open>[end, PHYSTOP)\<close> ends in \<open>panic("kfree")\<close>.
\<close>

theorem kfree_correct:
  assumes "kmem_ready s" and "kmem_inv s ps" and "p \<notin> set ps"
  shows "if page_ok (kend s) p
    then \<exists>s'. kfree p s = Ok s' \<and> kmem_inv s' (p # ps) \<and> kmem_ready s'
      \<and> (\<exists>s''. kalloc s' = Ok (p, s'') \<and> kmem_inv s'' ps)
    else kfree p s = Panic ''kfree''"
proof (cases "page_ok (kend s) p")
  case True
  let ?s' = "s\<lparr>mem := write64 p (freelist s) (memset p 1 PGSIZE (mem s)), freelist := p\<rparr>"
  have "kfree p s = Ok ?s'" using True assms by (simp add: kfree_ok)
  moreover have inv: "kmem_inv ?s' (p # ps)" using kmem_inv_free assms True by blast
  moreover have ready: "kmem_ready ?s'" using assms by simp
  moreover have "\<exists>s''. kalloc ?s' = Ok (p, s'') \<and> kmem_inv s'' ps"
    using kalloc_nonempty [OF ready] kmem_inv_alloc(2) [OF inv] kmem_inv_alloc(3) [OF inv, of 5] by auto
  ultimately show ?thesis using True by auto
next
  case False
  then show ?thesis by (simp add: kfree_bad_page)
qed


section \<open>Filling the free list at boot\<close>

definition page_seq :: "uint64 \<Rightarrow> nat \<Rightarrow> uint64 list" where
  "page_seq p n = map (\<lambda>i. p + of_nat (PGSIZE * i)) [0..<n]"

lemma page_seq_Suc: "page_seq p (Suc n) = p # page_seq (p + of_nat PGSIZE) n"
proof -
  have "page_seq p (Suc n) = map (\<lambda>i. p + of_nat (PGSIZE * i)) (0 # map Suc [0..<n])"
    by (simp add: page_seq_def upt_conv_Cons map_Suc_upt del: upt_Suc)
  then show ?thesis by (simp add: page_seq_def comp_def add.assoc)
qed

lemma freerange_loop_ok:
  assumes "kmem_ready s" and "kmem_inv s ps" and "unat p mod PGSIZE = 0" and "kend s \<le> p"
    and "pa_end \<le> PHYSTOP" and "unat p + PGSIZE * n \<le> unat pa_end" and "unat pa_end < unat p + PGSIZE * Suc n"
    and "\<forall>q \<in> set ps. q < p"
  shows "\<exists>s'. freerange_loop p pa_end s = Ok s' \<and> kmem_ready s'
    \<and> kmem_inv s' (rev (page_seq p n) @ ps) \<and> kend s' = kend s"
  using assms
proof (induction n arbitrary: p s ps)
  case 0
  have "unat (p + of_nat PGSIZE) = unat p + PGSIZE"
    using "0.prems" by (intro unat_add_of_nat) (simp add: PHYSTOP_def KERNBASE_def word_le_nat_alt)
  then have "\<not> p + of_nat PGSIZE \<le> pa_end" using "0.prems" by (simp add: word_le_nat_alt)
  with "0.prems" show ?case by (simp add: freerange_loop.simps [of p] page_seq_def)
next
  case (Suc n)
  let ?s = "s\<lparr>mem := write64 p (freelist s) (memset p 1 PGSIZE (mem s)), freelist := p\<rparr>"
  let ?p = "p + of_nat PGSIZE"
  have p': "unat ?p = unat p + PGSIZE"
    using Suc.prems by (intro unat_add_of_nat) (simp add: PHYSTOP_def KERNBASE_def word_le_nat_alt)
  have ok: "page_ok (kend s) p"
    using Suc.prems by (simp add: page_ok_def word_less_nat_alt word_le_nat_alt)
  have "p \<notin> set ps" using Suc.prems(8) by auto
  then have inv: "kmem_inv ?s (p # ps)" using Suc.prems ok kmem_inv_free by blast
  have "\<exists>s'. freerange_loop ?p pa_end ?s = Ok s' \<and> kmem_ready s'
    \<and> kmem_inv s' (rev (page_seq ?p n) @ p # ps) \<and> kend s' = kend ?s"
  proof (rule Suc.IH)
    show "kmem_ready ?s" using Suc.prems by simp
    show "kmem_inv ?s (p # ps)" by (rule inv)
    show "unat ?p mod PGSIZE = 0" using Suc.prems(3) by (simp only: p' mod_add_self2)
    show "kend ?s \<le> ?p" "pa_end \<le> PHYSTOP" using Suc.prems(4,5) p' by (simp_all add: word_le_nat_alt)
    show "unat ?p + PGSIZE * n \<le> unat pa_end" "unat pa_end < unat ?p + PGSIZE * Suc n"
      unfolding p' using Suc.prems(6,7) by simp_all
    show "\<forall>q \<in> set (p # ps). q < ?p" using Suc.prems(8) p' by (auto simp: word_less_nat_alt)
  qed
  moreover have "p + of_nat PGSIZE \<le> pa_end" using Suc.prems(6) p' by (simp add: word_le_nat_alt)
  ultimately show ?case
    using Suc.prems(1) ok by (simp add: freerange_loop.simps [of p] page_seq_Suc kfree_ok)
qed

lemma set_page_seq:
  assumes "unat p mod PGSIZE = 0" and "unat p + PGSIZE * n = unat e"
  shows "set (page_seq p n) = {q. unat q mod PGSIZE = 0 \<and> p \<le> q \<and> q < e}"
proof (intro equalityI subsetI)
  fix q
  assume "q \<in> set (page_seq p n)"
  then obtain i where "i < n" and q: "q = p + of_nat (PGSIZE * i)" by (auto simp: page_seq_def)
  have "unat q = unat p + PGSIZE * i"
    unfolding q using \<open>i < n\<close> assms(2) unat_lt64 [of e] by (intro unat_add_of_nat) simp
  with assms \<open>i < n\<close> show "q \<in> {q. unat q mod PGSIZE = 0 \<and> p \<le> q \<and> q < e}"
    by (simp add: word_le_nat_alt word_less_nat_alt mod_add_right_eq [symmetric, of _ "4096 * i"])
next
  fix q
  assume "q \<in> {q. unat q mod PGSIZE = 0 \<and> p \<le> q \<and> q < e}"
  then have q: "unat q mod PGSIZE = 0" "unat p \<le> unat q" "unat q < unat e"
    by (auto simp: word_le_nat_alt word_less_nat_alt)
  have "PGSIZE dvd unat q - unat p"
    using q(1,2) assms(1) by (intro dvd_diff_nat) (simp_all add: mod_eq_0_iff_dvd)
  then obtain i where i: "unat q - unat p = PGSIZE * i" by blast
  then have "unat q = unat p + PGSIZE * i" using q(2) by simp
  then have "i < n" using q(3) assms(2) by simp
  moreover have "q = p + of_nat (PGSIZE * i)"
    using \<open>unat q = unat p + PGSIZE * i\<close> unat_add_of_nat [of p "PGSIZE * i"] unat_lt64 [of q]
    by (simp add: word_unat_eq_iff)
  ultimately show "q \<in> set (page_seq p n)" by (auto simp: page_seq_def)
qed

lemma round_up_le_iff: "(a + 4095) div PGSIZE * PGSIZE \<le> PGSIZE * k \<longleftrightarrow> a \<le> PGSIZE * k" for a :: nat
proof -
  have "(a + 4095) div PGSIZE * PGSIZE \<le> PGSIZE * k \<longleftrightarrow> (a + 4095) div PGSIZE < Suc k"
    by (simp add: mult.commute less_Suc_eq_le)
  also have "\<dots> \<longleftrightarrow> a + 4095 < Suc k * PGSIZE" by (simp add: div_less_iff_less_mult)
  finally show ?thesis by auto
qed

lemma initlock_kmem [simp]:
  "freelist (initlock l n s) = freelist s" "kend (initlock l n s) = kend s" "mem (initlock l n s) = mem s"
  "settled (initlock l n s) = settled s" "lock_free l (initlock l n s)"
  by (simp_all add: initlock_def settled_def lock_free_def mach_defs)

text \<open>
  C29. At boot \<open>kinit\<close> puts every usable page on the free list, once: starting from an empty list it
  returns without a panic and the list holds exactly the page-aligned addresses of
  \<open>[end, PHYSTOP)\<close>.
\<close>

theorem kinit_frees_all:
  assumes "settled s" and "freelist s = 0" and "0 < kend s" and "kend s \<le> PHYSTOP"
  shows "\<exists>s' ps. kinit s = Ok s' \<and> kmem_inv s' ps \<and> kmem_ready s' \<and> kend s' = kend s
    \<and> set ps = {p. page_ok (kend s) p}"
proof -
  let ?s = "initlock KmemLock ''kmem'' s" and ?p = "PGROUNDUP (kend s)"
  have stop: "unat PHYSTOP = PGSIZE * 557056" by (simp add: PHYSTOP_def KERNBASE_def)
  have le: "unat (kend s) \<le> unat PHYSTOP" using assms(4) by (simp add: word_le_nat_alt)
  have p: "unat ?p = (unat (kend s) + 4095) div PGSIZE * PGSIZE"
    using le stop by (intro unat_PGROUNDUP) simp
  have p_le: "(unat (kend s) + 4095) div PGSIZE \<le> 557056" using le stop by linarith
  define n where "n = 557056 - (unat (kend s) + 4095) div PGSIZE"
  have n: "unat ?p + PGSIZE * n = unat PHYSTOP"
    using p_le unfolding n_def p stop by (simp add: algebra_simps)
  have ge: "unat (kend s) \<le> unat ?p" unfolding p by linarith
  have "\<exists>s'. freerange_loop ?p PHYSTOP ?s = Ok s' \<and> kmem_ready s'
      \<and> kmem_inv s' (rev (page_seq ?p n) @ []) \<and> kend s' = kend ?s"
  proof (rule freerange_loop_ok)
    show "kmem_ready ?s" using assms(1) by (simp add: kmem_ready_def)
    show "kmem_inv ?s []" using assms by (simp add: kmem_inv_def)
    show "unat ?p mod PGSIZE = 0" by (simp add: p)
    show "kend ?s \<le> ?p" using ge by (simp add: word_le_nat_alt)
  qed (use n in simp_all)
  moreover have "set (rev (page_seq ?p n) @ []) = {q. page_ok (kend s) q}"
  proof -
    have "?p \<le> q \<longleftrightarrow> kend s \<le> q" if "unat q mod PGSIZE = 0" for q
    proof -
      have "PGSIZE dvd unat q" using that by (rule mod_0_imp_dvd)
      then obtain k where "unat q = PGSIZE * k" by (rule dvdE)
      then show ?thesis unfolding word_le_nat_alt p by (simp only: round_up_le_iff)
    qed
    then show ?thesis
      using set_page_seq [OF _ n] by (auto simp: p page_ok_def)
  qed
  ultimately show ?thesis
    unfolding kinit_def freerange_def by (metis initlock_kmem(2))
qed

definition boot_kmem :: kmem where
  "boot_kmem = \<lparr>tp = 0, sie = (\<lambda>_. False),
     cpus = (\<lambda>_. \<lparr>c_proc = None, noff = 0, intena = False\<rparr>),
     locks = (\<lambda>_. \<lparr>locked = False, lk_name = [], lk_cpu = None\<rparr>),
     mem = (\<lambda>_. 0), freelist = 0, kend = 0x80021d40\<rparr>"

lemma boot_kmem_ready:
  "settled boot_kmem" "kmem_ready boot_kmem" "freelist boot_kmem = 0" "kend boot_kmem = 0x80021d40"
  by (simp_all add: boot_kmem_def settled_def kmem_ready_def lock_free_def mach_defs)

theorem kinit_frees_all_witness:
  "\<exists>s' ps. kinit boot_kmem = Ok s' \<and> kmem_inv s' ps \<and> set ps = {p. page_ok 0x80021d40 p}"
  using kinit_frees_all [of boot_kmem] boot_kmem_ready
  by (auto simp: PHYSTOP_def KERNBASE_def)

lemma boot_one_page:
  "kmem_inv (boot_kmem\<lparr>freelist := 0x87fff000\<rparr>) [0x87fff000]" "page_ok 0x80021d40 0x87fff000"
  by (simp_all add: boot_kmem_def kmem_inv_def page_ok_def PHYSTOP_def KERNBASE_def read64_def read_bytes_def
      of_le_def upt_rec)

theorem kalloc_correct_witness:
  "\<exists>s'. kalloc (boot_kmem\<lparr>freelist := 0x87fff000\<rparr>) = Ok (0x87fff000, s') \<and> kmem_inv s' []"
  using kalloc_correct [OF _ boot_one_page(1)] boot_kmem_ready by auto

theorem kfree_correct_witness:
  "(\<exists>s'. kfree 0x87fff000 boot_kmem = Ok s' \<and> kmem_inv s' [0x87fff000])
   \<and> kfree 0x87fff008 boot_kmem = Panic ''kfree''"
proof -
  have "kmem_inv boot_kmem []" by (simp add: boot_kmem_def kmem_inv_def)
  with kfree_correct [of boot_kmem "[]" "0x87fff000"] kfree_correct [of boot_kmem "[]" "0x87fff008"]
  show ?thesis using boot_kmem_ready boot_one_page(2) by (auto simp: page_ok_def)
qed

end
