(* ===== verification/Vm.thy ===== *)
theory Vm
  imports Kalloc
begin

text \<open>
  Sv39 page tables and user memory (\<^verbatim>\<open>kernel/vm.c\<close>, with the page-table macros of
  \<^verbatim>\<open>kernel/riscv.h\<close> and \<^verbatim>\<open>kernel/memlayout.h\<close>). Page tables live in the byte memory of the
  machine, as the hardware reads them. A buffer of the kernel's C code that is not a page (a local
  array, a cached disk block) is a list of bytes here: \<open>copyout\<close> takes the bytes of its source,
  \<open>copyin\<close> and \<open>copyinstr\<close> return what they stored in their destination.
\<close>

section \<open>Page-table entries and addresses\<close>

type_synonym pte_t = uint64

definition PTE_V :: pte_t where "PTE_V = push_bit 0 1"
definition PTE_R :: pte_t where "PTE_R = push_bit 1 1"
definition PTE_W :: pte_t where "PTE_W = push_bit 2 1"
definition PTE_X :: pte_t where "PTE_X = push_bit 3 1"
definition PTE_U :: pte_t where "PTE_U = push_bit 4 1"

definition PA2PTE :: "uint64 \<Rightarrow> pte_t" where "PA2PTE pa = push_bit 10 (drop_bit 12 pa)"
definition PTE2PA :: "pte_t \<Rightarrow> uint64" where "PTE2PA pte = push_bit 12 (drop_bit 10 pte)"
definition PTE_FLAGS :: "pte_t \<Rightarrow> uint64" where "PTE_FLAGS pte = pte AND 0x3FF"

definition PXSHIFT :: "nat \<Rightarrow> nat" where "PXSHIFT level = 12 + 9 * level"
definition PX :: "nat \<Rightarrow> uint64 \<Rightarrow> uint64" where "PX level va = drop_bit (PXSHIFT level) va AND 0x1FF"

definition MAXVA :: uint64 where "MAXVA = push_bit (9 + 9 + 9 + 12 - 1) 1"
definition TRAMPOLINE :: uint64 where "TRAMPOLINE = MAXVA - 4096"
definition TRAPFRAME :: uint64 where "TRAPFRAME = TRAMPOLINE - 4096"
definition KSTACK :: "nat \<Rightarrow> uint64" where "KSTACK p = TRAMPOLINE - (of_nat p + 1) * 2 * 4096"

text \<open>A test \<open>pte & flag\<close> of the C code.\<close>

abbreviation flag :: "pte_t \<Rightarrow> pte_t \<Rightarrow> bool" where
  "flag pte f \<equiv> pte AND f \<noteq> 0"

section \<open>Walking and mapping\<close>

text \<open>
  \<open>walk\<close> returns the address of a PTE, or 0. Its loop runs from level 2 down to level 1.
\<close>

fun walk_loop :: "nat \<Rightarrow> uint64 \<Rightarrow> uint64 \<Rightarrow> bool \<Rightarrow> 'z kmem_scheme \<Rightarrow> (uint64 \<times> 'z kmem_scheme) res" where
  "walk_loop 0 pagetable va alloc s = Ok (pagetable + 8 * PX 0 va, s)"
| "walk_loop (Suc l) pagetable va alloc s =
     (let pte = pagetable + 8 * PX (Suc l) va in
      if flag (read64 (mem s) pte) PTE_V
      then walk_loop l (PTE2PA (read64 (mem s) pte)) va alloc s
      else if \<not> alloc then Ok (0, s)
      else andthen (kalloc s) (\<lambda>(p, s1).
           if p = 0 then Ok (0, s1)
           else walk_loop l p va alloc
                  (s1\<lparr>mem := write64 pte (PA2PTE p OR PTE_V) (memset p 0 PGSIZE (mem s1))\<rparr>)))"

definition walk :: "uint64 \<Rightarrow> uint64 \<Rightarrow> bool \<Rightarrow> 'z kmem_scheme \<Rightarrow> (uint64 \<times> 'z kmem_scheme) res" where
  "walk pagetable va alloc s =
     (if va \<ge> MAXVA then Panic ''walk'' else walk_loop 2 pagetable va alloc s)"

lemma walk_Ok_bound: "walk pagetable va alloc s = Ok x \<Longrightarrow> va < MAXVA"
  by (simp add: walk_def split: if_splits)

definition walkaddr :: "uint64 \<Rightarrow> uint64 \<Rightarrow> 'z kmem_scheme \<Rightarrow> (uint64 \<times> 'z kmem_scheme) res" where
  "walkaddr pagetable va s =
     (if va \<ge> MAXVA then Ok (0, s)
      else andthen (walk pagetable va False s) (\<lambda>(pte, s1).
        if pte = 0 then Ok (0, s1)
        else if \<not> flag (read64 (mem s1) pte) PTE_V then Ok (0, s1)
        else if \<not> flag (read64 (mem s1) pte) PTE_U then Ok (0, s1)
        else Ok (PTE2PA (read64 (mem s1) pte), s1)))"

text \<open>
  The loops over pages end because \<open>walk\<close> panics at \<open>MAXVA\<close>: the address grows by a page in each
  round and a round only returns below \<open>MAXVA\<close>.
\<close>

lemma next_page_closer:
  assumes "a < MAXVA"
  shows "unat MAXVA - unat (a + of_nat PGSIZE) < unat MAXVA - unat a"
proof -
  have M: "unat MAXVA = 2 ^ 38" by (simp add: MAXVA_def)
  then have "unat a < 2 ^ 38" using assms by (simp add: word_less_nat_alt)
  moreover from this have "unat (a + of_nat PGSIZE) = unat a + PGSIZE"
    by (intro unat_add_of_nat) simp
  ultimately show ?thesis by (simp add: M)
qed

function mappages_loop ::
  "uint64 \<Rightarrow> uint64 \<Rightarrow> uint64 \<Rightarrow> uint64 \<Rightarrow> uint64 \<Rightarrow> 'z kmem_scheme \<Rightarrow> (int \<times> 'z kmem_scheme) res" where
  "mappages_loop pagetable a a_end pa perm s =
     andthen (walk pagetable a True s) (\<lambda>(pte, s1).
     if pte = 0 then Ok (-1, s1)
     else if flag (read64 (mem s1) pte) PTE_V then Panic ''mappages: remap''
     else let s2 = s1\<lparr>mem := write64 pte (PA2PTE pa OR perm OR PTE_V) (mem s1)\<rparr> in
          if a = a_end then Ok (0, s2)
          else mappages_loop pagetable (a + of_nat PGSIZE) a_end (pa + of_nat PGSIZE) perm s2)"
  by pat_completeness auto
termination
  by (relation "measure (\<lambda>(pagetable, a, a_end, pa, perm, s). unat MAXVA - unat a)")
    (auto dest!: walk_Ok_bound intro: next_page_closer [simplified])

declare mappages_loop.simps [simp del]

definition mappages ::
  "uint64 \<Rightarrow> uint64 \<Rightarrow> uint64 \<Rightarrow> uint64 \<Rightarrow> uint64 \<Rightarrow> 'z kmem_scheme \<Rightarrow> (int \<times> 'z kmem_scheme) res" where
  "mappages pagetable va sz pa perm s =
     (if unat va mod PGSIZE \<noteq> 0 then Panic ''mappages: va not aligned''
      else if unat sz mod PGSIZE \<noteq> 0 then Panic ''mappages: size not aligned''
      else if sz = 0 then Panic ''mappages: size''
      else mappages_loop pagetable va (va + sz - of_nat PGSIZE) pa perm s)"

definition kvmmap ::
  "uint64 \<Rightarrow> uint64 \<Rightarrow> uint64 \<Rightarrow> uint64 \<Rightarrow> uint64 \<Rightarrow> 'z kmem_scheme \<Rightarrow> 'z kmem_scheme res" where
  "kvmmap kpgtbl va pa sz perm s =
     andthen (mappages kpgtbl va sz pa perm s) (\<lambda>(r, s1).
     if r \<noteq> 0 then Panic ''kvmmap'' else Ok s1)"

function uvmunmap_loop ::
  "uint64 \<Rightarrow> uint64 \<Rightarrow> uint64 \<Rightarrow> bool \<Rightarrow> 'z kmem_scheme \<Rightarrow> 'z kmem_scheme res" where
  "uvmunmap_loop pagetable a a_end do_free s =
     (if a < a_end
      then andthen (walk pagetable a False s) (\<lambda>(pte, s1).
        if pte = 0 then Panic ''uvmunmap: walk''
        else if \<not> flag (read64 (mem s1) pte) PTE_V then Panic ''uvmunmap: not mapped''
        else if PTE_FLAGS (read64 (mem s1) pte) = PTE_V then Panic ''uvmunmap: not a leaf''
        else andthen (if do_free then kfree (PTE2PA (read64 (mem s1) pte)) s1 else Ok s1) (\<lambda>s2.
          uvmunmap_loop pagetable (a + of_nat PGSIZE) a_end do_free (s2\<lparr>mem := write64 pte 0 (mem s2)\<rparr>)))
      else Ok s)"
  by pat_completeness auto
termination
  by (relation "measure (\<lambda>(pagetable, a, a_end, do_free, s). unat MAXVA - unat a)")
    (auto dest!: walk_Ok_bound intro: next_page_closer [simplified])

declare uvmunmap_loop.simps [simp del]

definition uvmunmap :: "uint64 \<Rightarrow> uint64 \<Rightarrow> uint64 \<Rightarrow> bool \<Rightarrow> 'z kmem_scheme \<Rightarrow> 'z kmem_scheme res" where
  "uvmunmap pagetable va npages do_free s =
     (if unat va mod PGSIZE \<noteq> 0 then Panic ''uvmunmap: not aligned''
      else uvmunmap_loop pagetable va (va + npages * of_nat PGSIZE) do_free s)"

section \<open>User address spaces\<close>

definition uvmcreate :: "'z kmem_scheme \<Rightarrow> (uint64 \<times> 'z kmem_scheme) res" where
  "uvmcreate s =
     andthen (kalloc s) (\<lambda>(pagetable, s1).
     if pagetable = 0 then Ok (0, s1)
     else Ok (pagetable, s1\<lparr>mem := memset pagetable 0 PGSIZE (mem s1)\<rparr>))"

text \<open>
  The first process's code is an array of the kernel; \<open>kalloc\<close>'s result is used unchecked, as in
  the source, so an empty free list makes the code write to address 0.
\<close>

definition uvmfirst :: "uint64 \<Rightarrow> byte list \<Rightarrow> 'z kmem_scheme \<Rightarrow> 'z kmem_scheme res" where
  "uvmfirst pagetable src s =
     (if length src \<ge> PGSIZE then Panic ''uvmfirst: more than a page''
      else andthen (kalloc s) (\<lambda>(pg, s1).
        let s2 = s1\<lparr>mem := memset pg 0 PGSIZE (mem s1)\<rparr> in
        andthen (mappages pagetable 0 (of_nat PGSIZE) pg (PTE_W OR PTE_R OR PTE_X OR PTE_U) s2) (\<lambda>(r, s3).
        Ok (s3\<lparr>mem := write_bytes pg src (mem s3)\<rparr>))))"

definition uvmdealloc ::
  "uint64 \<Rightarrow> uint64 \<Rightarrow> uint64 \<Rightarrow> 'z kmem_scheme \<Rightarrow> (uint64 \<times> 'z kmem_scheme) res" where
  "uvmdealloc pagetable oldsz newsz s =
     (if newsz \<ge> oldsz then Ok (oldsz, s)
      else if PGROUNDUP newsz < PGROUNDUP oldsz
      then let npages = scast (ucast ((PGROUNDUP oldsz - PGROUNDUP newsz) div of_nat PGSIZE) :: uint) in
           andthen (uvmunmap pagetable (PGROUNDUP newsz) npages True s) (\<lambda>s1. Ok (newsz, s1))
      else Ok (newsz, s))"

lemma mappages_Ok_bound: "mappages pagetable va sz pa perm s = Ok x \<Longrightarrow> va < MAXVA"
  by (auto simp: mappages_def mappages_loop.simps dest!: walk_Ok_bound split: if_splits)

function uvmalloc_loop ::
  "uint64 \<Rightarrow> uint64 \<Rightarrow> uint64 \<Rightarrow> uint64 \<Rightarrow> uint64 \<Rightarrow> 'z kmem_scheme \<Rightarrow> (uint64 \<times> 'z kmem_scheme) res" where
  "uvmalloc_loop pagetable a oldsz newsz xperm s =
     (if a < newsz
      then andthen (kalloc s) (\<lambda>(pg, s1).
        if pg = 0
        then andthen (uvmdealloc pagetable a oldsz s1) (\<lambda>(_, s2). Ok (0, s2))
        else let s2 = s1\<lparr>mem := memset pg 0 PGSIZE (mem s1)\<rparr> in
          andthen (mappages pagetable a (of_nat PGSIZE) pg (PTE_R OR PTE_U OR xperm) s2) (\<lambda>(r, s3).
          if r \<noteq> 0
          then andthen (kfree pg s3) (\<lambda>s4.
               andthen (uvmdealloc pagetable a oldsz s4) (\<lambda>(_, s5). Ok (0, s5)))
          else uvmalloc_loop pagetable (a + of_nat PGSIZE) oldsz newsz xperm s3))
      else Ok (newsz, s))"
  by pat_completeness auto
termination
  by (relation "measure (\<lambda>(pagetable, a, oldsz, newsz, xperm, s). unat MAXVA - unat a)")
    (auto dest!: mappages_Ok_bound intro: next_page_closer [simplified])

declare uvmalloc_loop.simps [simp del]

definition uvmalloc ::
  "uint64 \<Rightarrow> uint64 \<Rightarrow> uint64 \<Rightarrow> uint64 \<Rightarrow> 'z kmem_scheme \<Rightarrow> (uint64 \<times> 'z kmem_scheme) res" where
  "uvmalloc pagetable oldsz newsz xperm s =
     (if newsz < oldsz then Ok (oldsz, s)
      else uvmalloc_loop pagetable (PGROUNDUP oldsz) (PGROUNDUP oldsz) newsz xperm s)"

text \<open>
  \<open>freewalk\<close> recurses into the page-table pages. Its first argument bounds the depth of the
  recursion: a table of the Sv39 scheme has three levels, so three is enough for the tables the
  kernel builds, and a deeper (cyclic) structure never returns.
\<close>

fun freewalk :: "nat \<Rightarrow> uint64 \<Rightarrow> 'z kmem_scheme \<Rightarrow> 'z kmem_scheme res" where
  "freewalk 0 pagetable s = Wait"
| "freewalk (Suc d) pagetable s =
     andthen (for_each [0..<512] (\<lambda>i s.
        let pte = read64 (mem s) (pagetable + 8 * of_nat i) in
        if flag pte PTE_V \<and> pte AND (PTE_R OR PTE_W OR PTE_X) = 0
        then andthen (freewalk d (PTE2PA pte) s) (\<lambda>s1.
             Ok (s1\<lparr>mem := write64 (pagetable + 8 * of_nat i) 0 (mem s1)\<rparr>))
        else if flag pte PTE_V then Panic ''freewalk: leaf''
        else Ok s) s)
     (kfree pagetable)"

definition uvmfree :: "uint64 \<Rightarrow> uint64 \<Rightarrow> 'z kmem_scheme \<Rightarrow> 'z kmem_scheme res" where
  "uvmfree pagetable sz s =
     andthen (if sz > 0 then uvmunmap pagetable 0 (PGROUNDUP sz div of_nat PGSIZE) True s else Ok s)
     (freewalk 3 pagetable)"

function uvmcopy_loop ::
  "uint64 \<Rightarrow> uint64 \<Rightarrow> uint64 \<Rightarrow> uint64 \<Rightarrow> 'z kmem_scheme \<Rightarrow> (int \<times> 'z kmem_scheme) res" where
  "uvmcopy_loop old new i sz s =
     (if i < sz
      then andthen (walk old i False s) (\<lambda>(pte, s1).
        if pte = 0 then Panic ''uvmcopy: pte should exist''
        else if \<not> flag (read64 (mem s1) pte) PTE_V then Panic ''uvmcopy: page not present''
        else let pa = PTE2PA (read64 (mem s1) pte); flags = PTE_FLAGS (read64 (mem s1) pte);
                 err = (\<lambda>s. andthen (uvmunmap new 0 (i div of_nat PGSIZE) True s) (\<lambda>s1. Ok (-1, s1))) in
          andthen (kalloc s1) (\<lambda>(pg, s2).
          if pg = 0 then err s2
          else let s3 = s2\<lparr>mem := memmove pg pa PGSIZE (mem s2)\<rparr> in
            andthen (mappages new i (of_nat PGSIZE) pg flags s3) (\<lambda>(r, s4).
            if r \<noteq> 0 then andthen (kfree pg s4) err
            else uvmcopy_loop old new (i + of_nat PGSIZE) sz s4)))
      else Ok (0, s))"
  by pat_completeness auto
termination
  by (relation "measure (\<lambda>(old, new, i, sz, s). unat MAXVA - unat i)")
    (auto dest!: walk_Ok_bound intro: next_page_closer [simplified])

declare uvmcopy_loop.simps [simp del]

definition uvmcopy :: "uint64 \<Rightarrow> uint64 \<Rightarrow> uint64 \<Rightarrow> 'z kmem_scheme \<Rightarrow> (int \<times> 'z kmem_scheme) res" where
  "uvmcopy old new sz s = uvmcopy_loop old new 0 sz s"

definition uvmclear :: "uint64 \<Rightarrow> uint64 \<Rightarrow> 'z kmem_scheme \<Rightarrow> 'z kmem_scheme res" where
  "uvmclear pagetable va s =
     andthen (walk pagetable va False s) (\<lambda>(pte, s1).
     if pte = 0 then Panic ''uvmclear''
     else Ok (s1\<lparr>mem := write64 pte (read64 (mem s1) pte AND NOT PTE_U) (mem s1)\<rparr>))"

section \<open>Copying between the kernel and user space\<close>

lemma page_offset: "unat (va - PGROUNDDOWN va) = unat va mod PGSIZE"
proof -
  have "PGROUNDDOWN va \<le> va" by (simp add: word_le_nat_alt unat_PGROUNDDOWN)
  then have "unat (va - PGROUNDDOWN va) = unat va - unat va div PGSIZE * PGSIZE"
    by (simp add: unat_sub unat_PGROUNDDOWN)
  then show ?thesis by (simp add: minus_div_mult_eq_mod)
qed

text \<open>The number of bytes up to the end of the page: \<open>n = PGSIZE - (va - va0); if (n > len) n = len\<close>.\<close>

definition chunk :: "uint64 \<Rightarrow> nat \<Rightarrow> nat" where
  "chunk va len = min (PGSIZE - unat (va - PGROUNDDOWN va)) len"

lemma chunk_pos: "0 < len \<Longrightarrow> 0 < chunk va len"
  by (simp add: chunk_def page_offset)

lemma chunk_le: "chunk va len \<le> len"
  by (simp add: chunk_def)

function copyout :: "uint64 \<Rightarrow> uint64 \<Rightarrow> byte list \<Rightarrow> 'z kmem_scheme \<Rightarrow> (int \<times> 'z kmem_scheme) res" where
  "copyout pagetable dstva src s =
     (if src \<noteq> []
      then let va0 = PGROUNDDOWN dstva in
        if va0 \<ge> MAXVA then Ok (-1, s)
        else andthen (walk pagetable va0 False s) (\<lambda>(pte, s1).
          if pte = 0 \<or> \<not> flag (read64 (mem s1) pte) PTE_V \<or> \<not> flag (read64 (mem s1) pte) PTE_U
             \<or> \<not> flag (read64 (mem s1) pte) PTE_W
          then Ok (-1, s1)
          else let pa0 = PTE2PA (read64 (mem s1) pte); n = chunk dstva (length src) in
            copyout pagetable (va0 + of_nat PGSIZE) (drop n src)
              (s1\<lparr>mem := write_bytes (pa0 + (dstva - va0)) (take n src) (mem s1)\<rparr>))
      else Ok (0, s))"
  by pat_completeness auto
termination
  by (relation "measure (\<lambda>(pagetable, dstva, src, s). length src)") (auto simp: chunk_pos)

declare copyout.simps [simp del]

function copyin :: "uint64 \<Rightarrow> uint64 \<Rightarrow> nat \<Rightarrow> 'z kmem_scheme \<Rightarrow> (int \<times> byte list \<times> 'z kmem_scheme) res" where
  "copyin pagetable srcva len s =
     (if len > 0
      then let va0 = PGROUNDDOWN srcva in
        andthen (walkaddr pagetable va0 s) (\<lambda>(pa0, s1).
        if pa0 = 0 then Ok (-1, [], s1)
        else let n = chunk srcva len; bs = read_bytes (mem s1) (pa0 + (srcva - va0)) n in
          andthen (copyin pagetable (va0 + of_nat PGSIZE) (len - n) s1) (\<lambda>(r, rest, s2).
          Ok (r, bs @ rest, s2)))
      else Ok (0, [], s))"
  by pat_completeness auto
termination
  by (relation "measure (\<lambda>(pagetable, srcva, len, s). len)") (auto simp: chunk_pos)

declare copyin.simps [simp del]

text \<open>
  The inner loop of \<open>copyinstr\<close>: the bytes it stores from \<open>p\<close> on, at most \<open>n\<close> of them, and
  whether the last one is the NUL.
\<close>

fun copystr :: "memory \<Rightarrow> uint64 \<Rightarrow> nat \<Rightarrow> byte list \<times> bool" where
  "copystr m p 0 = ([], False)"
| "copystr m p (Suc n) =
     (if m p = 0 then ([0], True)
      else let (bs, got) = copystr m (p + 1) n in (m p # bs, got))"

function copyinstr :: "uint64 \<Rightarrow> uint64 \<Rightarrow> nat \<Rightarrow> 'z kmem_scheme \<Rightarrow> (int \<times> byte list \<times> 'z kmem_scheme) res" where
  "copyinstr pagetable srcva maxlen s =
     (if maxlen > 0
      then let va0 = PGROUNDDOWN srcva in
        andthen (walkaddr pagetable va0 s) (\<lambda>(pa0, s1).
        if pa0 = 0 then Ok (-1, [], s1)
        else let n = chunk srcva maxlen; (bs, got_null) = copystr (mem s1) (pa0 + (srcva - va0)) n in
          if got_null then Ok (0, bs, s1)
          else andthen (copyinstr pagetable (va0 + of_nat PGSIZE) (maxlen - n) s1) (\<lambda>(r, rest, s2).
               Ok (r, bs @ rest, s2)))
      else Ok (-1, [], s))"
  by pat_completeness auto
termination
  by (relation "measure (\<lambda>(pagetable, srcva, maxlen, s). maxlen)") (auto simp: chunk_pos)

declare copyinstr.simps [simp del]

section \<open>The kernel's page table\<close>

definition NPROC :: nat where "NPROC = 64"
definition UART0 :: uint64 where "UART0 = 0x10000000"
definition VIRTIO0 :: uint64 where "VIRTIO0 = 0x10001000"
definition PLIC :: uint64 where "PLIC = 0x0c000000"

definition proc_mapstacks :: "uint64 \<Rightarrow> 'z kmem_scheme \<Rightarrow> 'z kmem_scheme res" where
  "proc_mapstacks kpgtbl s =
     for_each [0..<NPROC] (\<lambda>p s.
       andthen (kalloc s) (\<lambda>(pa, s1).
       if pa = 0 then Panic ''kalloc''
       else kvmmap kpgtbl (KSTACK p) pa (of_nat PGSIZE) (PTE_R OR PTE_W) s1)) s"

text \<open>\<open>etext\<close> and \<open>trampoline\<close> are addresses the linker assigns.\<close>

definition kvmmake :: "uint64 \<Rightarrow> uint64 \<Rightarrow> 'z kmem_scheme \<Rightarrow> (uint64 \<times> 'z kmem_scheme) res" where
  "kvmmake etext trampoline s =
     andthen (kalloc s) (\<lambda>(kpgtbl, s1).
     andthen (kvmmap kpgtbl UART0 UART0 (of_nat PGSIZE) (PTE_R OR PTE_W)
                (s1\<lparr>mem := memset kpgtbl 0 PGSIZE (mem s1)\<rparr>)) (\<lambda>s2.
     andthen (kvmmap kpgtbl VIRTIO0 VIRTIO0 (of_nat PGSIZE) (PTE_R OR PTE_W) s2) (\<lambda>s3.
     andthen (kvmmap kpgtbl PLIC PLIC 0x4000000 (PTE_R OR PTE_W) s3) (\<lambda>s4.
     andthen (kvmmap kpgtbl KERNBASE KERNBASE (etext - KERNBASE) (PTE_R OR PTE_X) s4) (\<lambda>s5.
     andthen (kvmmap kpgtbl etext etext (PHYSTOP - etext) (PTE_R OR PTE_W) s5) (\<lambda>s6.
     andthen (kvmmap kpgtbl TRAMPOLINE trampoline (of_nat PGSIZE) (PTE_R OR PTE_X) s6) (\<lambda>s7.
     andthen (proc_mapstacks kpgtbl s7) (\<lambda>s8.
     Ok (kpgtbl, s8)))))))))"

end
