(* ===== verification/Proc.thy ===== *)
theory Proc
  imports Vm
begin

text \<open>
  The process table and the scheduler (\<^verbatim>\<open>kernel/proc.c\<close>, \<^verbatim>\<open>kernel/proc.h\<close>), up to the operations
  that need the file system (\<open>fork\<close>, \<open>exit\<close>, \<open>userinit\<close>, \<open>forkret\<close>). A kernel thread that gives up the CPU
  does so in \<open>sched\<close>, which is split at the call of \<open>swtch\<close>: what the thread does before it leaves
  the CPU, and what it does after the scheduler has switched back to it.
\<close>

section \<open>State\<close>

datatype procstate = UNUSED | USED | SLEEPING | RUNNABLE | RUNNING | ZOMBIE

text \<open>A sleep channel is an address; the kernel sleeps on the addresses of these objects.\<close>

datatype chan =
    SleepLkChan sleepid | LogChan | TicksChan | PipeRead uint64 | PipeWrite uint64
  | ProcChan nat | ConsChan | UartChan | DiskFreeChan | BufChan nat

text \<open>The saved registers of a kernel thread; \<open>swtch\<close> saves \<open>s0\<close> to \<open>s11\<close> too.\<close>

record kcontext =
  ctx_ra :: uint64
  ctx_sp :: uint64
  ctx_s :: "uint64 list"

record proc =
  pstate :: procstate
  chan :: "chan option"
  pkilled :: bool
  xstate :: int
  pid :: int
  parent :: "nat option"
  kstack :: uint64
  psz :: uint64
  pagetable :: uint64
  trapframe :: uint64
  pcontext :: kcontext
  ofile :: "nat option list"
  cwd :: "nat option"
  pname :: "byte list"

text \<open>
  \<open>trampoline_addr\<close> and \<open>forkret_addr\<close> are addresses of code (\<^verbatim>\<open>trampoline.S\<close>, \<open>forkret\<close>).
\<close>

record ptable = kmem +
  procs :: "nat \<Rightarrow> proc"
  nextpid :: int
  initproc :: "nat option"
  trampoline_addr :: uint64
  forkret_addr :: uint64

definition set_proc :: "nat \<Rightarrow> (proc \<Rightarrow> proc) \<Rightarrow> 'z ptable_scheme \<Rightarrow> 'z ptable_scheme" where
  "set_proc i f s = s\<lparr>procs := (procs s)(i := f (procs s i))\<rparr>"

text \<open>
  The current process. Code that dereferences the null pointer \<open>myproc()\<close> takes a page fault in
  kernel mode, which \<open>kerneltrap\<close> turns into a panic.
\<close>

definition with_proc :: "'z ptable_scheme \<Rightarrow> (nat \<Rightarrow> 'z ptable_scheme \<Rightarrow> 'b res) \<Rightarrow> 'b res" where
  "with_proc s f = andthen (myproc s) (\<lambda>(p, s1).
     case p of None \<Rightarrow> Panic ''kerneltrap'' | Some i \<Rightarrow> f i s1)"

section \<open>Creating and freeing processes\<close>

definition procinit :: "'z ptable_scheme \<Rightarrow> 'z ptable_scheme res" where
  "procinit s =
     for_each [0..<NPROC] (\<lambda>p s.
       Ok (set_proc p (\<lambda>r. r\<lparr>pstate := UNUSED, kstack := KSTACK p\<rparr>) (initlock (ProcLock p) ''proc'' s)))
     (initlock WaitLock ''wait_lock'' (initlock PidLock ''nextpid'' s))"

definition allocpid :: "'z ptable_scheme \<Rightarrow> (int \<times> 'z ptable_scheme) res" where
  "allocpid s =
     andthen (acquire PidLock s) (\<lambda>s1.
     let p = nextpid s1 in
     andthen (release PidLock (s1\<lparr>nextpid := nextpid s1 + 1\<rparr>)) (\<lambda>s2. Ok (p, s2)))"

definition proc_pagetable :: "nat \<Rightarrow> 'z ptable_scheme \<Rightarrow> (uint64 \<times> 'z ptable_scheme) res" where
  "proc_pagetable p s =
     andthen (uvmcreate s) (\<lambda>(pt, s1).
     if pt = 0 then Ok (0, s1)
     else andthen (mappages pt TRAMPOLINE (of_nat PGSIZE) (trampoline_addr s1) (PTE_R OR PTE_X) s1) (\<lambda>(r, s2).
       if r < 0 then andthen (uvmfree pt 0 s2) (\<lambda>s3. Ok (0, s3))
       else andthen (mappages pt TRAPFRAME (of_nat PGSIZE) (trapframe (procs s2 p)) (PTE_R OR PTE_W) s2) (\<lambda>(r, s3).
         if r < 0
         then andthen (uvmunmap pt TRAMPOLINE 1 False s3) (\<lambda>s4.
              andthen (uvmfree pt 0 s4) (\<lambda>s5. Ok (0, s5)))
         else Ok (pt, s3))))"

definition proc_freepagetable :: "uint64 \<Rightarrow> uint64 \<Rightarrow> 'z ptable_scheme \<Rightarrow> 'z ptable_scheme res" where
  "proc_freepagetable pt sz s =
     andthen (uvmunmap pt TRAMPOLINE 1 False s) (\<lambda>s1.
     andthen (uvmunmap pt TRAPFRAME 1 False s1) (uvmfree pt sz))"

definition freeproc :: "nat \<Rightarrow> 'z ptable_scheme \<Rightarrow> 'z ptable_scheme res" where
  "freeproc p s =
     andthen (if trapframe (procs s p) \<noteq> 0 then kfree (trapframe (procs s p)) s else Ok s) (\<lambda>s1.
     let s2 = set_proc p (\<lambda>r. r\<lparr>trapframe := 0\<rparr>) s1 in
     andthen (if pagetable (procs s2 p) \<noteq> 0
              then proc_freepagetable (pagetable (procs s2 p)) (psz (procs s2 p)) s2 else Ok s2) (\<lambda>s3.
     Ok (set_proc p (\<lambda>r. r\<lparr>pagetable := 0, psz := 0, pid := 0, parent := None,
           pname := (pname r)[0 := 0], chan := None, pkilled := False, xstate := 0, pstate := UNUSED\<rparr>) s3)))"

text \<open>\<open>allocproc\<close> first looks for an unused slot; the slot it finds stays locked.\<close>

fun allocproc_scan :: "nat list \<Rightarrow> 'z ptable_scheme \<Rightarrow> (nat option \<times> 'z ptable_scheme) res" where
  "allocproc_scan [] s = Ok (None, s)"
| "allocproc_scan (p # ps) s =
     andthen (acquire (ProcLock p) s) (\<lambda>s1.
     if pstate (procs s1 p) = UNUSED then Ok (Some p, s1)
     else andthen (release (ProcLock p) s1) (allocproc_scan ps))"

definition allocproc :: "'z ptable_scheme \<Rightarrow> (nat option \<times> 'z ptable_scheme) res" where
  "allocproc s =
     andthen (allocproc_scan [0..<NPROC] s) (\<lambda>(found, s1).
     case found of
       None \<Rightarrow> Ok (None, s1)
     | Some p \<Rightarrow>
         let fail = (\<lambda>s. andthen (freeproc p s) (\<lambda>s'. andthen (release (ProcLock p) s') (\<lambda>s''. Ok (None, s'')))) in
         andthen (allocpid s1) (\<lambda>(n, s2).
         andthen (kalloc (set_proc p (\<lambda>r. r\<lparr>pid := n, pstate := USED\<rparr>) s2)) (\<lambda>(tf, s3).
         let s4 = set_proc p (\<lambda>r. r\<lparr>trapframe := tf\<rparr>) s3 in
         if tf = 0 then fail s4
         else andthen (proc_pagetable p s4) (\<lambda>(pt, s5).
           let s6 = set_proc p (\<lambda>r. r\<lparr>pagetable := pt\<rparr>) s5 in
           if pt = 0 then fail s6
           else Ok (Some p, set_proc p (\<lambda>r. r\<lparr>pcontext :=
                  \<lparr>ctx_ra = forkret_addr s6, ctx_sp = kstack r + of_nat PGSIZE, ctx_s = replicate 12 0\<rparr>\<rparr>) s6)))))"

definition growproc :: "int \<Rightarrow> 'z ptable_scheme \<Rightarrow> (int \<times> 'z ptable_scheme) res" where
  "growproc n s =
     with_proc s (\<lambda>p s1.
     let sz = psz (procs s1 p); pt = pagetable (procs s1 p) in
     if n > 0
     then andthen (uvmalloc pt sz (sz + of_int n) PTE_W s1) (\<lambda>(sz', s2).
          if sz' = 0 then Ok (-1, s2) else Ok (0, set_proc p (\<lambda>r. r\<lparr>psz := sz'\<rparr>) s2))
     else if n < 0
     then andthen (uvmdealloc pt sz (sz + of_int n) s1) (\<lambda>(sz', s2).
          Ok (0, set_proc p (\<lambda>r. r\<lparr>psz := sz'\<rparr>) s2))
     else Ok (0, s1))"

section \<open>Sleeping and waking up\<close>

text \<open>
  \<open>sched\<close> up to \<open>swtch\<close>: the checks, and the value of \<open>intena\<close> it keeps on its stack; and from \<open>swtch\<close> on.
\<close>

definition sched_enter :: "'z ptable_scheme \<Rightarrow> (bool \<times> 'z ptable_scheme) res" where
  "sched_enter s =
     with_proc s (\<lambda>p s1.
     if \<not> holding (ProcLock p) s1 then Panic ''sched p->lock''
     else if noff (mycpu s1) \<noteq> 1 then Panic ''sched locks''
     else if pstate (procs s1 p) = RUNNING then Panic ''sched running''
     else if intr_get s1 then Panic ''sched interruptible''
     else Ok (intena (mycpu s1), s1))"

definition sched_exit :: "bool \<Rightarrow> 'z ptable_scheme \<Rightarrow> 'z ptable_scheme" where
  "sched_exit ena s = set_mycpu ((mycpu s)\<lparr>intena := ena\<rparr>) s"

definition yield_enter :: "'z ptable_scheme \<Rightarrow> (bool \<times> 'z ptable_scheme) res" where
  "yield_enter s =
     with_proc s (\<lambda>p s1.
     andthen (acquire (ProcLock p) s1) (\<lambda>s2.
     sched_enter (set_proc p (\<lambda>r. r\<lparr>pstate := RUNNABLE\<rparr>) s2)))"

definition yield_exit :: "nat \<Rightarrow> bool \<Rightarrow> 'z ptable_scheme \<Rightarrow> 'z ptable_scheme res" where
  "yield_exit p ena s = release (ProcLock p) (sched_exit ena s)"

definition sleep_enter :: "chan \<Rightarrow> lockid \<Rightarrow> 'z ptable_scheme \<Rightarrow> (bool \<times> 'z ptable_scheme) res" where
  "sleep_enter ch lk s =
     with_proc s (\<lambda>p s1.
     andthen (acquire (ProcLock p) s1) (\<lambda>s2.
     andthen (release lk s2) (\<lambda>s3.
     sched_enter (set_proc p (\<lambda>r. r\<lparr>chan := Some ch, pstate := SLEEPING\<rparr>) s3))))"

definition sleep_exit :: "nat \<Rightarrow> bool \<Rightarrow> lockid \<Rightarrow> 'z ptable_scheme \<Rightarrow> 'z ptable_scheme res" where
  "sleep_exit p ena lk s =
     andthen (release (ProcLock p) (set_proc p (\<lambda>r. r\<lparr>chan := None\<rparr>) (sched_exit ena s))) (acquire lk)"

text \<open>
  For the caller of \<open>sleep\<close>: unless a check of \<open>sched\<close> fails, it does not return before another
  thread has run.
\<close>

definition sleep :: "chan \<Rightarrow> lockid \<Rightarrow> 'z ptable_scheme \<Rightarrow> 'b res" where
  "sleep ch lk s = andthen (sleep_enter ch lk s) (\<lambda>_. Wait)"

definition wakeup :: "chan option \<Rightarrow> 'z ptable_scheme \<Rightarrow> 'z ptable_scheme res" where
  "wakeup ch s =
     for_each [0..<NPROC] (\<lambda>p s.
       andthen (myproc s) (\<lambda>(me, s1).
       if Some p \<noteq> me
       then andthen (acquire (ProcLock p) s1) (\<lambda>s2.
            release (ProcLock p)
              (if pstate (procs s2 p) = SLEEPING \<and> chan (procs s2 p) = ch
               then set_proc p (\<lambda>r. r\<lparr>pstate := RUNNABLE\<rparr>) s2 else s2))
       else Ok s1)) s"

fun kill_loop :: "nat list \<Rightarrow> int \<Rightarrow> 'z ptable_scheme \<Rightarrow> (int \<times> 'z ptable_scheme) res" where
  "kill_loop [] n s = Ok (-1, s)"
| "kill_loop (p # ps) n s =
     andthen (acquire (ProcLock p) s) (\<lambda>s1.
     if pid (procs s1 p) = n
     then let s2 = set_proc p (\<lambda>r. r\<lparr>pkilled := True\<rparr>) s1;
              s3 = (if pstate (procs s2 p) = SLEEPING then set_proc p (\<lambda>r. r\<lparr>pstate := RUNNABLE\<rparr>) s2 else s2) in
          andthen (release (ProcLock p) s3) (\<lambda>s4. Ok (0, s4))
     else andthen (release (ProcLock p) s1) (kill_loop ps n))"

definition kill :: "int \<Rightarrow> 'z ptable_scheme \<Rightarrow> (int \<times> 'z ptable_scheme) res" where
  "kill n s = kill_loop [0..<NPROC] n s"

definition setkilled :: "nat \<Rightarrow> 'z ptable_scheme \<Rightarrow> 'z ptable_scheme res" where
  "setkilled p s =
     andthen (acquire (ProcLock p) s) (\<lambda>s1.
     release (ProcLock p) (set_proc p (\<lambda>r. r\<lparr>pkilled := True\<rparr>) s1))"

definition killed :: "nat \<Rightarrow> 'z ptable_scheme \<Rightarrow> (bool \<times> 'z ptable_scheme) res" where
  "killed p s =
     andthen (acquire (ProcLock p) s) (\<lambda>s1.
     let k = pkilled (procs s1 p) in
     andthen (release (ProcLock p) s1) (\<lambda>s2. Ok (k, s2)))"

definition reparent :: "nat \<Rightarrow> 'z ptable_scheme \<Rightarrow> 'z ptable_scheme res" where
  "reparent p s =
     for_each [0..<NPROC] (\<lambda>pp s.
       if parent (procs s pp) = Some p
       then let s1 = set_proc pp (\<lambda>r. r\<lparr>parent := initproc s\<rparr>) s in
            wakeup (map_option ProcChan (initproc s1)) s1
       else Ok s) s"

section \<open>Waiting for children, copying, scheduling\<close>

text \<open>
  One scan of \<open>wait\<close> over the table, with \<open>wait_lock\<close> held: it returns the result of the system
  call, or whether there are children at all.
\<close>

datatype wait_scan = Reaped int | NoZombie bool

fun wait_loop :: "nat \<Rightarrow> uint64 \<Rightarrow> nat list \<Rightarrow> bool \<Rightarrow> 'z ptable_scheme \<Rightarrow> (wait_scan \<times> 'z ptable_scheme) res" where
  "wait_loop p addr [] havekids s = Ok (NoZombie havekids, s)"
| "wait_loop p addr (pp # pps) havekids s =
     (if parent (procs s pp) = Some p
      then andthen (acquire (ProcLock pp) s) (\<lambda>s1.
        if pstate (procs s1 pp) = ZOMBIE
        then let n = pid (procs s1 pp) in
          andthen (if addr \<noteq> 0
                   then copyout (pagetable (procs s1 p)) addr (le_bytes 4 (of_int (xstate (procs s1 pp)) :: uint)) s1
                   else Ok (0, s1)) (\<lambda>(r, s2).
          if addr \<noteq> 0 \<and> r < 0
          then andthen (release (ProcLock pp) s2) (\<lambda>s3.
               andthen (release WaitLock s3) (\<lambda>s4. Ok (Reaped (-1), s4)))
          else andthen (freeproc pp s2) (\<lambda>s3.
               andthen (release (ProcLock pp) s3) (\<lambda>s4.
               andthen (release WaitLock s4) (\<lambda>s5. Ok (Reaped n, s5)))))
        else andthen (release (ProcLock pp) s1) (wait_loop p addr pps True))
      else wait_loop p addr pps havekids s)"

definition wait :: "uint64 \<Rightarrow> 'z ptable_scheme \<Rightarrow> (int \<times> 'z ptable_scheme) res" where
  "wait addr s =
     with_proc s (\<lambda>p s1.
     andthen (acquire WaitLock s1) (\<lambda>s2.
     andthen (wait_loop p addr [0..<NPROC] False s2) (\<lambda>(r, s3).
     case r of
       Reaped n \<Rightarrow> Ok (n, s3)
     | NoZombie havekids \<Rightarrow>
         andthen (if havekids then killed p s3 else Ok (False, s3)) (\<lambda>(k, s4).
         if \<not> havekids \<or> k then andthen (release WaitLock s4) (\<lambda>s5. Ok (-1, s5))
         else sleep (ProcChan p) WaitLock s4))))"

text \<open>
  Where a copy goes to or comes from: a user address of the current process, an address of the
  kernel's memory, or a variable of the calling C function, which here is a value.
\<close>

datatype dest = UserDst uint64 | KernDst uint64 | LocalDst
datatype source = UserSrc uint64 | KernSrc uint64 | LocalSrc "byte list"

definition either_copyout :: "dest \<Rightarrow> byte list \<Rightarrow> 'z ptable_scheme \<Rightarrow> (int \<times> 'z ptable_scheme) res" where
  "either_copyout dst src s =
     andthen (myproc s) (\<lambda>(p, s1).
     case dst of
       UserDst a \<Rightarrow> (case p of None \<Rightarrow> Panic ''kerneltrap'' | Some i \<Rightarrow> copyout (pagetable (procs s1 i)) a src s1)
     | KernDst a \<Rightarrow> Ok (0, s1\<lparr>mem := write_bytes a src (mem s1)\<rparr>)
     | LocalDst \<Rightarrow> Ok (0, s1))"

definition either_copyin :: "source \<Rightarrow> nat \<Rightarrow> 'z ptable_scheme \<Rightarrow> (int \<times> byte list \<times> 'z ptable_scheme) res" where
  "either_copyin src len s =
     andthen (myproc s) (\<lambda>(p, s1).
     case src of
       UserSrc a \<Rightarrow> (case p of None \<Rightarrow> Panic ''kerneltrap'' | Some i \<Rightarrow> copyin (pagetable (procs s1 i)) a len s1)
     | KernSrc a \<Rightarrow> Ok (0, read_bytes (mem s1) a len, s1)
     | LocalSrc bs \<Rightarrow> Ok (0, take len bs, s1))"

text \<open>
  One look of \<open>scheduler\<close> at a process, up to \<open>swtch\<close>, and from \<open>swtch\<close> on. The result tells whether
  the CPU switches to the process.
\<close>

definition scheduler_enter :: "nat \<Rightarrow> 'z ptable_scheme \<Rightarrow> (bool \<times> 'z ptable_scheme) res" where
  "scheduler_enter p s =
     andthen (acquire (ProcLock p) s) (\<lambda>s1.
     if pstate (procs s1 p) = RUNNABLE
     then let s2 = set_proc p (\<lambda>r. r\<lparr>pstate := RUNNING\<rparr>) s1 in
          Ok (True, set_mycpu ((mycpu s2)\<lparr>c_proc := Some p\<rparr>) s2)
     else andthen (release (ProcLock p) s1) (\<lambda>s2. Ok (False, s2)))"

definition scheduler_exit :: "nat \<Rightarrow> 'z ptable_scheme \<Rightarrow> 'z ptable_scheme res" where
  "scheduler_exit p s = release (ProcLock p) (set_mycpu ((mycpu s)\<lparr>c_proc := None\<rparr>) s)"

section \<open>Frame rules\<close>

lemma hold_ptable [simp]:
  "procs (hold l s) = procs s" "nextpid (hold l s) = nextpid s" "initproc (hold l s) = initproc s"
  "trampoline_addr (hold l s) = trampoline_addr s" "forkret_addr (hold l s) = forkret_addr s"
  "(hold l s)\<lparr>procs := ps\<rparr> = hold l (s\<lparr>procs := ps\<rparr>)"
  "(hold l s)\<lparr>nextpid := n\<rparr> = hold l (s\<lparr>nextpid := n\<rparr>)"
  "set_proc p f (hold l s) = hold l (set_proc p f s)"
  by (simp_all add: hold_def set_proc_def)

lemma settled_ptable [simp]:
  "settled (s\<lparr>procs := ps\<rparr>) = settled s" "settled (s\<lparr>nextpid := n\<rparr>) = settled s"
  "lock_free l (s\<lparr>procs := ps\<rparr>) = lock_free l s" "lock_free l (s\<lparr>nextpid := n\<rparr>) = lock_free l s"
  "settled (set_proc p f s) = settled s" "lock_free l (set_proc p f s) = lock_free l s"
  "mycpu (s\<lparr>procs := ps\<rparr>) = mycpu s" "mycpu (set_proc p f s) = mycpu s"
  by (simp_all add: settled_def lock_free_def mycpu_def intr_get_def cpuid_def set_proc_def)

abbreviation cur :: "'z mach_scheme \<Rightarrow> nat option" where
  "cur s \<equiv> c_proc (mycpu s)"

definition procs_free :: "'z ptable_scheme \<Rightarrow> bool" where
  "procs_free s \<longleftrightarrow> settled s \<and> (\<forall>p < NPROC. lock_free (ProcLock p) s)"

section \<open>Waking up\<close>

definition wake1 :: "chan option \<Rightarrow> nat option \<Rightarrow> nat \<Rightarrow> proc \<Rightarrow> proc" where
  "wake1 ch me p r = (if Some p \<noteq> me \<and> pstate r = SLEEPING \<and> chan r = ch then r\<lparr>pstate := RUNNABLE\<rparr> else r)"

definition woken :: "chan option \<Rightarrow> nat option \<Rightarrow> (nat \<Rightarrow> proc) \<Rightarrow> nat \<Rightarrow> proc" where
  "woken ch me ps p = (if p < NPROC then wake1 ch me p (ps p) else ps p)"

lemma wakeup_loop:
  assumes "settled s" and "\<forall>p \<in> set ps. lock_free (ProcLock p) s" and "distinct ps"
  shows "for_each ps (\<lambda>p s.
       andthen (myproc s) (\<lambda>(me, s1).
       if Some p \<noteq> me
       then andthen (acquire (ProcLock p) s1) (\<lambda>s2.
            release (ProcLock p)
              (if pstate (procs s2 p) = SLEEPING \<and> chan (procs s2 p) = ch
               then set_proc p (\<lambda>r. r\<lparr>pstate := RUNNABLE\<rparr>) s2 else s2))
       else Ok s1)) s
     = Ok (s\<lparr>procs := \<lambda>p. if p \<in> set ps then wake1 ch (cur s) p (procs s p) else procs s p\<rparr>)"
  using assms
proof (induction ps arbitrary: s)
  case (Cons p ps)
  let ?s = "set_proc p (wake1 ch (cur s) p) s"
  have step: "andthen (myproc s) (\<lambda>(me, s1).
       if Some p \<noteq> me
       then andthen (acquire (ProcLock p) s1) (\<lambda>s2.
            release (ProcLock p)
              (if pstate (procs s2 p) = SLEEPING \<and> chan (procs s2 p) = ch
               then set_proc p (\<lambda>r. r\<lparr>pstate := RUNNABLE\<rparr>) s2 else s2))
       else Ok s1) = Ok ?s"
    using Cons.prems by (auto simp: kernel_simps wake1_def set_proc_def)
  have "?s\<lparr>procs := \<lambda>q. if q \<in> set ps then wake1 ch (cur s) q (procs ?s q) else procs ?s q\<rparr>
      = s\<lparr>procs := \<lambda>q. if q \<in> set (p # ps) then wake1 ch (cur s) q (procs s q) else procs s q\<rparr>"
    using Cons.prems(3) by (auto simp: set_proc_def fun_eq_iff)
  moreover have "cur ?s = cur s" by simp
  ultimately show ?case
    using Cons.IH [of ?s] Cons.prems by (simp only: for_each.simps step andthen.simps) simp
qed simp

lemma wakeup_ok [kernel_simps]:
  assumes "settled s" and "\<And>p. p < NPROC \<Longrightarrow> lock_free (ProcLock p) s"
  shows "wakeup ch s = Ok (s\<lparr>procs := woken ch (cur s) (procs s)\<rparr>)"
proof -
  have "(\<lambda>p. if p \<in> set [0..<NPROC] then wake1 ch (cur s) p (procs s p) else procs s p) = woken ch (cur s) (procs s)"
    by (auto simp: woken_def fun_eq_iff)
  then show ?thesis
    unfolding wakeup_def using assms by (subst wakeup_loop) auto
qed

lemma woken_simps [simp]:
  "pid (woken ch me ps p) = pid (ps p)" "pagetable (woken ch me ps p) = pagetable (ps p)"
  "trapframe (woken ch me ps p) = trapframe (ps p)" "pkilled (woken ch me ps p) = pkilled (ps p)"
  "ofile (woken ch me ps p) = ofile (ps p)" "cwd (woken ch me ps p) = cwd (ps p)"
  "chan (woken ch me ps p) = chan (ps p)" "parent (woken ch me ps p) = parent (ps p)"
  "psz (woken ch me ps p) = psz (ps p)" "pname (woken ch me ps p) = pname (ps p)"
  "xstate (woken ch me ps p) = xstate (ps p)"
  by (simp_all add: woken_def wake1_def)

lemma woken_cur [simp]: "me = Some p \<Longrightarrow> woken ch me ps p = ps p"
  by (simp add: woken_def wake1_def)

end
