(* ===== verification/Sleeplock.thy ===== *)
theory Sleeplock
  imports Proc
begin

text \<open>
  Sleep locks (\<^verbatim>\<open>kernel/sleeplock.c\<close>): long-term locks that belong to a process. The holder's
  \<open>pid\<close> is recorded, and \<open>releasesleep\<close> makes the processes that wait for the lock runnable.
\<close>

record sleeplock =
  slocked :: bool
  slk_name :: string
  slk_pid :: int

text \<open>The spin lock \<open>lk->lk\<close> of a sleep lock \<open>i\<close> is \<open>SleepLk i\<close>.\<close>

record slk = ptable +
  slocks :: "sleepid \<Rightarrow> sleeplock"

definition set_slock :: "sleepid \<Rightarrow> (sleeplock \<Rightarrow> sleeplock) \<Rightarrow> 'z slk_scheme \<Rightarrow> 'z slk_scheme" where
  "set_slock i f s = s\<lparr>slocks := (slocks s)(i := f (slocks s i))\<rparr>"

definition initsleeplock :: "sleepid \<Rightarrow> string \<Rightarrow> 'z slk_scheme \<Rightarrow> 'z slk_scheme" where
  "initsleeplock i name s =
     set_slock i (\<lambda>_. \<lparr>slocked = False, slk_name = name, slk_pid = 0\<rparr>) (initlock (SleepLk i) ''sleep lock'' s)"

definition acquiresleep :: "sleepid \<Rightarrow> 'z slk_scheme \<Rightarrow> 'z slk_scheme res" where
  "acquiresleep i s =
     andthen (acquire (SleepLk i) s) (\<lambda>s1.
     if slocked (slocks s1 i) then sleep (SleepLkChan i) (SleepLk i) s1
     else with_proc (set_slock i (\<lambda>k. k\<lparr>slocked := True\<rparr>) s1) (\<lambda>p s2.
          release (SleepLk i) (set_slock i (\<lambda>k. k\<lparr>slk_pid := pid (procs s2 p)\<rparr>) s2)))"

definition releasesleep :: "sleepid \<Rightarrow> 'z slk_scheme \<Rightarrow> 'z slk_scheme res" where
  "releasesleep i s =
     andthen (acquire (SleepLk i) s) (\<lambda>s1.
     andthen (wakeup (Some (SleepLkChan i)) (set_slock i (\<lambda>k. k\<lparr>slocked := False, slk_pid := 0\<rparr>) s1))
     (release (SleepLk i)))"

definition holdingsleep :: "sleepid \<Rightarrow> 'z slk_scheme \<Rightarrow> (bool \<times> 'z slk_scheme) res" where
  "holdingsleep i s =
     andthen (acquire (SleepLk i) s) (\<lambda>s1.
     andthen (if slocked (slocks s1 i)
              then with_proc s1 (\<lambda>p s2. Ok (slk_pid (slocks s2 i) = pid (procs s2 p), s2))
              else Ok (False, s1)) (\<lambda>(r, s2).
     andthen (release (SleepLk i) s2) (\<lambda>s3. Ok (r, s3))))"

section \<open>Frame rules\<close>

lemma hold_slk [simp]:
  "slocks (hold l s) = slocks s" "(hold l s)\<lparr>slocks := k\<rparr> = hold l (s\<lparr>slocks := k\<rparr>)"
  "set_slock i f (hold l s) = hold l (set_slock i f s)"
  by (simp_all add: hold_def set_slock_def)

lemma settled_slk [simp]:
  "settled (s\<lparr>slocks := k\<rparr>) = settled s" "lock_free l (s\<lparr>slocks := k\<rparr>) = lock_free l s"
  "settled (set_slock i f s) = settled s" "lock_free l (set_slock i f s) = lock_free l s"
  "mycpu (s\<lparr>slocks := k\<rparr>) = mycpu s" "mycpu (set_slock i f s) = mycpu s"
  "procs (set_slock i f s) = procs s"
  by (simp_all add: settled_def lock_free_def mycpu_def intr_get_def cpuid_def set_slock_def)

text \<open>
  A thread is calm when it runs on behalf of process \<open>p\<close> and no spin lock is held: the state between
  two operations of the file system.
\<close>

definition calm :: "nat \<Rightarrow> 'z mach_scheme \<Rightarrow> bool" where
  "calm p s \<longleftrightarrow> settled s \<and> (\<forall>l. lock_free l s) \<and> cur s = Some p"

lemma calm_upd [simp]:
  "calm p (t\<lparr>procs := ps\<rparr>) = calm p t" "calm p (s\<lparr>slocks := k\<rparr>) = calm p s"
  "calm p (set_proc q f t) = calm p t" "calm p (set_slock i g s) = calm p s"
  "calm p (u\<lparr>mem := m\<rparr>) = calm p u" "calm p (u\<lparr>freelist := a\<rparr>) = calm p u"
  by (simp_all add: calm_def mycpu_def cpuid_def set_proc_def set_slock_def)

lemma calm_mach: "calm p s \<Longrightarrow> settled s" "calm p s \<Longrightarrow> lock_free l s" "calm p s \<Longrightarrow> cur s = Some p"
  by (simp_all add: calm_def)

lemma calm_acquire: "calm p s \<Longrightarrow> acquire l s = Ok (hold l s)"
  by (simp add: calm_def acquire_ok)

lemma calm_release: "calm p s \<Longrightarrow> release l (hold l s) = Ok s"
  by (simp add: calm_def release_ok)

lemma calm_myproc: "calm p s \<Longrightarrow> myproc s = Ok (Some p, s)"
  by (simp add: calm_def myproc_ok)

lemma calm_with_proc: "calm p s \<Longrightarrow> with_proc s f = f p s"
  by (simp add: with_proc_def calm_myproc)

lemma calm_with_proc_hold: "calm p s \<Longrightarrow> with_proc (hold l s) f = f p (hold l s)"
  by (simp add: with_proc_def calm_def myproc_ok kernel_simps)

lemma calm_wakeup_hold:
  assumes "calm p s" and "\<And>q. l \<noteq> ProcLock q"
  shows "wakeup ch (hold l s) = Ok (hold l (s\<lparr>procs := woken ch (Some p) (procs s)\<rparr>))"
  using assms by (subst wakeup_ok) (auto simp: calm_def kernel_simps)

lemma calm_wakeup: "calm p s \<Longrightarrow> wakeup ch s = Ok (s\<lparr>procs := woken ch (Some p) (procs s)\<rparr>)"
  by (subst wakeup_ok) (auto simp: calm_def)

lemmas calm_simps =
  calm_acquire calm_release calm_myproc calm_with_proc calm_with_proc_hold calm_wakeup_hold calm_wakeup

section \<open>Behaviour\<close>

definition taken :: "sleepid \<Rightarrow> nat \<Rightarrow> 'z slk_scheme \<Rightarrow> 'z slk_scheme" where
  "taken i p s = set_slock i (\<lambda>k. k\<lparr>slocked := True, slk_pid := pid (procs s p)\<rparr>) s"

definition untaken :: "sleepid \<Rightarrow> nat \<Rightarrow> 'z slk_scheme \<Rightarrow> 'z slk_scheme" where
  "untaken i p s =
     (set_slock i (\<lambda>k. k\<lparr>slocked := False, slk_pid := 0\<rparr>) s)\<lparr>procs := woken (Some (SleepLkChan i)) (Some p) (procs s)\<rparr>"

lemma acquiresleep_ok:
  "calm p s \<Longrightarrow> \<not> slocked (slocks s i) \<Longrightarrow> acquiresleep i s = Ok (taken i p s)"
  by (simp add: acquiresleep_def calm_simps taken_def) (simp add: set_slock_def)

lemma releasesleep_ok: "calm p s \<Longrightarrow> releasesleep i s = Ok (untaken i p s)"
  by (simp add: releasesleep_def calm_simps untaken_def)

lemma holdingsleep_ok:
  "calm p s \<Longrightarrow> holdingsleep i s = Ok (slocked (slocks s i) \<and> slk_pid (slocks s i) = pid (procs s p), s)"
  by (simp add: holdingsleep_def calm_simps)

lemma sleep_enter_ok:
  assumes "calm p s" "noff (mycpu s) = 0" "l \<noteq> ProcLock p"
  shows "sleep_enter ch l (hold l s) =
    Ok (intr_get s, hold (ProcLock p) (set_proc p (\<lambda>r. r\<lparr>chan := Some ch, pstate := SLEEPING\<rparr>) s))"
proof -
  let ?s = "set_proc p (\<lambda>r. r\<lparr>chan := Some ch, pstate := SLEEPING\<rparr>) s" and ?l = "ProcLock p"
  have c: "settled (hold ?l s)" "lock_free l (hold ?l s)" "settled (hold l s)" "lock_free ?l (hold l s)"
    using assms(1,3) calm_mach [OF assms(1)] by (simp_all add: kernel_simps)
  have 1: "release l (hold ?l (hold l s)) = Ok (hold ?l s)" using release_ok [OF c(1,2)] by (simp add: hold_commute)
  have 2: "sched_enter (hold ?l ?s) = Ok (intr_get s, hold ?l ?s)"
  proof -
    have c: "calm p ?s" using assms(1) by simp
    have "noff (mycpu (hold ?l ?s)) = 1" "\<not> intr_get (hold ?l ?s)" "intena (mycpu (hold ?l ?s)) = intr_get s"
      "pstate (procs (hold ?l ?s) p) = SLEEPING"
      using assms(1,2) by (auto simp: hold_def set_proc_def mycpu_def cpuid_def intr_get_def calm_def settled_def)
    then show ?thesis by (simp add: sched_enter_def calm_with_proc_hold [OF c] kernel_simps)
  qed
  have 3: "set_proc p f (hold ?l s) = hold ?l (set_proc p f s)" for f by (simp add: set_proc_def hold_def)
  show ?thesis using assms(1) c 1 2 by (simp add: sleep_enter_def calm_simps acquire_ok 3)
qed

lemma sleep_Wait: "calm p s \<Longrightarrow> noff (mycpu s) = 0 \<Longrightarrow> l \<noteq> ProcLock p \<Longrightarrow> sleep ch l (hold l s) = Wait"
  by (simp add: sleep_def sleep_enter_ok)

text \<open>\<open>wakeup\<close> on behalf of any thread, an interrupt handler included.\<close>

lemma woken_hold:
  assumes "settled s" "\<And>q. lock_free (ProcLock q) s" "\<And>q. l \<noteq> ProcLock q"
  shows "wakeup ch (hold l s) = Ok (hold l (s\<lparr>procs := woken ch (cur s) (procs s)\<rparr>))"
  using assms by (subst wakeup_ok) (auto simp: kernel_simps)

end
