(* ===== verification/Bio.thy ===== *)
theory Bio
  imports Sleeplock
begin

text \<open>
  The buffer cache (\<^verbatim>\<open>kernel/bio.c\<close>): \<open>NBUF\<close> buffers on a doubly linked list in order of use. The
  links are kept as in the C structures, the fields \<open>next\<close> and \<open>prev\<close> of the buffers and of the list
  head; the list they form is an abstraction of the proofs. The disk is an array of blocks;
  \<open>disk_rw\<close> is what the driver does for a buffer once the device has completed the request, and
  every write is recorded in order, so that a crash can be placed between any two of them.
\<close>

section \<open>State\<close>

abbreviation BSIZE :: nat where "BSIZE \<equiv> 1024"
abbreviation NBUF :: nat where "NBUF \<equiv> 30"

type_synonym block = "byte list"

datatype bptr = Head | Buf nat

record buf =
  valid :: bool
  bdisk :: bool
  bdev :: uint
  blockno :: uint
  refcnt :: int
  bdata :: block

record bcache = slk +
  bufs :: "nat \<Rightarrow> buf"
  bnext :: "bptr \<Rightarrow> bptr"
  bprev :: "bptr \<Rightarrow> bptr"
  disk :: "uint \<Rightarrow> block"
  dwrites :: "(uint \<times> block) list"

definition set_buf :: "nat \<Rightarrow> (buf \<Rightarrow> buf) \<Rightarrow> 'z bcache_scheme \<Rightarrow> 'z bcache_scheme" where
  "set_buf b f s = s\<lparr>bufs := (bufs s)(b := f (bufs s b))\<rparr>"

definition set_next :: "bptr \<Rightarrow> bptr \<Rightarrow> 'z bcache_scheme \<Rightarrow> 'z bcache_scheme" where
  "set_next a b s = s\<lparr>bnext := (bnext s)(a := b)\<rparr>"

definition set_prev :: "bptr \<Rightarrow> bptr \<Rightarrow> 'z bcache_scheme \<Rightarrow> 'z bcache_scheme" where
  "set_prev a b s = s\<lparr>bprev := (bprev s)(a := b)\<rparr>"

section \<open>The operations\<close>

text \<open>\<open>disk_rw b True\<close> writes the buffer to the disk, \<open>disk_rw b False\<close> reads it.\<close>

definition disk_rw :: "nat \<Rightarrow> bool \<Rightarrow> 'z bcache_scheme \<Rightarrow> 'z bcache_scheme" where
  "disk_rw b wr s =
     (let n = blockno (bufs s b) in
      if wr then s\<lparr>disk := (disk s)(n := bdata (bufs s b)), dwrites := dwrites s @ [(n, bdata (bufs s b))]\<rparr>
      else set_buf b (\<lambda>r. r\<lparr>bdata := disk s n\<rparr>) s)"

text \<open>The body of the loop of \<open>binit\<close>.\<close>

definition binit_buf :: "nat \<Rightarrow> 'z bcache_scheme \<Rightarrow> 'z bcache_scheme" where
  "binit_buf b s =
     (let s1 = set_next (Buf b) (bnext s Head) s;
          s2 = set_prev (Buf b) Head s1;
          s3 = initsleeplock (BufLock b) ''buffer'' s2;
          s4 = set_prev (bnext s3 Head) (Buf b) s3
      in set_next Head (Buf b) s4)"

definition binit :: "'z bcache_scheme \<Rightarrow> 'z bcache_scheme res" where
  "binit s =
     (let s1 = initlock BcacheLock ''bcache'' s;
          s2 = set_next Head Head (set_prev Head Head s1) in
      for_each [0..<NBUF] (\<lambda>b s. Ok (binit_buf b s)) s2)"

text \<open>
  The two searches of \<open>bget\<close>, along \<open>next\<close> and along \<open>prev\<close>. The first argument bounds the number of
  steps; a list that does not come back to its head never lets the search end.
\<close>

fun scan :: "nat \<Rightarrow> (bptr \<Rightarrow> bptr) \<Rightarrow> (nat \<Rightarrow> bool) \<Rightarrow> bptr \<Rightarrow> nat option res" where
  "scan k link P Head = Ok None"
| "scan 0 link P (Buf b) = Wait"
| "scan (Suc k) link P (Buf b) = (if P b then Ok (Some b) else scan k link P (link (Buf b)))"

definition bget :: "uint \<Rightarrow> uint \<Rightarrow> 'z bcache_scheme \<Rightarrow> (nat \<times> 'z bcache_scheme) res" where
  "bget dev bno s =
     andthen (acquire BcacheLock s) (\<lambda>s1.
     andthen (scan NBUF (bnext s1) (\<lambda>b. bdev (bufs s1 b) = dev \<and> blockno (bufs s1 b) = bno) (bnext s1 Head)) (\<lambda>hit.
     case hit of
       Some b \<Rightarrow>
         andthen (release BcacheLock (set_buf b (\<lambda>r. r\<lparr>refcnt := refcnt r + 1\<rparr>) s1)) (\<lambda>s2.
         andthen (acquiresleep (BufLock b) s2) (\<lambda>s3. Ok (b, s3)))
     | None \<Rightarrow>
         andthen (scan NBUF (bprev s1) (\<lambda>b. refcnt (bufs s1 b) = 0) (bprev s1 Head)) (\<lambda>lru.
         case lru of
           Some b \<Rightarrow>
             andthen (release BcacheLock
                (set_buf b (\<lambda>r. r\<lparr>bdev := dev, blockno := bno, valid := False, refcnt := 1\<rparr>) s1)) (\<lambda>s2.
             andthen (acquiresleep (BufLock b) s2) (\<lambda>s3. Ok (b, s3)))
         | None \<Rightarrow> Panic ''bget: no buffers'')))"

definition bread :: "uint \<Rightarrow> uint \<Rightarrow> 'z bcache_scheme \<Rightarrow> (nat \<times> 'z bcache_scheme) res" where
  "bread dev bno s =
     andthen (bget dev bno s) (\<lambda>(b, s1).
     if \<not> valid (bufs s1 b)
     then Ok (b, set_buf b (\<lambda>r. r\<lparr>valid := True\<rparr>) (disk_rw b False s1))
     else Ok (b, s1))"

definition bwrite :: "nat \<Rightarrow> 'z bcache_scheme \<Rightarrow> 'z bcache_scheme res" where
  "bwrite b s =
     andthen (holdingsleep (BufLock b) s) (\<lambda>(h, s1).
     if \<not> h then Panic ''bwrite'' else Ok (disk_rw b True s1))"

definition brelse :: "nat \<Rightarrow> 'z bcache_scheme \<Rightarrow> 'z bcache_scheme res" where
  "brelse b s =
     andthen (holdingsleep (BufLock b) s) (\<lambda>(h, s1).
     if \<not> h then Panic ''brelse''
     else andthen (releasesleep (BufLock b) s1) (\<lambda>s2.
       andthen (acquire BcacheLock s2) (\<lambda>s3.
       let s4 = set_buf b (\<lambda>r. r\<lparr>refcnt := refcnt r - 1\<rparr>) s3 in
       release BcacheLock
         (if refcnt (bufs s4 b) = 0
          then let s5 = set_prev (bnext s4 (Buf b)) (bprev s4 (Buf b)) s4;
                   s6 = set_next (bprev s5 (Buf b)) (bnext s5 (Buf b)) s5;
                   s7 = set_next (Buf b) (bnext s6 Head) s6;
                   s8 = set_prev (Buf b) Head s7;
                   s9 = set_prev (bnext s8 Head) (Buf b) s8
               in set_next Head (Buf b) s9
          else s4))))"

definition bpin :: "nat \<Rightarrow> 'z bcache_scheme \<Rightarrow> 'z bcache_scheme res" where
  "bpin b s =
     andthen (acquire BcacheLock s) (\<lambda>s1.
     release BcacheLock (set_buf b (\<lambda>r. r\<lparr>refcnt := refcnt r + 1\<rparr>) s1))"

definition bunpin :: "nat \<Rightarrow> 'z bcache_scheme \<Rightarrow> 'z bcache_scheme res" where
  "bunpin b s =
     andthen (acquire BcacheLock s) (\<lambda>s1.
     release BcacheLock (set_buf b (\<lambda>r. r\<lparr>refcnt := refcnt r - 1\<rparr>) s1))"

section \<open>Frame rules\<close>

lemma hold_bcache [simp]:
  "bufs (hold l s) = bufs s" "bnext (hold l s) = bnext s" "bprev (hold l s) = bprev s" "disk (hold l s) = disk s"
  "dwrites (hold l s) = dwrites s"
  "set_buf b f (hold l s) = hold l (set_buf b f s)" "set_next x y (hold l s) = hold l (set_next x y s)"
  "set_prev x y (hold l s) = hold l (set_prev x y s)"
  by (simp_all add: hold_def set_buf_def set_next_def set_prev_def)

lemma calm_bcache [simp]:
  "calm p (set_buf b f s) = calm p s" "calm p (set_next x y s) = calm p s" "calm p (set_prev x y s) = calm p s"
  "calm p (s\<lparr>disk := d\<rparr>) = calm p s" "calm p (s\<lparr>dwrites := w\<rparr>) = calm p s" "calm p (disk_rw b wr s) = calm p s"
  by (simp_all add: calm_def set_buf_def set_next_def set_prev_def settled_def lock_free_def mycpu_def intr_get_def
      cpuid_def disk_rw_def Let_def)

lemma slocks_bcache [simp]:
  "slocks (set_buf b f s) = slocks s" "slocks (set_next x y s) = slocks s" "slocks (set_prev x y s) = slocks s"
  "procs (set_buf b f s) = procs s" "procs (set_next x y s) = procs s" "procs (set_prev x y s) = procs s"
  by (simp_all add: set_buf_def set_next_def set_prev_def)

section \<open>The list of buffers\<close>

fun linked :: "('a \<Rightarrow> 'a) \<Rightarrow> ('a \<Rightarrow> 'a) \<Rightarrow> 'a list \<Rightarrow> bool" where
  "linked nx pv (a # b # l) \<longleftrightarrow> nx a = b \<and> pv b = a \<and> linked nx pv (b # l)"
| "linked nx pv l \<longleftrightarrow> True"

lemma linked_cong:
  "(\<And>a. a \<in> set (butlast l) \<Longrightarrow> nx a = nx' a) \<Longrightarrow> (\<And>a. a \<in> set (tl l) \<Longrightarrow> pv a = pv' a) \<Longrightarrow>
   linked nx pv l = linked nx' pv' l"
  by (induction nx pv l rule: linked.induct) auto

lemma linked_append: "linked nx pv (xs @ a # ys) \<longleftrightarrow> linked nx pv (xs @ [a]) \<and> linked nx pv (a # ys)"
proof (induction xs)
  case (Cons x xs)
  then show ?case by (cases xs) auto
qed simp

definition dll :: "'z bcache_scheme \<Rightarrow> nat list \<Rightarrow> bool" where
  "dll s bs \<longleftrightarrow> distinct bs \<and> linked (bnext s) (bprev s) (Head # map Buf bs @ [Head])"

lemma dll_cong: "bnext s = bnext t \<Longrightarrow> bprev s = bprev t \<Longrightarrow> dll s bs = dll t bs"
  by (simp add: dll_def)

lemma scan_next:
  "linked nx pv (x # map Buf bs @ [Head]) \<Longrightarrow> length bs \<le> k \<Longrightarrow> scan k nx P (nx x) = Ok (find P bs)"
proof (induction bs arbitrary: x k)
  case (Cons b bs)
  then obtain j where "k = Suc j" by (cases k) auto
  with Cons show ?case by auto
qed simp

lemma scan_prev:
  "linked nx pv (Head # map Buf bs @ [x]) \<Longrightarrow> length bs \<le> k \<Longrightarrow> scan k pv P (pv x) = Ok (find P (rev bs))"
proof (induction bs arbitrary: x k rule: rev_induct)
  case (snoc b bs)
  then obtain j where k: "k = Suc j" by (cases k) auto
  have "linked nx pv (Head # map Buf bs @ [Buf b])" "pv x = Buf b"
    using snoc.prems(1) linked_append [of nx pv "Head # map Buf bs" "Buf b" "[x]"] by auto
  with snoc k show ?case by auto
qed simp

lemma linked_frame:
  assumes "linked nx pv l" and "\<And>a. a \<in> set (butlast l) \<Longrightarrow> nx' a = nx a" and "\<And>a. a \<in> set (tl l) \<Longrightarrow> pv' a = pv a"
  shows "linked nx' pv' l"
  using assms linked_cong [of l nx' nx pv' pv] by blast

lemma dll_unlink:
  assumes "linked nx pv (Head # map Buf (xs @ b # ys) @ [Head])" and "distinct (xs @ b # ys)"
  shows "linked (nx(pv (Buf b) := nx (Buf b))) (pv(nx (Buf b) := pv (Buf b))) (Head # map Buf (xs @ ys) @ [Head])"
proof -
  obtain us p where us: "Head # map Buf xs = us @ [p]" by (cases "Head # map Buf xs" rule: rev_cases) auto
  obtain n vs where vs: "map Buf ys @ [Head] = n # vs" by (cases "map Buf ys @ [Head]") auto
  let ?nx = "nx(p := n)" and ?pv = "pv(n := p)"
  have list: "Head # map Buf (xs @ b # ys) @ [Head] = us @ p # Buf b # n # vs"
    using arg_cong2 [OF us vs, of "\<lambda>a c. a @ Buf b # c"] by simp
  from assms(1) have l: "linked nx pv (us @ [p])" "linked nx pv (n # vs)" "pv (Buf b) = p" "nx (Buf b) = n"
    unfolding list linked_append [of nx pv us p "Buf b # n # vs"] by simp_all
  have du: "p \<notin> set us" "n \<notin> set (tl (us @ [p]))"
  proof -
    have "distinct (us @ [p])" using assms(2) unfolding us [symmetric] by (auto simp: distinct_map inj_on_def)
    then show "p \<notin> set us" by simp
    have "n \<in> insert Head (Buf ` set ys)" using vs by (cases ys) auto
    moreover have "set (tl (us @ [p])) = Buf ` set xs" unfolding us [symmetric] by simp
    ultimately show "n \<notin> set (tl (us @ [p]))" using assms(2) by auto
  qed
  have dv: "n \<notin> set vs" "p \<notin> set (butlast (n # vs))"
  proof -
    have "distinct (n # vs)" using assms(2) unfolding vs [symmetric] by (auto simp: distinct_map inj_on_def)
    then show "n \<notin> set vs" by simp
    have "p \<in> insert Head (Buf ` set xs)" using us by (cases xs rule: rev_cases) auto
    moreover have "set (butlast (n # vs)) = Buf ` set ys" unfolding vs [symmetric] by simp
    ultimately show "p \<notin> set (butlast (n # vs))" using assms(2) by auto
  qed
  have "linked ?nx ?pv (us @ [p])"
    using l(1) by (rule linked_frame) (use du in auto)
  moreover have "linked ?nx ?pv (n # vs)"
    using l(2) by (rule linked_frame) (use dv in auto)
  ultimately have "linked ?nx ?pv (us @ p # n # vs)"
    unfolding linked_append [of ?nx ?pv us p "n # vs"] by simp
  moreover have "us @ p # n # vs = Head # map Buf (xs @ ys) @ [Head]"
    using arg_cong2 [OF us vs, of "(@)"] by simp
  ultimately show ?thesis by (simp only: l(3,4))
qed

lemma dll_push:
  assumes "linked nx pv (Head # map Buf zs @ [Head])" and "b \<notin> set zs" and "distinct zs"
  shows "linked (nx(Buf b := nx Head, Head := Buf b)) (pv(Buf b := Head, nx Head := Buf b))
           (Head # map Buf (b # zs) @ [Head])"
proof -
  obtain f vs where vs: "map Buf zs @ [Head] = f # vs" by (cases "map Buf zs @ [Head]") auto
  have l: "linked nx pv (f # vs)" and f: "nx Head = f" using assms(1) by (simp_all add: vs)
  have d: "distinct (f # vs)" using assms(3) unfolding vs [symmetric] by (auto simp: distinct_map inj_on_def)
  have bl: "set (butlast (f # vs)) = Buf ` set zs" unfolding vs [symmetric] by simp
  have sv: "set vs \<subseteq> insert Head (Buf ` set zs)" using arg_cong [OF vs, of set] by auto
  have "linked (nx(Buf b := f, Head := Buf b)) (pv(Buf b := Head, f := Buf b)) (f # vs)"
    using l by (rule linked_frame) (use bl sv d assms(2) in auto)
  moreover have "f \<noteq> Buf b" using arg_cong [OF vs, of hd] assms(2) by (cases zs) auto
  ultimately show ?thesis by (simp add: vs f)
qed

text \<open>What \<open>brelse\<close> does to the list when it drops the last reference: the buffer moves to the front.\<close>

definition to_front :: "nat \<Rightarrow> 'z bcache_scheme \<Rightarrow> 'z bcache_scheme" where
  "to_front b s4 =
     (let s5 = set_prev (bnext s4 (Buf b)) (bprev s4 (Buf b)) s4;
          s6 = set_next (bprev s5 (Buf b)) (bnext s5 (Buf b)) s5;
          s7 = set_next (Buf b) (bnext s6 Head) s6;
          s8 = set_prev (Buf b) Head s7;
          s9 = set_prev (bnext s8 Head) (Buf b) s8
      in set_next Head (Buf b) s9)"

lemma dll_to_front:
  assumes "dll s bs" and "b \<in> set bs"
  shows "dll (to_front b s) (b # remove1 b bs)"
proof -
  obtain xs ys where bs: "bs = xs @ b # ys" and nb: "b \<notin> set xs" using assms(2) by (meson split_list_first)
  let ?B = "Buf b"
  let ?nx = "(bnext s)(bprev s ?B := bnext s ?B)" and ?pv = "(bprev s)(bnext s ?B := bprev s ?B)"
  have d: "distinct (xs @ b # ys)" and l: "linked (bnext s) (bprev s) (Head # map Buf (xs @ b # ys) @ [Head])"
    using assms(1) by (auto simp: dll_def bs)
  have l1: "linked ?nx ?pv (Head # map Buf (xs @ ys) @ [Head])" by (rule dll_unlink [OF l d])
  have l2: "linked (?nx(?B := ?nx Head, Head := ?B)) (?pv(?B := Head, ?nx Head := ?B))
       (Head # map Buf (b # xs @ ys) @ [Head])"
    by (rule dll_push [OF l1]) (use d in auto)
  have nB: "bnext s ?B \<noteq> ?B"
  proof -
    have "linked (bnext s) (bprev s) (?B # map Buf ys @ [Head])"
      using l linked_append [of "bnext s" "bprev s" "Head # map Buf xs" ?B "map Buf ys @ [Head]"] by simp
    then show ?thesis using d by (cases ys) auto
  qed
  have "bnext (to_front b s) = ?nx(?B := ?nx Head, Head := ?B)"
    by (simp add: to_front_def Let_def set_next_def set_prev_def nB)
  moreover have "bprev (to_front b s) = ?pv(?B := Head, ?nx Head := ?B)"
    by (simp add: to_front_def Let_def set_next_def set_prev_def nB)
  moreover have "remove1 b bs = xs @ ys" using nb by (simp add: bs remove1_append)
  ultimately show ?thesis using l2 d by (simp add: dll_def)
qed

section \<open>The cache as a map from blocks to contents\<close>

definition ROOTDEV :: uint where "ROOTDEV = 1"

definition cached :: "'z bcache_scheme \<Rightarrow> uint \<Rightarrow> nat \<Rightarrow> bool" where
  "cached s n b \<longleftrightarrow> b < NBUF \<and> bdev (bufs s b) = ROOTDEV \<and> blockno (bufs s b) = n"

definition buf_of :: "'z bcache_scheme \<Rightarrow> uint \<Rightarrow> nat option" where
  "buf_of s n = find (cached s n) [0..<NBUF]"

text \<open>
  What a client of the cache can rely on: the current content of a block (from its buffer, or from
  the disk if it has none), how many references its buffer has, and which blocks are locked.
\<close>

definition content :: "'z bcache_scheme \<Rightarrow> uint \<Rightarrow> block" where
  "content s n = (case buf_of s n of Some b \<Rightarrow> bdata (bufs s b) | None \<Rightarrow> disk s n)"

definition refs :: "'z bcache_scheme \<Rightarrow> uint \<Rightarrow> int" where
  "refs s n = (case buf_of s n of Some b \<Rightarrow> refcnt (bufs s b) | None \<Rightarrow> 0)"

definition lockset :: "'z bcache_scheme \<Rightarrow> uint set" where
  "lockset s = {n. \<exists>b. cached s n b \<and> slocked (slocks s (BufLock b))}"

text \<open>
  The invariant of the cache. A block has at most one buffer, which is valid; a buffer without
  references is unlocked and holds what the disk holds, so that it can be given to another block.
\<close>

definition buf_ok :: "'z bcache_scheme \<Rightarrow> nat \<Rightarrow> bool" where
  "buf_ok s b \<longleftrightarrow> 0 \<le> refcnt (bufs s b)
     \<and> (0 < refcnt (bufs s b) \<longrightarrow> bdev (bufs s b) = ROOTDEV)
     \<and> (slocked (slocks s (BufLock b)) \<longrightarrow> 0 < refcnt (bufs s b))
     \<and> (bdev (bufs s b) = ROOTDEV \<longrightarrow> valid (bufs s b) \<and> length (bdata (bufs s b)) = BSIZE
         \<and> (refcnt (bufs s b) = 0 \<longrightarrow> bdata (bufs s b) = disk s (blockno (bufs s b))))"

definition bc_inv :: "'z bcache_scheme \<Rightarrow> bool" where
  "bc_inv s \<longleftrightarrow> (\<exists>bs. dll s bs \<and> set bs = {..<NBUF}) \<and> (\<forall>b < NBUF. buf_ok s b)
     \<and> (\<forall>n b c. cached s n b \<longrightarrow> cached s n c \<longrightarrow> b = c) \<and> (\<forall>n. length (disk s n) = BSIZE)"

lemma bc_invD:
  assumes "bc_inv s"
  shows "b < NBUF \<Longrightarrow> buf_ok s b" and "cached s n b \<Longrightarrow> cached s n c \<Longrightarrow> b = c" and "length (disk s n) = BSIZE"
  using assms by (auto simp: bc_inv_def)

lemma buf_of_Some: "bc_inv s \<Longrightarrow> cached s n b \<Longrightarrow> buf_of s n = Some b"
proof -
  assume inv: "bc_inv s" and c: "cached s n b"
  then have "b < NBUF" by (simp add: cached_def)
  then have "buf_of s n \<noteq> None" using c by (auto simp: buf_of_def find_None_iff)
  then obtain b' where "buf_of s n = Some b'" by auto
  then have "cached s n b'" by (auto simp: buf_of_def find_Some_iff)
  with inv c \<open>buf_of s n = Some b'\<close> show ?thesis by (metis bc_invD(2))
qed

lemma buf_of_None: "(\<And>b. \<not> cached s n b) \<Longrightarrow> buf_of s n = None"
  by (simp add: buf_of_def find_None_iff)

lemma buf_of_cached: "buf_of s n = Some b \<Longrightarrow> cached s n b"
  by (auto simp: buf_of_def find_Some_iff)

lemma buf_of_cong:
  "(\<And>b. bdev (bufs s b) = bdev (bufs t b) \<and> blockno (bufs s b) = blockno (bufs t b)) \<Longrightarrow> buf_of s n = buf_of t n"
proof -
  assume "\<And>b. bdev (bufs s b) = bdev (bufs t b) \<and> blockno (bufs s b) = blockno (bufs t b)"
  then have "cached s n = cached t n" by (auto simp: cached_def fun_eq_iff)
  then show ?thesis by (simp add: buf_of_def)
qed

text \<open>
  How one step of a client changes the machine: processes may become runnable, and the cache and
  the disk change; everything else stays.
\<close>

definition bframe :: "nat \<Rightarrow> 'z bcache_scheme \<Rightarrow> 'z bcache_scheme \<Rightarrow> bool" where
  "bframe p s t \<longleftrightarrow>
     t = s\<lparr>procs := procs t, slocks := slocks t, bufs := bufs t, bnext := bnext t, bprev := bprev t, disk := disk t,
           dwrites := dwrites t\<rparr>
     \<and> (\<forall>q. \<exists>st. procs t q = (procs s q)\<lparr>pstate := st\<rparr>) \<and> procs t p = procs s p
     \<and> (\<forall>i. (\<forall>b. i \<noteq> BufLock b) \<longrightarrow> slocks t i = slocks s i)"

definition bowns :: "nat \<Rightarrow> 'z bcache_scheme \<Rightarrow> uint \<Rightarrow> nat \<Rightarrow> bool" where
  "bowns p s n b \<longleftrightarrow> cached s n b \<and> slocked (slocks s (BufLock b))
     \<and> slk_pid (slocks s (BufLock b)) = pid (procs s p)"

definition bstep ::
  "nat \<Rightarrow> 'z bcache_scheme \<Rightarrow> 'z bcache_scheme \<Rightarrow> (uint \<Rightarrow> block) \<Rightarrow> (uint \<Rightarrow> int) \<Rightarrow> uint set \<Rightarrow> (uint \<Rightarrow> block) \<Rightarrow> (uint \<times> block) list \<Rightarrow> bool"
where
  "bstep p s t C R L D W \<longleftrightarrow> bframe p s t \<and> calm p t \<and> bc_inv t
     \<and> content t = C \<and> refs t = R \<and> lockset t = L \<and> disk t = D \<and> dwrites t = W"

lemma pstate_idle: "\<exists>st. r = r\<lparr>pstate := st\<rparr>"
  by (rule exI [of _ "pstate r"]) simp

lemma bframe_refl: "bframe p s s"
  by (simp add: bframe_def pstate_idle)

lemma bframe_field:
  assumes "bframe p s t"
    and "\<And>ps sl bf nx pv d w.
      f (s\<lparr>procs := ps, slocks := sl, bufs := bf, bnext := nx, bprev := pv, disk := d, dwrites := w\<rparr>) = f s"
  shows "f t = f s"
proof -
  have "t = s\<lparr>procs := procs t, slocks := slocks t, bufs := bufs t, bnext := bnext t, bprev := bprev t, disk := disk t,
           dwrites := dwrites t\<rparr>" using assms(1) by (simp add: bframe_def)
  then have "f t = f (s\<lparr>procs := procs t, slocks := slocks t, bufs := bufs t, bnext := bnext t, bprev := bprev t,
           disk := disk t, dwrites := dwrites t\<rparr>)" by (rule arg_cong)
  with assms(2) show ?thesis by simp
qed

lemma bframe_trans:
  assumes "bframe p s t" and "bframe p t u"
  shows "bframe p s u"
proof -
  let ?up = "\<lambda>v. v\<lparr>procs := procs u, slocks := slocks u, bufs := bufs u, bnext := bnext u, bprev := bprev u, disk := disk u,
              dwrites := dwrites u\<rparr>"
  have "t = s\<lparr>procs := procs t, slocks := slocks t, bufs := bufs t, bnext := bnext t, bprev := bprev t, disk := disk t,
           dwrites := dwrites t\<rparr>" using assms(1) by (simp add: bframe_def)
  then have "?up t = ?up s" by (rule arg_cong [where f = ?up, THEN trans]) simp
  moreover have "u = ?up t" using assms(2) by (simp add: bframe_def)
  ultimately have "u = ?up s" by simp
  moreover have "\<forall>q. \<exists>st. procs u q = (procs s q)\<lparr>pstate := st\<rparr>"
  proof
    fix q
    obtain a where "procs t q = (procs s q)\<lparr>pstate := a\<rparr>" using assms(1) by (auto simp: bframe_def)
    moreover obtain b where "procs u q = (procs t q)\<lparr>pstate := b\<rparr>" using assms(2) by (auto simp: bframe_def)
    ultimately have "procs u q = (procs s q)\<lparr>pstate := b\<rparr>" by simp
    then show "\<exists>st. procs u q = (procs s q)\<lparr>pstate := st\<rparr>" by blast
  qed
  ultimately show ?thesis using assms unfolding bframe_def by simp
qed

lemma bframe_pid: "bframe p s t \<Longrightarrow> pid (procs t q) = pid (procs s q)"
  unfolding bframe_def by (metis (no_types, lifting) proc.ext_inject proc.surjective proc.update_convs(1))

section \<open>The operations on the cache\<close>

lemma calm_untaken [simp]: "calm p (untaken i q s) = calm p s"
  by (simp add: untaken_def)

lemma calm_taken [simp]: "calm p (taken i q s) = calm p s"
  by (simp add: taken_def)

lemma bget_hit:
  assumes "calm p s" and "dll s bs" and "length bs \<le> NBUF"
    and "find (\<lambda>b. bdev (bufs s b) = dev \<and> blockno (bufs s b) = n) bs = Some b" and "\<not> slocked (slocks s (BufLock b))"
  shows "bget dev n s = Ok (b, taken (BufLock b) p (set_buf b (\<lambda>r. r\<lparr>refcnt := refcnt r + 1\<rparr>) s))"
proof -
  have "scan NBUF (bnext s) P (bnext s Head) = Ok (find P bs)" for P
    using assms(2,3) unfolding dll_def by (intro scan_next [where pv = "bprev s"]) auto
  then show ?thesis
    using assms by (simp add: bget_def calm_simps acquiresleep_ok)
qed

lemma bget_miss:
  assumes "calm p s" and "dll s bs" and "length bs \<le> NBUF"
    and "find (\<lambda>b. bdev (bufs s b) = dev \<and> blockno (bufs s b) = n) bs = None"
  shows "find (\<lambda>b. refcnt (bufs s b) = 0) (rev bs) = Some b \<Longrightarrow> \<not> slocked (slocks s (BufLock b)) \<Longrightarrow>
      bget dev n s = Ok (b, taken (BufLock b) p
        (set_buf b (\<lambda>r. r\<lparr>bdev := dev, blockno := n, valid := False, refcnt := 1\<rparr>) s))"
    and "find (\<lambda>b. refcnt (bufs s b) = 0) (rev bs) = None \<Longrightarrow> bget dev n s = Panic ''bget: no buffers''"
proof -
  have n: "scan NBUF (bnext s) P (bnext s Head) = Ok (find P bs)" for P
    using assms(2,3) unfolding dll_def by (intro scan_next [where pv = "bprev s"]) auto
  have p: "scan NBUF (bprev s) P (bprev s Head) = Ok (find P (rev bs))" for P
    using assms(2,3) unfolding dll_def by (intro scan_prev [where nx = "bnext s"]) auto
  show "find (\<lambda>b. refcnt (bufs s b) = 0) (rev bs) = Some b \<Longrightarrow> \<not> slocked (slocks s (BufLock b)) \<Longrightarrow>
      bget dev n s = Ok (b, taken (BufLock b) p
        (set_buf b (\<lambda>r. r\<lparr>bdev := dev, blockno := n, valid := False, refcnt := 1\<rparr>) s))"
    using assms by (simp add: bget_def calm_simps acquiresleep_ok n p)
  show "find (\<lambda>b. refcnt (bufs s b) = 0) (rev bs) = None \<Longrightarrow> bget dev n s = Panic ''bget: no buffers''"
    using assms by (simp add: bget_def calm_simps n p)
qed


lemma content_cached: "bc_inv s \<Longrightarrow> cached s n b \<Longrightarrow> content s n = bdata (bufs s b)"
  by (simp add: content_def buf_of_Some)

lemma refs_cached: "bc_inv s \<Longrightarrow> cached s n b \<Longrightarrow> refs s n = refcnt (bufs s b)"
  by (simp add: refs_def buf_of_Some)

lemma content_uncached: "(\<And>b. \<not> cached s n b) \<Longrightarrow> content s n = disk s n"
  by (simp add: content_def buf_of_None)

lemma refs_uncached: "(\<And>b. \<not> cached s n b) \<Longrightarrow> refs s n = 0"
  by (simp add: refs_def buf_of_None)

lemma lockset_cached:
  assumes "bc_inv s" and "cached s n b"
  shows "n \<in> lockset s \<longleftrightarrow> slocked (slocks s (BufLock b))"
proof -
  have "cached s n c \<longleftrightarrow> c = b" for c using assms bc_invD(2) [OF assms(1), of n b c] by auto
  then show ?thesis by (simp add: lockset_def)
qed

lemma lockset_uncached: "(\<And>b. \<not> cached s n b) \<Longrightarrow> n \<notin> lockset s"
  by (simp add: lockset_def)

lemma length_content: "bc_inv s \<Longrightarrow> length (content s n) = BSIZE"
proof (cases "\<exists>b. cached s n b")
  case True
  assume inv: "bc_inv s"
  from True obtain b where b: "cached s n b" ..
  then have "buf_ok s b" using inv bc_invD(1) by (auto simp: cached_def)
  with b inv show ?thesis by (auto simp: content_cached buf_ok_def cached_def)
next
  case False
  assume "bc_inv s"
  with False show ?thesis by (simp add: content_uncached bc_invD)
qed

text \<open>The state \<open>bread\<close> leaves, whether the block was cached or not.\<close>

definition loaded :: "nat \<Rightarrow> nat \<Rightarrow> uint \<Rightarrow> 'z bcache_scheme \<Rightarrow> 'z bcache_scheme" where
  "loaded p b n s = taken (BufLock b) p (set_buf b (\<lambda>r. r\<lparr>bdev := ROOTDEV, blockno := n,
      refcnt := refcnt r + 1, bdata := content s n, valid := True\<rparr>) s)"

definition victim :: "'z bcache_scheme \<Rightarrow> uint \<Rightarrow> nat \<Rightarrow> bool" where
  "victim s n b \<longleftrightarrow> cached s n b \<or> (b < NBUF \<and> refcnt (bufs s b) = 0 \<and> (\<forall>c. \<not> cached s n c))"

lemma bread_loaded:
  assumes calm: "calm p s" and inv: "bc_inv s" and nl: "n \<notin> lockset s"
    and room: "0 < refs s n \<or> (\<exists>b < NBUF. refcnt (bufs s b) = 0)"
  shows "\<exists>b. victim s n b \<and> bread ROOTDEV n s = Ok (b, loaded p b n s)"
proof -
  obtain bs where bs: "dll s bs" "set bs = {..<NBUF}" using inv by (auto simp: bc_inv_def)
  have len: "length bs \<le> NBUF"
    using bs distinct_card [of bs] by (simp add: dll_def)
  let ?P = "\<lambda>b. bdev (bufs s b) = ROOTDEV \<and> blockno (bufs s b) = n"
  show ?thesis
  proof (cases "find ?P bs")
    case (Some b)
    then have c: "cached s n b" using bs(2) by (auto simp: find_Some_iff cached_def)
    then have "\<not> slocked (slocks s (BufLock b))" using nl by (auto simp: lockset_def)
    then have "bget ROOTDEV n s = Ok (b, taken (BufLock b) p (set_buf b (\<lambda>r. r\<lparr>refcnt := refcnt r + 1\<rparr>) s))"
      using bget_hit [OF calm bs(1) len Some] by simp
    moreover have v: "valid (bufs s b)" using c bc_invD(1) [OF inv, of b] by (simp add: cached_def buf_ok_def)
    moreover have "bdata (bufs s b) = content s n" using content_cached [OF inv c] by simp
    ultimately have "bread ROOTDEV n s = Ok (b, loaded p b n s)"
      using c by (cases "bufs s b") (simp add: bread_def loaded_def taken_def set_slock_def set_buf_def cached_def)
    with c show ?thesis by (auto simp: victim_def)
  next
    case None
    then have nc: "\<not> cached s n c" for c using bs(2) by (auto simp: find_None_iff cached_def)
    then have "\<exists>b < NBUF. refcnt (bufs s b) = 0" using room refs_uncached [of s n] by auto
    then have "find (\<lambda>b. refcnt (bufs s b) = 0) (rev bs) \<noteq> None" using bs(2) by (auto simp: find_None_iff)
    then obtain b where b: "find (\<lambda>b. refcnt (bufs s b) = 0) (rev bs) = Some b" by auto
    then have b0: "b < NBUF" "refcnt (bufs s b) = 0" using bs(2) by (auto simp: find_Some_iff)
        (metis length_rev lessThan_iff nth_mem set_rev)
    then have "\<not> slocked (slocks s (BufLock b))" using bc_invD(1) [OF inv b0(1)] by (auto simp: buf_ok_def)
    then have "bread ROOTDEV n s = Ok (b, loaded p b n s)"
      using bget_miss(1) [OF calm bs(1) len None b] b0 content_uncached [of s n] nc
      by (simp add: bread_def loaded_def taken_def set_slock_def set_buf_def disk_rw_def)
    with b0 nc show ?thesis by (auto simp: victim_def)
  qed
qed


lemma loaded_sel [simp]:
  "bufs (loaded p b n s) = (bufs s)(b := (bufs s b)\<lparr>bdev := ROOTDEV, blockno := n,
      refcnt := refcnt (bufs s b) + 1, bdata := content s n, valid := True\<rparr>)"
  "slocks (loaded p b n s) = (slocks s)(BufLock b := (slocks s (BufLock b))\<lparr>slocked := True, slk_pid := pid (procs s p)\<rparr>)"
  "disk (loaded p b n s) = disk s" "dwrites (loaded p b n s) = dwrites s" "procs (loaded p b n s) = procs s"
  "bnext (loaded p b n s) = bnext s" "bprev (loaded p b n s) = bprev s" "calm q (loaded p b n s) = calm q s"
  by (simp_all add: loaded_def taken_def set_slock_def set_buf_def)
     (simp add: calm_def settled_def lock_free_def mycpu_def intr_get_def cpuid_def)

lemma cached_loaded:
  "b < NBUF \<Longrightarrow> cached (loaded p b n s) m c \<longleftrightarrow> (if c = b then m = n else cached s m c)"
  by (auto simp: cached_def)

lemma victimD: "victim s n b \<Longrightarrow> b < NBUF" "victim s n b \<Longrightarrow> c \<noteq> b \<Longrightarrow> bc_inv s \<Longrightarrow> \<not> cached s n c"
  using bc_invD(2) by (fastforce simp: victim_def cached_def)+

lemma loaded_inv:
  assumes inv: "bc_inv s" and v: "victim s n b"
  shows "bc_inv (loaded p b n s)"
proof -
  note b = victimD(1) [OF v] and uniq = victimD(2) [OF v _ inv]
  have "dll (loaded p b n s) = dll s" by (auto simp: dll_def fun_eq_iff)
  moreover have "buf_ok (loaded p b n s) c" if "c < NBUF" for c
    using bc_invD(1) [OF inv that] length_content [OF inv, of n] v
    by (cases "c = b") (auto simp: buf_ok_def)
  moreover have "c = d" if "cached (loaded p b n s) m c" "cached (loaded p b n s) m d" for m c d
    using that uniq bc_invD(2) [OF inv, of m c d] b by (auto simp: cached_loaded split: if_splits)
  ultimately show ?thesis using inv unfolding bc_inv_def by simp
qed

lemma loaded_view:
  assumes inv: "bc_inv s" and v: "victim s n b" and nl: "n \<notin> lockset s"
  shows "content (loaded p b n s) = content s" (is "content ?t = _")
    and "refs (loaded p b n s) = (refs s)(n := refs s n + 1)"
    and "lockset (loaded p b n s) = insert n (lockset s)"
proof -
  note b = victimD(1) [OF v] and uniq = victimD(2) [OF v _ inv] and inv' = loaded_inv [OF inv v, of p]
  have cn: "cached ?t n b" using b by (simp add: cached_loaded)
  have other: "content ?t m = content s m \<and> refs ?t m = refs s m
      \<and> (m \<in> lockset ?t \<longleftrightarrow> m \<in> lockset s)" if m: "m \<noteq> n" for m
  proof (cases "\<exists>c. cached s m c")
    case True
    then obtain c where c: "cached s m c" ..
    show ?thesis
    proof (cases "c = b")
      case False
      then have c': "cached ?t m c" using c b by (simp add: cached_loaded)
      from False show ?thesis
        by (simp add: content_cached [OF inv c] content_cached [OF inv' c'] refs_cached [OF inv c]
            refs_cached [OF inv' c'] lockset_cached [OF inv c] lockset_cached [OF inv' c'])
    next
      case True
      then have r: "refcnt (bufs s b) = 0" using v c m by (auto simp: victim_def cached_def)
      have nc: "\<not> cached ?t m d" for d
        using m b True bc_invD(2) [OF inv c, of d] by (auto simp: cached_loaded)
      have "content s m = disk s m" "m \<notin> lockset s"
        using c True r bc_invD(1) [OF inv b] unfolding content_cached [OF inv c] lockset_cached [OF inv c]
        by (auto simp: buf_ok_def cached_def)
      with r True nc show ?thesis
        by (simp add: content_uncached refs_uncached lockset_uncached refs_cached [OF inv c])
    qed
  next
    case False
    then have "\<not> cached ?t m d" for d using m b by (auto simp: cached_loaded)
    with False show ?thesis by (simp add: content_uncached refs_uncached lockset_uncached)
  qed
  have "content ?t n = content s n" using content_cached [OF inv' cn] by simp
  with other show "content ?t = content s" by (intro ext) metis
  have "refs ?t n = refs s n + 1"
    using refs_cached [OF inv' cn] v by (auto simp: victim_def refs_cached [OF inv] refs_uncached)
  with other show "refs ?t = (refs s)(n := refs s n + 1)" by (intro ext) (metis fun_upd_apply)
  have "n \<in> lockset ?t" unfolding lockset_cached [OF inv' cn] by simp
  with other show "lockset ?t = insert n (lockset s)" by (intro set_eqI) (metis insert_iff)
qed

lemma loaded_frame: "bframe p s (loaded p b n s)"
  by (simp add: bframe_def pstate_idle) (auto simp: loaded_def taken_def set_slock_def set_buf_def)


lemma bread_spec:
  assumes "calm p s" and "bc_inv s" and "n \<notin> lockset s"
    and "0 < refs s n \<or> (\<exists>b < NBUF. refcnt (bufs s b) = 0)"
  shows "returns (bread ROOTDEV n s) (\<lambda>(b, t).
      bstep p s t (content s) ((refs s)(n := refs s n + 1)) (insert n (lockset s)) (disk s) (dwrites s)
      \<and> bowns p t n b \<and> bdata (bufs t b) = content s n \<and> (\<forall>m c. bowns p s m c \<longrightarrow> bowns p t m c))"
proof -
  obtain b where v: "victim s n b" and eq: "bread ROOTDEV n s = Ok (b, loaded p b n s)"
    using bread_loaded [OF assms] by auto
  note view = loaded_view [OF assms(2) v assms(3), of p]
  have own: "bowns p (loaded p b n s) n b"
    using victimD(1) [OF v] by (simp add: bowns_def cached_loaded)
  have keep: "bowns p (loaded p b n s) m c" if o: "bowns p s m c" for m c
  proof -
    have c: "cached s m c" "slocked (slocks s (BufLock c))" using o by (simp_all add: bowns_def)
    then have "0 < refcnt (bufs s c)" using bc_invD(1) [OF assms(2), of c] by (simp add: buf_ok_def cached_def)
    moreover have "m \<noteq> n" using c assms(3) lockset_cached [OF assms(2)] by blast
    ultimately have "c \<noteq> b" using v c(1) by (auto simp: victim_def cached_def)
    with o show ?thesis using victimD(1) [OF v] by (simp add: bowns_def cached_loaded)
  qed
  show ?thesis
    using assms(1) view own keep by (simp add: eq bstep_def loaded_frame loaded_inv [OF assms(2) v])
qed

text \<open>An operation on one buffer that leaves every buffer with the block it had.\<close>

lemma one_buffer_view:
  assumes s: "bc_inv s" and t: "bc_inv t" and b: "cached s n b"
    and "\<And>c. bdev (bufs t c) = bdev (bufs s c) \<and> blockno (bufs t c) = blockno (bufs s c)"
    and same: "\<And>c. c \<noteq> b \<Longrightarrow> bdata (bufs t c) = bdata (bufs s c) \<and> refcnt (bufs t c) = refcnt (bufs s c)
        \<and> slocked (slocks t (BufLock c)) = slocked (slocks s (BufLock c))"
    and disk: "\<And>m. m \<noteq> n \<Longrightarrow> disk t m = disk s m"
  shows "content t = (content s)(n := bdata (bufs t b))" and "refs t = (refs s)(n := refcnt (bufs t b))"
    and "lockset t = (if slocked (slocks t (BufLock b)) then insert n (lockset s) else lockset s - {n})"
proof -
  have c: "cached t m c = cached s m c" for m c using assms(4) by (simp add: cached_def)
  have n: "content t n = bdata (bufs t b)" "refs t n = refcnt (bufs t b)"
      "n \<in> lockset t \<longleftrightarrow> slocked (slocks t (BufLock b))"
    using b c content_cached [OF t] refs_cached [OF t] lockset_cached [OF t] by auto
  have other: "content t m = content s m \<and> refs t m = refs s m \<and> (m \<in> lockset t \<longleftrightarrow> m \<in> lockset s)" if "m \<noteq> n" for m
  proof (cases "\<exists>d. cached s m d")
    case True
    then obtain d where d: "cached s m d" ..
    then have "d \<noteq> b" using b that by (auto simp: cached_def)
    then show ?thesis
      using same [of d] d c [of m d] content_cached [OF t, of m d] content_cached [OF s d]
        refs_cached [OF t, of m d] refs_cached [OF s d] lockset_cached [OF t, of m d] lockset_cached [OF s d] by simp
  next
    case False
    then show ?thesis using disk that c by (simp add: content_uncached refs_uncached lockset_uncached)
  qed
  show "content t = (content s)(n := bdata (bufs t b))"
    using n other by (intro ext) (metis fun_upd_apply)
  show "refs t = (refs s)(n := refcnt (bufs t b))"
    using n other by (intro ext) (metis fun_upd_apply)
  show "lockset t = (if slocked (slocks t (BufLock b)) then insert n (lockset s) else lockset s - {n})"
    using n other by (intro set_eqI) (metis Diff_iff insert_iff singletonD)
qed

lemma one_buffer_inv:
  assumes s: "bc_inv s" and "\<exists>bs. dll t bs \<and> set bs = {..<NBUF}"
    and "\<And>c. bdev (bufs t c) = bdev (bufs s c) \<and> blockno (bufs t c) = blockno (bufs s c)"
    and "\<And>c. c < NBUF \<Longrightarrow> c \<noteq> b \<Longrightarrow> bufs t c = bufs s c \<and> slocked (slocks t (BufLock c)) = slocked (slocks s (BufLock c))"
    and "b < NBUF \<Longrightarrow> buf_ok t b" and b: "cached s n b"
    and "\<And>m. m \<noteq> n \<Longrightarrow> disk t m = disk s m" and "length (disk t n) = BSIZE"
  shows "bc_inv t"
proof -
  have c: "cached t m c = cached s m c" for m c using assms(3) by (simp add: cached_def)
  have "buf_ok t d" if "d < NBUF" for d
  proof (cases "d = b")
    case False
    then have "bdev (bufs s d) = ROOTDEV \<Longrightarrow> blockno (bufs s d) \<noteq> n"
      using bc_invD(2) [OF s b, of d] that by (auto simp: cached_def)
    with False that show ?thesis
      using bc_invD(1) [OF s that] assms(4) [of d] assms(7) by (auto simp: buf_ok_def)
  qed (use that assms(5) in simp)
  moreover have "length (disk t m) = BSIZE" for m
    using assms(7,8) bc_invD(3) [OF s] by (cases "m = n") auto
  ultimately show ?thesis
    using assms(2) bc_invD(2) [OF s] unfolding bc_inv_def c by blast
qed

lemma bownsD:
  assumes "bowns p s n b"
  shows "cached s n b" "b < NBUF" "bdev (bufs s b) = ROOTDEV" "blockno (bufs s b) = n"
    "slocked (slocks s (BufLock b))" "slk_pid (slocks s (BufLock b)) = pid (procs s p)"
  using assms by (auto simp: bowns_def cached_def)

lemma bowns_ok:
  assumes "bowns p s n b" and "bc_inv s"
  shows "buf_ok s b" "0 < refcnt (bufs s b)" "content s n = bdata (bufs s b)" "refs s n = refcnt (bufs s b)" "n \<in> lockset s"
  using bownsD [OF assms(1)] bc_invD(1) [OF assms(2), of b] content_cached [OF assms(2)] refs_cached [OF assms(2)]
    lockset_cached [OF assms(2)] by (auto simp: buf_ok_def)

lemma dll_exists: "bc_inv s \<Longrightarrow> bnext t = bnext s \<Longrightarrow> bprev t = bprev s \<Longrightarrow> \<exists>bs. dll t bs \<and> set bs = {..<NBUF}"
  using dll_cong [of t s] by (auto simp: bc_inv_def)

text \<open>The client stores new data into a buffer it holds.\<close>

definition set_data :: "nat \<Rightarrow> block \<Rightarrow> 'z bcache_scheme \<Rightarrow> 'z bcache_scheme" where
  "set_data b d s = set_buf b (\<lambda>r. r\<lparr>bdata := d\<rparr>) s"

lemma set_data_spec:
  assumes calm: "calm p s" and inv: "bc_inv s" and o: "bowns p s n b" and d: "length d = BSIZE"
  shows "bstep p s (set_data b d s) ((content s)(n := d)) (refs s) (lockset s) (disk s) (dwrites s)"
    and "bowns p s m c \<Longrightarrow> bowns p (set_data b d s) m c"
proof -
  let ?t = "set_data b d s"
  note own = bownsD [OF o] and ok = bowns_ok [OF o inv]
  have t: "bc_inv ?t"
  proof (rule one_buffer_inv [where b = b and n = n, OF inv])
    show "\<exists>bs. dll ?t bs \<and> set bs = {..<NBUF}"
      by (rule dll_exists [OF inv]) (simp_all add: set_data_def set_buf_def)
    show "buf_ok ?t b" using ok d by (auto simp: buf_ok_def set_data_def set_buf_def)
  qed (use own inv in \<open>simp_all add: set_data_def set_buf_def bc_invD(3)\<close>)
  note view = one_buffer_view [OF inv t own(1)]
  have "content ?t = (content s)(n := bdata (bufs ?t b))" "refs ?t = (refs s)(n := refcnt (bufs ?t b))"
    "lockset ?t = (if slocked (slocks ?t (BufLock b)) then insert n (lockset s) else lockset s - {n})"
    by (rule view; simp add: set_data_def set_buf_def)+
  then show "bstep p s ?t ((content s)(n := d)) (refs s) (lockset s) (disk s) (dwrites s)"
    using t calm own ok
    by (simp add: bstep_def bframe_def pstate_idle set_data_def insert_absorb) (simp add: set_buf_def fun_upd_idem)
  show "bowns p s m c \<Longrightarrow> bowns p ?t m c"
    by (auto simp: bowns_def cached_def set_data_def set_buf_def)
qed

lemma bwrite_spec:
  assumes calm: "calm p s" and inv: "bc_inv s" and o: "bowns p s n b"
  shows "returns (bwrite b s) (\<lambda>t.
      bstep p s t (content s) (refs s) (lockset s) ((disk s)(n := content s n)) (dwrites s @ [(n, content s n)])
      \<and> (\<forall>m c. bowns p s m c \<longrightarrow> bowns p t m c))"
proof -
  let ?t = "disk_rw b True s"
  note own = bownsD [OF o] and ok = bowns_ok [OF o inv]
  have eq: "bwrite b s = Ok ?t" using calm own by (simp add: bwrite_def holdingsleep_ok)
  have d: "?t = s\<lparr>disk := (disk s)(n := content s n), dwrites := dwrites s @ [(n, content s n)]\<rparr>"
    using own ok by (simp add: disk_rw_def Let_def)
  have t: "bc_inv ?t"
  proof (rule one_buffer_inv [where b = b and n = n, OF inv])
    show "\<exists>bs. dll ?t bs \<and> set bs = {..<NBUF}"
      by (rule dll_exists [OF inv]) (simp_all add: d)
    show "buf_ok ?t b" using ok own by (auto simp: buf_ok_def d)
  qed (use own length_content [OF inv, of n] in \<open>simp_all add: d\<close>)
  note view = one_buffer_view [OF inv t own(1)]
  have "content ?t = (content s)(n := bdata (bufs ?t b))" "refs ?t = (refs s)(n := refcnt (bufs ?t b))"
    "lockset ?t = (if slocked (slocks ?t (BufLock b)) then insert n (lockset s) else lockset s - {n})"
    by (rule view; simp add: d)+
  then have "bstep p s ?t (content s) (refs s) (lockset s) ((disk s)(n := content s n)) (dwrites s @ [(n, content s n)])"
    using t calm own ok
    by (simp add: bstep_def bframe_def pstate_idle insert_absorb d fun_upd_idem)
  moreover have "\<forall>m c. bowns p s m c \<longrightarrow> bowns p ?t m c"
    by (simp add: bowns_def cached_def d)
  ultimately show ?thesis by (simp add: eq)
qed


text \<open>\<open>bpin\<close> and \<open>bunpin\<close> change the number of references of a buffer.\<close>

definition add_ref :: "int \<Rightarrow> nat \<Rightarrow> 'z bcache_scheme \<Rightarrow> 'z bcache_scheme" where
  "add_ref d b s = set_buf b (\<lambda>r. r\<lparr>refcnt := refcnt r + d\<rparr>) s"

lemma bpin_ok: "calm p s \<Longrightarrow> bpin b s = Ok (add_ref 1 b s)"
  by (simp add: bpin_def calm_simps add_ref_def)

lemma bunpin_ok: "calm p s \<Longrightarrow> bunpin b s = Ok (add_ref (- 1) b s)"
  by (simp add: bunpin_def calm_simps add_ref_def)

lemma add_ref_spec:
  assumes calm: "calm p s" and inv: "bc_inv s" and o: "bowns p s n b" and d: "0 < refs s n + d"
  shows "bstep p s (add_ref d b s) (content s) ((refs s)(n := refs s n + d)) (lockset s) (disk s) (dwrites s)"
    and "bowns p s m c \<Longrightarrow> bowns p (add_ref d b s) m c"
proof -
  let ?t = "add_ref d b s"
  note own = bownsD [OF o] and ok = bowns_ok [OF o inv]
  have t: "bc_inv ?t"
  proof (rule one_buffer_inv [where b = b and n = n, OF inv])
    show "\<exists>bs. dll ?t bs \<and> set bs = {..<NBUF}"
      by (rule dll_exists [OF inv]) (simp_all add: add_ref_def set_buf_def)
    show "buf_ok ?t b" using ok d own by (auto simp: buf_ok_def add_ref_def set_buf_def)
  qed (use own inv in \<open>simp_all add: add_ref_def set_buf_def bc_invD(3)\<close>)
  note view = one_buffer_view [OF inv t own(1)]
  have "content ?t = (content s)(n := bdata (bufs ?t b))" "refs ?t = (refs s)(n := refcnt (bufs ?t b))"
    "lockset ?t = (if slocked (slocks ?t (BufLock b)) then insert n (lockset s) else lockset s - {n})"
    by (rule view; simp add: add_ref_def set_buf_def)+
  then show "bstep p s ?t (content s) ((refs s)(n := refs s n + d)) (lockset s) (disk s) (dwrites s)"
    using t calm own ok
    by (simp add: bstep_def bframe_def pstate_idle add_ref_def insert_absorb) (simp add: set_buf_def fun_upd_idem)
  show "bowns p s m c \<Longrightarrow> bowns p ?t m c"
    by (auto simp: bowns_def cached_def add_ref_def set_buf_def)
qed

lemma to_front_sel [simp]:
  "bufs (to_front b s) = bufs s" "slocks (to_front b s) = slocks s" "procs (to_front b s) = procs s"
  "disk (to_front b s) = disk s" "dwrites (to_front b s) = dwrites s" "calm p (to_front b s) = calm p s"
  "to_front b (hold l s) = hold l (to_front b s)"
  by (simp_all add: to_front_def Let_def) (simp_all add: set_next_def set_prev_def)

definition released :: "nat \<Rightarrow> nat \<Rightarrow> 'z bcache_scheme \<Rightarrow> 'z bcache_scheme" where
  "released p b s =
     (let s4 = set_buf b (\<lambda>r. r\<lparr>refcnt := refcnt r - 1\<rparr>) (untaken (BufLock b) p s)
      in if refcnt (bufs s4 b) = 0 then to_front b s4 else s4)"

lemma released_sel [simp]:
  "bufs (released p b s) = (bufs s)(b := (bufs s b)\<lparr>refcnt := refcnt (bufs s b) - 1\<rparr>)"
  "slocks (released p b s) = (slocks s)(BufLock b := (slocks s (BufLock b))\<lparr>slocked := False, slk_pid := 0\<rparr>)"
  "procs (released p b s) = woken (Some (SleepLkChan (BufLock b))) (Some p) (procs s)"
  "disk (released p b s) = disk s" "dwrites (released p b s) = dwrites s" "calm q (released p b s) = calm q s"
  by (simp_all add: released_def Let_def) (simp_all add: untaken_def set_buf_def set_slock_def)

lemma brelse_released:
  assumes "calm p s" and "bowns p s n b"
  shows "brelse b s = Ok (released p b s)"
proof -
  have "calm p (untaken (BufLock b) p s)" using assms(1) by simp
  then show ?thesis
    using assms bownsD [OF assms(2)]
    by (simp add: brelse_def holdingsleep_ok releasesleep_ok released_def calm_simps Let_def
        to_front_def [unfolded Let_def, symmetric])
qed

lemma woken_pstate: "\<exists>st. woken ch me ps q = (ps q)\<lparr>pstate := st\<rparr>"
  by (simp add: woken_def wake1_def pstate_idle) blast

lemma released_dll:
  assumes "bc_inv s" and "b < NBUF"
  shows "\<exists>bs. dll (released p b s) bs \<and> set bs = {..<NBUF}"
proof -
  let ?s = "set_buf b (\<lambda>r. r\<lparr>refcnt := refcnt r - 1\<rparr>) (untaken (BufLock b) p s)"
  obtain bs where bs: "dll ?s bs" "set bs = {..<NBUF}"
    using dll_exists [OF assms(1), of ?s] by (auto simp: set_buf_def untaken_def set_slock_def)
  then have f: "dll (to_front b ?s) (b # remove1 b bs)" using assms(2) by (intro dll_to_front) auto
  have g: "set (b # remove1 b bs) = {..<NBUF}" using bs assms(2) by (auto simp: dll_def)
  have eq: "released p b s = (if refcnt (bufs ?s b) = 0 then to_front b ?s else ?s)"
    by (simp only: released_def Let_def)
  show ?thesis
  proof (cases "refcnt (bufs ?s b) = 0")
    case True
    show ?thesis unfolding eq if_P [OF True] by (rule exI, rule conjI, rule f, rule g)
  next
    case False
    show ?thesis unfolding eq if_not_P [OF False] by (rule exI, rule conjI, rule bs(1), rule bs(2))
  qed
qed

lemma released_frame: "bframe p s (released p b s)"
  by (simp add: bframe_def woken_pstate)
    (auto simp: released_def Let_def untaken_def to_front_def set_buf_def set_slock_def set_next_def set_prev_def)

lemma brelse_spec:
  assumes calm: "calm p s" and inv: "bc_inv s" and o: "bowns p s n b"
    and clean: "refs s n = 1 \<longrightarrow> content s n = disk s n"
  shows "returns (brelse b s) (\<lambda>t.
      bstep p s t (content s) ((refs s)(n := refs s n - 1)) (lockset s - {n}) (disk s) (dwrites s)
      \<and> (\<forall>m c. m \<noteq> n \<longrightarrow> bowns p s m c \<longrightarrow> bowns p t m c))"
proof -
  let ?t = "released p b s"
  note own = bownsD [OF o] and ok = bowns_ok [OF o inv]
  have t: "bc_inv ?t"
  proof (rule one_buffer_inv [where b = b and n = n, OF inv])
    show "\<exists>bs. dll ?t bs \<and> set bs = {..<NBUF}" using inv own(2) by (rule released_dll)
    show "buf_ok ?t b" using ok clean own by (auto simp: buf_ok_def)
  qed (use own inv in \<open>simp_all add: bc_invD(3)\<close>)
  note view = one_buffer_view [OF inv t own(1)]
  have "content ?t = (content s)(n := bdata (bufs ?t b))" "refs ?t = (refs s)(n := refcnt (bufs ?t b))"
    "lockset ?t = (if slocked (slocks ?t (BufLock b)) then insert n (lockset s) else lockset s - {n})"
    by (rule view; simp)+
  then have "bstep p s ?t (content s) ((refs s)(n := refs s n - 1)) (lockset s - {n}) (disk s) (dwrites s)"
    using t calm own ok by (simp add: bstep_def released_frame fun_upd_idem)
  moreover have "\<forall>m c. m \<noteq> n \<longrightarrow> bowns p s m c \<longrightarrow> bowns p ?t m c"
    using own by (auto simp: bowns_def cached_def)
  ultimately show ?thesis by (simp add: brelse_released [OF calm o])
qed

section \<open>Initialisation\<close>

lemma calm_initlock: "calm p s \<Longrightarrow> calm p (initlock l n s)"
  by (auto simp: calm_def settled_def lock_free_def initlock_def mycpu_def intr_get_def cpuid_def)

lemma binit_step:
  fixes s :: "'z bcache_scheme"
  assumes "dll s (rev [0..<k])" and "k < NBUF" and "\<forall>b < k. \<not> slocked (slocks s (BufLock b))"
  defines "t \<equiv> binit_buf k s"
  shows "dll t (rev [0..<Suc k])" "\<forall>b < Suc k. \<not> slocked (slocks t (BufLock b))"
    "bufs t = bufs s" "disk t = disk s" "calm p s \<Longrightarrow> calm p t"
proof -
  have l: "linked (bnext s) (bprev s) (Head # map Buf (rev [0..<k]) @ [Head])" using assms(1) by (simp add: dll_def)
  have "bnext t = (bnext s)(Buf k := bnext s Head, Head := Buf k)"
    "bprev t = (bprev s)(Buf k := Head, bnext s Head := Buf k)"
    by (simp_all add: t_def binit_buf_def Let_def set_next_def set_prev_def initsleeplock_def set_slock_def initlock_def)
  then show "dll t (rev [0..<Suc k])" using dll_push [OF l, of k] by (simp add: dll_def)
  show "\<forall>b < Suc k. \<not> slocked (slocks t (BufLock b))"
    using assms(3) by (auto simp: t_def binit_buf_def Let_def set_next_def set_prev_def initsleeplock_def set_slock_def initlock_def
        less_Suc_eq)
  show "calm p s \<Longrightarrow> calm p t" by (simp add: t_def binit_buf_def Let_def initsleeplock_def calm_initlock)
  show "bufs t = bufs s" "disk t = disk s"
    by (simp_all add: t_def binit_buf_def Let_def set_next_def set_prev_def initsleeplock_def set_slock_def initlock_def)
qed

lemma binit_ok:
  assumes "\<And>b. b < NBUF \<Longrightarrow> bdev (bufs s b) = 0 \<and> refcnt (bufs s b) = 0" and "\<And>n. length (disk s n) = BSIZE"
  shows "\<exists>t. binit s = Ok t \<and> bc_inv t \<and> dll t (rev [0..<NBUF]) \<and> content t = disk s \<and> lockset t = {}
    \<and> disk t = disk s \<and> bufs t = bufs s \<and> (calm p s \<longrightarrow> calm p t)"
proof -
  let ?s = "set_next Head Head (set_prev Head Head (initlock BcacheLock ''bcache'' s))"
  let ?I = "\<lambda>k t. dll t (rev [0..<k]) \<and> (\<forall>b < k. \<not> slocked (slocks t (BufLock b))) \<and> bufs t = bufs s \<and> disk t = disk s
      \<and> (calm p s \<longrightarrow> calm p t)"
  have "returns (binit s) (?I (length [0..<NBUF]))"
    unfolding binit_def Let_def
  proof (rule returns_for_each)
    show "?I 0 ?s"
      by (simp add: calm_initlock) (simp add: dll_def set_next_def set_prev_def initlock_def)
  next
    fix k and u :: "'a bcache_scheme"
    assume "k < length [0..<NBUF]" and "?I k u"
    then show "returns (Ok (binit_buf ([0..<NBUF] ! k) u)) (?I (Suc k))"
      using binit_step [of u k] by (simp del: upt_Suc)
  qed
  then obtain t where t: "binit s = Ok t" and i: "?I NBUF t" by (auto elim!: returnsE)
  have nc: "\<not> cached t n b" for n b using assms(1) i by (auto simp: cached_def ROOTDEV_def)
  have "bc_inv t"
  proof -
    have "dll t (rev [0..<NBUF]) \<and> set (rev [0..<NBUF]) = {..<NBUF}"
      using i by (simp add: lessThan_atLeast0 del: upt_Suc)
    moreover have "buf_ok t b" if "b < NBUF" for b using assms(1) [OF that] i that by (simp add: buf_ok_def ROOTDEV_def)
    ultimately show ?thesis using nc assms(2) i unfolding bc_inv_def by metis
  qed
  moreover have "content t = disk s" using content_uncached [of t] nc i by (auto simp: fun_eq_iff)
  moreover have "lockset t = {}" using lockset_uncached [of t] nc by auto
  ultimately show ?thesis using t i by blast
qed


definition boot_proc :: proc where
  "boot_proc = \<lparr>pstate = RUNNING, chan = None, pkilled = False, xstate = 0, pid = 1, parent = None, kstack = 0,
     psz = 0, pagetable = 0, trapframe = 0, pcontext = \<lparr>ctx_ra = 0, ctx_sp = 0, ctx_s = []\<rparr>,
     ofile = replicate 16 None, cwd = None, pname = replicate 16 0\<rparr>"

definition boot_slk :: slk where
  "boot_slk = ptable.extend
     (kmem.extend (boot_kmem\<lparr>cpus := \<lambda>_. \<lparr>c_proc = Some 0, noff = 0, intena = False\<rparr>\<rparr>)
        (ptable.fields (\<lambda>_. boot_proc) 2 (Some 0) 0x80007000 0x80001000))
     (slk.fields (\<lambda>_. \<lparr>slocked = False, slk_name = [], slk_pid = 0\<rparr>))"

text \<open>A machine that is about to initialise its cache over a zeroed disk.\<close>

definition boot_bcache :: bcache where
  "boot_bcache = slk.extend boot_slk (bcache.fields
     (\<lambda>_. \<lparr>valid = False, bdisk = False, bdev = 0, blockno = 0, refcnt = 0, bdata = []\<rparr>) id id
     (\<lambda>_. replicate BSIZE 0) [])"

lemmas boot_defs = boot_bcache_def boot_slk_def boot_kmem_def boot_proc_def
  slk.defs ptable.defs kmem.defs bcache.defs

lemma boot_bcache_calm: "calm 0 boot_bcache"
  by (simp add: boot_defs calm_def settled_def lock_free_def mach_defs)

lemma boot_bcache_fields:
  "bdev (bufs boot_bcache b) = 0" "refcnt (bufs boot_bcache b) = 0" "disk boot_bcache n = replicate BSIZE 0"
  by (simp_all add: boot_defs)

text \<open>
  C14. \<open>binit\<close> builds a well-formed cache out of zeroed memory: the list holds every buffer once, with
  consistent links in both directions, no block is locked, and the content of every block is what
  the disk holds.
\<close>

theorem binit_correct:
  assumes "\<And>b. b < NBUF \<Longrightarrow> bdev (bufs s b) = 0 \<and> refcnt (bufs s b) = 0" and "\<And>n. length (disk s n) = BSIZE"
  shows "\<exists>t. binit s = Ok t \<and> bc_inv t \<and> dll t (rev [0..<NBUF]) \<and> content t = disk s \<and> lockset t = {} \<and> disk t = disk s"
  using binit_ok [of s] assms by blast

theorem binit_correct_witness:
  "\<exists>t. binit boot_bcache = Ok t \<and> bc_inv t \<and> content t 5 = replicate 1024 0"
  using binit_correct [of boot_bcache] by (auto simp: boot_bcache_fields)



lemma find_filter: "filter P xs = y # ys \<Longrightarrow> find P xs = Some y"
  by (induction xs) (auto split: if_splits)

text \<open>
  C15. The cache recycles the least recently used buffer: with the buffers in list order \<open>bs\<close>, a block
  that is not cached gets the last buffer of \<open>bs\<close> without references, and \<open>brelse\<close> of the last
  reference moves the buffer to the front of the list and keeps the order of the others.
\<close>

theorem bcache_lru:
  assumes "calm p s" and "bc_inv s" and "dll s bs" and "set bs = {..<NBUF}"
  shows "(buf_of s n = None \<and> filter (\<lambda>b. refcnt (bufs s b) = 0) bs = xs @ [v] \<longrightarrow> (\<exists>t. bread ROOTDEV n s = Ok (v, t)))
    \<and> (bowns p s m b \<and> refs s m = 1 \<longrightarrow> (\<exists>t. brelse b s = Ok t \<and> dll t (b # remove1 b bs)))"
proof (intro conjI impI, goal_cases)
  case 1
  have len: "length bs \<le> NBUF" using assms(3,4) distinct_card [of bs] by (simp add: dll_def)
  have "find (\<lambda>b. bdev (bufs s b) = ROOTDEV \<and> blockno (bufs s b) = n) bs = None"
    using 1 assms(4) by (auto simp: find_None_iff buf_of_def cached_def)
  moreover have v: "find (\<lambda>b. refcnt (bufs s b) = 0) (rev bs) = Some v"
    using 1 by (intro find_filter) (simp add: rev_filter [symmetric])
  moreover have "\<not> slocked (slocks s (BufLock v))"
  proof -
    have "v \<in> set (filter (\<lambda>b. refcnt (bufs s b) = 0) bs)" using 1 by simp
    then have "v < NBUF" "refcnt (bufs s v) = 0" using assms(4) by auto
    then show ?thesis using bc_invD(1) [OF assms(2), of v] by (auto simp: buf_ok_def)
  qed
  ultimately show ?case
    using bget_miss(1) [OF assms(1,3) len, of ROOTDEV n v] by (simp add: bread_def split: if_splits)
next
  case 2
  let ?s = "set_buf b (\<lambda>r. r\<lparr>refcnt := refcnt r - 1\<rparr>) (untaken (BufLock b) p s)"
  have "refcnt (bufs s b) = 1" using bowns_ok(4) [OF _ assms(2)] 2 by auto
  then have "released p b s = to_front b ?s"
    by (simp add: released_def Let_def) (simp add: set_buf_def untaken_def set_slock_def)
  moreover have "dll ?s bs"
    using assms(3) dll_cong [of ?s s] by (simp add: set_buf_def untaken_def set_slock_def)
  ultimately show ?case
    using 2 bownsD(2) [of p s m b] brelse_released [OF assms(1)] dll_to_front [of ?s bs b] assms(4) by auto
qed

theorem bcache_lru_witness:
  "\<exists>t u. binit boot_bcache = Ok t \<and> bread ROOTDEV 7 t = Ok (0, u)"
proof -
  obtain t where t: "binit boot_bcache = Ok t" "bc_inv t" "lockset t = {}" "dll t (rev [0..<NBUF])"
      "bufs t = bufs boot_bcache" "calm 0 t"
    using binit_ok [of boot_bcache 0] boot_bcache_calm by (auto simp: boot_bcache_fields)
  have "buf_of t 7 = None" by (simp add: t buf_of_def find_None_iff cached_def boot_bcache_fields ROOTDEV_def)
  moreover have "filter (\<lambda>b. refcnt (bufs t b) = 0) (rev [0..<NBUF]) = rev [1..<NBUF] @ [0]"
    by (simp add: t boot_bcache_fields upt_rec)
  ultimately show ?thesis
    using bcache_lru [of 0 t "rev [0..<NBUF]" 7 "rev [1..<NBUF]" 0] t by (auto simp: lessThan_atLeast0)
qed

end
