(* ===== verification/Log.thy ===== *)
theory Log
  imports Bio
begin

text \<open>
  The redo log (\<^verbatim>\<open>kernel/log.c\<close>): transactions over the buffer cache, and recovery after a crash.
  A crash is a prefix of the sequence of disk writes that \<open>commit\<close> or the recovery issues.
\<close>

section \<open>State\<close>

abbreviation MAXOPBLOCKS :: nat where "MAXOPBLOCKS \<equiv> 10"
abbreviation LOGSIZE :: nat where "LOGSIZE \<equiv> 30"

record superblock =
  sb_magic :: uint
  sb_size :: uint
  sb_nblocks :: uint
  sb_ninodes :: uint
  sb_nlog :: uint
  sb_logstart :: uint
  sb_inodestart :: uint
  sb_bmapstart :: uint

text \<open>\<open>struct log\<close> with its \<open>struct logheader\<close>.\<close>

record log = bcache +
  lg_start :: uint
  lg_size :: int
  outstanding :: int
  committing :: bool
  lg_dev :: uint
  lh_n :: int
  lh_block :: "uint list"

section \<open>The operations\<close>

text \<open>
  \<open>read_head\<close> trusts the count of the header block: a count above \<open>LOGSIZE\<close> makes it write past the end
  of \<open>log.lh.block\<close>, which has no meaning in C.
\<close>

definition read_head :: "'z log_scheme \<Rightarrow> 'z log_scheme res" where
  "read_head s =
     andthen (bread (lg_dev s) (lg_start s) s) (\<lambda>(b, s1).
     let hd = bdata (bufs s1 b); n = sint (get32 0 hd) in
     if n > int LOGSIZE then Panic ''undefined: lh.block[i]''
     else let bl = map (\<lambda>i. get32 (4 + 4 * i) hd) [0..<nat n] in
          brelse b (s1\<lparr>lh_n := n, lh_block := bl @ drop (nat n) (lh_block s1)\<rparr>))"

definition write_head :: "'z log_scheme \<Rightarrow> 'z log_scheme res" where
  "write_head s =
     andthen (bread (lg_dev s) (lg_start s) s) (\<lambda>(b, s1).
     let h0 = put32 0 (of_int (lh_n s1)) (bdata (bufs s1 b));
         hb = fold (\<lambda>i. put32 (4 + 4 * i) (lh_block s1 ! i)) [0..<nat (lh_n s1)] h0 in
     andthen (bwrite b (set_data b hb s1)) (brelse b))"

definition install_trans :: "bool \<Rightarrow> 'z log_scheme \<Rightarrow> 'z log_scheme res" where
  "install_trans recovering s =
     for_each [0..<nat (lh_n s)] (\<lambda>tail s.
       andthen (bread (lg_dev s) (lg_start s + of_nat tail + 1) s) (\<lambda>(lbuf, s1).
       andthen (bread (lg_dev s1) (lh_block s1 ! tail) s1) (\<lambda>(dbuf, s2).
       andthen (bwrite dbuf (set_data dbuf (bdata (bufs s2 lbuf)) s2)) (\<lambda>s3.
       andthen (if \<not> recovering then bunpin dbuf s3 else Ok s3) (\<lambda>s4.
       andthen (brelse lbuf s4) (brelse dbuf)))))) s"

definition recover_from_log :: "'z log_scheme \<Rightarrow> 'z log_scheme res" where
  "recover_from_log s =
     andthen (read_head s) (\<lambda>s1.
     andthen (install_trans True s1) (\<lambda>s2.
     write_head (s2\<lparr>lh_n := 0\<rparr>)))"

definition initlog :: "uint \<Rightarrow> superblock \<Rightarrow> 'z log_scheme \<Rightarrow> 'z log_scheme res" where
  "initlog dev sb s =
     (if 4 * (LOGSIZE + 1) \<ge> BSIZE then Panic ''initlog: too big logheader''
      else recover_from_log ((initlock LogLock ''log'' s)
             \<lparr>lg_start := sb_logstart sb, lg_size := sint (sb_nlog sb), lg_dev := dev\<rparr>))"

definition begin_op :: "'z log_scheme \<Rightarrow> 'z log_scheme res" where
  "begin_op s =
     andthen (acquire LogLock s) (\<lambda>s1.
     if committing s1 then sleep LogChan LogLock s1
     else if lh_n s1 + (outstanding s1 + 1) * int MAXOPBLOCKS > int LOGSIZE then sleep LogChan LogLock s1
     else release LogLock (s1\<lparr>outstanding := outstanding s1 + 1\<rparr>))"

definition write_log :: "'z log_scheme \<Rightarrow> 'z log_scheme res" where
  "write_log s =
     for_each [0..<nat (lh_n s)] (\<lambda>tail s.
       andthen (bread (lg_dev s) (lg_start s + of_nat tail + 1) s) (\<lambda>(tobuf, s1).
       andthen (bread (lg_dev s1) (lh_block s1 ! tail) s1) (\<lambda>(frombuf, s2).
       andthen (bwrite tobuf (set_data tobuf (bdata (bufs s2 frombuf)) s2)) (\<lambda>s3.
       andthen (brelse frombuf s3) (brelse tobuf))))) s"

definition commit :: "'z log_scheme \<Rightarrow> 'z log_scheme res" where
  "commit s =
     (if lh_n s > 0
      then andthen (write_log s) (\<lambda>s1.
           andthen (write_head s1) (\<lambda>s2.
           andthen (install_trans False s2) (\<lambda>s3.
           write_head (s3\<lparr>lh_n := 0\<rparr>))))
      else Ok s)"

definition end_op :: "'z log_scheme \<Rightarrow> 'z log_scheme res" where
  "end_op s =
     andthen (acquire LogLock s) (\<lambda>s1.
     let s2 = s1\<lparr>outstanding := outstanding s1 - 1\<rparr> in
     if committing s2 then Panic ''log.committing''
     else if outstanding s2 = 0
     then andthen (release LogLock (s2\<lparr>committing := True\<rparr>)) (\<lambda>s3.
          andthen (commit s3) (\<lambda>s4.
          andthen (acquire LogLock s4) (\<lambda>s5.
          andthen (wakeup (Some LogChan) (s5\<lparr>committing := False\<rparr>)) (release LogLock))))
     else andthen (wakeup (Some LogChan) s2) (release LogLock))"

text \<open>The position of a block in the list, or its length: the search loop of \<open>log_write\<close>.\<close>

fun log_find :: "uint \<Rightarrow> uint list \<Rightarrow> nat" where
  "log_find n [] = 0"
| "log_find n (m # ms) = (if m = n then 0 else Suc (log_find n ms))"

definition log_write :: "nat \<Rightarrow> 'z log_scheme \<Rightarrow> 'z log_scheme res" where
  "log_write b s =
     andthen (acquire LogLock s) (\<lambda>s1.
     if lh_n s1 \<ge> int LOGSIZE \<or> lh_n s1 \<ge> lg_size s1 - 1 then Panic ''too big a transaction''
     else if outstanding s1 < 1 then Panic ''log_write outside of trans''
     else let n = blockno (bufs s1 b); i = log_find n (take (nat (lh_n s1)) (lh_block s1));
              s2 = s1\<lparr>lh_block := (lh_block s1)[i := n]\<rparr> in
       andthen (if int i = lh_n s2
                then andthen (bpin b s2) (\<lambda>s3. Ok (s3\<lparr>lh_n := lh_n s3 + 1\<rparr>))
                else Ok s2)
       (release LogLock))"

section \<open>Frame rules\<close>

lemma bstep_trans: "bstep p s t C R L D W \<Longrightarrow> bstep p t u C' R' L' D' W' \<Longrightarrow> bstep p s u C' R' L' D' W'"
  by (auto simp: bstep_def intro: bframe_trans)

lemma bstepD:
  assumes "bstep p s t C R L D W"
  shows "calm p t" "bc_inv t" "content t = C" "refs t = R" "lockset t = L" "disk t = D" "dwrites t = W"
    "pid (procs t q) = pid (procs s q)"
  using assms by (auto simp: bstep_def dest: bframe_pid)

lemma bframe_log:
  fixes s t :: "'z log_scheme"
  assumes "bframe p s t"
  shows "lg_start t = lg_start s" "lg_size t = lg_size s" "outstanding t = outstanding s" "committing t = committing s"
    "lg_dev t = lg_dev s" "lh_n t = lh_n s" "lh_block t = lh_block s"
  by (rule bframe_field [OF assms]; simp)+

lemma bstep_log:
  fixes s t :: "'z log_scheme"
  assumes "bstep p s t C R L D W"
  shows "lg_start t = lg_start s" "lg_size t = lg_size s" "outstanding t = outstanding s" "committing t = committing s"
    "lg_dev t = lg_dev s" "lh_n t = lh_n s" "lh_block t = lh_block s"
  using assms by (auto simp: bstep_def bframe_log)

text \<open>The cache does not depend on the variables of the log.\<close>

lemma cache_cong:
  assumes "bufs t = bufs s" and "slocks t = slocks s" and "disk t = disk s" and "bnext t = bnext s" and "bprev t = bprev s"
    and "procs t = procs s"
  shows "content t = content s" "refs t = refs s" "lockset t = lockset s" "bc_inv t = bc_inv s" "bowns p t = bowns p s"
proof -
  have c: "cached t = cached s" using assms by (auto simp: cached_def fun_eq_iff)
  show "content t = content s" "refs t = refs s" "lockset t = lockset s"
    unfolding content_def [abs_def] refs_def [abs_def] lockset_def buf_of_def [abs_def] assms(1-3) c by (rule refl)+
  show "bc_inv t = bc_inv s" using assms c by (simp add: bc_inv_def buf_ok_def dll_def)
  show "bowns p t = bowns p s" using assms c by (auto simp: bowns_def fun_eq_iff)
qed

lemma cache_log_upd [simp]:
  fixes s :: "'z log_scheme"
  shows "content (s\<lparr>lh_n := n\<rparr>) = content s" "refs (s\<lparr>lh_n := n\<rparr>) = refs s" "lockset (s\<lparr>lh_n := n\<rparr>) = lockset s"
    "bc_inv (s\<lparr>lh_n := n\<rparr>) = bc_inv s" "bowns p (s\<lparr>lh_n := n\<rparr>) = bowns p s"
    "content (s\<lparr>lh_block := b\<rparr>) = content s" "refs (s\<lparr>lh_block := b\<rparr>) = refs s" "lockset (s\<lparr>lh_block := b\<rparr>) = lockset s"
    "bc_inv (s\<lparr>lh_block := b\<rparr>) = bc_inv s" "bowns p (s\<lparr>lh_block := b\<rparr>) = bowns p s"
  by (rule cache_cong; simp)+

lemma calm_log_upd [simp]:
  fixes s :: "'z log_scheme"
  shows "calm p (s\<lparr>lh_n := n\<rparr>) = calm p s" "calm p (s\<lparr>lh_block := b\<rparr>) = calm p s"
    "calm p (s\<lparr>outstanding := i\<rparr>) = calm p s" "calm p (s\<lparr>committing := c\<rparr>) = calm p s"
  by (simp_all add: calm_def settled_def lock_free_def mycpu_def intr_get_def cpuid_def)

section \<open>Copying a block\<close>

text \<open>
  A free buffer exists as long as fewer blocks than buffers are referenced.
\<close>

lemma free_buffer:
  assumes inv: "bc_inv s" and "finite N" and "\<And>n. 0 < refs s n \<Longrightarrow> n \<in> N" and "card N < NBUF"
  shows "\<exists>b < NBUF. refcnt (bufs s b) = 0"
proof (rule ccontr)
  assume "\<not> ?thesis"
  then have pos: "0 < refcnt (bufs s b)" if "b < NBUF" for b
    using bc_invD(1) [OF inv that] that by (fastforce simp: buf_ok_def)
  then have c: "cached s (blockno (bufs s b)) b" if "b < NBUF" for b
    using bc_invD(1) [OF inv that] that by (simp add: buf_ok_def cached_def)
  have "inj_on (\<lambda>b. blockno (bufs s b)) {..<NBUF}"
    using c bc_invD(2) [OF inv] by (auto intro!: inj_onI) metis
  moreover have "(\<lambda>b. blockno (bufs s b)) ` {..<NBUF} \<subseteq> N"
    using assms(3) refs_cached [OF inv c] pos by auto
  ultimately have "card {..<NBUF} \<le> card N" using assms(2) by (meson card_inj_on_le)
  with assms(4) show False by simp
qed

section \<open>Programs over the cache\<close>

text \<open>
  \<open>sim p s0 s C R L D W Own\<close>: the machine has come from \<open>s0\<close> to \<open>s\<close> by operations of the cache; the blocks
  have contents \<open>C\<close>, references \<open>R\<close>, locks \<open>L\<close>, the disk is \<open>D\<close> after the writes \<open>W\<close>, and the thread holds the
  buffers \<open>Own\<close>. The rules below run the operations of the cache on this description.
\<close>

definition sim ::
  "nat \<Rightarrow> 'z bcache_scheme \<Rightarrow> 'z bcache_scheme \<Rightarrow> (uint \<Rightarrow> block) \<Rightarrow> (uint \<Rightarrow> int) \<Rightarrow> uint set \<Rightarrow> (uint \<Rightarrow> block)
   \<Rightarrow> (uint \<times> block) list \<Rightarrow> (uint \<rightharpoonup> nat) \<Rightarrow> bool"
where
  "sim p s0 s C R L D W Own \<longleftrightarrow> bstep p s0 s C R L D W \<and> (\<forall>n b. Own n = Some b \<longrightarrow> bowns p s n b)"

lemma sim_start:
  "calm p s \<Longrightarrow> bc_inv s \<Longrightarrow> sim p s s (content s) (refs s) (lockset s) (disk s) (dwrites s) Map.empty"
  by (simp add: sim_def bstep_def bframe_refl)

lemma sim_bstep: "sim p s0 s C R L D W Own \<Longrightarrow> bstep p s0 s C R L D W"
  by (simp add: sim_def)

lemma simD:
  assumes "sim p s0 s C R L D W Own"
  shows "calm p s" "bc_inv s" "content s = C" "refs s = R" "lockset s = L" "disk s = D" "dwrites s = W"
    "Own n = Some b \<Longrightarrow> bowns p s n b" "bframe p s0 s"
  using assms by (auto simp: sim_def bstep_def)

lemma sim_data: "sim p s0 s C R L D W Own \<Longrightarrow> Own n = Some b \<Longrightarrow> bdata (bufs s b) = C n"
  by (metis simD(2,3,8) bowns_ok(3))

lemma sim_length: "sim p s0 s C R L D W Own \<Longrightarrow> length (C n) = BSIZE"
  by (metis simD(2,3) length_content)

lemma wp_bread:
  assumes s: "sim p s0 s C R L D W Own" and "n \<notin> L" and "0 < R n \<or> (\<exists>b < NBUF. refcnt (bufs s b) = 0)"
    and "\<And>b t. sim p s0 t C (R(n := R n + 1)) (insert n L) D W (Own(n \<mapsto> b)) \<Longrightarrow> bdata (bufs t b) = C n \<Longrightarrow> returns (k b t) Q"
  shows "returns (andthen (bread ROOTDEV n s) (\<lambda>(b, t). k b t)) Q"
proof -
  note s' = simD [OF s]
  have "returns (bread ROOTDEV n s) (\<lambda>(b, t).
      bstep p s t (content s) ((refs s)(n := refs s n + 1)) (insert n (lockset s)) (disk s) (dwrites s)
      \<and> bowns p t n b \<and> bdata (bufs t b) = content s n \<and> (\<forall>m c. bowns p s m c \<longrightarrow> bowns p t m c))"
    using s' assms(2,3) by (intro bread_spec) auto
  then show ?thesis
  proof (rule returns_andthen, clarify)
    fix b t
    assume t: "bstep p s t (content s) ((refs s)(n := refs s n + 1)) (insert n (lockset s)) (disk s) (dwrites s)"
      and o: "bowns p t n b" and d: "bdata (bufs t b) = content s n" and k: "\<forall>m c. bowns p s m c \<longrightarrow> bowns p t m c"
    have "bstep p s0 t C (R(n := R n + 1)) (insert n L) D W"
      using bstep_trans [OF sim_bstep [OF s] t] s' by simp
    moreover have "\<forall>m c. (Own(n \<mapsto> b)) m = Some c \<longrightarrow> bowns p t m c" using o k s'(8) by auto
    ultimately have "sim p s0 t C (R(n := R n + 1)) (insert n L) D W (Own(n \<mapsto> b))" unfolding sim_def ..
    then show "returns (k b t) Q" using d s'(3) by (intro assms(4)) simp_all
  qed
qed

lemma sim_set_data:
  assumes s: "sim p s0 s C R L D W Own" and o: "Own n = Some b" and "length d = BSIZE"
  shows "sim p s0 (set_data b d s) (C(n := d)) R L D W Own"
proof -
  note s' = simD [OF s]
  note d = set_data_spec [OF s'(1,2) s'(8) [OF o] assms(3)]
  show ?thesis
    using bstep_trans [OF sim_bstep [OF s] d(1)] d(2) s' by (simp add: sim_def)
qed

lemma wp_bwrite:
  assumes s: "sim p s0 s C R L D W Own" and o: "Own n = Some b"
    and "\<And>t. sim p s0 t C R L (D(n := C n)) (W @ [(n, C n)]) Own \<Longrightarrow> returns (k t) Q"
  shows "returns (andthen (bwrite b s) k) Q"
proof (rule returns_andthen [OF bwrite_spec])
  note s' = simD [OF s]
  show "calm p s" "bc_inv s" "bowns p s n b" using s' o by auto
  fix t
  assume t: "bstep p s t (content s) (refs s) (lockset s) ((disk s)(n := content s n)) (dwrites s @ [(n, content s n)])
      \<and> (\<forall>m c. bowns p s m c \<longrightarrow> bowns p t m c)"
  then have "sim p s0 t C R L (D(n := C n)) (W @ [(n, C n)]) Own"
    using bstep_trans [OF sim_bstep [OF s]] s' unfolding sim_def by blast
  then show "returns (k t) Q" by (rule assms(3))
qed

lemma wp_brelse_last:
  assumes s: "sim p s0 s C R L D W Own" and o: "Own n = Some b" and "R n = 1 \<longrightarrow> C n = D n"
    and "\<And>t. sim p s0 t C (R(n := R n - 1)) (L - {n}) D W (Own(n := None)) \<Longrightarrow> Q t"
  shows "returns (brelse b s) Q"
proof (rule returns_mono [OF brelse_spec])
  note s' = simD [OF s]
  show "calm p s" "bc_inv s" "bowns p s n b" "refs s n = 1 \<longrightarrow> content s n = disk s n" using s' o assms(3) by auto
  fix t
  assume t: "bstep p s t (content s) ((refs s)(n := refs s n - 1)) (lockset s - {n}) (disk s) (dwrites s)
      \<and> (\<forall>m c. m \<noteq> n \<longrightarrow> bowns p s m c \<longrightarrow> bowns p t m c)"
  then have "bstep p s0 t C (R(n := R n - 1)) (L - {n}) D W"
    using bstep_trans [OF sim_bstep [OF s], of t] s' by simp
  moreover have "\<forall>m c. (Own(n := None)) m = Some c \<longrightarrow> bowns p t m c" using t s'(8) by auto
  ultimately show "Q t" by (intro assms(4)) (simp add: sim_def)
qed

lemma wp_brelse:
  assumes "sim p s0 s C R L D W Own" and "Own n = Some b" and "R n = 1 \<longrightarrow> C n = D n"
    and "\<And>t. sim p s0 t C (R(n := R n - 1)) (L - {n}) D W (Own(n := None)) \<Longrightarrow> returns (k t) Q"
  shows "returns (andthen (brelse b s) k) Q"
  by (rule returns_andthen [OF wp_brelse_last [OF assms(1-3)]]) (fact assms(4))+

lemma sim_add_ref:
  assumes s: "sim p s0 s C R L D W Own" and o: "Own n = Some b" and "0 < R n + d"
  shows "sim p s0 (add_ref d b s) C (R(n := R n + d)) L D W Own"
proof -
  note s' = simD [OF s]
  note a = add_ref_spec [OF s'(1,2) s'(8) [OF o]]
  show ?thesis
    using bstep_trans [OF sim_bstep [OF s] a(1)] a(2) s' assms(3) by (simp add: sim_def)
qed

text \<open>The body of the loop of \<open>write_log\<close>: block \<open>m\<close> is copied to \<open>n\<close>.\<close>

lemma copy_block:
  assumes s: "sim p s0 s C R L D W Map.empty" and mn: "m \<noteq> n" and l: "m \<notin> L" "n \<notin> L"
    and room: "\<exists>b < NBUF. refcnt (bufs s b) = 0" and m: "0 < R m" and n: "R n = 0"
    and dv: "\<And>t. bframe p s0 t \<Longrightarrow> dv t = ROOTDEV \<and> bk t = m"
  shows "returns (andthen (bread ROOTDEV n s) (\<lambda>(tobuf, s1).
       andthen (bread (dv s1) (bk s1) s1) (\<lambda>(frombuf, s2).
       andthen (bwrite tobuf (set_data tobuf (bdata (bufs s2 frombuf)) s2)) (\<lambda>s3.
       andthen (brelse frombuf s3) (brelse tobuf)))))
     (\<lambda>t. sim p s0 t (C(n := C m)) R L (D(n := C m)) (W @ [(n, C m)]) Map.empty)"
proof (rule wp_bread [OF s l(2) disjI2 [OF room]])
  fix tb s1
  assume s1: "sim p s0 s1 C (R(n := R n + 1)) (insert n L) D W (Map.empty(n \<mapsto> tb))"
  show "returns (andthen (bread (dv s1) (bk s1) s1) (\<lambda>(frombuf, s2).
       andthen (bwrite tb (set_data tb (bdata (bufs s2 frombuf)) s2)) (\<lambda>s3.
       andthen (brelse frombuf s3) (brelse tb))))
     (\<lambda>t. sim p s0 t (C(n := C m)) R L (D(n := C m)) (W @ [(n, C m)]) Map.empty)"
    unfolding dv [OF simD(9) [OF s1], THEN conjunct1] dv [OF simD(9) [OF s1], THEN conjunct2]
  proof (rule wp_bread [OF s1])
    show "m \<notin> insert n L" "0 < (R(n := R n + 1)) m \<or> (\<exists>b < NBUF. refcnt (bufs s1 b) = 0)" using mn l m by auto
    fix fb s2
    assume s2: "sim p s0 s2 C (R(n := R n + 1, m := (R(n := R n + 1)) m + 1)) (insert m (insert n L)) D W
        (Map.empty(n \<mapsto> tb, m \<mapsto> fb))" and d: "bdata (bufs s2 fb) = C m"
    have "sim p s0 (set_data tb (C m) s2) (C(n := C m)) (R(n := R n + 1, m := (R(n := R n + 1)) m + 1))
        (insert m (insert n L)) D W (Map.empty(n \<mapsto> tb, m \<mapsto> fb))"
      by (rule sim_set_data [OF s2]) (use mn sim_length [OF s] in auto)
    then show "returns (andthen (bwrite tb (set_data tb (bdata (bufs s2 fb)) s2)) (\<lambda>s3.
        andthen (brelse fb s3) (brelse tb)))
     (\<lambda>t. sim p s0 t (C(n := C m)) R L (D(n := C m)) (W @ [(n, C m)]) Map.empty)"
      unfolding d
      apply (rule wp_bwrite [where n = n])
      subgoal using mn by simp
      apply (erule wp_brelse [where n = m])
      subgoal using mn by simp
      subgoal using mn m by simp
      apply (erule wp_brelse_last [where n = n])
      subgoal using mn by simp
      subgoal by simp
      apply (erule back_subst [of "\<lambda>x. x"])
      using mn n l by (auto simp: fun_eq_iff intro!: arg_cong2 [where f = "\<lambda>a b. sim p s0 _ _ a b _ _ _"])
  qed
qed

lemma sim_clean: "sim p s0 s C R L D W Own \<Longrightarrow> R n = 0 \<Longrightarrow> C n = D n"
proof -
  assume s: "sim p s0 s C R L D W Own" and r: "R n = 0"
  note s' = simD [OF s]
  show "C n = D n"
  proof (cases "\<exists>b. cached s n b")
    case True
    then obtain b where b: "cached s n b" ..
    then have "refcnt (bufs s b) = 0" using r s'(4) refs_cached [OF s'(2) b] by simp
    then show ?thesis
      using b s'(3,6) bc_invD(1) [OF s'(2), of b] content_cached [OF s'(2) b] by (simp add: buf_ok_def cached_def)
  next
    case False
    then show ?thesis using s'(3,6) content_uncached [of s n] by simp
  qed
qed

lemma sim_nonneg: "sim p s0 s C R L D W Own \<Longrightarrow> 0 \<le> R n"
  using simD(2,4) [of p s0 s C R L D W Own] bc_invD(1) [of s]
  by (auto simp: refs_def buf_ok_def cached_def dest!: buf_of_cached split: option.splits)

lemma sim_room:
  assumes s: "sim p s0 s C R L D W Own" and "finite {k. 0 < R k}" and "card {k. 0 < R k} < NBUF"
  shows "\<exists>b < NBUF. refcnt (bufs s b) = 0"
  using simD [OF s] assms(2,3) by (intro free_buffer [of s "{k. 0 < R k}"]) auto

text \<open>The body of the loop of \<open>install_trans\<close>: block \<open>m\<close> of the log goes to its home \<open>n\<close>.\<close>

lemma install_block:
  assumes s: "sim p s0 s C R L D W Map.empty" and mn: "m \<noteq> n" and l: "m \<notin> L" "n \<notin> L"
    and fin: "finite {k. 0 < R k}" and room: "card {k. 0 < R k} < NBUF" "0 < R n \<or> card {k. 0 < R k} + 1 < NBUF"
    and m: "R m = 0" and n: "R n = (if recovering then 0 else 1)"
    and dv: "\<And>t. bframe p s0 t \<Longrightarrow> dv t = ROOTDEV \<and> bk t = n"
  shows "returns (andthen (bread ROOTDEV m s) (\<lambda>(lbuf, s1).
       andthen (bread (dv s1) (bk s1) s1) (\<lambda>(dbuf, s2).
       andthen (bwrite dbuf (set_data dbuf (bdata (bufs s2 lbuf)) s2)) (\<lambda>s3.
       andthen (if \<not> recovering then bunpin dbuf s3 else Ok s3) (\<lambda>s4.
       andthen (brelse lbuf s4) (brelse dbuf))))))
     (\<lambda>t. sim p s0 t (C(n := C m)) (R(n := 0)) L (D(n := C m)) (W @ [(n, C m)]) Map.empty)" (is "returns _ ?Q")
proof (rule wp_bread [OF s l(1) disjI2 [OF sim_room [OF s fin room(1)]]])
  fix lb s1
  assume s1: "sim p s0 s1 C (R(m := R m + 1)) (insert m L) D W (Map.empty(m \<mapsto> lb))"
  show "returns (andthen (bread (dv s1) (bk s1) s1) (\<lambda>(dbuf, s2).
       andthen (bwrite dbuf (set_data dbuf (bdata (bufs s2 lb)) s2)) (\<lambda>s3.
       andthen (if \<not> recovering then bunpin dbuf s3 else Ok s3) (\<lambda>s4.
       andthen (brelse lb s4) (brelse dbuf))))) ?Q"
    unfolding dv [OF simD(9) [OF s1], THEN conjunct1] dv [OF simD(9) [OF s1], THEN conjunct2]
  proof (rule wp_bread [OF s1])
    show "n \<notin> insert m L" using mn l by auto
    have eq: "{k. 0 < (R(m := R m + 1)) k} = insert m {k. 0 < R k}" using m by auto
    have "card (insert m {k. 0 < R k}) = card {k. 0 < R k} + 1" using fin m by simp
    then have "\<exists>b < NBUF. refcnt (bufs s1 b) = 0" if "card {k. 0 < R k} + 1 < NBUF"
      using that fin by (intro sim_room [OF s1]; unfold eq) auto
    then show "0 < (R(m := R m + 1)) n \<or> (\<exists>b < NBUF. refcnt (bufs s1 b) = 0)" using mn room(2) by auto
    fix db s2
    assume s2: "sim p s0 s2 C (R(m := R m + 1, n := (R(m := R m + 1)) n + 1)) (insert n (insert m L)) D W
        (Map.empty(m \<mapsto> lb, n \<mapsto> db))"
    have d: "bdata (bufs s2 lb) = C m" by (rule sim_data [OF s2]) (use mn in simp)
    have s3: "sim p s0 (set_data db (C m) s2) (C(n := C m)) (R(m := R m + 1, n := (R(m := R m + 1)) n + 1))
        (insert n (insert m L)) D W (Map.empty(m \<mapsto> lb, n \<mapsto> db))"
      by (rule sim_set_data [OF s2]) (use mn sim_length [OF s] in auto)
    show "returns (andthen (bwrite db (set_data db (bdata (bufs s2 lb)) s2)) (\<lambda>s3.
       andthen (if \<not> recovering then bunpin db s3 else Ok s3) (\<lambda>s4.
       andthen (brelse lb s4) (brelse db)))) ?Q"
      unfolding d
    proof (rule wp_bwrite [OF s3, where n = n])
      fix s4
      assume s4: "sim p s0 s4 (C(n := C m)) (R(m := R m + 1, n := (R(m := R m + 1)) n + 1)) (insert n (insert m L))
          (D(n := (C(n := C m)) n)) (W @ [(n, (C(n := C m)) n)]) (Map.empty(m \<mapsto> lb, n \<mapsto> db))"
      let ?s5 = "if \<not> recovering then add_ref (- 1) db s4 else s4"
      have s5: "sim p s0 ?s5 (C(n := C m)) (R(m := 1, n := 1)) (insert n (insert m L)) (D(n := C m)) (W @ [(n, C m)])
          (Map.empty(m \<mapsto> lb, n \<mapsto> db))"
        using sim_add_ref [OF s4, of n db "- 1"] s4 mn m n by auto
      have e: "(if \<not> recovering then bunpin db s4 else Ok s4) = Ok ?s5"
        using simD(1) [OF s4] by (simp add: bunpin_ok)
      show "returns (andthen (if \<not> recovering then bunpin db s4 else Ok s4) (\<lambda>s4. andthen (brelse lb s4) (brelse db))) ?Q"
        unfolding e andthen.simps
      proof (rule wp_brelse [OF s5, where n = m])
        show "(R(m := 1, n := 1)) m = 1 \<longrightarrow> (C(n := C m)) m = (D(n := C m)) m" using mn sim_clean [OF s m] by auto
        fix s6
        assume s6: "sim p s0 s6 (C(n := C m)) (R(m := 1, n := 1, m := (R(m := 1, n := 1)) m - 1)) (insert n (insert m L) - {m})
          (D(n := C m)) (W @ [(n, C m)]) (Map.empty(m \<mapsto> lb, n \<mapsto> db, m := None))"
        show "returns (brelse db s6) ?Q"
        proof (rule wp_brelse_last [OF s6, where n = n])
          fix t
          assume t: "sim p s0 t (C(n := C m))
            (R(m := 1, n := 1, m := (R(m := 1, n := 1)) m - 1, n := (R(m := 1, n := 1, m := (R(m := 1, n := 1)) m - 1)) n - 1))
            (insert n (insert m L) - {m} - {n}) (D(n := C m)) (W @ [(n, C m)]) (Map.empty(m \<mapsto> lb, n \<mapsto> db, m := None, n := None))"
          have "R(m := 1, n := 1, m := (R(m := 1, n := 1)) m - 1, n := (R(m := 1, n := 1, m := (R(m := 1, n := 1)) m - 1)) n - 1)
              = R(n := 0)" using mn m by auto
          moreover have "insert n (insert m L) - {m} - {n} = L" using l by auto
          moreover have "Map.empty(m \<mapsto> lb, n \<mapsto> db, m := None, n := None) = Map.empty" by auto
          ultimately show "?Q t" using t by (simp only:)
        qed (use mn in auto)
      qed (use mn in auto)
    qed (use mn in auto)
  qed
qed

section \<open>The log on disk\<close>

definition hdr_n :: "block \<Rightarrow> int" where "hdr_n h = sint (get32 0 h)"
definition hdr_block :: "block \<Rightarrow> nat \<Rightarrow> uint" where "hdr_block h i = get32 (4 + 4 * i) h"

definition hdr_put :: "nat \<Rightarrow> uint list \<Rightarrow> block \<Rightarrow> block" where
  "hdr_put n bl h = fold (\<lambda>i. put32 (4 + 4 * i) (bl ! i)) [0..<n] (put32 0 (of_nat n) h)"

lemma hdr_put_blocks:
  assumes "length h = BSIZE" and "k \<le> LOGSIZE"
  shows "length (fold (\<lambda>i. put32 (4 + 4 * i) (bl ! i)) [0..<k] h) = BSIZE
    \<and> get32 0 (fold (\<lambda>i. put32 (4 + 4 * i) (bl ! i)) [0..<k] h) = get32 0 h
    \<and> (\<forall>i < k. get32 (4 + 4 * i) (fold (\<lambda>i. put32 (4 + 4 * i) (bl ! i)) [0..<k] h) = bl ! i)"
  using assms(2)
proof (induction k)
  case (Suc k)
  then show ?case by (auto simp: less_Suc_eq get32_put32_other)
qed (simp add: assms(1))

lemma sint_small: "n \<le> LOGSIZE \<Longrightarrow> sint (of_nat n :: uint) = int n"
  by (simp add: signed_of_nat signed_take_bit_int_eq_self)

lemma hdr_put:
  assumes "length h = BSIZE" and "n \<le> LOGSIZE"
  shows "length (hdr_put n bl h) = BSIZE" "hdr_n (hdr_put n bl h) = int n" "i < n \<Longrightarrow> hdr_block (hdr_put n bl h) i = bl ! i"
  using hdr_put_blocks [of "put32 0 (of_nat n) h" n bl] assms
  by (simp_all add: hdr_put_def hdr_n_def hdr_block_def sint_small)

definition log_blk :: "uint \<Rightarrow> nat \<Rightarrow> uint" where
  "log_blk start i = start + of_nat i + 1"

definition log_area :: "uint \<Rightarrow> int \<Rightarrow> uint set" where
  "log_area start sz = (\<lambda>i. start + of_nat i) ` {..<nat sz}"

lemma unat_of_nat32: "n < 2 ^ 32 \<Longrightarrow> unat (of_nat n :: uint) = n"
  by (simp add: unat_of_nat take_bit_nat_eq_self)

lemma of_nat32_inj: "i < 2 ^ 32 \<Longrightarrow> j < 2 ^ 32 \<Longrightarrow> (of_nat i :: uint) = of_nat j \<longleftrightarrow> i = j"
  by (metis unat_of_nat32)

lemma log_blk_inj: "i < LOGSIZE \<Longrightarrow> j < LOGSIZE \<Longrightarrow> log_blk start i = log_blk start j \<longleftrightarrow> i = j"
  using of_nat32_inj [of i j] by (simp add: log_blk_def)

lemma log_blk_start: "i < LOGSIZE \<Longrightarrow> log_blk start i \<noteq> start"
  using of_nat32_inj [of "Suc i" 0] by (simp add: log_blk_def add.assoc) (simp add: add.commute)

lemma log_blk_area: "int i + 1 < sz \<Longrightarrow> log_blk start i \<in> log_area start sz"
  unfolding log_area_def log_blk_def by (rule image_eqI [of _ _ "Suc i"]) auto

lemma start_area: "0 < sz \<Longrightarrow> start \<in> log_area start sz"
  unfolding log_area_def by (rule image_eqI [of _ _ 0]) auto

section \<open>Sequences of disk writes\<close>

definition apply_writes :: "(uint \<times> block) list \<Rightarrow> (uint \<Rightarrow> block) \<Rightarrow> uint \<Rightarrow> block" where
  "apply_writes ws d = fold (\<lambda>(n, b) d. d(n := b)) ws d"

lemma apply_writes_Nil [simp]: "apply_writes [] d = d"
  by (simp add: apply_writes_def)

lemma apply_writes_append: "apply_writes (vs @ ws) d = apply_writes ws (apply_writes vs d)"
  by (simp add: apply_writes_def)

lemma apply_writes_single [simp]: "apply_writes [(n, b)] d = d(n := b)"
  by (simp add: apply_writes_def)

lemma apply_writes_Suc:
  "k < length ws \<Longrightarrow> apply_writes (take (Suc k) ws) d = (apply_writes (take k ws) d)(fst (ws ! k) := snd (ws ! k))"
  by (simp add: take_Suc_conv_app_nth apply_writes_def split_def)

lemma apply_writes_other: "n \<notin> fst ` set ws \<Longrightarrow> apply_writes ws d n = d n"
proof (induction ws arbitrary: d)
  case (Cons w ws)
  then show ?case by (cases w) (auto simp: apply_writes_def)
qed simp

lemma apply_writes_hit:
  assumes "distinct (map fst ws)" and "(n, b) \<in> set ws"
  shows "apply_writes ws d n = b"
  using assms
proof (induction ws arbitrary: d)
  case (Cons w ws)
  obtain m c where w: "w = (m, c)" by (cases w)
  have eq: "apply_writes (w # ws) d = apply_writes ws (d(m := c))" by (simp add: apply_writes_def w)
  show ?case
  proof (cases "(n, b) = w")
    case True
    then have "n \<notin> fst ` set ws" using Cons.prems(1) w by auto
    with True show ?thesis unfolding eq by (simp add: apply_writes_other w)
  next
    case False
    with Cons show ?thesis unfolding eq by auto
  qed
qed simp

section \<open>The loops\<close>

lemma write_head_spec:
  fixes s :: "'z log_scheme"
  assumes s: "sim p s0 s C R {} D W Map.empty" and "lg_dev s = ROOTDEV" and "R (lg_start s) = 0"
    and "finite {k. 0 < R k}" and "card {k. 0 < R k} < NBUF" and n: "0 \<le> lh_n s" "lh_n s \<le> int LOGSIZE"
  defines "h \<equiv> hdr_put (nat (lh_n s)) (lh_block s) (C (lg_start s))"
  shows "returns (write_head s) (\<lambda>t. sim p s0 t (C(lg_start s := h)) R {} (D(lg_start s := h)) (W @ [(lg_start s, h)]) Map.empty)"
    (is "returns _ ?Q")
proof -
  let ?st = "lg_start s"
  have hd: "fold (\<lambda>i. put32 (4 + 4 * i) (lh_block s ! i)) [0..<nat (lh_n s)] (put32 0 (of_int (lh_n s)) (C ?st)) = h"
  proof -
    have "(of_int (lh_n s) :: uint) = of_nat (nat (lh_n s))" using n(1) by simp
    then show ?thesis by (simp only: h_def hdr_put_def)
  qed
  show ?thesis
    unfolding write_head_def assms(2)
  proof (rule wp_bread [OF s _ disjI2 [OF sim_room [OF s assms(4,5)]]])
    fix b t
    assume t: "sim p s0 t C (R(?st := R ?st + 1)) (insert ?st {}) D W (Map.empty(?st \<mapsto> b))" and d: "bdata (bufs t b) = C ?st"
    have same: "lh_n t = lh_n s" "lh_block t = lh_block s"
      using bframe_log(6,7) [OF simD(9) [OF s]] bframe_log(6,7) [OF simD(9) [OF t]] by simp_all
    have u: "sim p s0 (set_data b h t) (C(?st := h)) (R(?st := R ?st + 1)) {?st} D W (Map.empty(?st \<mapsto> b))"
      using sim_set_data [OF t, of ?st b h] hdr_put(1) [of "C ?st" "nat (lh_n s)"] sim_length [OF s] n by (simp add: h_def)
    show "returns (let h0 = put32 0 (of_int (lh_n t)) (bdata (bufs t b));
         hb = fold (\<lambda>i. put32 (4 + 4 * i) (lh_block t ! i)) [0..<nat (lh_n t)] h0 in
        andthen (bwrite b (set_data b hb t)) (brelse b)) ?Q"
      unfolding Let_def d same hd
    proof (rule wp_bwrite [OF u, of ?st])
      fix v
      assume v: "sim p s0 v (C(?st := h)) (R(?st := R ?st + 1)) {?st} (D(?st := (C(?st := h)) ?st))
         (W @ [(?st, (C(?st := h)) ?st)]) (Map.empty(?st \<mapsto> b))"
      show "returns (brelse b v) ?Q"
        by (rule wp_brelse_last [OF v, of ?st]) (use assms(3) in \<open>auto simp: fun_upd_idem\<close>)
    qed simp
  qed simp
qed

text \<open>
  The writes of the two loops, for the block list \<open>bl\<close> and contents \<open>C\<close>: the blocks into the log, and
  the blocks of the log to their homes.
\<close>

definition log_writes :: "uint \<Rightarrow> uint list \<Rightarrow> (uint \<Rightarrow> block) \<Rightarrow> (uint \<times> block) list" where
  "log_writes start bl C = map (\<lambda>i. (log_blk start i, C (bl ! i))) [0..<length bl]"

definition home_writes :: "uint \<Rightarrow> uint list \<Rightarrow> (uint \<Rightarrow> block) \<Rightarrow> (uint \<times> block) list" where
  "home_writes start bl C = map (\<lambda>i. (bl ! i, C (log_blk start i))) [0..<length bl]"

lemma fst_log_writes: "fst ` set (take k (log_writes start bl C)) \<subseteq> log_blk start ` {..<length bl}"
  by (auto simp: log_writes_def dest!: in_set_takeD)

lemma fst_home_writes: "fst ` set (take k (home_writes start bl C)) \<subseteq> set bl"
  by (auto simp: home_writes_def dest!: in_set_takeD)

text \<open>A list of blocks a transaction may hold: different blocks outside the log, fewer than the log has room for.\<close>

definition log_list :: "uint \<Rightarrow> int \<Rightarrow> uint list \<Rightarrow> bool" where
  "log_list start sz bl \<longleftrightarrow> distinct bl \<and> set bl \<inter> log_area start sz = {} \<and> int (length bl) < sz \<and> length bl < NBUF"

lemma log_listD:
  assumes "log_list start sz bl"
  shows "distinct bl" "length bl < NBUF" "i < length bl \<Longrightarrow> bl ! i \<notin> log_area start sz"
    "i < length bl \<Longrightarrow> log_blk start i \<in> log_area start sz" "start \<in> log_area start sz"
    "i < length bl \<Longrightarrow> j < length bl \<Longrightarrow> bl ! i \<noteq> log_blk start j" "i < length bl \<Longrightarrow> bl ! i \<noteq> start"
proof -
  show "distinct bl" "length bl < NBUF" using assms by (simp_all add: log_list_def)
  show a: "bl ! i \<notin> log_area start sz" if "i < length bl" for i using assms nth_mem [OF that] by (auto simp: log_list_def)
  show b: "log_blk start i \<in> log_area start sz" if "i < length bl" for i
    using assms that by (intro log_blk_area) (auto simp: log_list_def)
  show c: "start \<in> log_area start sz" using assms by (intro start_area) (auto simp: log_list_def)
  show "bl ! i \<noteq> log_blk start j" if "i < length bl" "j < length bl" using a b that by metis
  show "bl ! i \<noteq> start" if "i < length bl" using a c that by metis
qed

lemma write_log_spec:
  fixes s :: "'z log_scheme"
  assumes s: "sim p s0 s C R {} D W Map.empty" and dev: "lg_dev s = ROOTDEV" and n: "lh_n s = int (length bl)"
    and bl: "take (length bl) (lh_block s) = bl" and l: "log_list (lg_start s) sz bl"
    and R: "R = (\<lambda>k. if k \<in> set bl then 1 else 0)"
  defines "ws \<equiv> log_writes (lg_start s) bl C"
  shows "returns (write_log s) (\<lambda>t. sim p s0 t (apply_writes ws C) R {} (apply_writes ws D) (W @ ws) Map.empty)"
proof -
  let ?st = "lg_start s"
  let ?I = "\<lambda>k t. sim p s0 t (apply_writes (take k ws) C) R {} (apply_writes (take k ws) D) (W @ take k ws) Map.empty"
  note ld = log_listD [OF l]
  have len: "length ws = length bl" by (simp add: ws_def log_writes_def)
  have "returns (write_log s) (?I (length [0..<nat (lh_n s)]))"
    unfolding write_log_def
  proof (rule returns_for_each)
    show "?I 0 s" using s by simp
  next
    fix k and t :: "'z log_scheme"
    assume "k < length [0..<nat (lh_n s)]" and t: "?I k t"
    then have k: "k < length bl" "[0..<nat (lh_n s)] ! k = k" by (simp_all add: n)
    have same: "lg_dev t = ROOTDEV" "lg_start t = ?st" "lh_block t = lh_block s"
      using bframe_log [OF simD(9) [OF s]] bframe_log [OF simD(9) [OF t]] dev by simp_all
    have blk: "lh_block s ! k = bl ! k" using k(1) bl by (metis nth_take)
    have wk: "ws ! k = (log_blk ?st k, C (bl ! k))" using k(1) by (simp add: ws_def log_writes_def)
    have Ck: "apply_writes (take k ws) C (bl ! k) = C (bl ! k)"
      unfolding ws_def using ld(6) k(1) fst_log_writes [of k ?st bl C] by (intro apply_writes_other) fastforce
    have set: "{k. 0 < R k} = set bl" by (auto simp: R)
    have step: "apply_writes (take (Suc k) ws) f = (apply_writes (take k ws) f)(log_blk ?st k := C (bl ! k))" for f
      using apply_writes_Suc [of k ws f] k(1) len wk by simp
    have tk: "take (Suc k) ws = take k ws @ [(log_blk ?st k, C (bl ! k))]" using k(1) len wk by (simp add: take_Suc_conv_app_nth)
    have at: "lg_dev t = ROOTDEV" "lg_start t + of_nat k + 1 = log_blk ?st k" by (simp_all add: same log_blk_def)
    show "returns (andthen (bread (lg_dev t) (lg_start t + of_nat ([0..<nat (lh_n s)] ! k) + 1) t) (\<lambda>(tobuf, s1).
       andthen (bread (lg_dev s1) (lh_block s1 ! ([0..<nat (lh_n s)] ! k)) s1) (\<lambda>(frombuf, s2).
       andthen (bwrite tobuf (set_data tobuf (bdata (bufs s2 frombuf)) s2)) (\<lambda>s3.
       andthen (brelse frombuf s3) (brelse tobuf))))) (?I (Suc k))"
      unfolding k(2) at
    proof (rule returns_mono [OF copy_block [OF t, where m = "bl ! k"]])
      show "\<exists>b < NBUF. refcnt (bufs t b) = 0"
        by (rule sim_room [OF t]; unfold set) (use ld(2) card_length [of bl] in \<open>auto simp: less_le_trans\<close>)
      show "0 < R (bl ! k)" using k(1) by (simp add: R)
      show "R (log_blk ?st k) = 0" using ld(6) k(1) by (auto simp: R in_set_conv_nth)
      show "bl ! k \<noteq> log_blk ?st k" using ld(6) k(1) by blast
      show "lg_dev u = ROOTDEV \<and> lh_block u ! k = bl ! k" if "bframe p s0 u" for u :: "'z log_scheme"
        using bframe_log [OF that] bframe_log [OF simD(9) [OF s]] blk dev by simp
    qed (use Ck in \<open>simp_all add: step [unfolded tk] tk\<close>)
  qed
  then show ?thesis by (simp add: n len)
qed

lemma install_trans_spec:
  fixes s :: "'z log_scheme"
  assumes s: "sim p s0 s C R {} D W Map.empty" and dev: "lg_dev s = ROOTDEV" and n: "lh_n s = int (length bl)"
    and bl: "take (length bl) (lh_block s) = bl" and l: "log_list (lg_start s) sz bl"
    and R: "R = (\<lambda>k. if k \<in> set bl \<and> \<not> recovering then 1 else 0)"
  defines "ws \<equiv> home_writes (lg_start s) bl C"
  shows "returns (install_trans recovering s) (\<lambda>t. sim p s0 t (apply_writes ws C) (\<lambda>_. 0) {} (apply_writes ws D) (W @ ws) Map.empty)"
proof -
  let ?st = "lg_start s"
  let ?R = "\<lambda>k n. if n \<in> set (take k bl) then 0 else R n"
  let ?I = "\<lambda>k t. sim p s0 t (apply_writes (take k ws) C) (?R k) {} (apply_writes (take k ws) D) (W @ take k ws) Map.empty"
  note ld = log_listD [OF l]
  have len: "length ws = length bl" by (simp add: ws_def home_writes_def)
  have "returns (install_trans recovering s) (?I (length [0..<nat (lh_n s)]))"
    unfolding install_trans_def
  proof (rule returns_for_each)
    show "?I 0 s" using s by simp
  next
    fix k and t :: "'z log_scheme"
    assume "k < length [0..<nat (lh_n s)]" and t: "?I k t"
    then have k: "k < length bl" "[0..<nat (lh_n s)] ! k = k" by (simp_all add: n)
    have same: "lg_dev t = ROOTDEV" "lg_start t = ?st" "lh_block t = lh_block s"
      using bframe_log [OF simD(9) [OF s]] bframe_log [OF simD(9) [OF t]] dev by simp_all
    have blk: "lh_block s ! k = bl ! k" using k(1) bl by (metis nth_take)
    have wk: "ws ! k = (bl ! k, C (log_blk ?st k))" using k(1) by (simp add: ws_def home_writes_def)
    have "log_blk ?st k \<notin> set bl" using ld(6) k(1) by (auto simp: in_set_conv_nth)
    then have Ck: "apply_writes (take k ws) C (log_blk ?st k) = C (log_blk ?st k)" and Rl: "?R k (log_blk ?st k) = 0"
      unfolding ws_def using fst_home_writes [of k ?st bl C] by (auto intro!: apply_writes_other simp: R)
    have bk: "bl ! k \<notin> set (take k bl)" using ld(1) k(1) by (auto simp: in_set_conv_nth nth_eq_iff_index_eq)
    have Rn: "(?R k)(bl ! k := 0) = ?R (Suc k)" using k(1) by (auto simp: take_Suc_conv_app_nth)
    have sub: "{n. 0 < ?R k n} \<subseteq> (if recovering then {} else set bl)" by (auto simp: R)
    then have sub': "{n. 0 < ?R k n} \<subseteq> set bl" by (auto split: if_splits)
    have card: "finite {n. 0 < ?R k n}" "card {n. 0 < ?R k n} < NBUF"
    proof -
      show "finite {n. 0 < ?R k n}" using sub' by (rule finite_subset) simp
      have "card {n. 0 < ?R k n} \<le> card (set bl)" using sub' by (intro card_mono) simp
      then show "card {n. 0 < ?R k n} < NBUF" using ld(2) card_length [of bl] by linarith
    qed
    have step: "apply_writes (take (Suc k) ws) f = (apply_writes (take k ws) f)(bl ! k := C (log_blk ?st k))" for f
      using apply_writes_Suc [of k ws f] k(1) len wk by simp
    have tk: "take (Suc k) ws = take k ws @ [(bl ! k, C (log_blk ?st k))]" using k(1) len wk by (simp add: take_Suc_conv_app_nth)
    have at: "lg_dev t = ROOTDEV" "lg_start t + of_nat k + 1 = log_blk ?st k" by (simp_all add: same log_blk_def)
    show "returns (andthen (bread (lg_dev t) (lg_start t + of_nat ([0..<nat (lh_n s)] ! k) + 1) t) (\<lambda>(lbuf, s1).
       andthen (bread (lg_dev s1) (lh_block s1 ! ([0..<nat (lh_n s)] ! k)) s1) (\<lambda>(dbuf, s2).
       andthen (bwrite dbuf (set_data dbuf (bdata (bufs s2 lbuf)) s2)) (\<lambda>s3.
       andthen (if \<not> recovering then bunpin dbuf s3 else Ok s3) (\<lambda>s4.
       andthen (brelse lbuf s4) (brelse dbuf)))))) (?I (Suc k))"
      unfolding k(2) at
    proof (rule returns_mono [OF install_block [OF t _ _ _ card, where n = "bl ! k"]])
      show "?R k (bl ! k) = (if recovering then 0 else 1)" using bk k(1) by (simp add: R)
      show "?R k (log_blk ?st k) = 0" by (rule Rl)
      show "log_blk ?st k \<noteq> bl ! k" using ld(6) k(1) by metis
      show "0 < ?R k (bl ! k) \<or> card {n. 0 < ?R k n} + 1 < NBUF" using bk k(1) sub by (auto simp: R)
      show "lg_dev u = ROOTDEV \<and> lh_block u ! k = bl ! k" if "bframe p s0 u" for u :: "'z log_scheme"
        using bframe_log [OF that] bframe_log [OF simD(9) [OF s]] blk dev by simp
    qed (use Ck Rn in \<open>simp_all add: step [unfolded tk] tk\<close>)
  qed
  moreover have "?R (length bl) = (\<lambda>_. 0)" by (auto simp: R)
  ultimately show ?thesis by (simp add: n len)
qed

section \<open>Commit and recovery\<close>

text \<open>
  The logical content of a disk: what recovery would make of it. If the header of the log lists a
  block, its content is the copy in the log.
\<close>

definition logical :: "uint \<Rightarrow> (uint \<Rightarrow> block) \<Rightarrow> uint \<Rightarrow> block" where
  "logical start d m =
     (case find (\<lambda>i. hdr_block (d start) i = m) [0..<nat (hdr_n (d start))] of
        Some i \<Rightarrow> d (log_blk start i) | None \<Rightarrow> d m)"

definition hdr_list :: "block \<Rightarrow> uint list" where
  "hdr_list h = map (hdr_block h) [0..<nat (hdr_n h)]"

lemma logical_listed:
  assumes "distinct (hdr_list (d start))" and "i < nat (hdr_n (d start))"
  shows "logical start d (hdr_block (d start) i) = d (log_blk start i)"
proof -
  let ?n = "nat (hdr_n (d start))" and ?P = "\<lambda>j. hdr_block (d start) j = hdr_block (d start) i"
  have "find ?P [0..<?n] \<noteq> None" using assms(2) by (auto simp: find_None_iff)
  then obtain j where j: "find ?P [0..<?n] = Some j" by auto
  then have "j < ?n" "hdr_block (d start) j = hdr_block (d start) i" by (auto simp: find_Some_iff)
  then have "j = i" using assms by (auto simp: hdr_list_def distinct_conv_nth)
  then show ?thesis by (simp add: logical_def j)
qed

lemma logical_unlisted: "m \<notin> set (hdr_list (d start)) \<Longrightarrow> logical start d m = d m"
proof -
  assume "m \<notin> set (hdr_list (d start))"
  then have "find (\<lambda>i. hdr_block (d start) i = m) [0..<nat (hdr_n (d start))] = None"
    by (auto simp: find_None_iff hdr_list_def)
  then show ?thesis by (simp add: logical_def)
qed

lemma hdr_list_put: "length h = BSIZE \<Longrightarrow> length bl \<le> LOGSIZE \<Longrightarrow> hdr_list (hdr_put (length bl) bl h) = bl"
  by (rule nth_equalityI) (simp_all add: hdr_list_def hdr_put)

text \<open>A disk whose log is well formed.\<close>

definition disk_ok :: "uint \<Rightarrow> int \<Rightarrow> (uint \<Rightarrow> block) \<Rightarrow> bool" where
  "disk_ok start sz d \<longleftrightarrow> 0 \<le> hdr_n (d start) \<and> log_list start sz (hdr_list (d start)) \<and> (\<forall>n. length (d n) = BSIZE)"


definition pinned :: "'z log_scheme \<Rightarrow> uint list" where
  "pinned s = take (nat (lh_n s)) (lh_block s)"

text \<open>
  The invariant between two operations of a transaction: nobody holds a buffer, exactly the blocks
  of the transaction are pinned, and the log on disk is empty.
\<close>

definition log_inv :: "nat \<Rightarrow> 'z log_scheme \<Rightarrow> bool" where
  "log_inv p s \<longleftrightarrow> calm p s \<and> bc_inv s \<and> lockset s = {} \<and> lg_dev s = ROOTDEV
     \<and> 0 \<le> lh_n s \<and> lh_n s \<le> int LOGSIZE \<and> length (lh_block s) = LOGSIZE
     \<and> log_list (lg_start s) (lg_size s) (pinned s)
     \<and> refs s = (\<lambda>k. if k \<in> set (pinned s) then 1 else 0) \<and> hdr_n (disk s (lg_start s)) = 0"

lemma log_invD:
  assumes "log_inv p s"
  shows "calm p s" "bc_inv s" "lockset s = {}" "lg_dev s = ROOTDEV" "lh_n s = int (length (pinned s))"
    "take (length (pinned s)) (lh_block s) = pinned s" "log_list (lg_start s) (lg_size s) (pinned s)"
    "refs s = (\<lambda>k. if k \<in> set (pinned s) then 1 else 0)" "hdr_n (disk s (lg_start s)) = 0" "length (lh_block s) = LOGSIZE"
    "length (pinned s) \<le> LOGSIZE"
proof -
  have n: "0 \<le> lh_n s" "lh_n s \<le> int LOGSIZE" "length (lh_block s) = LOGSIZE" using assms by (simp_all add: log_inv_def)
  then have "length (pinned s) = nat (lh_n s)" by (simp add: pinned_def)
  then show "lh_n s = int (length (pinned s))" "take (length (pinned s)) (lh_block s) = pinned s" "length (pinned s) \<le> LOGSIZE"
    using n by (simp_all add: pinned_def)
qed (use assms in \<open>simp_all add: log_inv_def\<close>)

text \<open>The disk writes of \<open>commit\<close>, in order.\<close>

definition commit_hdr :: "'z log_scheme \<Rightarrow> block" where
  "commit_hdr s = hdr_put (length (pinned s)) (pinned s) (content s (lg_start s))"

definition final_writes :: "'z log_scheme \<Rightarrow> (uint \<times> block) list" where
  "final_writes s = map (\<lambda>m. (m, content s m)) (pinned s)"

definition commit_writes :: "'z log_scheme \<Rightarrow> (uint \<times> block) list" where
  "commit_writes s = log_writes (lg_start s) (pinned s) (content s) @ [(lg_start s, commit_hdr s)]
     @ final_writes s @ [(lg_start s, put32 0 0 (commit_hdr s))]"

lemma log_writes_blk:
  assumes "log_list start sz bl" and "i < length bl"
  shows "apply_writes (log_writes start bl C) d (log_blk start i) = C (bl ! i)"
proof (rule apply_writes_hit)
  have "length bl \<le> LOGSIZE" using log_listD(2) [OF assms(1)] by simp
  then have "inj_on (log_blk start) {0..<length bl}" by (intro inj_onI) (auto simp: log_blk_inj)
  then show "distinct (map fst (log_writes start bl C))" by (simp add: log_writes_def comp_def distinct_map)
  show "(log_blk start i, C (bl ! i)) \<in> set (log_writes start bl C)" using assms(2) by (simp add: log_writes_def)
qed

lemma log_writes_other:
  assumes "log_list start sz bl" and "m \<notin> log_area start sz \<or> m = start"
  shows "apply_writes (take k (log_writes start bl C)) d m = d m"
proof (rule apply_writes_other)
  have "m \<noteq> log_blk start i" if "i < length bl" for i
    using assms log_listD(2,4) [OF assms(1)] log_blk_start [of i start] that by auto
  then show "m \<notin> fst ` set (take k (log_writes start bl C))" using fst_log_writes [of k start bl C] by auto
qed

lemma hdr_put_0: "hdr_put 0 bl h = put32 0 0 h"
  by (simp add: hdr_put_def)

lemma home_writes_eq:
  assumes "log_list start sz bl" and "\<And>i. i < length bl \<Longrightarrow> D (log_blk start i) = C (bl ! i)"
  shows "home_writes start bl D = map (\<lambda>m. (m, C m)) bl"
  by (rule nth_equalityI) (simp_all add: home_writes_def assms(2))

lemma sim_log_upd:
  fixes s :: "'z log_scheme"
  assumes "sim p s0 s C R {} D W Map.empty"
  shows "sim p (s\<lparr>lh_n := n\<rparr>) (s\<lparr>lh_n := n\<rparr>) C R {} D W Map.empty"
  using simD [OF assms] sim_start [of p "s\<lparr>lh_n := n\<rparr>"] by simp

lemma final_writes_apply:
  assumes "distinct (pinned s)"
  shows "apply_writes (final_writes s) d m = (if m \<in> set (pinned s) then content s m else d m)"
proof (cases "m \<in> set (pinned s)")
  case True
  have "distinct (map fst (final_writes s))" using assms by (simp add: final_writes_def comp_def)
  with True show ?thesis by (simp add: apply_writes_hit [of _ m "content s m"] final_writes_def)
next
  case False
  then show ?thesis by (simp add: apply_writes_other final_writes_def image_comp comp_def)
qed

text \<open>The variables of the log after \<open>commit\<close>: only the count of the header is reset.\<close>

definition log_same :: "'z log_scheme \<Rightarrow> 'z log_scheme \<Rightarrow> bool" where
  "log_same s t \<longleftrightarrow> lg_start t = lg_start s \<and> lg_size t = lg_size s \<and> lg_dev t = lg_dev s \<and> lh_block t = lh_block s
     \<and> outstanding t = outstanding s \<and> committing t = committing s"

lemma apply_writes_Cons: "apply_writes ((n, b) # ws) d = apply_writes ws (d(n := b))"
  by (simp add: apply_writes_def)

lemma commit_spec:
  fixes s :: "'z log_scheme"
  assumes inv: "log_inv p s" and pos: "0 < lh_n s"
  defines "ws \<equiv> commit_writes s"
  shows "returns (commit s) (\<lambda>t. sim p t t (apply_writes ws (content s)) (\<lambda>_. 0) {} (apply_writes ws (disk s)) (dwrites s @ ws) Map.empty
      \<and> log_same s t \<and> lh_n t = 0)"
proof -
  let ?st = "lg_start s" and ?bl = "pinned s" and ?C = "content s"
  note i = log_invD [OF inv] and ld = log_listD [OF log_invD(7) [OF inv]]
  let ?R = "\<lambda>k. if k \<in> set ?bl then 1 else 0 :: int"
  let ?lw = "log_writes ?st ?bl ?C"
  have s: "sim p s s ?C ?R {} (disk s) (dwrites s) Map.empty"
    using sim_start [OF i(1,2)] i(3,8) by simp
  have set: "{k. 0 < ?R k} = set ?bl" by auto
  have room: "finite {k. 0 < ?R k}" "card {k. 0 < ?R k} < NBUF" unfolding set using ld(2) card_length [of ?bl] by auto
  have nst: "?R ?st = 0" using ld(7) by (auto simp: in_set_conv_nth)
  have "apply_writes (take (length ?lw) ?lw) ?C ?st = ?C ?st" by (rule log_writes_other [OF i(7)]) simp
  then have C1: "apply_writes ?lw ?C ?st = ?C ?st" by (simp only: take_all order_refl)
  note wl = write_log_spec [OF s i(4,5,6,7) refl]
  have eq: "commit s = andthen (write_log s) (\<lambda>s1. andthen (write_head s1) (\<lambda>s2.
      andthen (install_trans False s2) (\<lambda>s3. write_head (s3\<lparr>lh_n := 0\<rparr>))))"
    by (simp only: commit_def if_P [OF pos])
  show ?thesis
    unfolding eq
  proof (rule returns_andthen [OF wl])
    fix s1
    assume s1: "sim p s s1 (apply_writes ?lw ?C) ?R {} (apply_writes ?lw (disk s)) (dwrites s @ ?lw) Map.empty"
    note f1 = bframe_log [OF simD(9) [OF s1]]
    have hd: "hdr_put (nat (lh_n s1)) (lh_block s1) (apply_writes ?lw ?C ?st) = commit_hdr s"
      unfolding f1(6,7) C1 i(5) commit_hdr_def nat_int hdr_put_def
    proof (rule fold_cong)
      fix x
      assume "x \<in> set [0..<length ?bl]"
      then have "lh_block s ! x = ?bl ! x" using i(6) by (metis atLeastLessThan_iff nth_take set_upt)
      then show "put32 (4 + 4 * x) (lh_block s ! x) = put32 (4 + 4 * x) (?bl ! x)" by simp
    qed simp_all
    show "returns (andthen (write_head s1) (\<lambda>s2. andthen (install_trans False s2) (\<lambda>s3. write_head (s3\<lparr>lh_n := 0\<rparr>))))
       (\<lambda>t. sim p t t (apply_writes ws ?C) (\<lambda>_. 0) {} (apply_writes ws (disk s)) (dwrites s @ ws) Map.empty
         \<and> log_same s t \<and> lh_n t = 0)"
    proof (rule returns_andthen [OF write_head_spec [OF s1]])
      fix s2
      let ?C2 = "(apply_writes ?lw ?C)(?st := commit_hdr s)" and ?D2 = "(apply_writes ?lw (disk s))(?st := commit_hdr s)"
      assume "sim p s s2 ((apply_writes ?lw ?C)(lg_start s1 := hdr_put (nat (lh_n s1)) (lh_block s1) (apply_writes ?lw ?C (lg_start s1))))
         ?R {} ((apply_writes ?lw (disk s))(lg_start s1 := hdr_put (nat (lh_n s1)) (lh_block s1) (apply_writes ?lw ?C (lg_start s1))))
         ((dwrites s @ ?lw) @ [(lg_start s1, hdr_put (nat (lh_n s1)) (lh_block s1) (apply_writes ?lw ?C (lg_start s1)))]) Map.empty"
      then have s2: "sim p s s2 ?C2 ?R {} ?D2 (dwrites s @ ?lw @ [(?st, commit_hdr s)]) Map.empty"
        by (simp add: f1(1) hd)
      note f2 = bframe_log [OF simD(9) [OF s2]]
      have hw: "home_writes (lg_start s2) ?bl ?C2 = final_writes s"
        unfolding final_writes_def f2(1)
        by (rule home_writes_eq [OF i(7)])
          (use log_writes_blk [OF i(7)] log_blk_start ld(2) in auto)
      show "returns (andthen (install_trans False s2) (\<lambda>s3. write_head (s3\<lparr>lh_n := 0\<rparr>)))
       (\<lambda>t. sim p t t (apply_writes ws ?C) (\<lambda>_. 0) {} (apply_writes ws (disk s)) (dwrites s @ ws) Map.empty
         \<and> log_same s t \<and> lh_n t = 0)"
      proof (rule returns_andthen [OF install_trans_spec [OF s2, where bl = ?bl and sz = "lg_size s"], unfolded hw])
        show "lg_dev s2 = ROOTDEV" "lh_n s2 = int (length ?bl)" "take (length ?bl) (lh_block s2) = ?bl"
          "log_list (lg_start s2) (lg_size s) ?bl" using f2 i by simp_all
        fix s3
        assume s3: "sim p s s3 (apply_writes (final_writes s) ?C2) (\<lambda>_. 0) {} (apply_writes (final_writes s) ?D2)
          ((dwrites s @ ?lw @ [(?st, commit_hdr s)]) @ final_writes s) Map.empty"
        note f3 = bframe_log [OF simD(9) [OF s3]] and s3' = sim_log_upd [OF s3, of 0]
        let ?s3 = "s3\<lparr>lh_n := 0\<rparr>"
        have C3: "apply_writes (final_writes s) ?C2 ?st = commit_hdr s"
          using ld(7) by (simp add: final_writes_apply [OF ld(1)]) (auto simp: in_set_conv_nth)
        show "returns (write_head ?s3)
          (\<lambda>t. sim p t t (apply_writes ws ?C) (\<lambda>_. 0) {} (apply_writes ws (disk s)) (dwrites s @ ws) Map.empty
            \<and> log_same s t \<and> lh_n t = 0)"
        proof (rule returns_mono [OF write_head_spec [OF s3']])
          fix t
          assume t: "sim p ?s3 t ((apply_writes (final_writes s) ?C2)(lg_start ?s3 :=
               hdr_put (nat (lh_n ?s3)) (lh_block ?s3) (apply_writes (final_writes s) ?C2 (lg_start ?s3)))) (\<lambda>_. 0) {}
             ((apply_writes (final_writes s) ?D2)(lg_start ?s3 :=
               hdr_put (nat (lh_n ?s3)) (lh_block ?s3) (apply_writes (final_writes s) ?C2 (lg_start ?s3))))
             (((dwrites s @ ?lw @ [(?st, commit_hdr s)]) @ final_writes s) @
               [(lg_start ?s3, hdr_put (nat (lh_n ?s3)) (lh_block ?s3) (apply_writes (final_writes s) ?C2 (lg_start ?s3)))]) Map.empty"
          note f4 = bframe_log [OF simD(9) [OF t]]
          have "log_same s t \<and> lh_n t = 0" using f3 f4 by (simp add: log_same_def)
          moreover have "apply_writes ws d = (apply_writes (final_writes s) ((apply_writes ?lw d)(?st := commit_hdr s)))
              (?st := put32 0 0 (commit_hdr s))" for d
            by (simp add: ws_def commit_writes_def apply_writes_append apply_writes_Cons)
          ultimately show "sim p t t (apply_writes ws ?C) (\<lambda>_. 0) {} (apply_writes ws (disk s)) (dwrites s @ ws) Map.empty
              \<and> log_same s t \<and> lh_n t = 0"
            using simD [OF t] sim_start [OF simD(1,2) [OF t]] f3 C3
            by (simp add: hdr_put_0) (simp add: ws_def commit_writes_def)
        qed (use f3 i(4) in auto)
      qed auto
    qed (use f1 i nst room in auto)
  qed
qed

section \<open>Crashes\<close>

lemma apply_writes_length:
  "(\<And>n. length (d n) = BSIZE) \<Longrightarrow> (\<And>n b. (n, b) \<in> set ws \<Longrightarrow> length b = BSIZE) \<Longrightarrow> length (apply_writes ws d n) = BSIZE"
proof (induction ws arbitrary: d)
  case (Cons w ws)
  obtain m b where w: "w = (m, b)" by (cases w)
  have "length (apply_writes ws (d(m := b)) n) = BSIZE"
    using Cons.prems by (intro Cons.IH) (auto simp: w)
  then show ?case by (simp add: w apply_writes_Cons)
qed simp

lemma commit_writes_length:
  assumes inv: "log_inv p s" and "(n, b) \<in> set (commit_writes s)"
  shows "length b = BSIZE"
proof -
  note c = length_content [OF log_invD(2) [OF inv]]
  have "length (commit_hdr s) = BSIZE" unfolding commit_hdr_def by (rule hdr_put(1) [OF c log_invD(11) [OF inv]])
  then show ?thesis
    using assms(2) c by (auto simp: commit_writes_def log_writes_def final_writes_def)
qed

lemma log_list_Nil: "log_list start sz bl \<Longrightarrow> log_list start sz []"
  by (auto simp: log_list_def)

text \<open>
  The three kinds of disk a crash in \<open>commit\<close> can leave: the header is still empty; the header lists the
  transaction; the transaction is installed and the header is empty again.
\<close>

lemma logical_empty: "hdr_n (d start) = 0 \<Longrightarrow> logical start d m = d m"
  by (simp add: logical_def)

lemma crash_before_commit:
  fixes k :: nat
  assumes inv: "log_inv p s"
  defines "d \<equiv> apply_writes (take k (log_writes (lg_start s) (pinned s) (content s))) (disk s)"
  shows "hdr_list (d (lg_start s)) = []" "hdr_n (d (lg_start s)) = 0"
    "m \<notin> log_area (lg_start s) (lg_size s) \<Longrightarrow> logical (lg_start s) d m = disk s m"
proof -
  note i = log_invD [OF inv]
  have d: "d n = disk s n" if "n \<notin> log_area (lg_start s) (lg_size s) \<or> n = lg_start s" for n
    unfolding d_def using that by (rule log_writes_other [OF i(7)])
  then show h: "hdr_n (d (lg_start s)) = 0" using i(9) by simp
  then show "hdr_list (d (lg_start s)) = []" by (simp add: hdr_list_def)
  show "m \<notin> log_area (lg_start s) (lg_size s) \<Longrightarrow> logical (lg_start s) d m = disk s m"
    using logical_empty [of d, OF h] d by simp
qed

lemma log_inv_clean: "log_inv p s \<Longrightarrow> m \<notin> set (pinned s) \<Longrightarrow> content s m = disk s m"
  using sim_clean [OF sim_start [of p s], of m] log_invD(1,2,8) [of p s] by simp

lemma crash_after_commit:
  fixes j :: nat
  assumes inv: "log_inv p s"
  defines "d \<equiv> apply_writes (take j (final_writes s))
     ((apply_writes (log_writes (lg_start s) (pinned s) (content s)) (disk s))(lg_start s := commit_hdr s))"
  shows "hdr_list (d (lg_start s)) = pinned s" "0 \<le> hdr_n (d (lg_start s))"
    "m \<notin> log_area (lg_start s) (lg_size s) \<Longrightarrow> logical (lg_start s) d m = content s m"
proof -
  let ?st = "lg_start s"
  note i = log_invD [OF inv] and ld = log_listD [OF log_invD(7) [OF inv]] and c = length_content [OF log_invD(2) [OF inv]]
  have fin: "n \<notin> set (pinned s) \<Longrightarrow> n \<notin> fst ` set (take j (final_writes s))" for n
    by (auto simp: final_writes_def dest!: in_set_takeD)
  have "?st \<notin> set (pinned s)" using ld(7) by (auto simp: in_set_conv_nth)
  then have st: "d ?st = commit_hdr s" unfolding d_def using fin by (simp add: apply_writes_other)
  show h: "hdr_list (d ?st) = pinned s"
    unfolding st commit_hdr_def by (rule hdr_list_put [OF c i(11)])
  have n: "hdr_n (d ?st) = int (length (pinned s))" unfolding st commit_hdr_def by (rule hdr_put(2) [OF c i(11)])
  then show "0 \<le> hdr_n (d ?st)" by simp
  assume m: "m \<notin> log_area ?st (lg_size s)"
  show "logical ?st d m = content s m"
  proof (cases "m \<in> set (pinned s)")
    case True
    then obtain x where x: "x < length (pinned s)" "m = pinned s ! x" by (auto simp: in_set_conv_nth)
    have blk: "hdr_block (d ?st) x = m" using h x by (metis (no_types, lifting) hdr_list_def n nat_int nth_map_upt add_0 diff_zero)
    have "logical ?st d (hdr_block (d ?st) x) = d (log_blk ?st x)"
      by (rule logical_listed) (simp_all add: h ld(1) n x(1))
    also have "\<dots> = content s m"
    proof -
      have "log_blk ?st x \<notin> set (pinned s)" using ld(6) x(1) by (auto simp: in_set_conv_nth)
      moreover have "log_blk ?st x \<noteq> ?st" using log_blk_start x(1) ld(2) by auto
      ultimately show ?thesis
        unfolding d_def using fin log_writes_blk [OF i(7) x(1)] by (simp add: apply_writes_other x(2))
    qed
    finally show ?thesis by (simp add: blk)
  next
    case False
    have "m \<noteq> ?st" using m ld(5) by auto
    moreover have "apply_writes (log_writes ?st (pinned s) (content s)) (disk s) m = disk s m"
      using log_writes_other [OF i(7) disjI1 [OF m], of "length (log_writes ?st (pinned s) (content s))" "content s" "disk s"]
      by (simp only: take_all order_refl)
    ultimately have "d m = disk s m" unfolding d_def using False fin by (simp add: apply_writes_other)
    then show ?thesis using False h log_inv_clean [OF inv] logical_unlisted [of m d ?st] by simp
  qed
qed

lemma crash_after_erase:
  assumes inv: "log_inv p s"
  defines "d \<equiv> apply_writes (commit_writes s) (disk s)"
  shows "hdr_list (d (lg_start s)) = []" "hdr_n (d (lg_start s)) = 0"
    "m \<notin> log_area (lg_start s) (lg_size s) \<Longrightarrow> d m = content s m"
proof -
  let ?st = "lg_start s"
  note i = log_invD [OF inv] and ld = log_listD [OF log_invD(7) [OF inv]] and c = length_content [OF log_invD(2) [OF inv]]
  have eq: "d = (apply_writes (final_writes s) ((apply_writes (log_writes ?st (pinned s) (content s)) (disk s))(?st := commit_hdr s)))
      (?st := put32 0 0 (commit_hdr s))"
    by (simp add: d_def commit_writes_def apply_writes_append apply_writes_Cons)
  have "length (commit_hdr s) = BSIZE" unfolding commit_hdr_def by (rule hdr_put(1) [OF c i(11)])
  then show h: "hdr_n (d ?st) = 0" by (simp add: eq hdr_n_def)
  then show "hdr_list (d ?st) = []" by (simp add: hdr_list_def)
  assume m: "m \<notin> log_area ?st (lg_size s)"
  then have "m \<noteq> ?st" using ld(5) by auto
  moreover have "apply_writes (log_writes ?st (pinned s) (content s)) (disk s) m = disk s m"
    using log_writes_other [OF i(7) disjI1 [OF m], of "length (log_writes ?st (pinned s) (content s))" "content s" "disk s"]
    by (simp only: take_all order_refl)
  ultimately show "d m = content s m"
    using log_inv_clean [OF inv, of m] by (simp add: eq final_writes_apply [OF ld(1)])
qed

lemma log_inv_upd:
  assumes inv: "log_inv p s" and t: "sim p t t C (\<lambda>_. 0) {} D W Map.empty" and same: "log_same s t" and n: "lh_n t = 0"
    and h: "hdr_n (D (lg_start s)) = 0"
  shows "log_inv p t"
proof -
  note i = log_invD [OF inv] and t' = simD [OF t]
  have "pinned t = []" by (simp add: pinned_def n)
  then show ?thesis
    using i t' same n h log_list_Nil [OF i(7)] by (simp add: log_inv_def log_same_def)
qed

text \<open>
  A disk is a legal outcome of a crash: its log is well formed, and recovery makes of it either the
  disk \<open>old\<close> or the disk \<open>new\<close>, outside the log.
\<close>

definition all_or_nothing :: "uint \<Rightarrow> int \<Rightarrow> (uint \<Rightarrow> block) \<Rightarrow> (uint \<Rightarrow> block) \<Rightarrow> (uint \<Rightarrow> block) \<Rightarrow> bool" where
  "all_or_nothing start sz old new d \<longleftrightarrow> disk_ok start sz d
     \<and> ((\<forall>m. m \<notin> log_area start sz \<longrightarrow> logical start d m = old m)
        \<or> (\<forall>m. m \<notin> log_area start sz \<longrightarrow> logical start d m = new m))"

lemma commit_prefixes:
  assumes inv: "log_inv p s" and k: "k \<le> length (commit_writes s)"
  defines "d \<equiv> apply_writes (take k (commit_writes s)) (disk s)"
  shows "all_or_nothing (lg_start s) (lg_size s) (disk s) (content s) d"
proof -
  let ?lw = "log_writes (lg_start s) (pinned s) (content s)"
  note i = log_invD [OF inv]
  have len: "\<forall>n. length (d n) = BSIZE"
    unfolding d_def using bc_invD(3) [OF i(2)] commit_writes_length [OF inv]
    by (auto intro!: apply_writes_length dest: in_set_takeD)
  consider (before) "k \<le> length ?lw" | (after) j where "k = length ?lw + Suc j" "j \<le> length (final_writes s)"
    | (erased) "k = length (commit_writes s)"
  proof (cases "k \<le> length ?lw")
    case False
    then obtain j where j: "k = length ?lw + Suc j" by (metis less_iff_Suc_add not_le add_Suc_right)
    then have "j \<le> length (final_writes s) \<or> k = length (commit_writes s)" using k by (auto simp: commit_writes_def)
    with j show ?thesis using after erased by blast
  qed (use before in simp)
  then show ?thesis
  proof cases
    case before
    then have d: "d = apply_writes (take k ?lw) (disk s)" by (simp add: d_def commit_writes_def)
    show ?thesis
      using crash_before_commit [OF inv, where k = k, folded d] len log_list_Nil [OF i(7)] by (simp add: all_or_nothing_def disk_ok_def)
  next
    case after
    then have "take k (commit_writes s) = ?lw @ [(lg_start s, commit_hdr s)] @ take j (final_writes s)"
      by (simp add: commit_writes_def)
    then have d: "d = apply_writes (take j (final_writes s)) ((apply_writes ?lw (disk s))(lg_start s := commit_hdr s))"
      by (simp add: d_def apply_writes_append apply_writes_Cons)
    show ?thesis
      using crash_after_commit [OF inv, where j = j, folded d] len i(7) by (simp add: all_or_nothing_def disk_ok_def)
  next
    case erased
    then have d: "d = apply_writes (commit_writes s) (disk s)" by (simp add: d_def)
    show ?thesis
      using crash_after_erase [OF inv, folded d] len log_list_Nil [OF i(7)] by (simp add: all_or_nothing_def disk_ok_def logical_empty)
  qed
qed

lemma commit_atomic:
  assumes inv: "log_inv p s"
  shows "\<exists>t ws. commit s = Ok t \<and> dwrites t = dwrites s @ ws \<and> disk t = apply_writes ws (disk s)
     \<and> log_inv p t \<and> lh_n t = 0 \<and> log_same s t
     \<and> (\<forall>m. m \<notin> log_area (lg_start s) (lg_size s) \<longrightarrow> content t m = content s m \<and> disk t m = content s m)
     \<and> (\<forall>k \<le> length ws. all_or_nothing (lg_start s) (lg_size s) (disk s) (content s) (apply_writes (take k ws) (disk s)))"
proof (cases "lh_n s > 0")
  case True
  note i = log_invD [OF inv] and e = crash_after_erase [OF inv]
  obtain t where t: "commit s = Ok t" and st: "sim p t t (apply_writes (commit_writes s) (content s)) (\<lambda>_. 0) {}
      (apply_writes (commit_writes s) (disk s)) (dwrites s @ commit_writes s) Map.empty" "log_same s t" "lh_n t = 0"
    by (rule returnsE [OF commit_spec [OF inv True]]) blast
  note t' = simD [OF st(1)]
  have "content t m = disk t m" for m using sim_clean [OF st(1), of m] t' by simp
  then have c: "content t m = content s m \<and> disk t m = content s m" if "m \<notin> log_area (lg_start s) (lg_size s)" for m
    using e(3) [OF that] t'(6) by simp
  have l: "log_inv p t" using log_inv_upd [OF inv st] e(2) by simp
  show ?thesis
  proof (intro exI conjI)
    show "commit s = Ok t" by (rule t)
    show "dwrites t = dwrites s @ commit_writes s" by (rule t'(7))
    show "disk t = apply_writes (commit_writes s) (disk s)" by (rule t'(6))
    show "log_inv p t" "lh_n t = 0" "log_same s t" by (rule l, rule st(3), rule st(2))
    show "\<forall>m. m \<notin> log_area (lg_start s) (lg_size s) \<longrightarrow> content t m = content s m \<and> disk t m = content s m"
      using c by blast
    show "\<forall>k \<le> length (commit_writes s). all_or_nothing (lg_start s) (lg_size s) (disk s) (content s)
        (apply_writes (take k (commit_writes s)) (disk s))"
      using commit_prefixes [OF inv] by blast
  qed
next
  case False
  note i = log_invD [OF inv]
  have n: "lh_n s = 0" "pinned s = []" using False i(5) by simp_all
  have "commit s = Ok s" using False by (simp add: commit_def)
  moreover have "content s m = disk s m" for m using log_inv_clean [OF inv] n by simp
  moreover have "disk_ok (lg_start s) (lg_size s) (disk s)"
    using i(7,9) n bc_invD(3) [OF i(2)] by (simp add: disk_ok_def hdr_list_def)
  ultimately show ?thesis
    using inv n i(9) by (intro exI [of _ s] exI [of _ "[]"]) (simp add: log_same_def logical_empty all_or_nothing_def)
qed

section \<open>Recovery\<close>

text \<open>A machine that has just booted: nothing is cached, and \<open>initlog\<close> has set the variables of the log.\<close>

definition rebooted :: "nat \<Rightarrow> 'z log_scheme \<Rightarrow> bool" where
  "rebooted p s \<longleftrightarrow> calm p s \<and> bc_inv s \<and> lockset s = {} \<and> refs s = (\<lambda>_. 0) \<and> lg_dev s = ROOTDEV
     \<and> length (lh_block s) = LOGSIZE \<and> disk_ok (lg_start s) (lg_size s) (disk s)"

lemma sim_restart:
  fixes s :: "'z log_scheme"
  assumes "sim p s0 s C R L D W Own"
  shows "sim p (s\<lparr>lh_n := n, lh_block := bl\<rparr>) (s\<lparr>lh_n := n, lh_block := bl\<rparr>) C R L D W Own"
  using assms by (simp add: sim_def bstep_def bframe_refl)

lemma read_head_spec:
  assumes r: "rebooted p s"
  defines "bl \<equiv> hdr_list (disk s (lg_start s))"
  shows "returns (read_head s) (\<lambda>t. sim p t t (disk s) (\<lambda>_. 0) {} (disk s) (dwrites s) Map.empty
     \<and> log_same (s\<lparr>lh_block := lh_block t\<rparr>) t \<and> lh_n t = int (length bl) \<and> take (length bl) (lh_block t) = bl
     \<and> length (lh_block t) = LOGSIZE)" (is "returns _ ?Q")
proof -
  let ?st = "lg_start s"
  have inv: "calm p s" "bc_inv s" "lockset s = {}" "refs s = (\<lambda>_. 0)" "lg_dev s = ROOTDEV" "length (lh_block s) = LOGSIZE"
    and ok: "disk_ok ?st (lg_size s) (disk s)" using r by (simp_all add: rebooted_def)
  have s: "sim p s s (content s) (\<lambda>_. 0) {} (disk s) (dwrites s) Map.empty" using sim_start [OF inv(1,2)] inv(3,4) by simp
  have C: "content s = disk s" using sim_clean [OF s] by auto
  have n: "0 \<le> hdr_n (disk s ?st)" "length bl = nat (hdr_n (disk s ?st))" "length bl < NBUF"
    using ok log_listD(2) [of ?st "lg_size s" bl] by (simp_all add: disk_ok_def bl_def) (simp add: hdr_list_def)
  show ?thesis
    unfolding read_head_def inv(5)
  proof (rule wp_bread [OF s])
    show "0 < (0 :: int) \<or> (\<exists>b < NBUF. refcnt (bufs s b) = 0)" by (intro disjI2 sim_room [OF s]) simp_all
    fix b t
    assume t: "sim p s t (content s) ((\<lambda>_. 0)(?st := 0 + 1)) (insert ?st {}) (disk s) (dwrites s) (Map.empty(?st \<mapsto> b))"
      and d: "bdata (bufs t b) = content s ?st"
    note f = bframe_log [OF simD(9) [OF t]]
    let ?t = "t\<lparr>lh_n := hdr_n (disk s ?st), lh_block := bl @ drop (length bl) (lh_block t)\<rparr>"
    have small: "\<not> int LOGSIZE < hdr_n (disk s ?st)" using n by simp
    have eq: "(let hd = bdata (bufs t b); n = sint (get32 0 hd)
         in if int LOGSIZE < n then Panic ''undefined: lh.block[i]''
            else let bl = map (\<lambda>i. get32 (4 + 4 * i) hd) [0..<nat n]
                 in brelse b (t\<lparr>lh_n := n, lh_block := bl @ drop (nat n) (lh_block t)\<rparr>)) = brelse b ?t"
      using n small by (simp add: d C Let_def hdr_n_def [symmetric] bl_def hdr_list_def hdr_block_def [abs_def])
    show "returns (let hd = bdata (bufs t b); n = sint (get32 0 hd)
         in if int LOGSIZE < n then Panic ''undefined: lh.block[i]''
            else let bl = map (\<lambda>i. get32 (4 + 4 * i) hd) [0..<nat n]
                 in brelse b (t\<lparr>lh_n := n, lh_block := bl @ drop (nat n) (lh_block t)\<rparr>)) ?Q"
      unfolding eq
    proof (rule wp_brelse_last [OF sim_restart [OF t], of ?st])
      fix u
      assume u: "sim p ?t u (content s) ((\<lambda>_. 0)(?st := 0 + 1, ?st := ((\<lambda>_. 0)(?st := 0 + 1)) ?st - 1)) (insert ?st {} - {?st})
         (disk s) (dwrites s) (Map.empty(?st \<mapsto> b, ?st := None))"
      note g = bframe_log [OF simD(9) [OF u]] and u' = simD [OF u]
      have "sim p u u (disk s) (\<lambda>_. 0) {} (disk s) (dwrites s) Map.empty"
        using sim_start [OF u'(1,2)] u' C by (simp add: fun_upd_idem)
      then show "?Q u" using f g n inv(6) by (simp add: log_same_def)
    qed (simp_all add: C)
  qed simp
qed

text \<open>The disk writes of the recovery, in order.\<close>

definition recovery_writes :: "uint \<Rightarrow> (uint \<Rightarrow> block) \<Rightarrow> (uint \<times> block) list" where
  "recovery_writes start d = home_writes start (hdr_list (d start)) d @ [(start, put32 0 0 (d start))]"

lemma recover_spec:
  assumes r: "rebooted p s"
  defines "ws \<equiv> recovery_writes (lg_start s) (disk s)"
  shows "returns (recover_from_log s) (\<lambda>t. sim p t t (apply_writes ws (disk s)) (\<lambda>_. 0) {} (apply_writes ws (disk s))
     (dwrites s @ ws) Map.empty \<and> log_same (s\<lparr>lh_block := lh_block t\<rparr>) t \<and> lh_n t = 0 \<and> length (lh_block t) = LOGSIZE)"
    (is "returns _ ?Q")
proof -
  let ?st = "lg_start s" and ?bl = "hdr_list (disk s (lg_start s))"
  have ll: "log_list ?st (lg_size s) ?bl" and dev: "lg_dev s = ROOTDEV" using r by (simp_all add: rebooted_def disk_ok_def)
  note ld = log_listD [OF ll]
  let ?hw = "home_writes ?st ?bl (disk s)"
  show ?thesis
    unfolding recover_from_log_def
  proof (rule returns_andthen [OF read_head_spec [OF r]], elim conjE)
    fix s1
    assume s1: "sim p s1 s1 (disk s) (\<lambda>_. 0) {} (disk s) (dwrites s) Map.empty" "log_same (s\<lparr>lh_block := lh_block s1\<rparr>) s1"
      "lh_n s1 = int (length ?bl)" "take (length ?bl) (lh_block s1) = ?bl" "length (lh_block s1) = LOGSIZE"
    then have st1: "lg_start s1 = ?st" "lg_dev s1 = ROOTDEV" "lg_size s1 = lg_size s" using dev by (simp_all add: log_same_def)
    have "returns (install_trans True s1) (\<lambda>t. sim p s1 t (apply_writes ?hw (disk s)) (\<lambda>_. 0) {}
        (apply_writes ?hw (disk s)) (dwrites s @ ?hw) Map.empty)"
      using install_trans_spec [OF s1(1) st1(2) s1(3,4), of "lg_size s" True] ll st1(1) by simp
    then show "returns (andthen (install_trans True s1) (\<lambda>s2. write_head (s2\<lparr>lh_n := 0\<rparr>))) ?Q"
    proof (rule returns_andthen)
      fix s2
      assume s2: "sim p s1 s2 (apply_writes ?hw (disk s)) (\<lambda>_. 0) {} (apply_writes ?hw (disk s)) (dwrites s @ ?hw) Map.empty"
      note f = bframe_log [OF simD(9) [OF s2]]
      have "?st \<notin> set ?bl" using ld(7) by (auto simp: in_set_conv_nth)
      then have st: "apply_writes ?hw (disk s) ?st = disk s ?st"
        using fst_home_writes [of "length ?hw" ?st ?bl "disk s"] by (intro apply_writes_other) auto
      show "returns (write_head (s2\<lparr>lh_n := 0\<rparr>)) ?Q"
      proof (rule returns_mono [OF write_head_spec [OF sim_log_upd [OF s2]]])
        fix t
        assume t: "sim p (s2\<lparr>lh_n := 0\<rparr>) t ((apply_writes ?hw (disk s))(lg_start (s2\<lparr>lh_n := 0\<rparr>) := hdr_put (nat (lh_n (s2\<lparr>lh_n := 0\<rparr>)))
              (lh_block (s2\<lparr>lh_n := 0\<rparr>)) (apply_writes ?hw (disk s) (lg_start (s2\<lparr>lh_n := 0\<rparr>))))) (\<lambda>_. 0) {}
            ((apply_writes ?hw (disk s))(lg_start (s2\<lparr>lh_n := 0\<rparr>) := hdr_put (nat (lh_n (s2\<lparr>lh_n := 0\<rparr>)))
              (lh_block (s2\<lparr>lh_n := 0\<rparr>)) (apply_writes ?hw (disk s) (lg_start (s2\<lparr>lh_n := 0\<rparr>)))))
            ((dwrites s @ ?hw) @ [(lg_start (s2\<lparr>lh_n := 0\<rparr>), hdr_put (nat (lh_n (s2\<lparr>lh_n := 0\<rparr>)))
              (lh_block (s2\<lparr>lh_n := 0\<rparr>)) (apply_writes ?hw (disk s) (lg_start (s2\<lparr>lh_n := 0\<rparr>))))]) Map.empty"
        note g = bframe_log [OF simD(9) [OF t]] and t' = simD [OF t]
        have "apply_writes ws d = (apply_writes ?hw d)(?st := put32 0 0 (disk s ?st))" for d
          by (simp add: ws_def recovery_writes_def apply_writes_append)
        then show "?Q t"
          using sim_start [OF t'(1,2)] t' f g st1 st s1(2,5)
          by (simp add: hdr_put_0 log_same_def) (simp add: ws_def recovery_writes_def)
      qed (use f st1 in simp_all)
    qed
  qed
qed

lemma home_writes_listed:
  assumes "log_list start sz bl" and "i < length bl"
  shows "apply_writes (home_writes start bl C) d (bl ! i) = C (log_blk start i)"
proof (rule apply_writes_hit)
  have "map fst (home_writes start bl C) = bl" by (rule nth_equalityI) (simp_all add: home_writes_def)
  then show "distinct (map fst (home_writes start bl C))" using log_listD(1) [OF assms(1)] by simp
  show "(bl ! i, C (log_blk start i)) \<in> set (home_writes start bl C)" using assms(2) by (auto simp: home_writes_def)
qed

lemma nth_hdr_list: "i < nat (hdr_n h) \<Longrightarrow> hdr_list h ! i = hdr_block h i"
  by (simp add: hdr_list_def)

lemma recovery_header:
  assumes "disk_ok start sz d"
  shows "apply_writes (take k (home_writes start (hdr_list (d start)) d)) d start = d start"
proof -
  have "start \<notin> set (hdr_list (d start))"
    using log_listD(7) [of start sz "hdr_list (d start)"] assms by (auto simp: disk_ok_def in_set_conv_nth)
  then show ?thesis
    using fst_home_writes [of k start "hdr_list (d start)" d] by (intro apply_writes_other) auto
qed

lemma recovery_partial:
  fixes k :: nat
  assumes ok: "disk_ok start sz d" and m: "m \<notin> log_area start sz"
  defines "d' \<equiv> apply_writes (take k (home_writes start (hdr_list (d start)) d)) d"
  shows "logical start d' m = logical start d m"
proof -
  let ?bl = "hdr_list (d start)"
  have l: "log_list start sz ?bl" and n: "length ?bl = nat (hdr_n (d start))" using ok by (simp_all add: disk_ok_def hdr_list_def)
  note ld = log_listD [OF l]
  have out: "x \<notin> set ?bl \<Longrightarrow> d' x = d x" for x
    unfolding d'_def using fst_home_writes [of k start ?bl d] by (intro apply_writes_other) auto
  have st: "d' start = d start" unfolding d'_def by (rule recovery_header [OF ok])
  show "logical start d' m = logical start d m"
  proof (cases "m \<in> set ?bl")
    case True
    then obtain i where i: "i < length ?bl" "m = ?bl ! i" by (auto simp: in_set_conv_nth)
    have "log_blk start i \<notin> set ?bl" using ld(6) i(1) by (auto simp: in_set_conv_nth)
    then have "d' (log_blk start i) = d (log_blk start i)" by (rule out)
    moreover have "m = hdr_block (d start) i" using i n by (simp add: nth_hdr_list)
    ultimately show ?thesis
      using logical_listed [of d start i] logical_listed [of d' start i] ld(1) i(1) n st by simp
  next
    case False
    then show ?thesis using logical_unlisted [of m d start] logical_unlisted [of m d' start] out st by simp
  qed
qed

lemma recovery_complete:
  assumes ok: "disk_ok start sz d" and m: "m \<notin> log_area start sz"
  defines "d' \<equiv> apply_writes (recovery_writes start d) d"
  shows "hdr_n (d' start) = 0" "d' m = logical start d m"
proof -
  let ?bl = "hdr_list (d start)"
  have l: "log_list start sz ?bl" and n: "length ?bl = nat (hdr_n (d start))" and len: "length (d start) = BSIZE"
    using ok by (simp_all add: disk_ok_def hdr_list_def)
  note ld = log_listD [OF l]
  have d': "d' = (apply_writes (home_writes start ?bl d) d)(start := put32 0 0 (d start))"
    by (simp add: d'_def recovery_writes_def apply_writes_append)
  then show "hdr_n (d' start) = 0" using len by (simp add: hdr_n_def)
  have "m \<noteq> start" using m ld(5) by auto
  then have e: "d' m = apply_writes (home_writes start ?bl d) d m" by (simp add: d')
  show "d' m = logical start d m"
  proof (cases "m \<in> set ?bl")
    case True
    then obtain i where i: "i < length ?bl" "m = ?bl ! i" by (auto simp: in_set_conv_nth)
    then have "m = hdr_block (d start) i" using n by (simp add: nth_hdr_list)
    then show ?thesis
      using logical_listed [of d start i] ld(1) i n home_writes_listed [OF l i(1), of d d] e by simp
  next
    case False
    then have "apply_writes (home_writes start ?bl d) d m = d m"
      using fst_home_writes [of "length (home_writes start ?bl d)" start ?bl d] by (intro apply_writes_other) auto
    then show ?thesis using logical_unlisted [of m d start] False e by simp
  qed
qed

lemma recovery_writes_length: "disk_ok start sz d \<Longrightarrow> (n, b) \<in> set (recovery_writes start d) \<Longrightarrow> length b = BSIZE"
  by (auto simp: disk_ok_def recovery_writes_def home_writes_def)

lemma recovery_prefixes:
  assumes ok: "disk_ok start sz d" and k: "k \<le> length (recovery_writes start d)"
  defines "d' \<equiv> apply_writes (take k (recovery_writes start d)) d"
  shows "disk_ok start sz d' \<and> (\<forall>m. m \<notin> log_area start sz \<longrightarrow> logical start d' m = logical start d m)"
proof -
  let ?hw = "home_writes start (hdr_list (d start)) d"
  have len: "\<forall>n. length (d' n) = BSIZE"
    unfolding d'_def using ok recovery_writes_length [OF ok]
    by (auto intro!: apply_writes_length dest: in_set_takeD simp: disk_ok_def)
  have l: "log_list start sz (hdr_list (d start))" using ok by (simp add: disk_ok_def)
  show ?thesis
  proof (cases "k \<le> length ?hw")
    case True
    then have d: "d' = apply_writes (take k ?hw) d" by (simp add: d'_def recovery_writes_def)
    have st: "d' start = d start" unfolding d by (rule recovery_header [OF ok])
    show ?thesis
      using recovery_partial [OF ok, of _ k, folded d] st len ok by (simp add: disk_ok_def)
  next
    case False
    then have "k = length (recovery_writes start d)" using k by (simp add: recovery_writes_def)
    then have d: "d' = apply_writes (recovery_writes start d) d" by (simp add: d'_def)
    have h: "hdr_n (d' start) = 0" unfolding d using ok
      by (simp add: recovery_writes_def apply_writes_append hdr_n_def disk_ok_def)
    then have "disk_ok start sz d'" using len log_list_Nil [OF l] by (simp add: disk_ok_def hdr_list_def)
    then show ?thesis using recovery_complete(2) [OF ok, folded d] logical_empty [of d' start] h by simp
  qed
qed

section \<open>Operations inside a transaction\<close>

lemma hold_log [simp]:
  "lg_start (hold l s) = lg_start s" "lg_size (hold l s) = lg_size s" "outstanding (hold l s) = outstanding s"
  "committing (hold l s) = committing s" "lg_dev (hold l s) = lg_dev s" "lh_n (hold l s) = lh_n s" "lh_block (hold l s) = lh_block s"
  "(hold l s)\<lparr>lh_n := n\<rparr> = hold l (s\<lparr>lh_n := n\<rparr>)" "(hold l s)\<lparr>lh_block := b\<rparr> = hold l (s\<lparr>lh_block := b\<rparr>)"
  "(hold l s)\<lparr>outstanding := i\<rparr> = hold l (s\<lparr>outstanding := i\<rparr>)" "(hold l s)\<lparr>committing := c\<rparr> = hold l (s\<lparr>committing := c\<rparr>)"
  by (simp_all add: hold_def)

lemma bpin_hold:
  assumes "calm p s" and "l \<noteq> BcacheLock"
  shows "bpin b (hold l s) = Ok (hold l (add_ref 1 b s))"
proof -
  have "calm p (add_ref 1 b s)" using assms(1) by (simp add: add_ref_def)
  then have "settled (hold l (add_ref 1 b s))" "lock_free BcacheLock (hold l (add_ref 1 b s))"
    using assms(2) by (auto simp: calm_def kernel_simps)
  moreover have "settled (hold l s)" "lock_free BcacheLock (hold l s)" using assms by (auto simp: calm_def kernel_simps)
  ultimately show ?thesis by (simp add: bpin_def acquire_ok release_ok add_ref_def)
qed

lemma log_find_absent: "n \<notin> set xs \<Longrightarrow> log_find n xs = length xs"
  by (induction xs) auto

lemma log_find_present: "n \<in> set xs \<Longrightarrow> log_find n xs < length xs \<and> xs ! log_find n xs = n"
  by (induction xs) auto

lemma log_write_present:
  assumes calm: "calm p s" and n: "0 \<le> lh_n s" "lh_n s < int LOGSIZE" "lh_n s < lg_size s - 1" "1 \<le> outstanding s"
    and len: "length (lh_block s) = LOGSIZE" and p: "blockno (bufs s b) \<in> set (pinned s)"
  shows "log_write b s = Ok s"
proof -
  let ?n = "blockno (bufs s b)" and ?i = "log_find (blockno (bufs s b)) (pinned s)"
  have i: "?i < length (pinned s)" "pinned s ! ?i = ?n" using log_find_present [OF p] by auto
  have "length (pinned s) = nat (lh_n s)" using n len by (simp add: pinned_def)
  then have "int ?i \<noteq> lh_n s" using i(1) n(1) by linarith
  moreover have "(lh_block s)[?i := ?n] = lh_block s"
    using i len by (intro list_update_same_conv [THEN iffD2]) (auto simp: pinned_def)
  ultimately show ?thesis
    using calm n by (simp add: log_write_def calm_simps pinned_def [symmetric] Let_def)
qed

definition logged :: "nat \<Rightarrow> 'z log_scheme \<Rightarrow> 'z log_scheme" where
  "logged b s = add_ref 1 b (s\<lparr>lh_block := (lh_block s)[nat (lh_n s) := blockno (bufs s b)], lh_n := lh_n s + 1\<rparr>)"

lemma log_write_absent:
  assumes calm: "calm p s" and n: "0 \<le> lh_n s" "lh_n s < int LOGSIZE" "lh_n s < lg_size s - 1" "1 \<le> outstanding s"
    and len: "length (lh_block s) = LOGSIZE" and p: "blockno (bufs s b) \<notin> set (pinned s)"
  shows "log_write b s = Ok (logged b s)"
proof -
  let ?n = "blockno (bufs s b)"
  let ?s = "s\<lparr>lh_block := (lh_block s)[nat (lh_n s) := ?n]\<rparr>"
  have "length (pinned s) = nat (lh_n s)" using n len by (simp add: pinned_def)
  then have i: "log_find ?n (pinned s) = nat (lh_n s)" using log_find_absent [OF p] by simp
  have pin: "bpin b (hold LogLock ?s) = Ok (hold LogLock (add_ref 1 b ?s))" using calm by (intro bpin_hold [of p]) simp_all
  have eq: "(add_ref 1 b ?s)\<lparr>lh_n := lh_n (add_ref 1 b ?s) + 1\<rparr> = logged b s" by (simp add: logged_def add_ref_def set_buf_def)
  have "calm p (logged b s)" using calm by (simp add: logged_def add_ref_def)
  then show ?thesis
    using calm n i pin eq by (simp add: log_write_def calm_simps pinned_def [symmetric] Let_def)
qed

text \<open>
  What a part of a transaction can change: the cache, and the list of blocks of the transaction.
\<close>

definition tframe :: "nat \<Rightarrow> 'z log_scheme \<Rightarrow> 'z log_scheme \<Rightarrow> bool" where
  "tframe p s t \<longleftrightarrow>
     t = s\<lparr>procs := procs t, slocks := slocks t, bufs := bufs t, bnext := bnext t, bprev := bprev t, disk := disk t,
           dwrites := dwrites t, lh_n := lh_n t, lh_block := lh_block t\<rparr>
     \<and> (\<forall>q. \<exists>st. procs t q = (procs s q)\<lparr>pstate := st\<rparr>) \<and> procs t p = procs s p
     \<and> (\<forall>i. (\<forall>b. i \<noteq> BufLock b) \<longrightarrow> slocks t i = slocks s i)"

lemma tframe_refl: "tframe p s s"
  by (simp add: tframe_def pstate_idle)

lemma tframe_trans:
  assumes "tframe p s t" and "tframe p t u"
  shows "tframe p s u"
proof -
  let ?up = "\<lambda>v. v\<lparr>procs := procs u, slocks := slocks u, bufs := bufs u, bnext := bnext u, bprev := bprev u, disk := disk u,
              dwrites := dwrites u, lh_n := lh_n u, lh_block := lh_block u\<rparr>"
  have "t = s\<lparr>procs := procs t, slocks := slocks t, bufs := bufs t, bnext := bnext t, bprev := bprev t, disk := disk t,
           dwrites := dwrites t, lh_n := lh_n t, lh_block := lh_block t\<rparr>" using assms(1) by (simp add: tframe_def)
  then have "?up t = ?up s" by (rule arg_cong [where f = ?up, THEN trans]) simp
  moreover have "u = ?up t" using assms(2) by (simp add: tframe_def)
  ultimately have "u = ?up s" by simp
  moreover have "\<forall>q. \<exists>st. procs u q = (procs s q)\<lparr>pstate := st\<rparr>"
  proof
    fix q
    obtain a where "procs t q = (procs s q)\<lparr>pstate := a\<rparr>" using assms(1) by (auto simp: tframe_def)
    moreover obtain b where "procs u q = (procs t q)\<lparr>pstate := b\<rparr>" using assms(2) by (auto simp: tframe_def)
    ultimately have "procs u q = (procs s q)\<lparr>pstate := b\<rparr>" by simp
    then show "\<exists>st. procs u q = (procs s q)\<lparr>pstate := st\<rparr>" by blast
  qed
  ultimately show ?thesis using assms unfolding tframe_def by simp
qed

lemma tframe_field:
  assumes "tframe p s t"
    and "\<And>ps sl bf nx pv d w n b.
      f (s\<lparr>procs := ps, slocks := sl, bufs := bf, bnext := nx, bprev := pv, disk := d, dwrites := w, lh_n := n, lh_block := b\<rparr>) = f s"
  shows "f t = f s"
proof -
  have "t = s\<lparr>procs := procs t, slocks := slocks t, bufs := bufs t, bnext := bnext t, bprev := bprev t, disk := disk t,
           dwrites := dwrites t, lh_n := lh_n t, lh_block := lh_block t\<rparr>" using assms(1) by (simp add: tframe_def)
  then have "f t = f (s\<lparr>procs := procs t, slocks := slocks t, bufs := bufs t, bnext := bnext t, bprev := bprev t,
           disk := disk t, dwrites := dwrites t, lh_n := lh_n t, lh_block := lh_block t\<rparr>)" by (rule arg_cong)
  with assms(2) show ?thesis by simp
qed

lemma bframe_tframe:
  fixes s t :: "'z log_scheme"
  assumes "bframe p s t"
  shows "tframe p s t"
proof -
  have "t = s\<lparr>procs := procs t, slocks := slocks t, bufs := bufs t, bnext := bnext t, bprev := bprev t, disk := disk t,
           dwrites := dwrites t\<rparr>" using assms by (simp add: bframe_def)
  also have "\<dots> = s\<lparr>procs := procs t, slocks := slocks t, bufs := bufs t, bnext := bnext t, bprev := bprev t, disk := disk t,
           dwrites := dwrites t, lh_n := lh_n t, lh_block := lh_block t\<rparr>" using bframe_log(6,7) [OF assms] by simp
  finally show ?thesis using assms unfolding tframe_def bframe_def by blast
qed

lemma tframe_log:
  fixes s t :: "'z log_scheme"
  assumes "tframe p s t"
  shows "lg_start t = lg_start s" "lg_size t = lg_size s" "outstanding t = outstanding s" "committing t = committing s"
    "lg_dev t = lg_dev s"
  by (rule tframe_field [OF assms]; simp)+


text \<open>
  \<open>tx p s0 s C P Own\<close>: a thread in a transaction has come from \<open>s0\<close> to \<open>s\<close>. The blocks have contents \<open>C\<close>, the
  transaction holds the blocks \<open>P\<close>, the thread holds the buffers \<open>Own\<close>. Nothing was written to the disk.
\<close>

definition tx ::
  "nat \<Rightarrow> 'z log_scheme \<Rightarrow> 'z log_scheme \<Rightarrow> (uint \<Rightarrow> block) \<Rightarrow> uint list \<Rightarrow> (uint \<rightharpoonup> nat) \<Rightarrow> bool"
where
  "tx p s0 s C P Own \<longleftrightarrow> tframe p s0 s
     \<and> sim p s s C (\<lambda>k. (if k \<in> set P then 1 else 0) + (if k \<in> dom Own then 1 else 0)) (dom Own) (disk s0) (dwrites s0) Own
     \<and> pinned s = P \<and> finite (dom Own) \<and> lg_dev s = ROOTDEV \<and> 0 \<le> lh_n s \<and> lh_n s \<le> int LOGSIZE
     \<and> length (lh_block s) = LOGSIZE \<and> log_list (lg_start s) (lg_size s) P \<and> hdr_n (disk s (lg_start s)) = 0"

lemma txD:
  assumes "tx p s0 s C P Own"
  shows "tframe p s0 s"
    "sim p s s C (\<lambda>k. (if k \<in> set P then 1 else 0) + (if k \<in> dom Own then 1 else 0)) (dom Own) (disk s0) (dwrites s0) Own"
    "pinned s = P" "finite (dom Own)" "lg_dev s = ROOTDEV" "length P = nat (lh_n s)" "0 \<le> lh_n s" "lh_n s \<le> int LOGSIZE"
    "length (lh_block s) = LOGSIZE" "log_list (lg_start s) (lg_size s) P" "hdr_n (disk s (lg_start s)) = 0"
proof -
  have "length (lh_block s) = LOGSIZE" "lh_n s \<le> int LOGSIZE" "pinned s = P" using assms by (simp_all add: tx_def)
  then show "length P = nat (lh_n s)" by (auto simp: pinned_def)
qed (use assms in \<open>simp_all add: tx_def\<close>)

lemma tx_start: "log_inv p s \<Longrightarrow> tx p s s (content s) (pinned s) Map.empty"
proof -
  assume inv: "log_inv p s"
  note i = log_invD [OF inv]
  have "0 \<le> lh_n s" "lh_n s \<le> int LOGSIZE" using inv by (simp_all add: log_inv_def)
  then show ?thesis using sim_start [OF i(1,2)] i(3,4,7-10) by (simp add: tx_def tframe_refl)
qed

lemma tx_end: "tx p s0 s C P Map.empty \<Longrightarrow> log_inv p s \<and> content s = C \<and> pinned s = P"
proof -
  assume t: "tx p s0 s C P Map.empty"
  note d = txD [OF t] and m = simD [OF txD(2) [OF t]]
  show ?thesis using d m by (simp add: log_inv_def)
qed

lemma tx_frame: "tx p s0 s C P Own \<Longrightarrow> sim p s t C' R' L' (disk s0) (dwrites s0) Own' \<Longrightarrow>
    L' = dom Own' \<Longrightarrow> R' = (\<lambda>k. (if k \<in> set P then 1 else 0) + (if k \<in> dom Own' then 1 else 0)) \<Longrightarrow> finite (dom Own') \<Longrightarrow>
    tx p s0 t C' P Own'"
proof -
  assume s: "tx p s0 s C P Own" and t: "sim p s t C' R' L' (disk s0) (dwrites s0) Own'" and L: "L' = dom Own'"
    and R: "R' = (\<lambda>k. (if k \<in> set P then 1 else 0) + (if k \<in> dom Own' then 1 else 0))" and fin: "finite (dom Own')"
  note d = txD [OF s] and m = simD [OF t] and f = bframe_log [OF simD(9) [OF t]]
  have "sim p t t C' R' L' (disk s0) (dwrites s0) Own'"
    using sim_start [OF m(1,2)] m by (simp add: sim_def bstep_def)
  moreover have "tframe p s0 t" using tframe_trans [OF d(1) bframe_tframe [OF m(9)]] .
  moreover have "pinned t = P" using f d(3) by (simp add: pinned_def)
  moreover have "disk t = disk s" using m(6) simD(6) [OF d(2)] by simp
  ultimately show ?thesis using d f L R fin by (simp add: tx_def)
qed

lemma wp_bread_tx:
  assumes s: "tx p s0 s C P Own" and n: "n \<notin> dom Own" and room: "n \<in> set P \<or> card (set P \<union> dom Own) < NBUF"
    and k: "\<And>b t. tx p s0 t C P (Own(n \<mapsto> b)) \<Longrightarrow> bdata (bufs t b) = C n \<Longrightarrow> returns (k b t) Q"
  shows "returns (andthen (bread ROOTDEV n s) (\<lambda>(b, t). k b t)) Q"
proof (rule wp_bread [OF txD(2) [OF s] n])
  note d = txD [OF s]
  have eq: "{k. 0 < (if k \<in> set P then 1 else 0) + (if k \<in> dom Own then 1 else (0 :: int))} = set P \<union> dom Own" by auto
  have "\<exists>b < NBUF. refcnt (bufs s b) = 0" if "card (set P \<union> dom Own) < NBUF"
    by (rule sim_room [OF d(2)]; unfold eq) (use that d(4) in auto)
  then show "0 < (if n \<in> set P then 1 else 0) + (if n \<in> dom Own then 1 else (0 :: int)) \<or> (\<exists>b < NBUF. refcnt (bufs s b) = 0)"
    using room n by auto
  fix b t
  assume t: "sim p s t C ((\<lambda>k. (if k \<in> set P then 1 else 0) + (if k \<in> dom Own then 1 else 0))(n :=
        ((if n \<in> set P then 1 else 0) + (if n \<in> dom Own then 1 else 0)) + 1)) (insert n (dom Own)) (disk s0) (dwrites s0) (Own(n \<mapsto> b))"
    and "bdata (bufs t b) = C n"
  moreover have "tx p s0 t C P (Own(n \<mapsto> b))"
    by (rule tx_frame [OF s t]) (use n d(4) in \<open>auto simp: fun_eq_iff\<close>)
  ultimately show "returns (k b t) Q" by (intro k)
qed

lemma tx_set_data:
  assumes s: "tx p s0 s C P Own" and "Own n = Some b" and "length d = BSIZE"
  shows "tx p s0 (set_data b d s) (C(n := d)) P Own"
  by (rule tx_frame [OF s sim_set_data [OF txD(2) [OF s] assms(2,3)]]) (use txD(4) [OF s] in auto)

lemma wp_brelse_tx:
  assumes s: "tx p s0 s C P Own" and o: "Own n = Some b" and clean: "n \<notin> set P \<Longrightarrow> C n = disk s0 n"
    and Q: "\<And>t. tx p s0 t C P (Own(n := None)) \<Longrightarrow> Q t"
  shows "returns (brelse b s) Q"
proof (rule wp_brelse_last [OF txD(2) [OF s] o])
  show "(if n \<in> set P then 1 else 0) + (if n \<in> dom Own then 1 else 0) = (1 :: int) \<longrightarrow> C n = disk s0 n"
    using o clean by (auto split: if_splits)
  fix t
  assume t: "sim p s t C ((\<lambda>k. (if k \<in> set P then 1 else 0) + (if k \<in> dom Own then 1 else 0))(n :=
        (if n \<in> set P then 1 else 0) + (if n \<in> dom Own then 1 else 0) - 1)) (dom Own - {n}) (disk s0) (dwrites s0) (Own(n := None))"
  show "Q t"
    by (rule Q, rule tx_frame [OF s t]) (use o txD(4) [OF s] in \<open>auto simp: fun_eq_iff\<close>)
qed

definition log_add :: "uint \<Rightarrow> uint list \<Rightarrow> uint list" where
  "log_add n P = (if n \<in> set P then P else P @ [n])"

lemma tx_log_write:
  assumes s: "tx p s0 s C P Own" and o: "Own n = Some b" and area: "n \<notin> log_area (lg_start s) (lg_size s)"
    and room: "int (length P) < lg_size s - 1" "Suc (length P) < NBUF" and op: "1 \<le> outstanding s"
  shows "\<exists>t. log_write b s = Ok t \<and> tx p s0 t C (log_add n P) Own"
proof -
  note d = txD [OF s] and m = simD [OF txD(2) [OF s]]
  have bn: "blockno (bufs s b) = n" using bownsD(4) [OF m(8) [OF o]] .
  have n: "lh_n s < int LOGSIZE" "lh_n s < lg_size s - 1" using room d(6,7) by simp_all
  show ?thesis
  proof (cases "n \<in> set P")
    case True
    then have "log_write b s = Ok s" using log_write_present [OF m(1) d(7) n op d(9)] bn d(3) by simp
    with s True show ?thesis by (simp add: log_add_def)
  next
    case False
    let ?s = "s\<lparr>lh_block := (lh_block s)[nat (lh_n s) := n], lh_n := lh_n s + 1\<rparr>"
    let ?t = "add_ref 1 b ?s"
    have w: "log_write b s = Ok ?t"
      using log_write_absent [OF m(1) d(7) n op d(9)] bn d(3) False by (simp add: logged_def)
    have swap: "?s = s\<lparr>lh_n := lh_n s + 1, lh_block := (lh_block s)[nat (lh_n s) := n]\<rparr>" by simp
    let ?R = "\<lambda>P k. (if k \<in> set P then 1 else 0) + (if k \<in> dom Own then 1 else 0 :: int)"
    have "sim p ?s ?s C (?R P) (dom Own) (disk s0) (dwrites s0) Own"
      unfolding swap by (rule sim_restart [OF d(2)])
    then have "sim p ?s ?t C ((?R P)(n := ?R P n + 1)) (dom Own) (disk s0) (dwrites s0) Own"
      using o by (rule sim_add_ref) simp
    moreover have "(?R P)(n := ?R P n + 1) = ?R (P @ [n])" using False by (auto simp: fun_eq_iff)
    ultimately have t: "sim p ?s ?t C (?R (P @ [n])) (dom Own) (disk s0) (dwrites s0) Own" by simp
    note f = bframe_log [OF simD(9) [OF t]]
    have tt: "sim p ?t ?t C (?R (P @ [n])) (dom Own) (disk s0) (dwrites s0) Own"
      using t by (simp add: sim_def bstep_def bframe_refl)
    have len: "nat (lh_n s) < length (lh_block s)" using n d(9) by simp
    then have P: "pinned ?t = P @ [n]"
      unfolding pinned_def f using d(3,7) by (simp add: nat_add_distrib take_Suc_conv_app_nth pinned_def)
    have "tframe p s ?s" by (simp add: tframe_def pstate_idle)
    then have fr: "tframe p s0 ?t" using tframe_trans [OF d(1)] bframe_tframe [OF simD(9) [OF t]] tframe_trans by blast
    have ll: "log_list (lg_start s) (lg_size s) (P @ [n])" using d(10) False area room by (auto simp: log_list_def)
    have "disk ?t = disk s" using simD(6) [OF t] m(6) by simp
    then have "tx p s0 ?t C (P @ [n]) Own" using fr tt P d f ll n by (simp add: tx_def)
    with w False show ?thesis by (simp add: log_add_def)
  qed
qed

lemma wp_log_write:
  assumes "tx p s0 s C P Own" and "Own n = Some b" and "n \<notin> log_area (lg_start s) (lg_size s)"
    and "int (length P) < lg_size s - 1" "Suc (length P) < NBUF" and "1 \<le> outstanding s"
    and "\<And>t. tx p s0 t C (log_add n P) Own \<Longrightarrow> returns (k t) Q"
  shows "returns (andthen (log_write b s) k) Q"
  using tx_log_write [OF assms(1-6)] assms(7) by auto

section \<open>Properties\<close>

text \<open>
  C1. Atomicity of a transaction. Between two operations of the file system (\<open>log_inv\<close>), \<open>commit\<close>
  returns, and the disk then holds the current content of every block outside the log. Wherever a
  crash cuts the sequence of disk writes it issued, what recovery makes of the disk is either the old
  content of all blocks, or the new content of all blocks, outside the log.
\<close>

theorem commit_crash_atomic:
  assumes "log_inv p s"
  shows "\<exists>t ws. commit s = Ok t \<and> dwrites t = dwrites s @ ws \<and> log_inv p t \<and> lh_n t = 0
     \<and> (\<forall>m. m \<notin> log_area (lg_start s) (lg_size s) \<longrightarrow> content t m = content s m \<and> disk t m = content s m)
     \<and> (\<forall>k \<le> length ws.
          let d = apply_writes (take k ws) (disk s) in
          disk_ok (lg_start s) (lg_size s) d
          \<and> ((\<forall>m. m \<notin> log_area (lg_start s) (lg_size s) \<longrightarrow> logical (lg_start s) d m = disk s m)
             \<or> (\<forall>m. m \<notin> log_area (lg_start s) (lg_size s) \<longrightarrow> logical (lg_start s) d m = content s m)))"
  using commit_atomic [OF assms] unfolding all_or_nothing_def Let_def by blast

text \<open>
  C2. Recovery. On a freshly booted machine whose log is well formed, \<open>recover_from_log\<close> returns with an
  empty log, and every block outside the log has its logical content, in the cache and on the disk.
  The recovery itself may be cut by a crash anywhere: the disk it leaves is again well formed and has
  the same logical content, so a second recovery gives the same result.
\<close>

theorem recovery_correct:
  assumes "rebooted p s"
  shows "\<exists>t ws. recover_from_log s = Ok t \<and> dwrites t = dwrites s @ ws \<and> log_inv p t \<and> lh_n t = 0
     \<and> (\<forall>m. m \<notin> log_area (lg_start s) (lg_size s) \<longrightarrow>
          disk t m = logical (lg_start s) (disk s) m \<and> content t m = logical (lg_start s) (disk s) m)
     \<and> (\<forall>k \<le> length ws.
          let d = apply_writes (take k ws) (disk s) in
          disk_ok (lg_start s) (lg_size s) d
          \<and> (\<forall>m. m \<notin> log_area (lg_start s) (lg_size s) \<longrightarrow> logical (lg_start s) d m = logical (lg_start s) (disk s) m))"
proof -
  let ?ws = "recovery_writes (lg_start s) (disk s)"
  have ok: "disk_ok (lg_start s) (lg_size s) (disk s)" and dev: "lg_dev s = ROOTDEV" using assms by (simp_all add: rebooted_def)
  obtain t where t: "recover_from_log s = Ok t" and st: "sim p t t (apply_writes ?ws (disk s)) (\<lambda>_. 0) {} (apply_writes ?ws (disk s))
     (dwrites s @ ?ws) Map.empty" and v: "log_same (s\<lparr>lh_block := lh_block t\<rparr>) t" "lh_n t = 0" "length (lh_block t) = LOGSIZE"
    by (rule returnsE [OF recover_spec [OF assms]]) blast
  note m = simD [OF st]
  have same: "lg_start t = lg_start s" "lg_size t = lg_size s" "lg_dev t = ROOTDEV" using v(1) dev by (simp_all add: log_same_def)
  have fin: "hdr_n (disk t (lg_start s)) = 0"
    unfolding m(6) using ok by (simp add: recovery_writes_def apply_writes_append hdr_n_def disk_ok_def)
  have "log_list (lg_start s) (lg_size s) []" using ok log_list_Nil by (auto simp: disk_ok_def)
  then have inv: "log_inv p t" using m same v fin by (simp add: log_inv_def pinned_def)
  have c: "disk t m = logical (lg_start s) (disk s) m \<and> content t m = logical (lg_start s) (disk s) m"
    if "m \<notin> log_area (lg_start s) (lg_size s)" for m
    using recovery_complete(2) [OF ok that] m(3,6) by simp
  show ?thesis
  proof (intro exI conjI)
    show "recover_from_log s = Ok t" "dwrites t = dwrites s @ ?ws" "log_inv p t" "lh_n t = 0" by (rule t, rule m(7), rule inv, rule v(2))
    show "\<forall>m. m \<notin> log_area (lg_start s) (lg_size s) \<longrightarrow>
          disk t m = logical (lg_start s) (disk s) m \<and> content t m = logical (lg_start s) (disk s) m" using c by blast
    show "\<forall>k \<le> length ?ws. let d = apply_writes (take k ?ws) (disk s) in disk_ok (lg_start s) (lg_size s) d
          \<and> (\<forall>m. m \<notin> log_area (lg_start s) (lg_size s) \<longrightarrow> logical (lg_start s) d m = logical (lg_start s) (disk s) m)"
      unfolding Let_def using recovery_prefixes [OF ok] by blast
  qed
qed

section \<open>A concrete machine\<close>

text \<open>A machine with an idle cache over a zeroed disk with a log of 30 blocks from block 2 on.\<close>

definition ring_next :: "bptr \<Rightarrow> bptr" where
  "ring_next p = (case p of Head \<Rightarrow> Buf 0 | Buf i \<Rightarrow> if i < 29 then Buf (Suc i) else Head)"

definition ring_prev :: "bptr \<Rightarrow> bptr" where
  "ring_prev p = (case p of Head \<Rightarrow> Buf 29 | Buf i \<Rightarrow> if i = 0 then Head else Buf (i - 1))"

definition idle_log :: log where
  "idle_log = bcache.extend (boot_bcache\<lparr>bnext := ring_next, bprev := ring_prev\<rparr>)
     (log.fields 2 30 1 False ROOTDEV 0 (replicate LOGSIZE 0))"

lemma idle_log_sel:
  "bufs idle_log = bufs boot_bcache" "disk idle_log = disk boot_bcache" "bnext idle_log = ring_next"
  "bprev idle_log = ring_prev" "slocks idle_log = slocks boot_bcache" "lg_start idle_log = 2" "lg_size idle_log = 30"
  "outstanding idle_log = 1" "lg_dev idle_log = ROOTDEV" "lh_n idle_log = 0" "lh_block idle_log = replicate LOGSIZE 0"
  by (simp_all add: idle_log_def boot_defs log.defs)

lemma idle_log_calm: "calm 0 idle_log"
  by (simp add: idle_log_def boot_defs log.defs calm_def settled_def lock_free_def mach_defs)

lemma idle_ring: "linked ring_next ring_prev (Head # map Buf [0..<30] @ [Head])"
  by (simp add: upt_rec [of _ 30] ring_next_def ring_prev_def)

lemma idle_uncached: "\<not> cached idle_log n b"
  by (simp add: cached_def idle_log_sel boot_bcache_fields ROOTDEV_def)

lemma idle_log_bc: "bc_inv idle_log" "content idle_log = disk boot_bcache" "refs idle_log = (\<lambda>_. 0)" "lockset idle_log = {}"
proof -
  have "dll idle_log [0..<NBUF]" using idle_ring by (simp add: dll_def idle_log_sel)
  moreover have "set [0..<NBUF] = {..<NBUF}" by auto
  moreover have "\<not> slocked (slocks idle_log (BufLock b))" for b by (simp add: idle_log_sel boot_defs)
  then have "buf_ok idle_log b" for b
    by (simp add: buf_ok_def idle_log_sel(1,2) boot_bcache_fields ROOTDEV_def)
  ultimately show "bc_inv idle_log"
    unfolding bc_inv_def using idle_uncached by (auto simp: idle_log_sel boot_bcache_fields)
  show "content idle_log = disk boot_bcache" "refs idle_log = (\<lambda>_. 0)" "lockset idle_log = {}"
    using idle_uncached content_uncached [of idle_log] refs_uncached [of idle_log] lockset_uncached [of idle_log]
    by (auto simp: fun_eq_iff idle_log_sel)
qed

lemma idle_hdr: "hdr_n (disk idle_log 2) = 0" "hdr_list (disk idle_log 2) = []"
  by (simp_all add: hdr_list_def hdr_n_def get32_def get_bytes_def idle_log_sel boot_bcache_fields of_le_def numeral_eq_Suc)

lemma idle_log_inv: "log_inv 0 idle_log"
  using idle_log_calm idle_log_bc idle_hdr
  by (simp add: log_inv_def idle_log_sel pinned_def log_list_def)

lemma idle_log_rebooted: "rebooted 0 idle_log"
  using idle_log_calm idle_log_bc idle_hdr
  by (simp add: rebooted_def idle_log_sel disk_ok_def log_list_def boot_bcache_fields)

lemma log_area_idle: "log_area 2 30 = {n. 2 \<le> n \<and> n < (32 :: uint)}"
proof (intro equalityI subsetI)
  fix n :: uint
  assume "n \<in> {n. 2 \<le> n \<and> n < 32}"
  then have u: "2 \<le> unat n" "unat n < 32" by (simp_all add: word_le_nat_alt word_less_nat_alt)
  have "n = 2 + of_nat (unat n - 2)" using u by (simp add: of_nat_diff)
  with u show "n \<in> log_area 2 30" unfolding log_area_def by (intro image_eqI [of _ _ "unat n - 2"]) auto
next
  fix n :: uint
  assume "n \<in> log_area 2 30"
  then obtain i where i: "i < 30" "n = 2 + of_nat i" by (auto simp: log_area_def)
  then have "n = of_nat (i + 2)" by simp
  then have "unat n = i + 2" using i(1) unat_of_nat32 [of "i + 2"] by simp
  then show "n \<in> {n. 2 \<le> n \<and> n < 32}" using i(1) by (simp add: word_le_nat_alt word_less_nat_alt)
qed

text \<open>The same machine after a transaction has changed block 40.\<close>

lemma busy_log: "\<exists>s :: log. log_inv 0 s \<and> pinned s = [40] \<and> lg_start s = 2 \<and> lg_size s = 30
    \<and> content s 40 = replicate BSIZE 7 \<and> disk s 40 = replicate BSIZE 0"
proof -
  let ?d = "replicate BSIZE 7 :: block" and ?C = "disk boot_bcache"
  have t0: "tx 0 idle_log idle_log ?C [] Map.empty"
    using tx_start [OF idle_log_inv] idle_log_bc(2) by (simp add: pinned_def idle_log_sel)
  have "returns (andthen (bread ROOTDEV 40 idle_log) (\<lambda>(b, s). andthen (log_write b (set_data b ?d s)) (brelse b)))
      (\<lambda>t. tx 0 idle_log t (?C(40 := ?d)) [40] Map.empty)"
  proof (rule wp_bread_tx [OF t0])
    fix b s
    assume "tx 0 idle_log s ?C [] (Map.empty(40 \<mapsto> b))"
    then have t1: "tx 0 idle_log (set_data b ?d s) (?C(40 := ?d)) [] (Map.empty(40 \<mapsto> b))"
      by (rule tx_set_data) simp_all
    note f = tframe_log [OF txD(1) [OF t1]]
    show "returns (andthen (log_write b (set_data b ?d s)) (brelse b)) (\<lambda>t. tx 0 idle_log t (?C(40 := ?d)) [40] Map.empty)"
    proof (rule wp_log_write [OF t1, of 40])
      fix t
      assume t2: "tx 0 idle_log t (?C(40 := ?d)) (log_add 40 []) (Map.empty(40 \<mapsto> b))"
      show "returns (brelse b t) (\<lambda>t. tx 0 idle_log t (?C(40 := ?d)) [40] Map.empty)"
        by (rule wp_brelse_tx [OF t2, of 40]) (simp_all add: log_add_def)
    qed (simp_all add: f idle_log_sel log_area_idle)
  qed simp_all
  then obtain t where t: "tx 0 idle_log t (?C(40 := ?d)) [40] Map.empty" by (rule returnsE)
  have "disk t = disk idle_log" using simD(6) [OF txD(2) [OF t]] .
  then show ?thesis
    using tx_end [OF t] tframe_log [OF txD(1) [OF t]] by (intro exI [of _ t]) (simp add: idle_log_sel boot_bcache_fields)
qed

theorem commit_crash_atomic_witness:
  "\<exists>(s :: log) t ws. log_inv 0 s \<and> pinned s = [40] \<and> commit s = Ok t \<and> dwrites t = dwrites s @ ws
     \<and> disk s 40 \<noteq> disk t 40
     \<and> (\<forall>k \<le> length ws. logical 2 (apply_writes (take k ws) (disk s)) 40 = disk s 40
          \<or> logical 2 (apply_writes (take k ws) (disk s)) 40 = disk t 40)"
proof -
  obtain s :: log where s: "log_inv 0 s" "pinned s = [40]" "lg_start s = 2" "lg_size s = 30"
      "content s 40 = replicate BSIZE 7" "disk s 40 = replicate BSIZE 0" using busy_log by blast
  have a: "40 \<notin> log_area (lg_start s) (lg_size s)" by (simp add: s log_area_idle)
  obtain t ws where "commit s = Ok t" "dwrites t = dwrites s @ ws" "disk t 40 = content s 40"
      "\<forall>k \<le> length ws. logical 2 (apply_writes (take k ws) (disk s)) 40 = disk s 40
          \<or> logical 2 (apply_writes (take k ws) (disk s)) 40 = content s 40"
    using commit_crash_atomic [OF s(1)] a unfolding Let_def s(3) by blast
  moreover have "replicate 1024 (0 :: byte) \<noteq> replicate 1024 7" by simp
  ultimately show ?thesis using s by (intro exI [of _ s] exI [of _ t] exI [of _ ws]) auto
qed

theorem recovery_correct_witness:
  "\<exists>t. recover_from_log idle_log = Ok t \<and> log_inv 0 t \<and> disk t 40 = replicate 1024 0"
proof -
  have "logical 2 (disk idle_log) 40 = replicate 1024 0"
    by (simp add: logical_empty idle_hdr) (simp add: idle_log_sel boot_bcache_fields)
  then show ?thesis
    using recovery_correct [OF idle_log_rebooted] by (auto simp: idle_log_sel(6,7) log_area_idle)
qed

end
