(* ===== verification/Fs.thy ===== *)
theory Fs
  imports Log
begin

text \<open>
  The file system below directories (\<^verbatim>\<open>kernel/fs.c\<close>, \<^verbatim>\<open>kernel/fs.h\<close>, \<^verbatim>\<open>kernel/file.h\<close>): the super block,
  the block bitmap, the inode table and the contents of inodes. All of it works on disk blocks as
  arrays of bytes in the buffer cache, and writes through the log.
\<close>

section \<open>State\<close>

abbreviation (input) ROOTINO :: uint where "ROOTINO \<equiv> 1"
abbreviation (input) NDIRECT :: nat where "NDIRECT \<equiv> 12"
abbreviation (input) NINDIRECT :: nat where "NINDIRECT \<equiv> 256"
abbreviation (input) MAXFILE :: nat where "MAXFILE \<equiv> NDIRECT + NINDIRECT"
abbreviation (input) IPB :: nat where "IPB \<equiv> 16"
abbreviation (input) BPB :: nat where "BPB \<equiv> 8192"
abbreviation (input) NINODE :: nat where "NINODE \<equiv> 50"
abbreviation (input) T_DIR :: ushort where "T_DIR \<equiv> 1"
abbreviation (input) T_FILE :: ushort where "T_FILE \<equiv> 2"
abbreviation (input) T_DEVICE :: ushort where "T_DEVICE \<equiv> 3"

definition FSMAGIC :: uint where "FSMAGIC = 0x10203040"

record dinode =
  d_type :: ushort
  d_major :: ushort
  d_minor :: ushort
  d_nlink :: ushort
  d_size :: uint
  d_addrs :: "uint list"

text \<open>The in-memory copy of an inode; its sleep lock is \<open>InodeLock i\<close> for the entry \<open>i\<close> of the table.\<close>

record inode =
  idev :: uint
  inum :: uint
  iref :: int
  ivalid :: bool
  itype :: ushort
  imajor :: ushort
  iminor :: ushort
  inlink :: ushort
  isize :: uint
  iaddrs :: "uint list"

record stat =
  st_dev :: uint
  st_ino :: uint
  st_type :: ushort
  st_nlink :: ushort
  st_size :: uint64

text \<open>\<open>kmsgs\<close> is what the kernel has reported with \<open>printf\<close>.\<close>

record fs = log +
  sb :: superblock
  inodes :: "nat \<Rightarrow> inode"
  kmsgs :: "string list"

definition kprintf :: "string \<Rightarrow> 'z fs_scheme \<Rightarrow> 'z fs_scheme" where
  "kprintf msg s = s\<lparr>kmsgs := kmsgs s @ [msg]\<rparr>"

definition set_inode :: "nat \<Rightarrow> (inode \<Rightarrow> inode) \<Rightarrow> 'z fs_scheme \<Rightarrow> 'z fs_scheme" where
  "set_inode i f s = s\<lparr>inodes := (inodes s)(i := f (inodes s i))\<rparr>"

section \<open>The super block and the bitmap\<close>

definition sb_get :: "byte list \<Rightarrow> superblock" where
  "sb_get bs = \<lparr>sb_magic = get32 0 bs, sb_size = get32 4 bs, sb_nblocks = get32 8 bs, sb_ninodes = get32 12 bs,
     sb_nlog = get32 16 bs, sb_logstart = get32 20 bs, sb_inodestart = get32 24 bs, sb_bmapstart = get32 28 bs\<rparr>"

definition readsb :: "uint \<Rightarrow> 'z fs_scheme \<Rightarrow> 'z fs_scheme res" where
  "readsb dev s =
     andthen (bread dev 1 s) (\<lambda>(bp, s1).
     brelse bp (s1\<lparr>sb := sb_get (bdata (bufs s1 bp))\<rparr>))"

definition fsinit :: "uint \<Rightarrow> 'z fs_scheme \<Rightarrow> 'z fs_scheme res" where
  "fsinit dev s =
     andthen (readsb dev s) (\<lambda>s1.
     if sb_magic (sb s1) \<noteq> FSMAGIC then Panic ''invalid file system''
     else initlog dev (sb s1) s1)"

definition bzero :: "uint \<Rightarrow> uint \<Rightarrow> 'z fs_scheme \<Rightarrow> 'z fs_scheme res" where
  "bzero dev bno s =
     andthen (bread dev bno s) (\<lambda>(bp, s1).
     andthen (log_write bp (set_data bp (replicate BSIZE 0) s1)) (brelse bp))"

definition BBLOCK :: "nat \<Rightarrow> superblock \<Rightarrow> uint" where
  "BBLOCK b k = of_nat (b div BPB) + sb_bmapstart k"

definition IBLOCK :: "uint \<Rightarrow> superblock \<Rightarrow> uint" where
  "IBLOCK i k = of_nat (unat i div IPB) + sb_inodestart k"

text \<open>The test, the setting and the clearing of bit \<open>bi\<close> of a bitmap block.\<close>

definition bm_test :: "nat \<Rightarrow> byte list \<Rightarrow> bool" where
  "bm_test bi bs \<longleftrightarrow> bs ! (bi div 8) AND push_bit (bi mod 8) 1 \<noteq> 0"

definition bm_set :: "nat \<Rightarrow> byte list \<Rightarrow> byte list" where
  "bm_set bi bs = bs[bi div 8 := bs ! (bi div 8) OR push_bit (bi mod 8) 1]"

definition bm_clear :: "nat \<Rightarrow> byte list \<Rightarrow> byte list" where
  "bm_clear bi bs = bs[bi div 8 := bs ! (bi div 8) AND NOT (push_bit (bi mod 8) 1)]"

text \<open>
  The outer loop of \<open>balloc\<close> visits the first block number of each bitmap block; the counter is an
  \<open>int\<close>, so a device of more than \<open>2 ^ 31\<close> blocks makes it overflow.
\<close>

fun balloc_loop :: "uint \<Rightarrow> nat list \<Rightarrow> 'z fs_scheme \<Rightarrow> (uint \<times> 'z fs_scheme) res" where
  "balloc_loop dev [] s = Ok (0, kprintf ''balloc: out of blocks'' s)"
| "balloc_loop dev (b # bs) s =
     (if b \<ge> 2 ^ 31 then Panic ''undefined: int overflow''
      else andthen (bread dev (BBLOCK b (sb s)) s) (\<lambda>(bp, s1).
        case find (\<lambda>bi. \<not> bm_test bi (bdata (bufs s1 bp))) [0..<min BPB (unat (sb_size (sb s1)) - b)] of
          Some bi \<Rightarrow>
            andthen (log_write bp (set_data bp (bm_set bi (bdata (bufs s1 bp))) s1)) (\<lambda>s2.
            andthen (brelse bp s2) (\<lambda>s3.
            andthen (bzero dev (of_nat (b + bi)) s3) (\<lambda>s4. Ok (of_nat (b + bi), s4))))
        | None \<Rightarrow> andthen (brelse bp s1) (balloc_loop dev bs)))"

definition bmap_starts :: "superblock \<Rightarrow> nat list" where
  "bmap_starts k = map (\<lambda>j. j * BPB) [0..<(unat (sb_size k) + BPB - 1) div BPB]"

definition balloc :: "uint \<Rightarrow> 'z fs_scheme \<Rightarrow> (uint \<times> 'z fs_scheme) res" where
  "balloc dev s = balloc_loop dev (bmap_starts (sb s)) s"

definition bfree :: "uint \<Rightarrow> uint \<Rightarrow> 'z fs_scheme \<Rightarrow> 'z fs_scheme res" where
  "bfree dev b s =
     andthen (bread dev (BBLOCK (unat b) (sb s)) s) (\<lambda>(bp, s1).
     let bi = unat b mod BPB in
     if \<not> bm_test bi (bdata (bufs s1 bp)) then Panic ''freeing free block''
     else andthen (log_write bp (set_data bp (bm_clear bi (bdata (bufs s1 bp))) s1)) (brelse bp))"

section \<open>Inodes\<close>

text \<open>The layout of \<open>struct dinode\<close>: 64 bytes at \<open>off\<close> of a block of inodes.\<close>

definition dinode_get :: "nat \<Rightarrow> byte list \<Rightarrow> dinode" where
  "dinode_get off bs =
     \<lparr>d_type = get16 off bs, d_major = get16 (off + 2) bs, d_minor = get16 (off + 4) bs, d_nlink = get16 (off + 6) bs,
      d_size = get32 (off + 8) bs, d_addrs = map (\<lambda>i. get32 (off + 12 + 4 * i) bs) [0..<NDIRECT + 1]\<rparr>"

definition dinode_put :: "nat \<Rightarrow> dinode \<Rightarrow> byte list \<Rightarrow> byte list" where
  "dinode_put off d bs =
     fold (\<lambda>i. put32 (off + 12 + 4 * i) (d_addrs d ! i)) [0..<NDIRECT + 1]
       (put32 (off + 8) (d_size d) (put16 (off + 6) (d_nlink d) (put16 (off + 4) (d_minor d)
         (put16 (off + 2) (d_major d) (put16 off (d_type d) bs)))))"

definition ioff :: "uint \<Rightarrow> nat" where
  "ioff i = 64 * (unat i mod IPB)"

definition iinit :: "'z fs_scheme \<Rightarrow> 'z fs_scheme res" where
  "iinit s = for_each [0..<NINODE] (\<lambda>i s. Ok (initsleeplock (InodeLock i) ''inode'' s)) (initlock ItableLock ''itable'' s)"

text \<open>
  The scan of \<open>iget\<close>: the entry that holds the inode already, or the first free entry seen.
\<close>

fun iget_scan :: "(nat \<Rightarrow> inode) \<Rightarrow> uint \<Rightarrow> uint \<Rightarrow> nat list \<Rightarrow> nat option \<Rightarrow> nat + nat option" where
  "iget_scan t dev ino [] emp = Inr emp"
| "iget_scan t dev ino (i # is) emp =
     (if iref (t i) > 0 \<and> idev (t i) = dev \<and> inum (t i) = ino then Inl i
      else iget_scan t dev ino is (if emp = None \<and> iref (t i) = 0 then Some i else emp))"

definition iget :: "uint \<Rightarrow> uint \<Rightarrow> 'z fs_scheme \<Rightarrow> (nat \<times> 'z fs_scheme) res" where
  "iget dev ino s =
     andthen (acquire ItableLock s) (\<lambda>s1.
     case iget_scan (inodes s1) dev ino [0..<NINODE] None of
       Inl i \<Rightarrow> andthen (release ItableLock (set_inode i (\<lambda>r. r\<lparr>iref := iref r + 1\<rparr>) s1)) (\<lambda>s2. Ok (i, s2))
     | Inr None \<Rightarrow> Panic ''iget: no inodes''
     | Inr (Some i) \<Rightarrow>
         andthen (release ItableLock (set_inode i (\<lambda>r. r\<lparr>idev := dev, inum := ino, iref := 1, ivalid := False\<rparr>) s1))
         (\<lambda>s2. Ok (i, s2)))"

fun ialloc_loop :: "uint \<Rightarrow> ushort \<Rightarrow> nat list \<Rightarrow> 'z fs_scheme \<Rightarrow> (nat option \<times> 'z fs_scheme) res" where
  "ialloc_loop dev ty [] s = Ok (None, kprintf ''ialloc: no inodes'' s)"
| "ialloc_loop dev ty (n # ns) s =
     (if n \<ge> 2 ^ 31 then Panic ''undefined: int overflow''
      else andthen (bread dev (IBLOCK (of_nat n) (sb s)) s) (\<lambda>(bp, s1).
        let off = ioff (of_nat n); data = bdata (bufs s1 bp) in
        if get16 off data = 0
        then andthen (log_write bp (set_data bp (put16 off ty (put_bytes off (replicate 64 0) data)) s1)) (\<lambda>s2.
             andthen (brelse bp s2) (\<lambda>s3.
             andthen (iget dev (of_nat n) s3) (\<lambda>(i, s4). Ok (Some i, s4))))
        else andthen (brelse bp s1) (ialloc_loop dev ty ns)))"

definition ialloc :: "uint \<Rightarrow> ushort \<Rightarrow> 'z fs_scheme \<Rightarrow> (nat option \<times> 'z fs_scheme) res" where
  "ialloc dev ty s = ialloc_loop dev ty [1..<unat (sb_ninodes (sb s))] s"

definition dinode_of :: "inode \<Rightarrow> dinode" where
  "dinode_of r = \<lparr>d_type = itype r, d_major = imajor r, d_minor = iminor r, d_nlink = inlink r,
     d_size = isize r, d_addrs = iaddrs r\<rparr>"

definition iupdate :: "nat \<Rightarrow> 'z fs_scheme \<Rightarrow> 'z fs_scheme res" where
  "iupdate ip s =
     andthen (bread (idev (inodes s ip)) (IBLOCK (inum (inodes s ip)) (sb s)) s) (\<lambda>(bp, s1).
     let r = inodes s1 ip in
     andthen (log_write bp (set_data bp (dinode_put (ioff (inum r)) (dinode_of r) (bdata (bufs s1 bp))) s1)) (brelse bp))"

definition idup :: "nat \<Rightarrow> 'z fs_scheme \<Rightarrow> (nat \<times> 'z fs_scheme) res" where
  "idup ip s =
     andthen (acquire ItableLock s) (\<lambda>s1.
     andthen (release ItableLock (set_inode ip (\<lambda>r. r\<lparr>iref := iref r + 1\<rparr>) s1)) (\<lambda>s2. Ok (ip, s2)))"

definition load_dinode :: "dinode \<Rightarrow> inode \<Rightarrow> inode" where
  "load_dinode d r = r\<lparr>itype := d_type d, imajor := d_major d, iminor := d_minor d, inlink := d_nlink d,
     isize := d_size d, iaddrs := d_addrs d\<rparr>"

definition ilock :: "nat option \<Rightarrow> 'z fs_scheme \<Rightarrow> 'z fs_scheme res" where
  "ilock p s =
     (case p of
        None \<Rightarrow> Panic ''ilock''
      | Some ip \<Rightarrow>
          if iref (inodes s ip) < 1 then Panic ''ilock''
          else andthen (acquiresleep (InodeLock ip) s) (\<lambda>s1.
            if ivalid (inodes s1 ip) then Ok s1
            else andthen (bread (idev (inodes s1 ip)) (IBLOCK (inum (inodes s1 ip)) (sb s1)) s1) (\<lambda>(bp, s2).
              let d = dinode_get (ioff (inum (inodes s2 ip))) (bdata (bufs s2 bp)) in
              andthen (brelse bp (set_inode ip (load_dinode d) s2)) (\<lambda>s3.
              let s4 = set_inode ip (\<lambda>r. r\<lparr>ivalid := True\<rparr>) s3 in
              if itype (inodes s4 ip) = 0 then Panic ''ilock: no type'' else Ok s4))))"

definition iunlock :: "nat option \<Rightarrow> 'z fs_scheme \<Rightarrow> 'z fs_scheme res" where
  "iunlock p s =
     (case p of
        None \<Rightarrow> Panic ''iunlock''
      | Some ip \<Rightarrow>
          andthen (holdingsleep (InodeLock ip) s) (\<lambda>(h, s1).
          if \<not> h \<or> iref (inodes s1 ip) < 1 then Panic ''iunlock''
          else releasesleep (InodeLock ip) s1))"

section \<open>Inode contents\<close>

text \<open>\<open>bmap\<close> may store the new block in \<open>ip->addrs\<close>; \<open>set_addr\<close> is that assignment.\<close>

definition set_addr :: "nat \<Rightarrow> nat \<Rightarrow> uint \<Rightarrow> 'z fs_scheme \<Rightarrow> 'z fs_scheme" where
  "set_addr ip k a s = set_inode ip (\<lambda>r. r\<lparr>iaddrs := (iaddrs r)[k := a]\<rparr>) s"

definition bmap :: "nat \<Rightarrow> uint \<Rightarrow> 'z fs_scheme \<Rightarrow> (uint \<times> 'z fs_scheme) res" where
  "bmap ip bn s =
     (let r = inodes s ip in
      if unat bn < NDIRECT
      then if iaddrs r ! unat bn = 0
           then andthen (balloc (idev r) s) (\<lambda>(addr, s1).
                if addr = 0 then Ok (0, s1) else Ok (addr, set_addr ip (unat bn) addr s1))
           else Ok (iaddrs r ! unat bn, s)
      else let k = unat bn - NDIRECT in
      if k < NINDIRECT
      then andthen (if iaddrs r ! NDIRECT = 0
                    then andthen (balloc (idev r) s) (\<lambda>(addr, s1).
                         if addr = 0 then Ok (0, s1) else Ok (addr, set_addr ip NDIRECT addr s1))
                    else Ok (iaddrs r ! NDIRECT, s)) (\<lambda>(ind, s1).
           if ind = 0 then Ok (0, s1)
           else andthen (bread (idev (inodes s1 ip)) ind s1) (\<lambda>(bp, s2).
             let addr = get32 (4 * k) (bdata (bufs s2 bp)) in
             andthen (if addr = 0
                      then andthen (balloc (idev (inodes s2 ip)) s2) (\<lambda>(addr, s3).
                           if addr \<noteq> 0
                           then andthen (log_write bp (set_data bp (put32 (4 * k) addr (bdata (bufs s3 bp))) s3)) (\<lambda>s4.
                                Ok (addr, s4))
                           else Ok (addr, s3))
                      else Ok (addr, s2)) (\<lambda>(addr, s3).
             andthen (brelse bp s3) (\<lambda>s4. Ok (addr, s4)))))
      else Panic ''bmap: out of range'')"

definition itrunc :: "nat \<Rightarrow> 'z fs_scheme \<Rightarrow> 'z fs_scheme res" where
  "itrunc ip s =
     andthen (for_each [0..<NDIRECT] (\<lambda>i s.
        if iaddrs (inodes s ip) ! i \<noteq> 0
        then andthen (bfree (idev (inodes s ip)) (iaddrs (inodes s ip) ! i) s) (\<lambda>s1. Ok (set_addr ip i 0 s1))
        else Ok s) s) (\<lambda>s1.
     andthen (if iaddrs (inodes s1 ip) ! NDIRECT \<noteq> 0
        then andthen (bread (idev (inodes s1 ip)) (iaddrs (inodes s1 ip) ! NDIRECT) s1) (\<lambda>(bp, s2).
             andthen (for_each [0..<NINDIRECT] (\<lambda>j s.
               if get32 (4 * j) (bdata (bufs s bp)) \<noteq> 0
               then bfree (idev (inodes s ip)) (get32 (4 * j) (bdata (bufs s bp))) s
               else Ok s) s2) (\<lambda>s3.
             andthen (brelse bp s3) (\<lambda>s4.
             andthen (bfree (idev (inodes s4 ip)) (iaddrs (inodes s4 ip) ! NDIRECT) s4) (\<lambda>s5.
             Ok (set_addr ip NDIRECT 0 s5)))))
        else Ok s1) (\<lambda>s6.
     iupdate ip (set_inode ip (\<lambda>r. r\<lparr>isize := 0\<rparr>) s6)))"

definition iput :: "nat \<Rightarrow> 'z fs_scheme \<Rightarrow> 'z fs_scheme res" where
  "iput ip s =
     andthen (acquire ItableLock s) (\<lambda>s1.
     andthen (if iref (inodes s1 ip) = 1 \<and> ivalid (inodes s1 ip) \<and> inlink (inodes s1 ip) = 0
        then andthen (acquiresleep (InodeLock ip) s1) (\<lambda>s2.
             andthen (release ItableLock s2) (\<lambda>s3.
             andthen (itrunc ip s3) (\<lambda>s4.
             andthen (iupdate ip (set_inode ip (\<lambda>r. r\<lparr>itype := 0\<rparr>) s4)) (\<lambda>s5.
             andthen (releasesleep (InodeLock ip) (set_inode ip (\<lambda>r. r\<lparr>ivalid := False\<rparr>) s5))
             (acquire ItableLock)))))
        else Ok s1) (\<lambda>s6.
     release ItableLock (set_inode ip (\<lambda>r. r\<lparr>iref := iref r - 1\<rparr>) s6)))"

definition iunlockput :: "nat \<Rightarrow> 'z fs_scheme \<Rightarrow> 'z fs_scheme res" where
  "iunlockput ip s = andthen (iunlock (Some ip) s) (iput ip)"

definition stati :: "nat \<Rightarrow> 'z fs_scheme \<Rightarrow> stat" where
  "stati ip s = (let r = inodes s ip in
     \<lparr>st_dev = idev r, st_ino = inum r, st_type = itype r, st_nlink = inlink r, st_size = ucast (isize r)\<rparr>)"

text \<open>
  The number of bytes of one round of \<open>readi\<close> and \<open>writei\<close>: up to the end of the block or of the request.
\<close>

definition piece :: "uint \<Rightarrow> uint \<Rightarrow> uint" where
  "piece left off = min left (1024 - off mod 1024)"

lemma off_mod: "unat (off mod 1024 :: uint) = unat off mod BSIZE"
  by (simp add: unat_mod)

lemma unat_piece: "unat (piece left off) = min (unat left) (BSIZE - unat off mod BSIZE)"
proof -
  have "unat (1024 - off mod 1024 :: uint) = BSIZE - unat off mod BSIZE"
    by (subst unat_sub) (simp_all add: off_mod word_le_nat_alt)
  then show ?thesis
    by (simp add: piece_def min_def word_le_nat_alt)
qed

lemma piece_closer:
  assumes "tot < n"
  shows "unat (n - (tot + piece (n - tot) off)) < unat (n - tot)"
proof -
  let ?m = "piece (n - tot) off"
  have "unat (n - tot) = unat n - unat tot" using assms by (intro unat_sub) simp
  then have pos: "0 < unat (n - tot)" using assms by (simp add: word_less_nat_alt)
  then have "0 < unat ?m" and le: "?m \<le> n - tot"
    by (simp_all add: unat_piece word_le_nat_alt)
  moreover have "unat (n - tot - ?m) = unat (n - tot) - unat ?m" by (rule unat_sub [OF le])
  moreover have "n - (tot + ?m) = n - tot - ?m" by simp
  ultimately show ?thesis using pos by presburger
qed

definition dst_add :: "dest \<Rightarrow> uint \<Rightarrow> dest" where
  "dst_add dst m = (case dst of UserDst a \<Rightarrow> UserDst (a + ucast m) | KernDst a \<Rightarrow> KernDst (a + ucast m) | LocalDst \<Rightarrow> LocalDst)"

definition src_add :: "source \<Rightarrow> uint \<Rightarrow> source" where
  "src_add src m = (case src of UserSrc a \<Rightarrow> UserSrc (a + ucast m) | KernSrc a \<Rightarrow> KernSrc (a + ucast m)
     | LocalSrc bs \<Rightarrow> LocalSrc (drop (unat m) bs))"

text \<open>
  \<open>readi\<close> returns the value of the C function and the bytes it has delivered, which are what a local
  destination of the caller holds afterwards.
\<close>

function readi_loop :: "nat \<Rightarrow> dest \<Rightarrow> uint \<Rightarrow> uint \<Rightarrow> uint \<Rightarrow> 'z fs_scheme \<Rightarrow> (int \<times> byte list \<times> 'z fs_scheme) res" where
  "readi_loop ip dst off tot n s =
     (if tot < n
      then andthen (bmap ip (off div 1024) s) (\<lambda>(addr, s1).
        if addr = 0 then Ok (sint tot, [], s1)
        else andthen (bread (idev (inodes s1 ip)) addr s1) (\<lambda>(bp, s2).
          let m = piece (n - tot) off;
              bs = get_bytes (unat (off mod 1024)) (unat m) (bdata (bufs s2 bp)) in
          andthen (either_copyout dst bs s2) (\<lambda>(r, s3).
          andthen (brelse bp s3) (\<lambda>s4.
          if r = -1 then Ok (-1, [], s4)
          else andthen (readi_loop ip (dst_add dst m) (off + m) (tot + m) n s4) (\<lambda>(t, rest, s5).
               Ok (t, bs @ rest, s5))))))
      else Ok (sint tot, [], s))"
  by pat_completeness auto
termination
  by (relation "measure (\<lambda>(ip, dst, off, tot, n, s). unat (n - tot))") (auto dest: piece_closer)

declare readi_loop.simps [simp del]

definition readi :: "nat \<Rightarrow> dest \<Rightarrow> uint \<Rightarrow> uint \<Rightarrow> 'z fs_scheme \<Rightarrow> (int \<times> byte list \<times> 'z fs_scheme) res" where
  "readi ip dst off n s =
     (let sz = isize (inodes s ip) in
      if off > sz \<or> off + n < off then Ok (0, [], s)
      else readi_loop ip dst off 0 (if off + n > sz then sz - off else n) s)"

text \<open>
  The loop of \<open>writei\<close> returns the final \<open>tot\<close> and \<open>off\<close>. A failing \<open>either_copyin\<close> may have filled a part
  of the buffer before it met the bad address; that part stays in the cache and is not logged.
\<close>

function writei_loop :: "nat \<Rightarrow> source \<Rightarrow> uint \<Rightarrow> uint \<Rightarrow> uint \<Rightarrow> 'z fs_scheme \<Rightarrow> (uint \<times> uint \<times> 'z fs_scheme) res" where
  "writei_loop ip src off tot n s =
     (if tot < n
      then andthen (bmap ip (off div 1024) s) (\<lambda>(addr, s1).
        if addr = 0 then Ok (tot, off, s1)
        else andthen (bread (idev (inodes s1 ip)) addr s1) (\<lambda>(bp, s2).
          let m = piece (n - tot) off in
          andthen (either_copyin src (unat m) s2) (\<lambda>(r, bs, s3).
          let s4 = set_data bp (put_bytes (unat (off mod 1024)) bs (bdata (bufs s3 bp))) s3 in
          if r = -1 then andthen (brelse bp s4) (\<lambda>s5. Ok (tot, off, s5))
          else andthen (log_write bp s4) (\<lambda>s5.
               andthen (brelse bp s5) (\<lambda>s6.
               writei_loop ip (src_add src m) (off + m) (tot + m) n s6)))))
      else Ok (tot, off, s))"
  by pat_completeness auto
termination
  by (relation "measure (\<lambda>(ip, src, off, tot, n, s). unat (n - tot))") (auto dest: piece_closer)

declare writei_loop.simps [simp del]

definition writei :: "nat \<Rightarrow> source \<Rightarrow> uint \<Rightarrow> uint \<Rightarrow> 'z fs_scheme \<Rightarrow> (int \<times> 'z fs_scheme) res" where
  "writei ip src off n s =
     (if off > isize (inodes s ip) \<or> off + n < off then Ok (-1, s)
      else if off + n > of_nat (MAXFILE * BSIZE) then Ok (-1, s)
      else andthen (writei_loop ip src off 0 n s) (\<lambda>(tot, off', s1).
        let s2 = (if off' > isize (inodes s1 ip) then set_inode ip (\<lambda>r. r\<lparr>isize := off'\<rparr>) s1 else s1) in
        andthen (iupdate ip s2) (\<lambda>s3. Ok (sint tot, s3))))"

end
