(* ===== verification/Dir.thy ===== *)
theory Dir
  imports Fs
begin

text \<open>
  Directories and path names (the last part of \<^verbatim>\<open>kernel/fs.c\<close>). A C string that the code only walks
  forward is the list of its characters without the NUL; \<open>*path == 0\<close> is \<open>path = []\<close>. An array
  \<open>char name[DIRSIZ]\<close> is a list of 14 bytes.
\<close>

abbreviation (input) DIRSIZ :: nat where "DIRSIZ \<equiv> 14"

record dirent =
  de_inum :: ushort
  de_name :: "byte list"

definition dirent_get :: "byte list \<Rightarrow> dirent" where
  "dirent_get bs = \<lparr>de_inum = get16 0 bs, de_name = get_bytes 2 DIRSIZ bs\<rparr>"

definition dirent_put :: "dirent \<Rightarrow> byte list" where
  "dirent_put de = le_bytes 2 (de_inum de) @ de_name de"

section \<open>Strings as lists\<close>

text \<open>The character a string pointer points to: NUL at the end of the string.\<close>

definition chr0 :: "byte list \<Rightarrow> byte" where
  "chr0 p = (case p of [] \<Rightarrow> 0 | c # _ \<Rightarrow> c)"

text \<open>\<open>strncmp\<close> and \<open>strncpy\<close> of \<^verbatim>\<open>kernel/string.c\<close> on local arrays.\<close>

fun strncmp_l :: "byte list \<Rightarrow> byte list \<Rightarrow> nat \<Rightarrow> int" where
  "strncmp_l p q 0 = 0"
| "strncmp_l p q (Suc n) =
     (if chr0 p \<noteq> 0 \<and> chr0 p = chr0 q then strncmp_l (tl p) (tl q) n else uint (chr0 p) - uint (chr0 q))"

fun strncpy_l :: "byte list \<Rightarrow> nat \<Rightarrow> byte list" where
  "strncpy_l t 0 = []"
| "strncpy_l t (Suc n) = (if chr0 t \<noteq> 0 then chr0 t # strncpy_l (tl t) n else 0 # replicate n 0)"

definition namecmp :: "byte list \<Rightarrow> byte list \<Rightarrow> int" where
  "namecmp s t = strncmp_l s t DIRSIZ"

section \<open>Directories\<close>

text \<open>
  The offsets the loops of \<open>dirlookup\<close> and \<open>dirlink\<close> visit: multiples of \<open>sizeof(de)\<close> below the size. The
  loops do not change the size of the directory, and a last offset whose increment wraps around is
  one where \<open>readi\<close> does not deliver an entry.
\<close>

definition dir_offs :: "uint \<Rightarrow> uint list" where
  "dir_offs sz = map (\<lambda>k. of_nat (16 * k)) [0..<(unat sz + 15) div 16]"

text \<open>Returns the entry of the inode table, with the offset of the directory entry.\<close>

fun dirlookup_loop :: "nat \<Rightarrow> byte list \<Rightarrow> uint list \<Rightarrow> 'z fs_scheme \<Rightarrow> ((nat \<times> uint) option \<times> 'z fs_scheme) res" where
  "dirlookup_loop dp name [] s = Ok (None, s)"
| "dirlookup_loop dp name (off # offs) s =
     andthen (readi dp LocalDst off 16 s) (\<lambda>(r, bs, s1).
     if r \<noteq> 16 then Panic ''dirlookup read''
     else let de = dirent_get bs in
       if de_inum de = 0 then dirlookup_loop dp name offs s1
       else if namecmp name (de_name de) = 0
       then andthen (iget (idev (inodes s1 dp)) (ucast (de_inum de)) s1) (\<lambda>(i, s2). Ok (Some (i, off), s2))
       else dirlookup_loop dp name offs s1)"

definition dirlookup :: "nat \<Rightarrow> byte list \<Rightarrow> 'z fs_scheme \<Rightarrow> ((nat \<times> uint) option \<times> 'z fs_scheme) res" where
  "dirlookup dp name s =
     (if itype (inodes s dp) \<noteq> T_DIR then Panic ''dirlookup not DIR''
      else dirlookup_loop dp name (dir_offs (isize (inodes s dp))) s)"

text \<open>The offset of the first empty entry, or the first offset past the last entry.\<close>

fun dirlink_loop :: "nat \<Rightarrow> uint list \<Rightarrow> uint \<Rightarrow> 'z fs_scheme \<Rightarrow> (uint \<times> 'z fs_scheme) res" where
  "dirlink_loop dp [] off_end s = Ok (off_end, s)"
| "dirlink_loop dp (off # offs) off_end s =
     andthen (readi dp LocalDst off 16 s) (\<lambda>(r, bs, s1).
     if r \<noteq> 16 then Panic ''dirlink read''
     else if de_inum (dirent_get bs) = 0 then Ok (off, s1)
     else dirlink_loop dp offs off_end s1)"

definition dirlink :: "nat \<Rightarrow> byte list \<Rightarrow> uint \<Rightarrow> 'z fs_scheme \<Rightarrow> (int \<times> 'z fs_scheme) res" where
  "dirlink dp name ino s =
     andthen (dirlookup dp name s) (\<lambda>(found, s1).
     case found of
       Some (ip, _) \<Rightarrow> andthen (iput ip s1) (\<lambda>s2. Ok (-1, s2))
     | None \<Rightarrow>
         let offs = dir_offs (isize (inodes s1 dp)) in
         andthen (dirlink_loop dp offs (of_nat (16 * length offs)) s1) (\<lambda>(off, s2).
         let de = \<lparr>de_inum = ucast ino, de_name = strncpy_l name DIRSIZ\<rparr> in
         andthen (writei dp (LocalSrc (dirent_put de)) off 16 s2) (\<lambda>(r, s3).
         if r \<noteq> 16 then Ok (-1, s3) else Ok (0, s3))))"

section \<open>Paths\<close>

abbreviation (input) slash :: byte where "slash \<equiv> 0x2F"

definition skipelem :: "byte list \<Rightarrow> byte list \<Rightarrow> (byte list \<times> byte list) option" where
  "skipelem path name =
     (let path1 = dropWhile (\<lambda>c. c = slash) path in
      if path1 = [] then None
      else let elem = takeWhile (\<lambda>c. c \<noteq> slash) path1;
               path2 = dropWhile (\<lambda>c. c \<noteq> slash) path1;
               name' = (if length elem \<ge> DIRSIZ then put_bytes 0 (take DIRSIZ elem) name
                        else put_bytes 0 (elem @ [0]) name) in
           Some (dropWhile (\<lambda>c. c = slash) path2, name'))"

lemma skipelem_shorter:
  assumes "skipelem path name = Some (path', name')"
  shows "length path' < length path"
proof -
  let ?p1 = "dropWhile (\<lambda>c. c = slash) path"
  have ne: "?p1 \<noteq> []" and eq: "path' = dropWhile (\<lambda>c. c = slash) (dropWhile (\<lambda>c. c \<noteq> slash) ?p1)"
    using assms by (auto simp: skipelem_def Let_def split: if_splits)
  from ne obtain c cs where p1: "?p1 = c # cs" by (cases ?p1) auto
  then have "c \<noteq> slash" using hd_dropWhile [of "\<lambda>c. c = slash" path] by simp
  then have "length (dropWhile (\<lambda>c. c \<noteq> slash) ?p1) < length ?p1"
    unfolding p1 using length_dropWhile_le [of "\<lambda>c. c \<noteq> slash" cs] by simp
  moreover have "length path' \<le> length (dropWhile (\<lambda>c. c \<noteq> slash) ?p1)"
    unfolding eq by (rule length_dropWhile_le)
  moreover have "length ?p1 \<le> length path" by (rule length_dropWhile_le)
  ultimately show ?thesis by linarith
qed

function namex_loop ::
  "byte list \<Rightarrow> bool \<Rightarrow> byte list \<Rightarrow> nat \<Rightarrow> 'z fs_scheme \<Rightarrow> (nat option \<times> byte list \<times> 'z fs_scheme) res" where
  "namex_loop path nip name ip s =
     (case skipelem path name of
        None \<Rightarrow> if nip then andthen (iput ip s) (\<lambda>s1. Ok (None, name, s1)) else Ok (Some ip, name, s)
      | Some (path', name') \<Rightarrow>
          andthen (ilock (Some ip) s) (\<lambda>s1.
          if itype (inodes s1 ip) \<noteq> T_DIR then andthen (iunlockput ip s1) (\<lambda>s2. Ok (None, name', s2))
          else if nip \<and> path' = [] then andthen (iunlock (Some ip) s1) (\<lambda>s2. Ok (Some ip, name', s2))
          else andthen (dirlookup ip name' s1) (\<lambda>(found, s2).
            case found of
              None \<Rightarrow> andthen (iunlockput ip s2) (\<lambda>s3. Ok (None, name', s3))
            | Some (nxt, _) \<Rightarrow> andthen (iunlockput ip s2) (\<lambda>s3. namex_loop path' nip name' nxt s3))))"
  by pat_completeness auto
termination
  by (relation "measure (\<lambda>(path, nip, name, ip, s). length path)") (auto dest: skipelem_shorter)

declare namex_loop.simps [simp del]

text \<open>The result is the inode and the array \<open>name\<close>, whose old contents is an argument.\<close>

definition namex :: "byte list \<Rightarrow> bool \<Rightarrow> byte list \<Rightarrow> 'z fs_scheme \<Rightarrow> (nat option \<times> byte list \<times> 'z fs_scheme) res" where
  "namex path nip name s =
     andthen (if chr0 path = slash then iget ROOTDEV ROOTINO s
              else with_proc s (\<lambda>p s1.
                case cwd (procs s1 p) of None \<Rightarrow> Panic ''kerneltrap'' | Some c \<Rightarrow> idup c s1)) (\<lambda>(ip, s1).
     namex_loop path nip name ip s1)"

text \<open>The array \<open>name\<close> of \<open>namei\<close> is an uninitialised local; what it holds does not matter there.\<close>

definition namei :: "byte list \<Rightarrow> 'z fs_scheme \<Rightarrow> (nat option \<times> 'z fs_scheme) res" where
  "namei path s = andthen (namex path False (replicate DIRSIZ 0) s) (\<lambda>(ip, _, s1). Ok (ip, s1))"

definition nameiparent :: "byte list \<Rightarrow> byte list \<Rightarrow> 'z fs_scheme \<Rightarrow> (nat option \<times> byte list \<times> 'z fs_scheme) res" where
  "nameiparent path name s = namex path True name s"

end
