(* ===== verification/Ring.thy ===== *)
theory Ring
  imports Prelude
begin

text \<open>
  Ring buffers. The kernel has three of them: the data of a pipe, the output buffer of the UART and the input buffer
  of the console. Each is an array of \<open>n\<close> cells with indices that only grow, wrap around at the width of their
  type, and are reduced modulo \<open>n\<close> at each access. The interface \<open>fifo\<close> says what such a buffer promises, and the lemmas
  on \<open>ring\<close> give the promise for an array whose size divides \<open>2 ^ w\<close>.
\<close>

section \<open>The interface\<close>

text \<open>
  \<open>queued q\<close> are the elements in the buffer, oldest first. A put is allowed when the buffer is not \<open>full\<close>, a get when
  it is not \<open>vacant\<close>; \<open>front\<close> is the element that a get delivers and \<open>skip\<close> what it leaves.
\<close>

datatype 'a qop = Put 'a | Get

locale fifo =
  fixes inv :: "'q \<Rightarrow> bool"
    and queued :: "'q \<Rightarrow> 'a list"
    and cap :: nat
    and full :: "'q \<Rightarrow> bool"
    and vacant :: "'q \<Rightarrow> bool"
    and put :: "'a \<Rightarrow> 'q \<Rightarrow> 'q"
    and front :: "'q \<Rightarrow> 'a"
    and skip :: "'q \<Rightarrow> 'q"
  assumes bounded: "inv q \<Longrightarrow> length (queued q) \<le> cap"
    and put_inv: "inv q \<Longrightarrow> \<not> full q \<Longrightarrow> inv (put x q)"
    and put_queued: "inv q \<Longrightarrow> \<not> full q \<Longrightarrow> queued (put x q) = queued q @ [x]"
    and skip_inv: "inv q \<Longrightarrow> \<not> vacant q \<Longrightarrow> inv (skip q)"
    and skip_queued: "inv q \<Longrightarrow> \<not> vacant q \<Longrightarrow> queued q = front q # queued (skip q)"
begin

text \<open>
  Any interleaving of puts by one side and gets by the other; a put into a full buffer and a get from a vacant one
  have to wait and do nothing. The results are the elements accepted and the elements delivered, in order.
\<close>

fun interleave :: "'a qop list \<Rightarrow> 'q \<Rightarrow> 'a list \<times> 'a list \<times> 'q" where
  "interleave [] q = ([], [], q)"
| "interleave (Put x # ops) q =
     (if full q then interleave ops q
      else let (ins, outs, q') = interleave ops (put x q) in (x # ins, outs, q'))"
| "interleave (Get # ops) q =
     (if vacant q then interleave ops q
      else let (ins, outs, q') = interleave ops (skip q) in (ins, front q # outs, q'))"

lemma first_in_first_out:
  "inv q \<Longrightarrow> interleave ops q = (ins, outs, q') \<Longrightarrow>
     inv q' \<and> queued q @ ins = outs @ queued q' \<and> length (queued q') \<le> cap"
proof (induction ops arbitrary: q ins outs)
  case Nil
  then show ?case by (auto intro: bounded)
next
  case (Cons op ops)
  show ?case
  proof (cases op)
    case (Put x)
    show ?thesis
    proof (cases "full q")
      case False
      with Cons.prems Put obtain ins' where "interleave ops (put x q) = (ins', outs, q')" "ins = x # ins'"
        by (auto split: prod.splits)
      with Cons.IH [of "put x q"] Cons.prems False show ?thesis by (simp add: put_inv put_queued)
    qed (use Cons Put in auto)
  next
    case Get
    show ?thesis
    proof (cases "vacant q")
      case False
      with Cons.prems Get obtain outs' where "interleave ops (skip q) = (ins, outs', q')" "outs = front q # outs'"
        by (auto split: prod.splits)
      with Cons.IH [of "skip q"] Cons.prems False show ?thesis by (simp add: skip_inv skip_queued)
    qed (use Cons Get in auto)
  qed
qed

end

text \<open>A buffer that refuses only when it must: it is full only with \<open>cap\<close> elements and vacant only with none.\<close>

locale tight_fifo = fifo +
  assumes full_iff: "inv q \<Longrightarrow> full q \<longleftrightarrow> length (queued q) = cap"
    and vacant_iff: "inv q \<Longrightarrow> vacant q \<longleftrightarrow> queued q = []"
    and cap_pos: "0 < cap"
begin

lemma one_can_move: "inv q \<Longrightarrow> \<not> (full q \<and> vacant q)"
  using cap_pos by (auto simp: full_iff vacant_iff)

text \<open>Writing \<open>xs\<close> into a buffer with room, then reading as many elements as it holds, gives everything in order.\<close>

lemma fill: "inv q \<Longrightarrow> length (queued q) + length xs \<le> cap \<Longrightarrow>
    \<exists>q'. interleave (map Put xs) q = (xs, [], q') \<and> inv q' \<and> queued q' = queued q @ xs"
proof (induction xs arbitrary: q)
  case (Cons x xs)
  from Cons.prems have "\<not> full q" by (simp add: full_iff)
  with Cons.IH [of "put x q"] Cons.prems show ?case by (auto simp: put_inv put_queued)
qed simp

lemma drain: "inv q \<Longrightarrow> \<exists>q'. interleave (replicate (length (queued q)) Get) q = ([], queued q, q') \<and> inv q' \<and> queued q' = []"
proof (induction "length (queued q)" arbitrary: q)
  case (Suc n)
  then have nv: "\<not> vacant q" by (auto simp: vacant_iff)
  note sq = skip_queued [OF Suc.prems nv]
  have "n = length (queued (skip q))" using Suc.hyps(2) sq by (metis Suc_inject length_Cons)
  from Suc.hyps(1) [OF this skip_inv [OF Suc.prems nv]] nv sq show ?case
    by (metis (no_types, lifting) case_prod_conv interleave.simps(3) length_Cons replicate_Suc)
qed simp

end

section \<open>Arrays with wrapping indices\<close>

text \<open>The elements between a read index \<open>r\<close> and a write index \<open>w\<close>.\<close>

definition ring :: "byte list \<Rightarrow> 'w::len word \<Rightarrow> 'w word \<Rightarrow> byte list" where
  "ring buf r w = map (\<lambda>k. buf ! (unat (r + of_nat k) mod length buf)) [0..<unat (w - r)]"

definition ring_ok :: "nat \<Rightarrow> byte list \<Rightarrow> 'w::len word \<Rightarrow> 'w word \<Rightarrow> bool" where
  "ring_ok n buf r w \<longleftrightarrow> length buf = n \<and> 0 < n \<and> n < 2 ^ LENGTH('w) \<and> n dvd 2 ^ LENGTH('w) \<and> unat (w - r) \<le> n"

lemma length_ring [simp]: "length (ring buf r w) = unat (w - r)"
  by (simp add: ring_def)

lemma unat_add_mod: "n dvd 2 ^ LENGTH('w::len) \<Longrightarrow> unat (r + of_nat k :: 'w word) mod n = (unat r + k) mod n"
  by (simp add: unat_word_ariths unat_of_nat take_bit_eq_mod mod_mod_cancel mod_add_right_eq)

lemma unat_succ: "unat (d :: 'w::len word) < n \<Longrightarrow> n < 2 ^ LENGTH('w) \<Longrightarrow> unat (d + 1) = Suc (unat d)"
  using unat_add_lem [of d 1] by simp

lemma unat_pred: "0 < unat (d :: 'w::len word) \<Longrightarrow> unat (d - 1) = unat d - 1"
  by (metis gr0_conv_Suc less_irrefl unat_minus_one unat_0)

lemma mod_apart:
  fixes a k n :: nat
  assumes "k < j" "j < n + k"
  shows "(a + k) mod n \<noteq> (a + j) mod n"
proof
  assume "(a + k) mod n = (a + j) mod n"
  then have "n dvd (a + j) - (a + k)" using assms(1) by (metis add_less_cancel_left less_imp_le mod_eq_dvd_iff_nat)
  then have "n dvd j - k" by simp
  with assms show False by (auto dest: dvd_imp_le)
qed

lemma ring_at: "k < unat (w - r) \<Longrightarrow> ring buf r w ! k = buf ! (unat (r + of_nat k) mod length buf)"
  by (simp add: ring_def)

lemma ring_nth: "n dvd 2 ^ LENGTH('w::len) \<Longrightarrow> length buf = n \<Longrightarrow> k < unat (w - r :: 'w word) \<Longrightarrow>
    ring buf r w ! k = buf ! ((unat r + k) mod n)"
  by (simp add: ring_def unat_add_mod)

lemma write_index: "n dvd 2 ^ LENGTH('w::len) \<Longrightarrow> unat (w :: 'w word) mod n = (unat r + unat (w - r)) mod n"
  using unat_add_mod [of n r "unat (w - r)"] by simp

lemma ring_put:
  assumes "ring_ok n buf r w" and "unat (w - r) < n"
  shows "ring (buf[unat w mod n := x]) r (w + 1) = ring buf r w @ [x]" and "ring_ok n (buf[unat w mod n := x]) r (w + 1)"
proof -
  let ?d = "unat (w - r)"
  from assms have ok: "length buf = n" "0 < n" "n < 2 ^ LENGTH('a)" "n dvd 2 ^ LENGTH('a)" by (simp_all add: ring_ok_def)
  have d: "unat (w + 1 - r) = Suc ?d" using unat_succ [OF assms(2) ok(3)] by (simp add: algebra_simps)
  show "ring_ok n (buf[unat w mod n := x]) r (w + 1)" using ok d assms(2) by (simp add: ring_ok_def)
  show "ring (buf[unat w mod n := x]) r (w + 1) = ring buf r w @ [x]"
  proof (rule nth_equalityI)
    fix k
    assume "k < length (ring (buf[unat w mod n := x]) r (w + 1))"
    with d have k: "k < Suc ?d" by simp
    have lhs: "ring (buf[unat w mod n := x]) r (w + 1) ! k = buf[(unat r + ?d) mod n := x] ! ((unat r + k) mod n)"
      using ok k d write_index [OF ok(4), of w r] by (simp add: ring_nth)
    show "ring (buf[unat w mod n := x]) r (w + 1) ! k = (ring buf r w @ [x]) ! k"
    proof (cases "k = ?d")
      case True
      with lhs ok show ?thesis by (simp add: nth_append)
    next
      case False
      with k have "k < ?d" by simp
      moreover from this assms(2) have "(unat r + k) mod n \<noteq> (unat r + ?d) mod n" by (intro mod_apart) auto
      ultimately show ?thesis using lhs ok by (simp add: nth_append ring_nth)
    qed
  qed (simp add: d)
qed

lemma ring_get:
  assumes "ring_ok n buf r w" and "r \<noteq> w"
  shows "ring buf r w = buf ! (unat r mod n) # ring buf (r + 1) w" and "ring_ok n buf (r + 1) w"
proof -
  let ?d = "unat (w - r)"
  from assms have ok: "length buf = n" "0 < n" "n < 2 ^ LENGTH('a)" "n dvd 2 ^ LENGTH('a)" by (simp_all add: ring_ok_def)
  have pos: "0 < ?d" using assms(2) by (simp add: unat_gt_0)
  have d: "unat (w - (r + 1)) = ?d - 1" using unat_pred [OF pos] by (simp add: algebra_simps)
  show "ring_ok n buf (r + 1) w" using assms(1) d by (auto simp: ring_ok_def)
  show "ring buf r w = buf ! (unat r mod n) # ring buf (r + 1) w"
  proof (rule nth_equalityI)
    fix k
    assume "k < length (ring buf r w)"
    then have k: "k < ?d" by simp
    show "ring buf r w ! k = (buf ! (unat r mod n) # ring buf (r + 1) w) ! k"
    proof (cases k)
      case 0
      with k ok show ?thesis by (simp add: ring_nth)
    next
      case (Suc j)
      with k d have "j < unat (w - (r + 1))" by linarith
      then have "ring buf (r + 1) w ! j = buf ! (unat (r + 1 + of_nat j) mod n)" by (simp add: ring_at ok)
      also have "r + 1 + of_nat j = r + of_nat (Suc j)" by simp
      finally show ?thesis using k Suc ok by (simp add: ring_at)
    qed
  qed (use d pos in simp)
qed

lemma ring_full_iff: "ring_ok n buf r w \<Longrightarrow> w = r + of_nat n \<longleftrightarrow> length (ring buf r w) = n"
proof
  assume "ring_ok n buf r w"
  then have n: "n < 2 ^ LENGTH('a)" by (simp add: ring_ok_def)
  show "length (ring buf r w) = n" if "w = r + of_nat n"
    using that n by (simp add: unat_of_nat take_bit_nat_eq_self)
  show "w = r + of_nat n" if "length (ring buf r w) = n" using that by auto
qed

lemma ring_empty_iff: "r = w \<longleftrightarrow> ring buf r w = []"
  by (metis eq_iff_diff_eq_0 length_0_conv length_ring unat_eq_0)

lemma ring_room: "ring_ok n buf r w \<Longrightarrow> w \<noteq> r + of_nat n \<Longrightarrow> unat (w - r) < n"
  using ring_full_iff [of n buf r w] by (auto simp: ring_ok_def le_less)

end
