(* ===== verification/Ptree.thy ===== *)
theory Ptree
  imports Vm
begin

text \<open>
  Page tables as trees of pages. \<open>T p i\<close> is the entry \<open>i\<close> of the table page \<open>p\<close>; the pages that a table of a given level
  reaches must be different from each other for the tree to be well formed. The lemmas say what storing a leaf entry
  and linking a new table page do to the map that the tree stands for.
\<close>

section \<open>Trees\<close>

type_synonym tables = "uint64 \<Rightarrow> nat \<Rightarrow> pte_t"

abbreviation V :: "pte_t \<Rightarrow> bool" where "V e \<equiv> flag e PTE_V"

definition px :: "nat \<Rightarrow> uint64 \<Rightarrow> nat" where "px l va = unat (PX l va)"

definition table_page :: "uint64 \<Rightarrow> bool" where
  "table_page p \<longleftrightarrow> p \<noteq> 0 \<and> unat p mod PGSIZE = 0"

fun tset :: "tables \<Rightarrow> nat \<Rightarrow> uint64 \<Rightarrow> uint64 set" where
  "tset T 0 p = {p}"
| "tset T (Suc l) p = insert p (\<Union>i \<in> {i. i < 512 \<and> V (T p i)}. tset T l (PTE2PA (T p i)))"

fun twf :: "tables \<Rightarrow> nat \<Rightarrow> uint64 \<Rightarrow> bool" where
  "twf T 0 p \<longleftrightarrow> table_page p"
| "twf T (Suc l) p \<longleftrightarrow> table_page p
     \<and> (\<forall>i < 512. V (T p i) \<longrightarrow> twf T l (PTE2PA (T p i)) \<and> p \<notin> tset T l (PTE2PA (T p i)))
     \<and> (\<forall>i < 512. \<forall>j < 512. i \<noteq> j \<longrightarrow> V (T p i) \<longrightarrow> V (T p j)
          \<longrightarrow> tset T l (PTE2PA (T p i)) \<inter> tset T l (PTE2PA (T p j)) = {})"

fun leaf :: "tables \<Rightarrow> nat \<Rightarrow> uint64 \<Rightarrow> uint64 \<Rightarrow> uint64 option" where
  "leaf T 0 p va = Some p"
| "leaf T (Suc l) p va = (let e = T p (px (Suc l) va) in if V e then leaf T l (PTE2PA e) va else None)"

definition lookup :: "tables \<Rightarrow> nat \<Rightarrow> uint64 \<Rightarrow> uint64 \<Rightarrow> pte_t option" where
  "lookup T l p va = (case leaf T l p va of
      None \<Rightarrow> None | Some q \<Rightarrow> if V (T q (px 0 va)) then Some (T q (px 0 va)) else None)"

text \<open>Two addresses use the same entry when the indices of all levels up to \<open>l\<close> agree.\<close>

definition same_vpn :: "nat \<Rightarrow> uint64 \<Rightarrow> uint64 \<Rightarrow> bool" where
  "same_vpn l va va' \<longleftrightarrow> (\<forall>k \<le> l. px k va = px k va')"

lemma PX_eq: "PX l va = take_bit 9 (drop_bit (PXSHIFT l) va)"
proof -
  have "(511 :: uint64) = mask 9" by (simp add: mask_eq_exp_minus_1)
  then show ?thesis by (simp add: PX_def take_bit_eq_mask)
qed

lemma px_less [simp]: "px l va < 512"
proof -
  have "unat (PX l va) = take_bit 9 (unat (drop_bit (PXSHIFT l) va))" by (simp add: PX_eq unsigned_take_bit_eq)
  then show ?thesis using take_bit_nat_less_exp [of 9 "unat (drop_bit (PXSHIFT l) va)"] by (simp add: px_def)
qed

lemma lookup_0 [simp]: "lookup T 0 p va = (if V (T p (px 0 va)) then Some (T p (px 0 va)) else None)"
  by (simp add: lookup_def)

lemma lookup_Suc [simp]:
  "lookup T (Suc l) p va = (let e = T p (px (Suc l) va) in if V e then lookup T l (PTE2PA e) va else None)"
  by (simp add: lookup_def Let_def)

lemma root_in_tset [simp]: "p \<in> tset T l p"
  by (cases l) auto

lemma twf_table_page: "twf T l p \<Longrightarrow> q \<in> tset T l p \<Longrightarrow> table_page q"
proof (induction l arbitrary: p)
  case (Suc l)
  then show ?case by auto
qed simp

lemma leaf_in_tset: "leaf T l p va = Some q \<Longrightarrow> q \<in> tset T l p"
proof (induction l arbitrary: p)
  case (Suc l)
  then show ?case by (auto simp: Let_def split: if_splits) (metis px_less)
qed simp

section \<open>Framing\<close>

lemma tset_frame: "(\<And>q i. q \<in> tset T l p \<Longrightarrow> i < 512 \<Longrightarrow> T' q i = T q i) \<Longrightarrow> tset T' l p = tset T l p"
proof (induction l arbitrary: p)
  case (Suc l)
  have root: "i < 512 \<Longrightarrow> T' p i = T p i" for i using Suc.prems [of p i] by simp
  have "tset T' l (PTE2PA (T p i)) = tset T l (PTE2PA (T p i))" if "i < 512" "V (T p i)" for i
    by (rule Suc.IH) (use Suc.prems that in auto)
  with root show ?case by auto
qed simp

lemma twf_frame: "(\<And>q i. q \<in> tset T l p \<Longrightarrow> i < 512 \<Longrightarrow> T' q i = T q i) \<Longrightarrow> twf T' l p = twf T l p"
proof (induction l arbitrary: p)
  case (Suc l)
  have root: "i < 512 \<Longrightarrow> T' p i = T p i" for i using Suc.prems [of p i] by simp
  have kids: "twf T' l (PTE2PA (T p i)) = twf T l (PTE2PA (T p i))" if "i < 512" "V (T p i)" for i
    by (rule Suc.IH) (use Suc.prems that in auto)
  have sets: "tset T' l (PTE2PA (T p i)) = tset T l (PTE2PA (T p i))" if "i < 512" "V (T p i)" for i
    by (rule tset_frame) (use Suc.prems that in auto)
  show ?case using root kids sets by (simp cong: imp_cong)
qed simp

lemma leaf_frame: "(\<And>q i. q \<in> tset T l p \<Longrightarrow> i < 512 \<Longrightarrow> T' q i = T q i) \<Longrightarrow> leaf T' l p va = leaf T l p va"
proof (induction l arbitrary: p)
  case (Suc l)
  have root: "i < 512 \<Longrightarrow> T' p i = T p i" for i using Suc.prems [of p i] by simp
  have "leaf T' l (PTE2PA (T p i)) va = leaf T l (PTE2PA (T p i)) va" if "i < 512" "V (T p i)" for i
    by (rule Suc.IH) (use Suc.prems that in auto)
  with root show ?case by (simp add: Let_def)
qed simp

lemma lookup_frame: "(\<And>q i. q \<in> tset T l p \<Longrightarrow> i < 512 \<Longrightarrow> T' q i = T q i) \<Longrightarrow> lookup T' l p va = lookup T l p va"
  using leaf_in_tset [of T l p va] leaf_frame [of T l p T' va] by (auto simp: lookup_def split: option.splits)


section \<open>Storing a leaf entry\<close>

lemma leaf_root: "twf T (Suc l) p \<Longrightarrow> leaf T (Suc l) p va = Some q \<Longrightarrow> q \<noteq> p"
  using leaf_in_tset [of T l "PTE2PA (T p (px (Suc l) va))" va q] by (auto simp: Let_def split: if_splits)

lemma leaf_inj: "twf T l p \<Longrightarrow> leaf T l p va = Some q \<Longrightarrow> leaf T l p va' = Some q \<Longrightarrow> px 0 va = px 0 va' \<Longrightarrow> same_vpn l va va'"
proof (induction l arbitrary: p)
  case (Suc l)
  let ?i = "px (Suc l) va" and ?j = "px (Suc l) va'"
  from Suc.prems have V: "V (T p ?i)" "V (T p ?j)"
    and lf: "leaf T l (PTE2PA (T p ?i)) va = Some q" "leaf T l (PTE2PA (T p ?j)) va' = Some q"
    by (auto simp: Let_def split: if_splits)
  have "q \<in> tset T l (PTE2PA (T p ?i)) \<inter> tset T l (PTE2PA (T p ?j))" using lf leaf_in_tset by blast
  with Suc.prems(1) V have eq: "?i = ?j" by (metis empty_iff px_less twf.simps(2))
  with Suc.IH [of "PTE2PA (T p ?i)"] Suc.prems V lf have "same_vpn l va va'" by simp
  with eq show ?case by (auto simp: same_vpn_def le_Suc_eq)
qed (simp add: same_vpn_def)

lemma leaf_store_tree:
  assumes "twf T l p" and "leaf T l p va = Some q" and T': "\<And>r i. i < 512 \<Longrightarrow> r \<in> tset T l p \<Longrightarrow> T' r i = (if r = q \<and> i = px 0 va then e else T r i)"
  shows "tset T' l p = tset T l p \<and> twf T' l p \<and> (\<forall>va'. leaf T' l p va' = leaf T l p va')"
  using assms
proof (induction l arbitrary: p)
  case 0
  then show ?case by simp
next
  case (Suc l)
  let ?k = "\<lambda>i. PTE2PA (T p i)"
  have "q \<noteq> p" by (rule leaf_root [OF Suc.prems(1,2)])
  then have root: "T' p i = T p i" if "i < 512" for i using Suc.prems(3) [of i p] that by simp
  have sub: "tset T l (?k i) \<subseteq> tset T (Suc l) p" if "i < 512" "V (T p i)" for i using that by auto
  have kid: "tset T' l (?k i) = tset T l (?k i) \<and> twf T' l (?k i) \<and> (\<forall>va'. leaf T' l (?k i) va' = leaf T l (?k i) va')"
    if i: "i < 512" "V (T p i)" for i
  proof (cases "q \<in> tset T l (?k i)")
    case False
    have "T' r j = T r j" if "r \<in> tset T l (?k i)" "j < 512" for r j
      using Suc.prems(3) [OF that(2) subsetD [OF sub [OF i] that(1)]] that False by auto
    then show ?thesis using tset_frame [of T l "?k i" T'] twf_frame [of T l "?k i" T'] leaf_frame [of T l "?k i" T'] Suc.prems(1) i by auto
  next
    case True
    from Suc.prems(2) have lf: "V (T p (px (Suc l) va))" "leaf T l (?k (px (Suc l) va)) va = Some q"
      by (auto simp: Let_def split: if_splits)
    then have "q \<in> tset T l (?k (px (Suc l) va))" by (simp add: leaf_in_tset)
    with True Suc.prems(1) i lf have eq: "px (Suc l) va = i" by (metis disjoint_iff px_less twf.simps(2))
    show ?thesis
    proof (rule Suc.IH)
      show "twf T l (?k i)" using Suc.prems(1) i by simp
      show "leaf T l (?k i) va = Some q" using lf eq by simp
      show "T' r j = (if r = q \<and> j = px 0 va then e else T r j)" if "j < 512" "r \<in> tset T l (?k i)" for r j
        by (rule Suc.prems(3) [OF that(1) subsetD [OF sub [OF i] that(2)]])
    qed
  qed
  have ts: "tset T' (Suc l) p = tset T (Suc l) p" using root kid by auto
  moreover have "twf T' (Suc l) p" using Suc.prems(1) root kid by (simp cong: imp_cong)
  moreover have "\<forall>va'. leaf T' (Suc l) p va' = leaf T (Suc l) p va'" using root kid by (simp add: Let_def)
  ultimately show ?case by blast
qed

lemma leaf_store:
  assumes "twf T l p" and "leaf T l p va = Some q" and "\<And>r i. i < 512 \<Longrightarrow> r \<in> tset T l p \<Longrightarrow> T' r i = (if r = q \<and> i = px 0 va then e else T r i)"
  shows "tset T' l p = tset T l p" and "twf T' l p"
    and "lookup T' l p va' = (if same_vpn l va va' then if V e then Some e else None else lookup T l p va')"
proof -
  note tree = leaf_store_tree [OF assms]
  then show "tset T' l p = tset T l p" "twf T' l p" by auto
  have same: "leaf T l p va' = Some q" if "same_vpn l va va'"
  proof -
    have "leaf T k r va' = leaf T k r va" if "k \<le> l" for k r using that \<open>same_vpn l va va'\<close>
      by (induction k arbitrary: r) (auto simp: same_vpn_def Let_def)
    with assms(2) show ?thesis by simp
  qed
  show "lookup T' l p va' = (if same_vpn l va va' then if V e then Some e else None else lookup T l p va')"
  proof (cases "same_vpn l va va'")
    case True
    then have "px 0 va' = px 0 va" by (auto simp: same_vpn_def)
    moreover have "T' q (px 0 va) = e" using assms(3) [of "px 0 va" q] leaf_in_tset [OF assms(2)] by simp
    ultimately show ?thesis using True same tree by (simp add: lookup_def)
  next
    case False
    have "T' r (px 0 va') = T r (px 0 va')" if "leaf T l p va' = Some r" for r
      using assms(3) [of "px 0 va'" r] leaf_in_tset [OF that] leaf_inj [OF assms(1,2), of va'] that False by auto
    then show ?thesis using False tree by (auto simp: lookup_def split: option.splits)
  qed
qed

section \<open>Linking a new table\<close>

lemma empty_table: "(\<And>i. i < 512 \<Longrightarrow> \<not> V (T p i)) \<Longrightarrow> tset T l p = {p}"
  "(\<And>i. i < 512 \<Longrightarrow> \<not> V (T p i)) \<Longrightarrow> table_page p \<Longrightarrow> twf T l p"
  "(\<And>i. i < 512 \<Longrightarrow> \<not> V (T p i)) \<Longrightarrow> lookup T l p va = None"
  by (cases l; auto simp: Let_def)+

text \<open>
  A table of level \<open>l\<close> below the entry \<open>i\<close> of \<open>p\<close> is replaced (by itself changed, or by a new one): the pages of the
  other tables below \<open>p\<close> must stay as they are.
\<close>

lemma child_step:
  assumes wf: "twf T (Suc l) p" and i: "i < 512" and c: "V (T' p i)" "PTE2PA (T' p i) = c" "twf T' l c"
    and root: "\<And>j. j < 512 \<Longrightarrow> j \<noteq> i \<Longrightarrow> T' p j = T p j"
    and old: "V (T p i) \<Longrightarrow> PTE2PA (T p i) = c"
    and ts: "tset T' l c \<subseteq> (if V (T p i) then tset T l c else {}) \<union> U" and U: "U \<inter> tset T (Suc l) p = {}"
    and frame: "\<And>q j. q \<in> tset T (Suc l) p \<Longrightarrow> q \<noteq> p \<Longrightarrow> \<not> (V (T p i) \<and> q \<in> tset T l c) \<Longrightarrow> j < 512 \<Longrightarrow> T' q j = T q j"
    and lk: "\<And>va. lookup T' l c va = (if V (T p i) then lookup T l c va else None)"
  shows "twf T' (Suc l) p \<and> tset T' (Suc l) p \<subseteq> tset T (Suc l) p \<union> U \<and> (\<forall>va. lookup T' (Suc l) p va = lookup T (Suc l) p va)"
proof -
  let ?k = "\<lambda>j. PTE2PA (T p j)"
  have sib: "T' q j' = T q j'" if "j < 512" "j \<noteq> i" "V (T p j)" "q \<in> tset T l (?k j)" "j' < 512" for j q j'
  proof (rule frame)
    show "q \<in> tset T (Suc l) p" using that by auto
    show "q \<noteq> p" using wf that by auto
    show "\<not> (V (T p i) \<and> q \<in> tset T l c)" using wf that i old by (auto 0 3 simp: disjoint_iff)
  qed (fact that)
  have kid: "tset T' l (?k j) = tset T l (?k j) \<and> twf T' l (?k j) \<and> (\<forall>va. lookup T' l (?k j) va = lookup T l (?k j) va)"
    if j: "j < 512" "j \<noteq> i" "V (T p j)" for j
    using tset_frame [of T l "?k j" T'] twf_frame [of T l "?k j" T'] lookup_frame [of T l "?k j" T'] sib [OF j] wf j by auto
  have sub: "tset T' l c \<subseteq> tset T (Suc l) p \<union> U" using ts i old by (auto split: if_splits)
  have ts': "tset T' (Suc l) p \<subseteq> tset T (Suc l) p \<union> U"
  proof
    fix q assume "q \<in> tset T' (Suc l) p"
    then consider "q = p" | j where "j < 512" "V (T' p j)" "q \<in> tset T' l (PTE2PA (T' p j))" by auto
    then show "q \<in> tset T (Suc l) p \<union> U"
    proof cases
      case 2
      then show ?thesis using sub root c kid by (cases "j = i") auto
    qed simp
  qed
  have pU: "p \<notin> U" using U by auto
  have fresh: "tset T' l c \<inter> tset T l (?k j) = {}" if j: "j < 512" "j \<noteq> i" "V (T p j)" for j
  proof -
    have "(if V (T p i) then tset T l c else {}) \<inter> tset T l (?k j) = {}" using wf i j old by auto
    moreover have "U \<inter> tset T l (?k j) = {}" using U j by auto
    ultimately show ?thesis using ts by blast
  qed
  have notp: "p \<notin> tset T' l c" using ts pU wf i old by (auto split: if_splits)
  have wf': "twf T' (Suc l) p"
  proof -
    have "table_page p" using wf by simp
    moreover have "twf T' l (PTE2PA (T' p j)) \<and> p \<notin> tset T' l (PTE2PA (T' p j))" if "j < 512" "V (T' p j)" for j
      using that c notp kid [of j] root [of j] wf by (cases "j = i") auto
    moreover have "tset T' l (PTE2PA (T' p j)) \<inter> tset T' l (PTE2PA (T' p j')) = {}"
      if "j < 512" "j' < 512" "j \<noteq> j'" "V (T' p j)" "V (T' p j')" for j j'
      using that c fresh [of j] fresh [of j'] kid [of j] kid [of j'] root [of j] root [of j'] wf
      by (cases "j = i"; cases "j' = i") (auto simp: Int_commute)
    ultimately show ?thesis by simp
  qed
  have "lookup T' (Suc l) p va = lookup T (Suc l) p va" for va
    using c lk [of va] kid [of "px (Suc l) va"] root [of "px (Suc l) va"] old by (cases "px (Suc l) va = i") (auto simp: Let_def)
  with wf' ts' show ?thesis by blast
qed


lemma twf_child:
  assumes "twf T (Suc l) p" "i < 512" "V (T p i)"
  shows "twf T l (PTE2PA (T p i))" "p \<notin> tset T l (PTE2PA (T p i))" "tset T l (PTE2PA (T p i)) \<subseteq> tset T (Suc l) p"
  using assms by auto

declare tset.simps(2) [simp del] twf.simps(2) [simp del]

end
