(* ===== verification/Pagetable.thy ===== *)
theory Pagetable
  imports Ptree
begin

text \<open>
  What the routines of \<^verbatim>\<open>kernel/vm.c\<close> promise: a page table in memory stands for a partial map from virtual pages to
  page-table entries, \<open>mappages\<close> and \<open>uvmunmap\<close> change that map at the pages they are asked for and nowhere else, and
  the copying routines move the bytes that the user program sees at its addresses.
\<close>

section \<open>Page numbers and offsets\<close>

lemma PX_PGROUNDDOWN [simp]: "PX l (PGROUNDDOWN va) = PX l va"
proof (rule bit_word_eqI)
  fix n assume "n < LENGTH(64)"
  have m: "(4096 - 1 :: uint64) = mask 12" by (simp add: mask_eq_exp_minus_1)
  show "bit (PX l (PGROUNDDOWN va)) n = bit (PX l va) n"
    unfolding PX_def PXSHIFT_def PGROUNDDOWN_def m by (auto simp: bit_simps dest: bit_imp_le_length)
qed

lemma PGROUNDDOWN_twice [simp]: "PGROUNDDOWN (PGROUNDDOWN va) = PGROUNDDOWN va"
  by (simp add: PGROUNDDOWN_def)

lemma unat_MAXVA: "unat MAXVA = 2 ^ 38"
  by (simp add: MAXVA_def)

lemma PGROUNDDOWN_ge_MAXVA [simp]: "PGROUNDDOWN va \<ge> MAXVA \<longleftrightarrow> va \<ge> MAXVA"
proof -
  have "(2 ^ 26 * 4096 :: nat) \<le> unat va div 4096 * 4096 \<longleftrightarrow> 2 ^ 26 \<le> unat va div 4096" by simp
  also have "\<dots> \<longleftrightarrow> 2 ^ 26 * 4096 \<le> unat va" by (simp add: less_eq_div_iff_mult_less_eq)
  finally show ?thesis by (simp add: word_le_nat_alt unat_PGROUNDDOWN unat_MAXVA)
qed

text \<open>Addresses in the page of \<open>va\<close>.\<close>

lemma same_page:
  assumes "i < PGSIZE - unat va mod PGSIZE"
  shows "PGROUNDDOWN (va + of_nat i) = PGROUNDDOWN va"
proof -
  have top: "unat va mod PGSIZE + i < PGSIZE" using assms by linarith
  have "unat va + i < 2 ^ 64"
  proof -
    have "unat va div PGSIZE < 2 ^ 52" using unat_lt64 [of va] by (simp add: div_less_iff_less_mult)
    then have "(unat va div PGSIZE + 1) * PGSIZE \<le> 2 ^ 52 * PGSIZE" by (intro mult_le_mono1) simp
    then have "unat va div PGSIZE * PGSIZE + PGSIZE \<le> 2 ^ 64" by simp
    moreover have "unat va + i = unat va div PGSIZE * PGSIZE + (unat va mod PGSIZE + i)"
      using div_mult_mod_eq [of "unat va" PGSIZE] by simp
    ultimately show ?thesis using top by linarith
  qed
  then have "unat (va + of_nat i) = unat va + i" by (rule unat_add_of_nat)
  moreover have "(unat va + i) div PGSIZE = unat va div PGSIZE"
  proof -
    have "unat va + i = (unat va mod PGSIZE + i) + unat va div PGSIZE * PGSIZE"
      using div_mult_mod_eq [of "unat va" PGSIZE] by simp
    then have "(unat va + i) div PGSIZE = unat va div PGSIZE + (unat va mod PGSIZE + i) div PGSIZE"
      by (simp only: div_mult_self1 [of PGSIZE]) 
    with top show ?thesis by simp
  qed
  ultimately show ?thesis by (simp add: word_unat_eq_iff unat_PGROUNDDOWN)
qed

lemma page_base: "va - PGROUNDDOWN va = of_nat (unat va mod PGSIZE)"
  by (simp flip: page_offset)

lemma next_page: "va + of_nat (PGSIZE - unat va mod PGSIZE) = PGROUNDDOWN va + of_nat PGSIZE"
proof -
  have "va + of_nat (PGSIZE - unat va mod PGSIZE)
    = PGROUNDDOWN va + ((va - PGROUNDDOWN va) + of_nat (PGSIZE - unat va mod PGSIZE))" by simp
  also note page_base
  also have "of_nat (unat va mod PGSIZE) + of_nat (PGSIZE - unat va mod PGSIZE) = (of_nat PGSIZE :: uint64)"
    by (simp only: of_nat_add [symmetric]) simp
  finally show ?thesis .
qed

section \<open>The walk\<close>

text \<open>The address of the entry for \<open>va\<close> in the table page \<open>p\<close> of level \<open>l\<close> and the tables below it.\<close>

fun slot :: "memory \<Rightarrow> nat \<Rightarrow> uint64 \<Rightarrow> uint64 \<Rightarrow> uint64 option" where
  "slot m 0 p va = Some (p + 8 * PX 0 va)"
| "slot m (Suc l) p va =
     (let pte = read64 m (p + 8 * PX (Suc l) va) in
      if flag pte PTE_V then slot m l (PTE2PA pte) va else None)"

abbreviation slot_addr :: "memory \<Rightarrow> nat \<Rightarrow> uint64 \<Rightarrow> uint64 \<Rightarrow> uint64" where
  "slot_addr m l p va \<equiv> (case slot m l p va of None \<Rightarrow> 0 | Some a \<Rightarrow> a)"

lemma walk_loop_noalloc: "walk_loop l p va False s = Ok (slot_addr (mem s) l p va, s)"
  by (induction l arbitrary: p) (auto simp: Let_def)

lemma slot_PGROUNDDOWN [simp]: "slot m l p (PGROUNDDOWN va) = slot m l p va"
  by (induction l arbitrary: p) (auto simp: Let_def)

text \<open>The valid entry for a virtual address, and the physical address that a user access uses.\<close>

definition pte_of :: "memory \<Rightarrow> uint64 \<Rightarrow> uint64 \<Rightarrow> pte_t option" where
  "pte_of m pt va =
     (let a = slot_addr m 2 pt va in
      if va < MAXVA \<and> a \<noteq> 0 \<and> flag (read64 m a) PTE_V then Some (read64 m a) else None)"

definition user_page :: "memory \<Rightarrow> uint64 \<Rightarrow> uint64 \<Rightarrow> uint64 option" where
  "user_page m pt va = (case pte_of m pt va of
      None \<Rightarrow> None | Some e \<Rightarrow> if flag e PTE_U \<and> PTE2PA e \<noteq> 0 then Some (PTE2PA e) else None)"

definition user_byte :: "memory \<Rightarrow> uint64 \<Rightarrow> uint64 \<Rightarrow> byte" where
  "user_byte m pt va = m (the (user_page m pt va) + (va - PGROUNDDOWN va))"

abbreviation mapped :: "memory \<Rightarrow> uint64 \<Rightarrow> uint64 \<Rightarrow> bool" where
  "mapped m pt va \<equiv> user_page m pt va \<noteq> None"

lemma user_page_PGROUNDDOWN [simp]: "user_page m pt (PGROUNDDOWN va) = user_page m pt va"
  by (simp add: user_page_def pte_of_def not_le [symmetric])

lemma walkaddr_eq: "walkaddr pt va s = Ok (case user_page (mem s) pt va of None \<Rightarrow> 0 | Some p \<Rightarrow> p, s)"
  by (auto simp: walkaddr_def walk_def walk_loop_noalloc user_page_def pte_of_def Let_def not_le split: option.splits)


section \<open>Copying in\<close>

lemma user_byte_same_page:
  "i < PGSIZE - unat va mod PGSIZE \<Longrightarrow>
   user_byte m pt (va + of_nat i) = m (the (user_page m pt va) + (va - PGROUNDDOWN va) + of_nat i)"
  using user_page_PGROUNDDOWN [of m pt "va + of_nat i"]
  by (simp add: user_byte_def same_page algebra_simps)

lemma mapped_same_page: "i < PGSIZE - unat va mod PGSIZE \<Longrightarrow> user_page m pt (va + of_nat i) = user_page m pt va"
  by (metis same_page user_page_PGROUNDDOWN)

definition user_bytes :: "memory \<Rightarrow> uint64 \<Rightarrow> uint64 \<Rightarrow> nat \<Rightarrow> byte list" where
  "user_bytes m pt va n = map (\<lambda>i. user_byte m pt (va + of_nat i)) [0..<n]"

lemma length_user_bytes [simp]: "length (user_bytes m pt va n) = n"
  by (simp add: user_bytes_def)

lemma user_bytes_append: "user_bytes m pt va (k + n) = user_bytes m pt va k @ user_bytes m pt (va + of_nat k) n"
  by (rule nth_equalityI) (auto simp: user_bytes_def nth_append add.assoc)

lemma chunk_eq: "chunk va len = min (PGSIZE - unat va mod PGSIZE) len"
  by (simp add: chunk_def page_offset)

lemma chunk_bytes: "n \<le> PGSIZE - unat va mod PGSIZE \<Longrightarrow> user_page m pt va = Some pa \<Longrightarrow>
    read_bytes m (pa + (va - PGROUNDDOWN va)) n = user_bytes m pt va n"
  by (rule nth_equalityI) (auto simp: user_bytes_def user_byte_same_page)

lemma chunk_next: "chunk va len < len \<Longrightarrow> va + of_nat (chunk va len) = PGROUNDDOWN va + of_nat PGSIZE"
  using next_page [of va] by (simp add: chunk_eq min_def split: if_splits)

lemma all_less_split:
  assumes "n \<le> (len :: nat)"
  shows "(\<forall>i < len. P i) \<longleftrightarrow> (\<forall>i < n. P i) \<and> (\<forall>i < len - n. P (n + i))"
proof -
  have "P i" if "\<forall>i < n. P i" "\<forall>i < len - n. P (n + i)" "i < len" for i
    using that assms by (cases "i < n") (auto dest: spec [of _ "i - n"])
  with assms show ?thesis by auto
qed

text \<open>
  The pages that hold the \<open>len\<close> bytes from \<open>va\<close> on, in terms of the first of them and the rest.
\<close>

lemma all_chunk:
  assumes "0 < len" and P: "\<And>a b. PGROUNDDOWN a = PGROUNDDOWN b \<Longrightarrow> P a = P b"
  shows "(\<forall>i < len. P (va + of_nat i)) \<longleftrightarrow>
    P va \<and> (\<forall>i < len - chunk va len. P (PGROUNDDOWN va + of_nat PGSIZE + of_nat i))" (is "?all \<longleftrightarrow> ?first \<and> ?rest")
proof -
  let ?n = "chunk va len"
  have rest: "P (va + of_nat (?n + i)) = P (PGROUNDDOWN va + of_nat PGSIZE + of_nat i)" if "i < len - ?n" for i
    using chunk_next [of va len] that by (simp add: add.assoc [symmetric])
  have first: "P (va + of_nat i) = P va" if "i < ?n" for i
    using P [OF same_page, of i va] that by (simp add: chunk_eq)
  have "?all \<longleftrightarrow> (\<forall>i < ?n. P (va + of_nat i)) \<and> (\<forall>i < len - ?n. P (va + of_nat (?n + i)))"
    by (rule all_less_split [OF chunk_le])
  then show ?thesis using first rest chunk_pos [OF assms(1), of va] by metis
qed

lemma all_mapped_chunk:
  assumes "0 < len"
  shows "(\<forall>i < len. mapped m pt (va + of_nat i)) \<longleftrightarrow>
    mapped m pt va \<and> (\<forall>i < len - chunk va len. mapped m pt (PGROUNDDOWN va + of_nat PGSIZE + of_nat i))"
  by (rule all_chunk [OF assms, of "mapped m pt"]) (metis user_page_PGROUNDDOWN)

lemma copyin_spec:
  "\<exists>r bs. copyin pt va len s = Ok (r, bs, s) \<and> bs = user_bytes (mem s) pt va (length bs)
     \<and> (if \<forall>i < len. mapped (mem s) pt (va + of_nat i) then r = 0 \<and> length bs = len else r = -1 \<and> length bs < len)"
proof (induction len arbitrary: va rule: less_induct)
  case (less len)
  show ?case
  proof (cases "len = 0")
    case True
    then show ?thesis by (simp add: copyin.simps user_bytes_def)
  next
    case False
    let ?n = "chunk va len" and ?va' = "PGROUNDDOWN va + of_nat PGSIZE"
    have n: "0 < ?n" "?n \<le> len" using False chunk_pos chunk_le by auto
    show ?thesis
    proof (cases "user_page (mem s) pt va")
      case None
      with False all_mapped_chunk [of len] show ?thesis by (auto simp: copyin.simps walkaddr_eq user_bytes_def)
    next
      case (Some pa)
      then have pa: "pa \<noteq> 0" by (auto simp: user_page_def split: option.splits if_splits)
      from less.IH [of "len - ?n" ?va'] n False obtain r bs where
        rest: "copyin pt ?va' (len - ?n) s = Ok (r, bs, s)" "bs = user_bytes (mem s) pt ?va' (length bs)"
          "if \<forall>i < len - ?n. mapped (mem s) pt (?va' + of_nat i) then r = 0 \<and> length bs = len - ?n
           else r = -1 \<and> length bs < len - ?n"
        by auto
      let ?bs = "user_bytes (mem s) pt va ?n @ bs"
      have "copyin pt va len s = Ok (r, ?bs, s)"
        using False Some pa rest(1) chunk_bytes [OF _ Some, of ?n]
        by (subst copyin.simps) (simp add: walkaddr_eq Let_def chunk_eq)
      moreover have "?bs = user_bytes (mem s) pt va (length ?bs)"
      proof (cases "?n < len")
        case True
        then show ?thesis using rest(2) chunk_next [OF True] by (simp add: user_bytes_append)
      next
        case False
        with n rest(3) have "bs = []" by (auto split: if_splits)
        then show ?thesis by simp
      qed
      moreover have "if \<forall>i < len. mapped (mem s) pt (va + of_nat i) then r = 0 \<and> length ?bs = len else r = -1 \<and> length ?bs < len"
        using rest(3) n Some all_mapped_chunk [of len "mem s" pt va] False by (auto split: if_splits)
      ultimately show ?thesis by blast
    qed
  qed
qed

section \<open>Table pages in memory\<close>

definition ent :: "memory \<Rightarrow> tables" where
  "ent m p i = read64 m (p + 8 * of_nat i)"

lemma aligned_bits: "unat (p :: uint64) mod PGSIZE = 0 \<Longrightarrow> n < 12 \<Longrightarrow> \<not> bit p n"
proof -
  assume "unat p mod PGSIZE = 0"
  then have "take_bit 12 (unat p) = 0" by (simp add: take_bit_eq_mod)
  then have "take_bit 12 p = 0" by (metis unsigned_take_bit_eq unat_eq_0)
  then have "bit (take_bit 12 p) n = bit (0 :: uint64) n" by simp
  then show "n < 12 \<Longrightarrow> \<not> bit p n" by (simp add: bit_take_bit_iff)
qed

text \<open>An entry made of a page-aligned address and flags gives the address and the flags back.\<close>

lemma PTE2PA_PA2PTE: "unat p mod PGSIZE = 0 \<Longrightarrow> f AND 0x3FF = f \<Longrightarrow> PTE2PA (PA2PTE p OR f) = p"
proof (rule bit_word_eqI)
  fix n assume al: "unat p mod PGSIZE = 0" and f: "f AND 0x3FF = f" and n: "n < LENGTH(64)"
  have "\<not> bit f k" if "10 \<le> k" for k
  proof -
    have "(0x3FF :: uint64) = mask 10" by (simp add: mask_eq_exp_minus_1)
    with f have "f = take_bit 10 f" by (simp add: take_bit_eq_mask)
    then have "bit f k = (k < 10 \<and> bit f k)" by (metis bit_take_bit_iff)
    then show ?thesis using that by simp
  qed
  then show "bit (PTE2PA (PA2PTE p OR f)) n = bit p n" using n aligned_bits [OF al, of n]
    by (cases "n < 12") (auto simp: PTE2PA_def PA2PTE_def bit_simps)
qed

lemma PTE_FLAGS_PA2PTE: "f AND 0x3FF = f \<Longrightarrow> PTE_FLAGS (PA2PTE p OR f) = f"
proof -
  assume f: "f AND 0x3FF = f"
  have m: "(0x3FF :: uint64) = mask 10" by (simp add: mask_eq_exp_minus_1)
  have "PA2PTE p AND mask 10 = 0" by (rule bit_word_eqI) (auto simp: PA2PTE_def bit_simps)
  then show ?thesis using f by (simp add: PTE_FLAGS_def m bit.conj_disj_distrib2)
qed

lemma slot_range:
  assumes "i < 512" shows "range64 (p + 8 * of_nat i) 8 \<subseteq> page p"
proof
  fix x assume "x \<in> range64 (p + 8 * of_nat i) 8"
  then obtain k where "k < 8" and x: "x = p + 8 * of_nat i + of_nat k" by (auto simp: range64_iff)
  then have "x = p + of_nat (8 * i + k)" by (simp add: add.assoc)
  moreover have "8 * i + k < PGSIZE" using \<open>k < 8\<close> assms by simp
  ultimately show "x \<in> page p" by (auto simp: range64_iff)
qed

lemma ent_cong: "i < 512 \<Longrightarrow> (\<And>x. x \<in> page p \<Longrightarrow> m x = m' x) \<Longrightarrow> ent m p i = ent m' p i"
  unfolding ent_def by (rule read64_cong) (use slot_range in blast)

lemma slots_disjoint:
  assumes "i < 512" "j < 512" "i \<noteq> j"
  shows "range64 (p + 8 * of_nat i) 8 \<inter> range64 (p + 8 * of_nat j) 8 = {}"
proof (rule ccontr)
  assume "\<not> ?thesis"
  then obtain k k' where k: "k < 8" "k' < 8" and eq: "p + 8 * of_nat i + of_nat k = p + 8 * of_nat j + of_nat k'"
    by (auto simp: range64_iff)
  then have "(of_nat (8 * i + k) :: uint64) = of_nat (8 * j + k')" by (simp add: add.assoc)
  moreover have "8 * i + k < 2 ^ 64" "8 * j + k' < 2 ^ 64" using k assms by simp_all
  ultimately have "8 * i + k = 8 * j + k'" using of_nat64_inj by blast
  with k assms(3) show False by simp
qed

lemma ent_write:
  assumes "table_page p" "table_page q" "i < 512" "j < 512"
  shows "ent (write64 (p + 8 * of_nat j) v m) q i = (if q = p \<and> i = j then v else ent m q i)"
proof (cases "q = p")
  case True
  then show ?thesis using slots_disjoint [of i j p] assms by (auto simp: ent_def read64_write64_disjoint)
next
  case False
  then have "page p \<inter> page q = {}" using assms by (intro aligned_pages_disjoint) (auto simp: table_page_def)
  then have "range64 (q + 8 * of_nat i) 8 \<inter> range64 (p + 8 * of_nat j) 8 = {}"
    using slot_range assms by blast
  with False show ?thesis by (simp add: ent_def read64_write64_disjoint)
qed

lemma ent_memset_other: "table_page p \<Longrightarrow> table_page q \<Longrightarrow> q \<noteq> p \<Longrightarrow> i < 512 \<Longrightarrow> ent (memset p c PGSIZE m) q i = ent m q i"
proof (rule ent_cong)
  fix x assume "table_page p" "table_page q" "q \<noteq> p" "x \<in> page q"
  then have "x \<notin> page p" using aligned_pages_disjoint [of p q] by (auto simp: table_page_def)
  then show "memset p c PGSIZE m x = m x" by (simp add: memset_outside)
qed

lemma ent_memset_same: "i < 512 \<Longrightarrow> ent (memset p 0 PGSIZE m) p i = 0"
proof -
  assume i: "i < 512"
  have "read_bytes (memset p 0 PGSIZE m) (p + 8 * of_nat i) 8 = replicate 8 0"
  proof (rule nth_equalityI)
    fix k assume "k < length (read_bytes (memset p 0 PGSIZE m) (p + 8 * of_nat i) 8)"
    then have k: "k < 8" by simp
    have "p + 8 * of_nat i + of_nat k = p + of_nat (8 * i + k)" by (simp add: add.assoc)
    moreover have "memset p 0 PGSIZE m (p + of_nat (8 * i + k)) = 0"
      using k i write_bytes_at [of "8 * i + k" p "replicate PGSIZE 0" m] by (simp add: memset_eq)
    ultimately show "read_bytes (memset p 0 PGSIZE m) (p + 8 * of_nat i) 8 ! k = replicate 8 0 ! k" using k by (simp add: add.assoc)
  qed simp
  then show ?thesis by (simp add: ent_def read64_def of_le_def numeral_eq_Suc)
qed

lemma px_addr: "p + 8 * PX l va = p + 8 * of_nat (px l va)"
  by (simp add: px_def)

lemma slot_leaf: "slot m l p va = map_option (\<lambda>q. q + 8 * of_nat (px 0 va)) (leaf (ent m) l p va)"
  by (induction l arbitrary: p) (simp_all add: Let_def px_addr ent_def)

lemma slot_not_null: "table_page q \<Longrightarrow> i < 512 \<Longrightarrow> q + 8 * of_nat i \<noteq> 0"
proof -
  assume q: "table_page q" and i: "i < 512"
  have "unat q + PGSIZE \<le> 2 ^ 64" using q by (intro aligned_page_top) (simp add: table_page_def)
  then have "unat (q + of_nat (8 * i)) = unat q + 8 * i" using i by (intro unat_add_of_nat) simp
  moreover have "0 < unat q" using q by (simp add: table_page_def unat_gt_0)
  ultimately have "unat (q + 8 * of_nat i) \<noteq> 0" by simp
  then show ?thesis by (metis unat_0)
qed

lemma pte_of_lookup: "twf (ent m) 2 pt \<Longrightarrow> pte_of m pt va = (if va < MAXVA then lookup (ent m) 2 pt va else None)"
proof -
  assume wf: "twf (ent m) 2 pt"
  have "q + 8 * of_nat (px 0 va) \<noteq> 0" if "leaf (ent m) 2 pt va = Some q" for q
    using twf_table_page [OF wf leaf_in_tset [OF that]] by (simp add: slot_not_null)
  then show ?thesis by (auto simp: pte_of_def lookup_def slot_leaf ent_def split: option.splits)
qed


section \<open>Walking with allocation\<close>

text \<open>A table in memory beside the allocator's free pages \<open>fs\<close>.\<close>

definition tables_ok :: "'z kmem_scheme \<Rightarrow> uint64 list \<Rightarrow> nat \<Rightarrow> uint64 \<Rightarrow> bool" where
  "tables_ok s fs l p \<longleftrightarrow> kmem_ready s \<and> kmem_inv s fs \<and> twf (ent (mem s)) l p \<and> tset (ent (mem s)) l p \<inter> set fs = {}"

definition pages_of :: "uint64 set \<Rightarrow> uint64 set" where
  "pages_of A = (\<Union>q \<in> A. page q)"

lemma free_table_page: "kmem_inv s fs \<Longrightarrow> q \<in> set fs \<Longrightarrow> table_page q"
  by (auto simp: kmem_inv_def page_ok_def table_page_def)

lemma kmem_inv_mem:
  assumes "kmem_inv s fs" "\<And>q. q \<in> set fs \<Longrightarrow> ent m q 0 = ent (mem s) q 0"
  shows "kmem_inv (s\<lparr>mem := m\<rparr>) fs"
proof -
  have "fl m h fs = fl (mem s) h fs" for h using assms(2) by (intro fl_cong) (simp add: ent_def)
  with assms(1) show ?thesis by (simp add: kmem_inv_def)
qed

lemma page_apart:
  assumes "table_page q" "\<And>r. r \<in> A \<Longrightarrow> table_page r" "q \<notin> A" "x \<in> page q"
  shows "x \<notin> pages_of A"
proof
  assume "x \<in> pages_of A"
  then obtain r where r: "r \<in> A" "x \<in> page r" by (auto simp: pages_of_def)
  with assms have "page q \<inter> page r = {}" by (intro aligned_pages_disjoint) (auto simp: table_page_def)
  with r assms(4) show False by blast
qed

text \<open>What a walk with allocation has done when it returns \<open>a\<close>, taking the pages \<open>used\<close> off the free list.\<close>

definition walked :: "nat \<Rightarrow> uint64 \<Rightarrow> uint64 \<Rightarrow> 'z kmem_scheme \<Rightarrow> uint64 list \<Rightarrow> uint64 list \<Rightarrow> uint64 \<Rightarrow> 'z kmem_scheme \<Rightarrow> bool" where
  "walked l p va s used fs' a s' \<longleftrightarrow>
     tables_ok s' fs' l p
     \<and> tset (ent (mem s')) l p \<subseteq> tset (ent (mem s)) l p \<union> set used
     \<and> (\<forall>va'. lookup (ent (mem s')) l p va' = lookup (ent (mem s)) l p va')
     \<and> (\<forall>x. x \<notin> pages_of (tset (ent (mem s)) l p \<union> set used) \<longrightarrow> mem s' x = mem s x)
     \<and> s' = s\<lparr>mem := mem s', freelist := freelist s'\<rparr>
     \<and> (if a = 0 then fs' = [] else \<exists>q. leaf (ent (mem s')) l p va = Some q \<and> a = q + 8 * of_nat (px 0 va))"

lemma ent_unchanged:
  assumes "\<And>x. x \<notin> pages_of A \<Longrightarrow> m' x = m x" "\<And>r. r \<in> A \<Longrightarrow> table_page r" "table_page q" "q \<notin> A" "i < 512"
  shows "ent m' q i = ent m q i"
  using assms page_apart [of q A] by (intro ent_cong) auto

lemma walked_down:
  fixes s :: "'z kmem_scheme" and l :: nat and va :: uint64
  defines "T \<equiv> ent (mem s)" and "i \<equiv> px (Suc l) va"
  assumes ok: "tables_ok s fs (Suc l) p" and V: "V (T p i)"
    and fs: "fs = used @ fs'" and w: "walked l (PTE2PA (T p i)) va s used fs' a s'"
  shows "walked (Suc l) p va s used fs' a s'"
proof -
  let ?c = "PTE2PA (T p i)" and ?T' = "ent (mem s')"
  have i: "i < 512" by (simp add: i_def)
  note ok = ok [unfolded tables_ok_def, folded T_def] and w = w [unfolded walked_def tables_ok_def, folded T_def]
  note child = twf_child [of T l p i, OF _ i V]
  have sub: "tset T l ?c \<subseteq> tset T (Suc l) p" and pc: "p \<notin> tset T l ?c" using child ok by blast+
  have up: "table_page r" if "r \<in> tset T (Suc l) p \<union> set used" for r
    using that twf_table_page [of T "Suc l" p r] free_table_page [of s fs r] ok fs by auto
  have keep: "?T' q j = T q j" if "q \<in> tset T (Suc l) p" "q \<notin> tset T l ?c" "j < 512" for q j
    unfolding T_def by (rule ent_unchanged [of "tset T l ?c \<union> set used"]) (use w up ok fs sub that in auto)
  have root: "?T' p j = T p j" if "j < 512" for j using keep [of p j] that pc by simp
  have step: "twf ?T' (Suc l) p \<and> tset ?T' (Suc l) p \<subseteq> tset T (Suc l) p \<union> set used \<and>
    (\<forall>va. lookup ?T' (Suc l) p va = lookup T (Suc l) p va)"
  proof (rule child_step [of _ _ _ i _ ?c])
    show "twf T (Suc l) p" using ok by blast
    show "set used \<inter> tset T (Suc l) p = {}" using ok fs by auto
  qed (use i V root w keep in auto)
  have "set used \<inter> set fs' = {}" using ok fs by (auto simp: kmem_inv_def)
  then have "tset ?T' (Suc l) p \<inter> set fs' = {}" using step ok fs by auto
  moreover have "\<forall>x. x \<notin> pages_of (tset T (Suc l) p \<union> set used) \<longrightarrow> mem s' x = mem s x"
    using w sub unfolding pages_of_def by blast
  moreover have "a = 0 \<or> (\<exists>q. leaf ?T' (Suc l) p va = Some q \<and> a = q + 8 * of_nat (px 0 va))"
    using w root V by (auto simp: Let_def i_def split: if_splits)
  ultimately show ?thesis using step w by (auto simp: walked_def tables_ok_def T_def)
qed

text \<open>The state in which \<open>walk\<close> continues after it has put a new, empty table \<open>q\<close> below the entry \<open>i\<close> of \<open>p\<close>.\<close>

definition linked :: "uint64 \<Rightarrow> nat \<Rightarrow> uint64 \<Rightarrow> 'z kmem_scheme \<Rightarrow> 'z kmem_scheme" where
  "linked p i q s = s\<lparr>freelist := read64 (mem s) q,
     mem := write64 (p + 8 * of_nat i) (PA2PTE q OR PTE_V) (memset q 0 PGSIZE (memset q 5 PGSIZE (mem s)))\<rparr>"

lemma linked_facts:
  assumes ok: "tables_ok s (q # fs) (Suc l) p" and i: "i < 512"
  shows "table_page q" "p \<noteq> q" "kalloc s = Ok (q, s\<lparr>mem := memset q 5 PGSIZE (mem s), freelist := read64 (mem s) q\<rparr>)"
    and "table_page r \<Longrightarrow> j < 512 \<Longrightarrow> ent (mem (linked p i q s)) r j =
      (if r = p \<and> j = i then PA2PTE q OR PTE_V else if r = q then 0 else ent (mem s) r j)"
    and "tables_ok (linked p i q s) fs l' q" "tset (ent (mem (linked p i q s))) l' q = {q}"
    and "lookup (ent (mem (linked p i q s))) l' q va = None"
proof -
  note ok = ok [unfolded tables_ok_def]
  let ?m = "mem (linked p i q s)" and ?s1 = "s\<lparr>mem := memset q 5 PGSIZE (mem s), freelist := read64 (mem s) q\<rparr>"
  have inv: "kmem_inv s (q # fs)" using ok by blast
  show tq: "table_page q" using free_table_page [OF inv] by simp
  have pfs: "p \<notin> set (q # fs)" using ok root_in_tset [of p "ent (mem s)" "Suc l"] by blast
  then show pq: "p \<noteq> q" by auto
  have tp: "table_page p" using twf_table_page [of "ent (mem s)" "Suc l" p p] ok by simp
  show "kalloc s = Ok (q, ?s1)" using ok kmem_inv_alloc [OF inv] by (simp add: kalloc_nonempty)
  show ent2: "table_page r \<Longrightarrow> j < 512 \<Longrightarrow> ent ?m r j =
      (if r = p \<and> j = i then PA2PTE q OR PTE_V else if r = q then 0 else ent (mem s) r j)" for r j
    using tp tq pq i by (simp add: linked_def ent_write ent_memset_same ent_memset_other)
  have "\<not> V (ent ?m q j)" if "j < 512" for j using ent2 [of q j] that tq pq by simp
  note mt = empty_table [of "ent ?m" q l', OF this]
  show "tset (ent ?m) l' q = {q}" "lookup (ent ?m) l' q va = None" using mt by auto
  have "kmem_inv (?s1\<lparr>mem := ?m\<rparr>) fs"
  proof (rule kmem_inv_mem [OF kmem_inv_alloc(3) [OF inv, of 5]])
    fix r assume "r \<in> set fs"
    then have "r \<noteq> q" "r \<noteq> p" "table_page r" using pfs inv free_table_page [OF inv, of r] by (auto simp: kmem_inv_def)
    with ent2 [of r 0] tq show "ent ?m r 0 = ent (mem ?s1) r 0" by (simp add: ent_memset_other)
  qed
  then show "tables_ok (linked p i q s) fs l' q" using ok mt tq inv by (simp add: tables_ok_def linked_def kmem_inv_def)
qed

lemma walked_link:
  fixes s :: "'z kmem_scheme" and l :: nat and va :: uint64
  defines "T \<equiv> ent (mem s)" and "i \<equiv> px (Suc l) va"
  assumes ok: "tables_ok s (q # used @ fs') (Suc l) p" and V: "\<not> V (T p i)"
    and w: "walked l q va (linked p i q s) used fs' a s'"
  shows "walked (Suc l) p va s (q # used) fs' a s'"
proof -
  let ?T' = "ent (mem s')" and ?m2 = "mem (linked p i q s)" and ?U = "insert q (set used)"
  have i: "i < 512" by (simp add: i_def)
  note lf = linked_facts [OF ok i, folded T_def]
  note ok = ok [unfolded tables_ok_def, folded T_def] and w = w [unfolded walked_def tables_ok_def lf(6)]
  have up: "table_page r" if "r \<in> tset T (Suc l) p \<union> ?U" for r
    using that twf_table_page [of T "Suc l" p r] free_table_page [of s "q # used @ fs'" r] ok by auto
  have U: "?U \<inter> tset T (Suc l) p = {}" "?U \<inter> set fs' = {}" using ok by (auto simp: kmem_inv_def)
  have keep2: "?T' r j = ent ?m2 r j" if "r \<in> tset T (Suc l) p" "j < 512" for r j
    by (rule ent_unchanged [of ?U]) (use w up that U in auto)
  have link: "?T' p i = PA2PTE q OR PTE_V" using keep2 [of p i] lf(4) [of p i] up [of p] i by simp
  have keep: "?T' r j = T r j" if "r \<in> tset T (Suc l) p" "j < 512" "r \<noteq> p \<or> j \<noteq> i" for r j
    using keep2 [of r j] lf(4) [of r j] that up [of r] U by auto
  have c: "V (PA2PTE q OR PTE_V)" "PTE2PA (PA2PTE q OR PTE_V) = q"
    using lf(1) by (auto simp: PTE2PA_PA2PTE PTE_V_def table_page_def bit.conj_disj_distrib2 or_eq_0_iff)
  have step: "twf ?T' (Suc l) p \<and> tset ?T' (Suc l) p \<subseteq> tset T (Suc l) p \<union> ?U \<and>
    (\<forall>va. lookup ?T' (Suc l) p va = lookup T (Suc l) p va)"
    by (rule child_step [of _ _ _ i _ q]) (use ok i V link c keep w U lf(7) in auto)
  have "mem s' x = mem s x" if "x \<notin> pages_of (tset T (Suc l) p \<union> ?U)" for x
  proof -
    have "x \<notin> pages_of ?U" "x \<notin> page q" "x \<notin> page p" using that by (auto simp: pages_of_def)
    moreover from this have "x \<notin> range64 (p + 8 * of_nat i) 8" using slot_range [OF i, of p] by auto
    ultimately show ?thesis using w by (simp add: linked_def write64_outside memset_outside)
  qed
  moreover have "a = 0 \<or> (\<exists>r. leaf ?T' (Suc l) p va = Some r \<and> a = r + 8 * of_nat (px 0 va))"
    using w link c by (auto simp: Let_def i_def split: if_splits)
  ultimately show ?thesis using step w U ok by (auto simp: walked_def tables_ok_def T_def linked_def)
qed

lemma walk_loop_alloc:
  "tables_ok s fs l p \<Longrightarrow> \<exists>a s' used fs'. walk_loop l p va True s = Ok (a, s') \<and> fs = used @ fs' \<and> walked l p va s used fs' a s'"
proof (induction l arbitrary: p s fs)
  case 0
  then have "table_page p" by (simp add: tables_ok_def)
  then have "p + 8 * of_nat (px 0 va) \<noteq> 0" by (simp add: slot_not_null)
  then have "walked 0 p va s [] fs (p + 8 * of_nat (px 0 va)) s" using 0 by (simp add: walked_def)
  then show ?case by (intro exI conjI) (simp_all add: px_addr)
next
  case (Suc l)
  let ?i = "px (Suc l) va" and ?e = "ent (mem s) p (px (Suc l) va)"
  have pte: "read64 (mem s) (p + 8 * PX (Suc l) va) = ?e" by (simp add: ent_def px_addr)
  note ok = Suc.prems [unfolded tables_ok_def]
  consider "V ?e" | "\<not> V ?e" "fs = []" | q fs1 where "\<not> V ?e" "fs = q # fs1" by (cases fs) auto
  then show ?case
  proof cases
    case 1
    with ok twf_child [of "ent (mem s)" l p ?i] have "tables_ok s fs l (PTE2PA ?e)" by (auto simp: tables_ok_def)
    from Suc.IH [OF this] obtain a s' used fs' where
      w: "walk_loop l (PTE2PA ?e) va True s = Ok (a, s')" "fs = used @ fs'" "walked l (PTE2PA ?e) va s used fs' a s'" by blast
    moreover have "walk_loop (Suc l) p va True s = Ok (a, s')" using w(1) 1 pte by (simp add: Let_def)
    ultimately show ?thesis using walked_down [OF Suc.prems 1 w(2,3)] by blast
  next
    case 2
    then have "kalloc s = Ok (0, s)" using ok by (simp add: kalloc_empty kmem_inv_def)
    moreover have "walked (Suc l) p va s [] [] 0 s" using Suc.prems 2 by (simp add: walked_def)
    ultimately show ?thesis using 2 pte by auto
  next
    case 3
    note lf = linked_facts [where i = ?i, OF Suc.prems [unfolded 3(2)] px_less]
    from Suc.IH [OF lf(5)] obtain a s' used fs' where
      w: "walk_loop l q va True (linked p ?i q s) = Ok (a, s')" "fs1 = used @ fs'" "walked l q va (linked p ?i q s) used fs' a s'" by blast
    then have "walked (Suc l) p va s (q # used) fs' a s'" using walked_link Suc.prems 3 by blast
    moreover have "walk_loop (Suc l) p va True s = Ok (a, s')"
      using w(1) 3 pte lf(1,3) by (simp add: px_addr Let_def linked_def table_page_def)
    moreover have "fs = (q # used) @ fs'" using w(2) 3 by simp
    ultimately show ?thesis by blast
  qed
qed

section \<open>Mapping pages\<close>

lemma bit_px: "j < 9 \<Longrightarrow> bit (PX l va) j = bit va (12 + 9 * l + j)"
  by (auto simp: PX_eq PXSHIFT_def bit_simps)

lemma below_MAXVA_bit: "va < MAXVA \<Longrightarrow> 38 \<le> n \<Longrightarrow> \<not> bit va n"
proof
  assume "va < MAXVA" "38 \<le> n" "bit va n"
  then have "unat va < 2 ^ 38" "bit (unat va) n" by (simp_all add: word_less_nat_alt unat_MAXVA bit_unsigned_iff bit_imp_le_length)
  then have "2 ^ n \<le> unat va" by (simp add: bit_nat_iff bit_iff_odd) (metis div_less dvd_0_right not_less)
  moreover have "(2 :: nat) ^ 38 \<le> 2 ^ n" using \<open>38 \<le> n\<close> by (rule power_increasing) simp
  ultimately show False using \<open>unat va < 2 ^ 38\<close> by linarith
qed

lemma same_vpn_iff:
  assumes "va < MAXVA" "va' < MAXVA"
  shows "same_vpn 2 va va' \<longleftrightarrow> PGROUNDDOWN va = PGROUNDDOWN va'"
proof
  assume "PGROUNDDOWN va = PGROUNDDOWN va'"
  then show "same_vpn 2 va va'" unfolding same_vpn_def px_def by (metis PX_PGROUNDDOWN)
next
  assume same: "same_vpn 2 va va'"
  have m: "(4096 - 1 :: uint64) = mask 12" by (simp add: mask_eq_exp_minus_1)
  have "bit va n = bit va' n" if "12 \<le> n" for n
  proof (cases "n < 39")
    case True
    let ?k = "(n - 12) div 9" and ?j = "(n - 12) mod 9"
    have "?k \<le> 2" using True by linarith
    then have "px ?k va = px ?k va'" using same by (simp add: same_vpn_def)
    then have "PX ?k va = PX ?k va'" by (simp add: px_def word_unat_eq_iff)
    moreover have "12 + 9 * ?k + ?j = n" using that by simp
    ultimately show ?thesis using bit_px [of ?j ?k va] bit_px [of ?j ?k va'] by simp
  next
    case False
    then show ?thesis using assms below_MAXVA_bit by simp
  qed
  then show "PGROUNDDOWN va = PGROUNDDOWN va'"
    unfolding PGROUNDDOWN_def m by (intro bit_word_eqI) (auto simp: bit_simps)
qed

text \<open>
  \<open>remapped\<close>: the change made by mapping the \<open>k\<close> pages from \<open>a\<close> on to the pages from \<open>pa\<close> on. Nothing else
  is translated differently, and only table pages have been written.
\<close>

definition page_in :: "uint64 \<Rightarrow> nat \<Rightarrow> uint64 \<Rightarrow> bool" where
  "page_in a k va \<longleftrightarrow> unat a \<le> unat va \<and> unat va < unat a + PGSIZE * k"

definition grown :: "uint64 \<Rightarrow> 'z kmem_scheme \<Rightarrow> uint64 list \<Rightarrow> uint64 list \<Rightarrow> 'z kmem_scheme \<Rightarrow> bool" where
  "grown pt s used fs' s' \<longleftrightarrow>
     tables_ok s' fs' 2 pt
     \<and> tset (ent (mem s')) 2 pt \<subseteq> tset (ent (mem s)) 2 pt \<union> set used
     \<and> (\<forall>x. x \<notin> pages_of (tset (ent (mem s)) 2 pt \<union> set used) \<longrightarrow> mem s' x = mem s x)
     \<and> s' = s\<lparr>mem := mem s', freelist := freelist s'\<rparr>"

definition new_pte :: "uint64 \<Rightarrow> uint64 \<Rightarrow> uint64 \<Rightarrow> uint64 \<Rightarrow> pte_t" where
  "new_pte a pa perm va = PA2PTE (pa + (PGROUNDDOWN va - a)) OR perm OR PTE_V"

lemma walk_alloc:
  assumes "tables_ok s fs 2 pt" "a < MAXVA"
  obtains x s' used fs' where "walk pt a True s = Ok (x, s')" "fs = used @ fs'" "grown pt s used fs' s'"
    "\<And>va. lookup (ent (mem s')) 2 pt va = lookup (ent (mem s)) 2 pt va"
    "if x = 0 then fs' = [] else \<exists>q. leaf (ent (mem s')) 2 pt a = Some q \<and> x = q + 8 * of_nat (px 0 a)"
proof -
  from walk_loop_alloc [OF assms(1), of a] obtain x s' used fs' where
    w: "walk_loop 2 pt a True s = Ok (x, s')" "fs = used @ fs'" "walked 2 pt a s used fs' x s'" by blast
  note w3 = w(3) [unfolded walked_def]
  show thesis
  proof (rule that)
    show "walk pt a True s = Ok (x, s')" using w(1) assms(2) by (simp add: walk_def)
    show "grown pt s used fs' s'" using w3 by (simp add: grown_def)
  qed (use w w3 in auto)
qed

lemma grown_trans:
  assumes "grown pt s u1 f1 s1" "grown pt s1 u2 f2 s2"
  shows "grown pt s (u1 @ u2) f2 s2"
proof -
  have "mem s2 x = mem s x" if "x \<notin> pages_of (tset (ent (mem s)) 2 pt \<union> set (u1 @ u2))" for x
  proof -
    have "tset (ent (mem s1)) 2 pt \<union> set u2 \<subseteq> tset (ent (mem s)) 2 pt \<union> set (u1 @ u2)" using assms by (auto simp: grown_def)
    then have "x \<notin> pages_of (tset (ent (mem s1)) 2 pt \<union> set u2)" "x \<notin> pages_of (tset (ent (mem s)) 2 pt \<union> set u1)"
      using that by (auto simp: pages_of_def)
    then show ?thesis using assms by (simp add: grown_def)
  qed
  moreover have "s2 = s\<lparr>mem := mem s2, freelist := freelist s2\<rparr>"
  proof -
    have "s2 = s1\<lparr>mem := mem s2, freelist := freelist s2\<rparr>" "s1 = s\<lparr>mem := mem s1, freelist := freelist s1\<rparr>"
      using assms by (simp_all add: grown_def)
    then show ?thesis by (metis (no_types, lifting) kmem.surjective kmem.update_convs(1,2))
  qed
  ultimately show ?thesis using assms unfolding grown_def by auto
qed

text \<open>Storing the leaf entry.\<close>

lemma store_leaf:
  fixes e :: pte_t
  assumes ok: "tables_ok s fs 2 pt" and lf: "leaf (ent (mem s)) 2 pt a = Some q"
  defines "s' \<equiv> s\<lparr>mem := write64 (q + 8 * of_nat (px 0 a)) e (mem s)\<rparr>"
  shows "grown pt s [] fs s'" and "tset (ent (mem s')) 2 pt = tset (ent (mem s)) 2 pt" and "lookup (ent (mem s')) 2 pt va =
    (if same_vpn 2 a va then if V e then Some e else None else lookup (ent (mem s)) 2 pt va)"
proof -
  let ?T = "ent (mem s)" and ?T' = "ent (mem s')"
  note ok' = ok [unfolded tables_ok_def]
  have wf: "twf ?T 2 pt" and q: "q \<in> tset ?T 2 pt" using ok' leaf_in_tset [OF lf] by auto
  have tp: "table_page r" if "r \<in> tset ?T 2 pt" for r using twf_table_page [OF wf that] .
  have ent': "?T' r i = (if r = q \<and> i = px 0 a then e else ?T r i)" if "table_page r" "i < 512" for r i
    using that tp [OF q] by (simp add: s'_def ent_write)
  note st = leaf_store [OF wf lf, of ?T' e]
  show "lookup ?T' 2 pt va = (if same_vpn 2 a va then if V e then Some e else None else lookup ?T 2 pt va)"
    by (rule st(3)) (use ent' tp in auto)
  have st': "tset ?T' 2 pt = tset ?T 2 pt" "twf ?T' 2 pt" by (rule st; use ent' tp in auto)+
  then show "tset ?T' 2 pt = tset ?T 2 pt" by blast
  have "kmem_inv s' fs" unfolding s'_def
  proof (rule kmem_inv_mem)
    show "kmem_inv s fs" using ok' by blast
    fix r assume r: "r \<in> set fs"
    then have "r \<noteq> q" "table_page r" using ok' q free_table_page [of s fs r] by auto
    with ent' [of r 0] show "ent (write64 (q + 8 * of_nat (px 0 a)) e (mem s)) r 0 = ?T r 0" by (simp add: s'_def)
  qed
  moreover have "mem s' x = mem s x" if "x \<notin> pages_of (tset ?T 2 pt)" for x
    using that q slot_range [of "px 0 a" q] by (auto simp: s'_def pages_of_def intro!: write64_outside)
  ultimately show "grown pt s [] fs s'" using st' ok' by (simp add: grown_def tables_ok_def s'_def)
qed


lemma aligned_PGROUNDDOWN: "unat a mod PGSIZE = 0 \<Longrightarrow> PGROUNDDOWN a = a"
  by (metis (no_types, lifting) add.right_neutral div_mult_mod_eq unat_PGROUNDDOWN word_unat_eq_iff)

lemma PGROUNDDOWN_eq_iff:
  assumes "unat a mod PGSIZE = 0"
  shows "a = PGROUNDDOWN va \<longleftrightarrow> page_in a 1 va"
proof -
  obtain k where k: "unat a = k * PGSIZE" using assms by (metis dvdE mod_0_imp_dvd mult.commute)
  have "a = PGROUNDDOWN va \<longleftrightarrow> k * PGSIZE = unat va div PGSIZE * PGSIZE" by (simp add: word_unat_eq_iff unat_PGROUNDDOWN k)
  also have "\<dots> \<longleftrightarrow> unat va div PGSIZE = k" by auto
  also have "\<dots> \<longleftrightarrow> page_in a 1 va"
    unfolding page_in_def k using div_mult_mod_eq [of "unat va" PGSIZE] mod_less_divisor [of PGSIZE "unat va"] by (intro iffI) linarith+
  finally show ?thesis .
qed

lemma page_in_Suc:
  assumes "unat a + PGSIZE * Suc k \<le> 2 ^ 64"
  shows "page_in a (Suc k) va \<longleftrightarrow> page_in a 1 va \<or> page_in (a + of_nat PGSIZE) k va"
proof (cases "k = 0")
  case False
  then have "unat (a + of_nat PGSIZE) = unat a + PGSIZE" using assms by (intro unat_add_of_nat) simp
  then show ?thesis by (auto simp: page_in_def)
qed (auto simp: page_in_def)

text \<open>
  What \<open>mappages\<close> does, whatever it returns: it maps the first \<open>k\<close> pages, all \<open>n\<close> of them when it returns 0, and stops
  with -1 when the free list is empty.
\<close>

definition mapped_pages ::
  "uint64 \<Rightarrow> uint64 \<Rightarrow> uint64 \<Rightarrow> uint64 \<Rightarrow> nat \<Rightarrow> 'z kmem_scheme \<Rightarrow> uint64 list \<Rightarrow> (int \<times> 'z kmem_scheme) res \<Rightarrow> bool" where
  "mapped_pages pt a pa perm n s fs out \<longleftrightarrow>
     (\<exists>r s' used fs' k. out = Ok (r, s') \<and> fs = used @ fs' \<and> grown pt s used fs' s'
        \<and> (if r = 0 then k = n else r = -1 \<and> k < n \<and> fs' = [])
        \<and> (\<forall>va < MAXVA. lookup (ent (mem s')) 2 pt va =
              (if page_in a k va then Some (new_pte a pa perm va) else lookup (ent (mem s)) 2 pt va)))"

lemma mapped_pages_none:
  "grown pt s fs [] s1 \<Longrightarrow> (\<And>va. lookup (ent (mem s1)) 2 pt va = lookup (ent (mem s)) 2 pt va) \<Longrightarrow> 0 < n \<Longrightarrow>
   mapped_pages pt a pa perm n s fs (Ok (-1, s1))"
  unfolding mapped_pages_def
  by (rule exI [of _ "-1"], rule exI [of _ s1], rule exI [of _ fs], rule exI [of _ "[]"], rule exI [of _ 0]) (auto simp: page_in_def)

lemma new_pte_next: "new_pte (a + d) (pa + d) perm va = new_pte a pa perm va"
  by (simp add: new_pte_def algebra_simps)

lemma new_pte_first: "unat a mod PGSIZE = 0 \<Longrightarrow> page_in a 1 va \<Longrightarrow> new_pte a pa perm va = PA2PTE pa OR perm OR PTE_V"
  using PGROUNDDOWN_eq_iff [of a va] unfolding new_pte_def by (metis add.right_neutral cancel_comm_monoid_add_class.diff_cancel)

lemma V_new_pte [simp]: "V (x OR PTE_V)" "V (x OR y OR PTE_V)"
  by (auto simp: PTE_V_def bit.conj_disj_distrib2 or_eq_0_iff)

lemma map_one:
  assumes "tables_ok s fs 2 pt" "unat a mod PGSIZE = 0" "a < MAXVA" "lookup (ent (mem s)) 2 pt a = None" "V e"
  obtains (full) s1 where "walk pt a True s = Ok (0, s1)" "grown pt s fs [] s1" "\<And>va. lookup (ent (mem s1)) 2 pt va = lookup (ent (mem s)) 2 pt va"
  | (mapped) x s1 s2 u f where "walk pt a True s = Ok (x, s1)" "x \<noteq> 0" "\<not> V (read64 (mem s1) x)" "fs = u @ f"
      "s2 = s1\<lparr>mem := write64 x e (mem s1)\<rparr>" "grown pt s u f s2"
      "\<And>va. va < MAXVA \<Longrightarrow> lookup (ent (mem s2)) 2 pt va = (if page_in a 1 va then Some e else lookup (ent (mem s)) 2 pt va)"
proof -
  from walk_alloc [OF assms(1,3)] obtain x s1 u f where
    w: "walk pt a True s = Ok (x, s1)" "fs = u @ f" "grown pt s u f s1"
      "\<And>va. lookup (ent (mem s1)) 2 pt va = lookup (ent (mem s)) 2 pt va"
      "if x = 0 then f = [] else \<exists>q. leaf (ent (mem s1)) 2 pt a = Some q \<and> x = q + 8 * of_nat (px 0 a)" by blast
  show thesis
  proof (cases "x = 0")
    case True
    with w full show thesis by simp
  next
    case False
    with w(5) obtain q where q: "leaf (ent (mem s1)) 2 pt a = Some q" and x: "x = q + 8 * of_nat (px 0 a)" by auto
    have ok1: "tables_ok s1 f 2 pt" using w(3) by (simp add: grown_def)
    note st = store_leaf [OF ok1 q, where e = e, folded x]
    have "\<not> V (read64 (mem s1) x)" using assms(4) w(4) [of a] q by (auto simp: lookup_def ent_def x split: if_splits)
    moreover have "grown pt s u f (s1\<lparr>mem := write64 x e (mem s1)\<rparr>)" using grown_trans [OF w(3) st(1)] by simp
    moreover have "lookup (ent (write64 x e (mem s1))) 2 pt va = (if page_in a 1 va then Some e else lookup (ent (mem s)) 2 pt va)"
      if "va < MAXVA" for va
      using st(3) [of va] w(4) same_vpn_iff [OF assms(3) that] PGROUNDDOWN_eq_iff [OF assms(2)] assms(5)
      by (simp add: aligned_PGROUNDDOWN [OF assms(2)])
    ultimately show thesis using mapped [OF w(1) False _ w(2) refl] by simp
  qed
qed

lemma mapped_pages_zero: "tables_ok s fs 2 pt \<Longrightarrow> mapped_pages pt a pa perm 0 s fs (Ok (0, s))"
  unfolding mapped_pages_def
  by (rule exI [of _ 0], rule exI [of _ s], rule exI [of _ "[]"], rule exI [of _ fs], rule exI [of _ 0])
    (auto simp: page_in_def grown_def)

lemma mapped_pages_cons:
  assumes "unat a mod PGSIZE = 0" "unat a + PGSIZE * Suc n \<le> 2 ^ 38" "fs = u @ f" "grown pt s u f s2"
    and one: "\<And>va. va < MAXVA \<Longrightarrow> lookup (ent (mem s2)) 2 pt va =
      (if page_in a 1 va then Some (PA2PTE pa OR perm OR PTE_V) else lookup (ent (mem s)) 2 pt va)"
    and "mapped_pages pt (a + of_nat PGSIZE) (pa + of_nat PGSIZE) perm n s2 f out"
  shows "mapped_pages pt a pa perm (Suc n) s fs out"
proof -
  let ?a = "a + of_nat PGSIZE" and ?pa = "pa + of_nat PGSIZE"
  have ua: "unat ?a = unat a + PGSIZE" using assms(2) by (intro unat_add_of_nat) simp
  have split: "page_in a (Suc k) va \<longleftrightarrow> page_in a 1 va \<or> page_in ?a k va" if "k \<le> n" for k va
    using assms(2) that by (intro page_in_Suc) simp
  have apart: "\<not> (page_in a 1 va \<and> page_in ?a k va)" for k va using ua by (auto simp: page_in_def)
  from assms(6) obtain r s' u' f' k where
    r: "out = Ok (r, s')" "f = u' @ f'" "grown pt s2 u' f' s'" "if r = 0 then k = n else r = -1 \<and> k < n \<and> f' = []"
      "\<forall>va < MAXVA. lookup (ent (mem s')) 2 pt va = (if page_in ?a k va then Some (new_pte ?a ?pa perm va) else lookup (ent (mem s2)) 2 pt va)"
    unfolding mapped_pages_def by blast
  have k: "k \<le> n" using r(4) by (auto split: if_splits)
  show ?thesis unfolding mapped_pages_def
  proof (intro exI conjI)
    show "out = Ok (r, s')" by (rule r(1))
    show "fs = (u @ u') @ f'" using assms(3) r(2) by simp
    show "grown pt s (u @ u') f' s'" by (rule grown_trans [OF assms(4) r(3)])
    show "if r = 0 then Suc k = Suc n else r = -1 \<and> Suc k < Suc n \<and> f' = []" using r(4) by (simp split: if_splits)
    show "\<forall>va < MAXVA. lookup (ent (mem s')) 2 pt va = (if page_in a (Suc k) va then Some (new_pte a pa perm va) else lookup (ent (mem s)) 2 pt va)"
      using r(5) one split [OF k] apart new_pte_first [OF assms(1)] new_pte_next [of a "of_nat PGSIZE" pa perm] by auto
  qed
qed

lemma mappages_loop_spec:
  assumes "tables_ok s fs 2 pt" "unat a mod PGSIZE = 0" "unat a + PGSIZE * Suc n \<le> 2 ^ 38"
    and "a_end = a + of_nat (PGSIZE * n)"
    and "\<And>va. va < MAXVA \<Longrightarrow> page_in a (Suc n) va \<Longrightarrow> lookup (ent (mem s)) 2 pt va = None"
  shows "mapped_pages pt a pa perm (Suc n) s fs (mappages_loop pt a a_end pa perm s)"
  using assms
proof (induction n arbitrary: a pa s fs)
  case (0 a pa s fs)
  have aM: "a < MAXVA" using "0.prems"(3) by (simp add: word_less_nat_alt unat_MAXVA)
  have free: "lookup (ent (mem s)) 2 pt a = None" using "0.prems"(5) [OF aM] by (simp add: page_in_def)
  show ?case
  proof (rule map_one [OF "0.prems"(1,2) aM free, of "PA2PTE pa OR perm OR PTE_V"])
    fix s1 assume "walk pt a True s = Ok (0, s1)" "grown pt s fs [] s1" "\<And>va. lookup (ent (mem s1)) 2 pt va = lookup (ent (mem s)) 2 pt va"
    then show ?thesis by (subst mappages_loop.simps) (simp add: mapped_pages_none)
  next
    fix x s1 s2 u f
    assume m: "walk pt a True s = Ok (x, s1)" "x \<noteq> 0" "\<not> V (read64 (mem s1) x)" "fs = u @ f"
      "s2 = s1\<lparr>mem := write64 x (PA2PTE pa OR perm OR PTE_V) (mem s1)\<rparr>" "grown pt s u f s2"
      "\<And>va. va < MAXVA \<Longrightarrow> lookup (ent (mem s2)) 2 pt va = (if page_in a 1 va then Some (PA2PTE pa OR perm OR PTE_V) else lookup (ent (mem s)) 2 pt va)"
    then have "mappages_loop pt a a_end pa perm s = Ok (0, s2)" using "0.prems"(4) by (subst mappages_loop.simps) simp
    moreover have "tables_ok s2 f 2 pt" using m(6) by (simp add: grown_def)
    ultimately show ?thesis using mapped_pages_cons [OF "0.prems"(2,3) m(4,6,7) mapped_pages_zero] by simp
  qed simp
next
  case (Suc n)
  let ?a = "a + of_nat PGSIZE" and ?pa = "pa + of_nat PGSIZE"
  have aM: "a < MAXVA" using Suc.prems(3) by (simp add: word_less_nat_alt unat_MAXVA)
  have free: "lookup (ent (mem s)) 2 pt a = None" using Suc.prems(5) [OF aM] by (simp add: page_in_def)
  have ua: "unat ?a = unat a + PGSIZE" using Suc.prems(3) by (intro unat_add_of_nat) simp
  have "unat a_end = unat a + PGSIZE * Suc n" unfolding Suc.prems(4) using Suc.prems(3) by (intro unat_add_of_nat) simp
  then have ne: "a \<noteq> a_end" by auto
  show ?case
  proof (rule map_one [OF Suc.prems(1,2) aM free, of "PA2PTE pa OR perm OR PTE_V"])
    fix s1 assume "walk pt a True s = Ok (0, s1)" "grown pt s fs [] s1" "\<And>va. lookup (ent (mem s1)) 2 pt va = lookup (ent (mem s)) 2 pt va"
    then show ?thesis by (subst mappages_loop.simps) (simp add: mapped_pages_none)
  next
    fix x s1 s2 u f
    assume m: "walk pt a True s = Ok (x, s1)" "x \<noteq> 0" "\<not> V (read64 (mem s1) x)" "fs = u @ f"
      "s2 = s1\<lparr>mem := write64 x (PA2PTE pa OR perm OR PTE_V) (mem s1)\<rparr>" "grown pt s u f s2"
      "\<And>va. va < MAXVA \<Longrightarrow> lookup (ent (mem s2)) 2 pt va = (if page_in a 1 va then Some (PA2PTE pa OR perm OR PTE_V) else lookup (ent (mem s)) 2 pt va)"
    then have loop: "mappages_loop pt a a_end pa perm s = mappages_loop pt ?a a_end ?pa perm s2"
      using ne by (subst mappages_loop.simps) simp
    have "mapped_pages pt ?a ?pa perm (Suc n) s2 f (mappages_loop pt ?a a_end ?pa perm s2)"
    proof (rule Suc.IH)
      show "tables_ok s2 f 2 pt" using m(6) by (simp add: grown_def)
      show "unat ?a mod PGSIZE = 0" using ua Suc.prems(2) by (simp only: mod_add_self2)
      show "unat ?a + PGSIZE * Suc n \<le> 2 ^ 38" using ua Suc.prems(3) by simp
      show "a_end = ?a + of_nat (PGSIZE * n)" using Suc.prems(4) by simp
      show "lookup (ent (mem s2)) 2 pt va = None" if "va < MAXVA" "page_in ?a (Suc n) va" for va
      proof -
        have "page_in a (Suc (Suc n)) va" "\<not> page_in a 1 va" using that(2) ua by (auto simp: page_in_def)
        then show ?thesis using m(7) [OF that(1)] Suc.prems(5) [OF that(1)] by simp
      qed
    qed
    with m(7) show ?thesis unfolding loop by (intro mapped_pages_cons [OF Suc.prems(2,3) m(4,6)]) auto
  qed simp
qed


text \<open>
  C4. \<open>mappages\<close> maps exactly the pages it is asked for. On a well-formed page table (no table page is used
  twice or is free) whose entries for the range are unused, it returns, either with 0 and every page of the range
  translated to its page of physical memory with the given permissions, or with -1 after it has mapped
  only the first pages of the range and found no memory for another table; the translation of every other
  address is as before, new tables come off the free list, only table pages were written, and the
  table is well formed again.
\<close>

theorem mappages_correct:
  assumes "tables_ok s fs 2 pt" and "unat va mod PGSIZE = 0" and "unat sz = PGSIZE * n" and "0 < n"
    and "unat va + unat sz \<le> unat MAXVA"
    and "\<forall>a < MAXVA. page_in va n a \<longrightarrow> lookup (ent (mem s)) 2 pt a = None"
  shows "\<exists>r s' used fs' k. mappages pt va sz pa perm s = Ok (r, s') \<and> fs = used @ fs' \<and> tables_ok s' fs' 2 pt
    \<and> (if r = 0 then k = n else r = -1 \<and> k < n \<and> fs' = [])
    \<and> (\<forall>a < MAXVA. lookup (ent (mem s')) 2 pt a =
         (if page_in va k a then Some (PA2PTE (pa + (PGROUNDDOWN a - va)) OR perm OR PTE_V) else lookup (ent (mem s)) 2 pt a))
    \<and> (\<forall>x. x \<notin> pages_of (tset (ent (mem s)) 2 pt \<union> set used) \<longrightarrow> mem s' x = mem s x)"
proof -
  obtain m where m: "n = Suc m" using assms(4) by (cases n) auto
  have "va + sz - of_nat PGSIZE = va + of_nat (PGSIZE * m)"
  proof -
    have "sz = of_nat (PGSIZE * n)" by (simp flip: assms(3))
    then show ?thesis by (simp add: m algebra_simps)
  qed
  then have "mapped_pages pt va pa perm n s fs (mappages_loop pt va (va + sz - of_nat PGSIZE) pa perm s)"
    using mappages_loop_spec [of s fs pt va m "va + sz - of_nat PGSIZE" pa perm] assms by (simp add: m unat_MAXVA)
  moreover have "sz \<noteq> 0" using assms(3,4) by auto
  then have "mappages pt va sz pa perm s = mappages_loop pt va (va + sz - of_nat PGSIZE) pa perm s"
    using assms(2,3) by (simp add: mappages_def)
  ultimately have "mapped_pages pt va pa perm n s fs (mappages pt va sz pa perm s)" by simp
  then show ?thesis unfolding mapped_pages_def grown_def new_pte_def by (elim exE conjE) (intro exI conjI; assumption)
qed

end
