(* ===== verification/Uvm.thy ===== *)
theory Uvm
  imports Pagetable
begin

text \<open>
  User memory: what a user program sees at its addresses, and what \<open>copyout\<close>, \<open>copyin\<close>, \<open>uvmunmap\<close>, \<open>uvmalloc\<close> and
  \<open>uvmcopy\<close> do to it.
\<close>

section \<open>Pages of a user program\<close>

text \<open>
  The pages that the user entries of a table point to: they are pages of their own, apart from the table's pages, and
  no page is mapped at two places.
\<close>

definition user_ok :: "memory \<Rightarrow> uint64 \<Rightarrow> bool" where
  "user_ok m pt \<longleftrightarrow>
     (\<forall>va e. va < MAXVA \<longrightarrow> lookup (ent m) 2 pt va = Some e \<longrightarrow> flag e PTE_U
        \<longrightarrow> table_page (PTE2PA e) \<and> PTE2PA e \<notin> tset (ent m) 2 pt)
     \<and> (\<forall>va va' e e'. va < MAXVA \<longrightarrow> va' < MAXVA \<longrightarrow> lookup (ent m) 2 pt va = Some e \<longrightarrow> lookup (ent m) 2 pt va' = Some e'
        \<longrightarrow> flag e PTE_U \<longrightarrow> flag e' PTE_U \<longrightarrow> PTE2PA e = PTE2PA e' \<longrightarrow> PGROUNDDOWN va = PGROUNDDOWN va')"

definition space_ok :: "memory \<Rightarrow> uint64 \<Rightarrow> bool" where
  "space_ok m pt \<longleftrightarrow> twf (ent m) 2 pt \<and> user_ok m pt"

lemma user_ok_inj:
  assumes "user_ok m pt" "va < MAXVA" "va' < MAXVA" "lookup (ent m) 2 pt va = Some e" "lookup (ent m) 2 pt va' = Some e'"
    "flag e PTE_U" "flag e' PTE_U" "PTE2PA e = PTE2PA e'"
  shows "PGROUNDDOWN va = PGROUNDDOWN va'"
  using assms(1) [unfolded user_ok_def, THEN conjunct2, rule_format, OF assms(2-8)] .

lemma user_page_iff:
  "space_ok m pt \<Longrightarrow> user_page m pt va = Some p \<longleftrightarrow>
     va < MAXVA \<and> (\<exists>e. lookup (ent m) 2 pt va = Some e \<and> flag e PTE_U \<and> p = PTE2PA e)"
  unfolding space_ok_def user_page_def
  by (auto simp: pte_of_lookup user_ok_def table_page_def split: option.splits if_splits)

lemma user_page_facts:
  assumes "space_ok m pt" "user_page m pt va = Some p"
  shows "table_page p" "p \<notin> tset (ent m) 2 pt" "user_page m pt va' = Some p \<Longrightarrow> PGROUNDDOWN va' = PGROUNDDOWN va"
proof -
  from assms(2) obtain e where e: "va < MAXVA" "lookup (ent m) 2 pt va = Some e" "flag e PTE_U" "p = PTE2PA e"
    by (auto simp: user_page_iff [OF assms(1)])
  with assms(1) show "table_page p" "p \<notin> tset (ent m) 2 pt" by (auto simp: space_ok_def user_ok_def)
  assume "user_page m pt va' = Some p"
  then obtain e' where e': "va' < MAXVA" "lookup (ent m) 2 pt va' = Some e'" "flag e' PTE_U" "p = PTE2PA e'"
    by (auto simp: user_page_iff [OF assms(1)])
  have "user_ok m pt" using assms(1) by (simp add: space_ok_def)
  from user_ok_inj [OF this e'(1) e(1) e'(2) e(2) e'(3) e(3)] e(4) e'(4) show "PGROUNDDOWN va' = PGROUNDDOWN va" by simp
qed

text \<open>Storing into pages that are not table pages changes no translation.\<close>

lemma tables_frame:
  assumes wf: "twf (ent m) 2 pt" and m': "\<And>x. x \<notin> pages_of A \<Longrightarrow> m' x = m x"
    and A: "\<And>p. p \<in> A \<Longrightarrow> table_page p" "A \<inter> tset (ent m) 2 pt = {}"
  shows "twf (ent m') 2 pt" "tset (ent m') 2 pt = tset (ent m) 2 pt" "leaf (ent m') 2 pt va = leaf (ent m) 2 pt va"
    "lookup (ent m') 2 pt va = lookup (ent m) 2 pt va"
proof -
  have e: "ent m' q i = ent m q i" if "q \<in> tset (ent m) 2 pt" "i < 512" for q i
    by (rule ent_unchanged [OF m' A(1)]) (use that A(2) twf_table_page [OF wf] in auto)
  show "tset (ent m') 2 pt = tset (ent m) 2 pt" by (rule tset_frame [OF e])
  show "lookup (ent m') 2 pt va = lookup (ent m) 2 pt va" by (rule lookup_frame [OF e])
  show "leaf (ent m') 2 pt va = leaf (ent m) 2 pt va" by (rule leaf_frame [OF e])
  show "twf (ent m') 2 pt" using twf_frame [of "ent m" 2 pt "ent m'"] e wf by simp
qed

lemma tables_unchanged:
  assumes "space_ok m pt" and m': "\<And>x. x \<notin> pages_of A \<Longrightarrow> m' x = m x"
    and A: "\<And>p. p \<in> A \<Longrightarrow> table_page p" "A \<inter> tset (ent m) 2 pt = {}"
  shows "space_ok m' pt" "pte_of m' pt va = pte_of m pt va" "user_page m' pt va = user_page m pt va"
proof -
  have wf: "twf (ent m) 2 pt" using assms(1) by (simp add: space_ok_def)
  note fr = tables_frame [OF wf m', of A, OF _ A]
  have wf': "twf (ent m') 2 pt" and ts: "tset (ent m') 2 pt = tset (ent m) 2 pt" by (rule fr; assumption)+
  have lk: "lookup (ent m') 2 pt va = lookup (ent m) 2 pt va" for va by (rule fr(4))
  have "user_ok m' pt = user_ok m pt" unfolding user_ok_def lk ts by (rule refl)
  then show "space_ok m' pt" using assms(1) wf' by (simp add: space_ok_def)
  show "pte_of m' pt va = pte_of m pt va" using wf wf' by (simp add: pte_of_lookup lk)
  then show "user_page m' pt va = user_page m pt va" by (simp add: user_page_def)
qed

lemma offset_in_page: "va - PGROUNDDOWN va = of_nat (unat va mod PGSIZE)" "unat va mod PGSIZE < PGSIZE"
  using page_base by simp_all

lemma user_addr_in_page: "p + (va - PGROUNDDOWN va) \<in> page p"
  by (simp add: page_base range64_add)

section \<open>Storing bytes at a user address\<close>

lemma store_chunk:
  assumes ok: "space_ok m pt" and p: "user_page m pt va = Some p" and n: "length bs \<le> PGSIZE - unat va mod PGSIZE"
  defines "m' \<equiv> write_bytes (p + (va - PGROUNDDOWN va)) bs m"
  shows "x \<notin> page p \<Longrightarrow> m' x = m x"
    and "user_page m pt a \<noteq> None \<Longrightarrow> user_byte m' pt a = (if unat (a - va) < length bs then bs ! unat (a - va) else user_byte m pt a)"
proof -
  let ?o = "unat va mod PGSIZE"
  have in_page: "range64 (p + (va - PGROUNDDOWN va)) (length bs) \<subseteq> page p"
  proof
    fix x assume "x \<in> range64 (p + (va - PGROUNDDOWN va)) (length bs)"
    then obtain i where i: "i < length bs" "x = p + (va - PGROUNDDOWN va) + of_nat i" using n by (auto simp: range64_iff)
    then have "x = p + of_nat (?o + i)" by (simp add: page_base)
    moreover have "?o + i < PGSIZE" using i(1) n by linarith
    ultimately show "x \<in> page p" by (auto simp: range64_iff)
  qed
  then show out: "x \<notin> page p \<Longrightarrow> m' x = m x" for x unfolding m'_def by (intro write_bytes_outside) auto
  have up: "user_page m' pt a = user_page m pt a" for a
    by (rule tables_unchanged(3) [OF ok, of "{p}"]) (use out user_page_facts [OF ok p] in \<open>auto simp: pages_of_def\<close>)
  assume "user_page m pt a \<noteq> None"
  then obtain q where q: "user_page m pt a = Some q" by auto
  have same: "PGROUNDDOWN a = PGROUNDDOWN va \<Longrightarrow> q = p" using p q by (metis option.inject user_page_PGROUNDDOWN)
  show "user_byte m' pt a = (if unat (a - va) < length bs then bs ! unat (a - va) else user_byte m pt a)"
  proof (cases "PGROUNDDOWN a = PGROUNDDOWN va")
    case True
    then have d: "q + (a - PGROUNDDOWN a) - (p + (va - PGROUNDDOWN va)) = a - va" using same by simp
    show ?thesis unfolding user_byte_def up q unfolding m'_def write_bytes_def option.sel d by (rule refl)
  next
    case False
    then have "q \<noteq> p" using user_page_facts(3) [OF ok p] q by blast
    then have "page q \<inter> page p = {}" using user_page_facts(1) [OF ok] p q by (intro aligned_pages_disjoint) (auto simp: table_page_def)
    then have "q + (a - PGROUNDDOWN a) \<notin> page p" using user_addr_in_page by blast
    moreover have "\<not> unat (a - va) < length bs"
    proof
      assume "unat (a - va) < length bs"
      then have "PGROUNDDOWN (va + of_nat (unat (a - va))) = PGROUNDDOWN va" using n by (intro same_page) simp
      with False show False by simp
    qed
    ultimately show ?thesis unfolding user_byte_def up q by (simp add: out)
  qed
qed

section \<open>Copying out\<close>

definition writable :: "memory \<Rightarrow> uint64 \<Rightarrow> uint64 \<Rightarrow> bool" where
  "writable m pt va \<longleftrightarrow> (case pte_of m pt va of None \<Rightarrow> False | Some e \<Rightarrow> flag e PTE_U \<and> flag e PTE_W)"

definition user_pages :: "memory \<Rightarrow> uint64 \<Rightarrow> uint64 set" where
  "user_pages m pt = {p. \<exists>va. user_page m pt va = Some p}"

text \<open>The first \<open>k\<close> bytes of \<open>src\<close> have been stored from \<open>dst\<close> on.\<close>

definition stored :: "uint64 \<Rightarrow> uint64 \<Rightarrow> byte list \<Rightarrow> memory \<Rightarrow> memory \<Rightarrow> bool" where
  "stored pt dst bs m m' \<longleftrightarrow>
     space_ok m' pt \<and> (\<forall>va. user_page m' pt va = user_page m pt va) \<and> (\<forall>va. pte_of m' pt va = pte_of m pt va)
     \<and> (\<forall>va. user_page m pt va \<noteq> None \<longrightarrow>
          user_byte m' pt va = (if unat (va - dst) < length bs then bs ! unat (va - dst) else user_byte m pt va))
     \<and> (\<forall>x. x \<notin> pages_of (user_pages m pt) \<longrightarrow> m' x = m x)"

lemma stored_Nil: "space_ok m pt \<Longrightarrow> stored pt dst [] m m"
  by (simp add: stored_def)

lemma stored_chunk:
  assumes "space_ok m pt" "user_page m pt va = Some p" "length bs \<le> PGSIZE - unat va mod PGSIZE"
  shows "stored pt va bs m (write_bytes (p + (va - PGROUNDDOWN va)) bs m)"
proof -
  let ?m = "write_bytes (p + (va - PGROUNDDOWN va)) bs m"
  have f: "x \<notin> pages_of {p} \<Longrightarrow> ?m x = m x" for x using store_chunk(1) [OF assms] by (simp add: pages_of_def)
  have one: "\<And>q. q \<in> {p} \<Longrightarrow> table_page q" "{p} \<inter> tset (ent m) 2 pt = {}" using user_page_facts [OF assms(1,2)] by auto
  note tu = tables_unchanged [where A = "{p}", OF assms(1) f one]
  have "?m x = m x" if "x \<notin> pages_of (user_pages m pt)" for x
    using that assms(2) by (intro f) (auto simp: pages_of_def user_pages_def)
  then show ?thesis unfolding stored_def
    using tu store_chunk(2) [OF assms] by simp
qed

lemma stored_append:
  assumes "stored pt dst bs m m1" "stored pt (dst + of_nat (length bs)) cs m1 m2" "length bs + length cs < 2 ^ 64"
  shows "stored pt dst (bs @ cs) m m2"
proof -
  have "user_pages m1 pt = user_pages m pt" using assms(1) by (simp add: stored_def user_pages_def)
  then have "m2 x = m x" if "x \<notin> pages_of (user_pages m pt)" for x using assms(1,2) that by (simp add: stored_def)
  moreover have "user_byte m2 pt va = (if unat (va - dst) < length (bs @ cs) then (bs @ cs) ! unat (va - dst) else user_byte m pt va)"
    if "user_page m pt va \<noteq> None" for va
  proof -
    let ?d = "unat (va - dst)" and ?d' = "unat (va - (dst + of_nat (length bs)))"
    have b: "user_byte m1 pt va = (if ?d < length bs then bs ! ?d else user_byte m pt va)"
      "user_byte m2 pt va = (if ?d' < length cs then cs ! ?d' else user_byte m1 pt va)"
      using assms(1,2) that by (simp_all add: stored_def)
    have lb: "unat (of_nat (length bs) :: uint64) = length bs" using assms(3) by (simp add: unat_of_nat64)
    have eq: "va - (dst + of_nat (length bs)) = (va - dst) - of_nat (length bs)" by simp
    show ?thesis
    proof (cases "?d < length bs")
      case True
      have "?d' = 2 ^ 64 + ?d - length bs" unfolding eq using True lb by (subst unat_sub_if') (simp add: not_le)
      then have "\<not> ?d' < length cs" using assms(3) by linarith
      with b True show ?thesis by (simp add: nth_append)
    next
      case False
      then have "?d' = ?d - length bs" unfolding eq using lb by (subst unat_sub_if') simp
      with b False show ?thesis by (auto simp: nth_append)
    qed
  qed
  ultimately show ?thesis using assms(1,2) by (simp add: stored_def)
qed


lemma writable_user_page: "space_ok m pt \<Longrightarrow> writable m pt va \<Longrightarrow> user_page m pt va \<noteq> None"
  by (auto simp: writable_def user_page_def space_ok_def pte_of_lookup user_ok_def table_page_def split: option.splits if_splits)

lemma pte_of_PGROUNDDOWN [simp]: "pte_of m pt (PGROUNDDOWN va) = pte_of m pt va"
  by (simp add: pte_of_def not_le [symmetric])

lemma writable_PGROUNDDOWN:
  assumes "PGROUNDDOWN a = PGROUNDDOWN b"
  shows "writable m pt a = writable m pt b"
proof -
  have "pte_of m pt a = pte_of m pt b" using assms by (metis pte_of_PGROUNDDOWN)
  then show ?thesis by (simp add: writable_def)
qed

lemma all_writable_chunk:
  assumes "0 < len"
  shows "(\<forall>i < len. writable m pt (va + of_nat i)) \<longleftrightarrow>
    writable m pt va \<and> (\<forall>i < len - chunk va len. writable m pt (PGROUNDDOWN va + of_nat PGSIZE + of_nat i))"
  by (rule all_chunk [OF assms, of "writable m pt"]) (rule writable_PGROUNDDOWN)

text \<open>One round of the loop, from the page that holds \<open>dst\<close>.\<close>

lemma copyout_step:
  assumes "src \<noteq> []" "space_ok (mem s) pt"
  shows "copyout pt dst src s =
    (if writable (mem s) pt dst
     then copyout pt (PGROUNDDOWN dst + of_nat PGSIZE) (drop (chunk dst (length src)) src)
       (s\<lparr>mem := write_bytes (the (user_page (mem s) pt dst) + (dst - PGROUNDDOWN dst)) (take (chunk dst (length src)) src) (mem s)\<rparr>)
     else Ok (-1, s))"
proof (cases "writable (mem s) pt dst")
  case True
  then obtain e where e: "pte_of (mem s) pt dst = Some e" "flag e PTE_U" "flag e PTE_W" by (auto simp: writable_def split: option.splits)
  from writable_user_page [OF assms(2) True] e have up: "user_page (mem s) pt dst = Some (PTE2PA e)"
    by (auto simp: user_page_def split: if_splits)
  from e(1) have "dst < MAXVA" "slot_addr (mem s) 2 pt dst \<noteq> 0" "V (read64 (mem s) (slot_addr (mem s) 2 pt dst))"
    "read64 (mem s) (slot_addr (mem s) 2 pt dst) = e" by (auto simp: pte_of_def Let_def split: if_splits)
  with e up True assms(1) show ?thesis
    by (subst copyout.simps) (simp add: Let_def walk_def walk_loop_noalloc not_le [symmetric])
next
  case False
  then show ?thesis using assms(1)
    by (subst copyout.simps) (auto simp: Let_def walk_def walk_loop_noalloc writable_def pte_of_def not_le split: if_splits)
qed

lemma copyout_spec:
  "space_ok (mem s) pt \<Longrightarrow> length src < 2 ^ 64 \<Longrightarrow>
   \<exists>r k m'. copyout pt dst src s = Ok (r, s\<lparr>mem := m'\<rparr>) \<and> stored pt dst (take k src) (mem s) m'
     \<and> (if \<forall>i < length src. writable (mem s) pt (dst + of_nat i) then r = 0 \<and> k = length src else r = -1 \<and> k < length src)"
proof (induction "length src" arbitrary: dst src s rule: less_induct)
  case less
  show ?case
  proof (cases "src = []")
    case True
    then show ?thesis using less.prems stored_Nil [of "mem s" pt dst] by (intro exI [of _ 0] exI [of _ "mem s"]) (simp add: copyout.simps)
  next
    case False
    let ?n = "chunk dst (length src)" and ?va' = "PGROUNDDOWN dst + of_nat PGSIZE"
    have n: "0 < ?n" "?n \<le> length src" using False chunk_pos chunk_le by auto
    note step = copyout_step [OF False less.prems(1), of dst] and all = all_writable_chunk [of "length src" "mem s" pt dst]
    show ?thesis
    proof (cases "writable (mem s) pt dst")
      case False
      with step all \<open>src \<noteq> []\<close> less.prems show ?thesis
        by (intro exI [of _ "-1"] exI [of _ 0] exI [of _ "mem s"]) (auto simp: stored_Nil)
    next
      case True
      obtain p where p: "user_page (mem s) pt dst = Some p" using writable_user_page [OF less.prems(1) True] by auto
      let ?m = "write_bytes (p + (dst - PGROUNDDOWN dst)) (take ?n src) (mem s)"
      have st: "stored pt dst (take ?n src) (mem s) ?m"
        by (rule stored_chunk [OF less.prems(1) p]) (simp add: chunk_eq)
      have w: "writable ?m pt va = writable (mem s) pt va" for va using st by (simp add: stored_def writable_def)
      let ?s = "s\<lparr>mem := ?m\<rparr>" and ?rest = "drop ?n src"
      have "length ?rest < length src" "space_ok (mem ?s) pt" "length ?rest < 2 ^ 64" using n st less.prems(2) by (simp_all add: stored_def)
      from less.hyps [OF this, of ?va'] obtain r k m' where
        rest': "copyout pt ?va' ?rest ?s = Ok (r, ?s\<lparr>mem := m'\<rparr>)" "stored pt ?va' (take k ?rest) (mem ?s) m'"
          "if \<forall>i < length ?rest. writable (mem ?s) pt (?va' + of_nat i) then r = 0 \<and> k = length ?rest else r = -1 \<and> k < length ?rest"
        by blast
      then have rest: "copyout pt ?va' ?rest ?s = Ok (r, s\<lparr>mem := m'\<rparr>)" "stored pt ?va' (take k ?rest) ?m m'"
          "if \<forall>i < length src - ?n. writable (mem s) pt (?va' + of_nat i) then r = 0 \<and> k = length src - ?n
           else r = -1 \<and> k < length src - ?n"
        by (simp_all add: w split: if_splits)
      have k: "k \<le> length src - ?n" using rest(3) by (auto split: if_splits)
      have "stored pt dst (take (?n + k) src) (mem s) m'"
      proof (cases "?n < length src")
        case True
        then have "dst + of_nat (length (take ?n src)) = ?va'" using chunk_next [OF True] n by simp
        with stored_append [OF st, of "take k (drop ?n src)" m'] rest(2) less.prems(2) k n show ?thesis
          by (simp add: take_add)
      next
        case False
        with n k have "k = 0" "drop ?n src = []" by auto
        with rest(2) have "stored pt (dst + of_nat (length (take ?n src))) [] ?m m'" by (simp add: stored_def)
        from stored_append [OF st this] less.prems(2) \<open>k = 0\<close> show ?thesis by simp
      qed
      moreover have "copyout pt dst src s = Ok (r, s\<lparr>mem := m'\<rparr>)" using step True p rest(1) by simp
      moreover have "if \<forall>i < length src. writable (mem s) pt (dst + of_nat i) then r = 0 \<and> ?n + k = length src else r = -1 \<and> ?n + k < length src"
        using rest(3) n all True \<open>src \<noteq> []\<close> by (auto split: if_splits)
      ultimately show ?thesis by blast
    qed
  qed
qed


text \<open>
  C23. \<open>copyin\<close> reads exactly what the user program sees: whatever the page table, it returns without changing anything;
  when every byte of the range is at a mapped user page it returns 0 and the bytes of the range, across
  page boundaries, and otherwise -1 after the bytes up to the first page that is not mapped for the user.
\<close>

theorem copyin_correct:
  "\<exists>r bs. copyin pt va len s = Ok (r, bs, s) \<and> bs = user_bytes (mem s) pt va (length bs)
     \<and> (if \<forall>i < len. user_page (mem s) pt (va + of_nat i) \<noteq> None then r = 0 \<and> length bs = len else r = -1 \<and> length bs < len)"
  by (rule copyin_spec)

text \<open>
  C5. Round trip through user memory: bytes that \<open>copyout\<close> stores at writable user addresses come back from \<open>copyin\<close>
  unchanged, also when the range spans several pages that lie anywhere in physical memory; all other bytes
  the program can see, the page table itself and all memory outside the program's pages keep their values. If
  some page of the range is missing or not writable, \<open>copyout\<close> returns -1.
\<close>

theorem copyout_copyin:
  assumes "space_ok (mem s) pt" and "length bs < 2 ^ 64"
  shows "\<exists>r s'. copyout pt va bs s = Ok (r, s') \<and> space_ok (mem s') pt
    \<and> (\<forall>a. user_page (mem s') pt a = user_page (mem s) pt a)
    \<and> (\<forall>a. user_page (mem s) pt a \<noteq> None \<longrightarrow> \<not> unat (a - va) < length bs \<longrightarrow> user_byte (mem s') pt a = user_byte (mem s) pt a)
    \<and> (\<forall>x. x \<notin> pages_of (user_pages (mem s) pt) \<longrightarrow> mem s' x = mem s x)
    \<and> (if \<forall>i < length bs. writable (mem s) pt (va + of_nat i)
       then r = 0 \<and> copyin pt va (length bs) s' = Ok (0, bs, s') else r = -1)"
proof -
  from copyout_spec [OF assms, of va] obtain r k m' where
    c: "copyout pt va bs s = Ok (r, s\<lparr>mem := m'\<rparr>)" "stored pt va (take k bs) (mem s) m'"
      "if \<forall>i < length bs. writable (mem s) pt (va + of_nat i) then r = 0 \<and> k = length bs else r = -1 \<and> k < length bs" by blast
  let ?s = "s\<lparr>mem := m'\<rparr>"
  have "copyin pt va (length bs) ?s = Ok (0, bs, ?s)" if w: "\<forall>i < length bs. writable (mem s) pt (va + of_nat i)"
  proof -
    have up: "user_page (mem s) pt (va + of_nat i) \<noteq> None" if "i < length bs" for i
      using w that writable_user_page [OF assms(1)] by blast
    then have "\<forall>i < length bs. user_page (mem ?s) pt (va + of_nat i) \<noteq> None" using c(2) by (simp add: stored_def)
    with copyin_spec [of pt va "length bs" ?s] have "copyin pt va (length bs) ?s = Ok (0, user_bytes m' pt va (length bs), ?s)" by auto
    moreover have "user_bytes m' pt va (length bs) = bs"
    proof (rule nth_equalityI)
      fix i assume "i < length (user_bytes m' pt va (length bs))"
      then have i: "i < length bs" by simp
      then have "unat (of_nat i :: uint64) = i" using assms(2) by (intro unat_of_nat64) simp
      then show "user_bytes m' pt va (length bs) ! i = bs ! i"
        using c(2,3) w i up [OF i] by (simp add: user_bytes_def stored_def)
    qed simp
    ultimately show ?thesis by simp
  qed
  moreover have "k \<le> length bs" using c(3) by (auto split: if_splits)
  ultimately show ?thesis using c unfolding stored_def
    by (intro exI [of _ r] exI [of _ ?s]) (auto split: if_splits)
qed

section \<open>Unmapping\<close>

text \<open>
  \<open>shrunk\<close>: the pages of \<open>ps\<close> have been freed, the table pages are the same, and only these pages were written.
\<close>

definition shrunk :: "uint64 \<Rightarrow> 'z kmem_scheme \<Rightarrow> uint64 list \<Rightarrow> uint64 list \<Rightarrow> 'z kmem_scheme \<Rightarrow> bool" where
  "shrunk pt s ps fs s' \<longleftrightarrow>
     tables_ok s' (rev ps @ fs) 2 pt \<and> tset (ent (mem s')) 2 pt = tset (ent (mem s)) 2 pt
     \<and> (\<forall>x. x \<notin> pages_of (tset (ent (mem s)) 2 pt \<union> set ps) \<longrightarrow> mem s' x = mem s x)
     \<and> s' = s\<lparr>mem := mem s', freelist := freelist s'\<rparr>"

lemma pages_of_simps [simp]:
  "pages_of {} = {}" "pages_of (insert p A) = page p \<union> pages_of A" "pages_of (A \<union> B) = pages_of A \<union> pages_of B"
  by (auto simp: pages_of_def)

lemma kmem_upd_trans:
  assumes "s1 = s\<lparr>mem := mem s1, freelist := freelist s1\<rparr>" "s2 = s1\<lparr>mem := mem s2, freelist := freelist s2\<rparr>"
  shows "s2 = s\<lparr>mem := mem s2, freelist := freelist s2\<rparr>"
  using assms by (metis (no_types, lifting) kmem.surjective kmem.update_convs(1,2))

lemma kend_upd: "s1 = s\<lparr>mem := m, freelist := f\<rparr> \<Longrightarrow> kend s1 = kend s"
  by simp

lemma shrunk_trans:
  assumes "shrunk pt s ps fs s1" "shrunk pt s1 qs (rev ps @ fs) s2"
  shows "shrunk pt s (ps @ qs) fs s2"
  using assms kmem_upd_trans [of s1 s s2] unfolding shrunk_def by auto

lemma kfree_shrunk:
  assumes ok: "tables_ok s fs 2 pt" and p: "page_ok (kend s) p" "p \<notin> set fs" "p \<notin> tset (ent (mem s)) 2 pt"
  shows "\<exists>s'. kfree p s = Ok s' \<and> shrunk pt s [p] fs s' \<and> (\<forall>va. leaf (ent (mem s')) 2 pt va = leaf (ent (mem s)) 2 pt va)
    \<and> (\<forall>va. lookup (ent (mem s')) 2 pt va = lookup (ent (mem s)) 2 pt va)"
proof -
  let ?s' = "s\<lparr>mem := write64 p (freelist s) (memset p 1 PGSIZE (mem s)), freelist := p\<rparr>"
  note ok' = ok [unfolded tables_ok_def]
  have inv: "kmem_inv ?s' (p # fs)" using kmem_inv_free ok' p by blast
  have tp: "table_page p" using free_table_page [OF inv] by simp
  have out: "mem ?s' x = mem s x" if "x \<notin> pages_of {p}" for x
  proof -
    have "x \<notin> page p" "x \<notin> range64 p 8" using that range64_mono [of 8 PGSIZE p] by (auto simp: pages_of_def)
    then show ?thesis by (simp add: write64_outside memset_outside)
  qed
  have wf: "twf (ent (mem s)) 2 pt" using ok' by blast
  note fr = tables_frame [OF wf, of "{p}" "mem ?s'"]
  have fr': "twf (ent (mem ?s')) 2 pt" "tset (ent (mem ?s')) 2 pt = tset (ent (mem s)) 2 pt"
    "leaf (ent (mem ?s')) 2 pt va = leaf (ent (mem s)) 2 pt va" "lookup (ent (mem ?s')) 2 pt va = lookup (ent (mem s)) 2 pt va" for va
    by (rule fr; use out tp p in auto)+
  have "kfree p s = Ok ?s'" using kfree_ok ok' p by blast
  moreover have "shrunk pt s [p] fs ?s'"
    using fr'(1,2) inv ok' p out by (auto simp: shrunk_def tables_ok_def)
  ultimately show ?thesis using fr' by blast
qed

lemma leaf_lookup: "lookup T l p va = Some e \<Longrightarrow> \<exists>q. leaf T l p va = Some q \<and> T q (px 0 va) = e \<and> V e"
  by (auto simp: lookup_def split: option.splits if_splits)

text \<open>One round of the loop.\<close>

lemma unmap_one:
  assumes ok: "tables_ok s fs 2 pt" and a: "unat a mod PGSIZE = 0" "a < MAXVA"
    and e: "lookup (ent (mem s)) 2 pt a = Some e" "PTE_FLAGS e \<noteq> PTE_V"
    and p: "do_free \<Longrightarrow> page_ok (kend s) (PTE2PA e) \<and> PTE2PA e \<notin> set fs \<and> PTE2PA e \<notin> tset (ent (mem s)) 2 pt"
  shows "\<exists>s'. (a < a_end \<longrightarrow> uvmunmap_loop pt a a_end do_free s = uvmunmap_loop pt (a + of_nat PGSIZE) a_end do_free s')
    \<and> shrunk pt s (if do_free then [PTE2PA e] else []) fs s'
    \<and> (\<forall>va < MAXVA. lookup (ent (mem s')) 2 pt va = (if page_in a 1 va then None else lookup (ent (mem s)) 2 pt va))"
proof -
  let ?ps = "if do_free then [PTE2PA e] else []"
  obtain q where q: "leaf (ent (mem s)) 2 pt a = Some q" "ent (mem s) q (px 0 a) = e" "V e" using leaf_lookup [OF e(1)] by blast
  let ?x = "q + 8 * of_nat (px 0 a)"
  have "table_page q" using ok leaf_in_tset [OF q(1)] twf_table_page [of "ent (mem s)" 2 pt q] by (simp add: tables_ok_def)
  then have x: "?x \<noteq> 0" by (simp add: slot_not_null)
  have w: "walk pt a False s = Ok (?x, s)" using a(2) q(1) by (simp add: walk_def walk_loop_noalloc slot_leaf)
  have rd: "read64 (mem s) ?x = e" using q(2) by (simp add: ent_def)
  have "\<exists>s1. (if do_free then kfree (PTE2PA e) s else Ok s) = Ok s1 \<and> shrunk pt s ?ps fs s1
     \<and> leaf (ent (mem s1)) 2 pt a = Some q \<and> (\<forall>va. lookup (ent (mem s1)) 2 pt va = lookup (ent (mem s)) 2 pt va)"
  proof (cases do_free)
    case True
    with kfree_shrunk [OF ok, of "PTE2PA e"] p q(1) show ?thesis by auto
  next
    case False
    with ok q(1) show ?thesis by (auto simp: shrunk_def)
  qed
  then obtain s1 where s1: "(if do_free then kfree (PTE2PA e) s else Ok s) = Ok s1" "shrunk pt s ?ps fs s1"
    "leaf (ent (mem s1)) 2 pt a = Some q" "\<And>va. lookup (ent (mem s1)) 2 pt va = lookup (ent (mem s)) 2 pt va" by blast
  let ?s' = "s1\<lparr>mem := write64 ?x 0 (mem s1)\<rparr>"
  have ok1: "tables_ok s1 (rev ?ps @ fs) 2 pt" using s1(2) by (simp add: shrunk_def)
  note st = store_leaf [OF ok1 s1(3), where e = 0]
  have "shrunk pt s1 [] (rev ?ps @ fs) ?s'"
    using st(1) st(2) unfolding grown_def shrunk_def by (simp del: set_rev)
  from shrunk_trans [OF s1(2) this] have "shrunk pt s ?ps fs ?s'" by (simp only: append_Nil2)
  moreover have "lookup (ent (mem ?s')) 2 pt va = (if page_in a 1 va then None else lookup (ent (mem s)) 2 pt va)" if "va < MAXVA" for va
    using st(3) [of va] s1(4) same_vpn_iff [OF a(2) that] PGROUNDDOWN_eq_iff [OF a(1)] by (simp add: aligned_PGROUNDDOWN [OF a(1)])
  moreover have "a < a_end \<Longrightarrow> uvmunmap_loop pt a a_end do_free s = uvmunmap_loop pt (a + of_nat PGSIZE) a_end do_free ?s'"
    using w x rd q(3) e(2) s1(1) by (subst uvmunmap_loop.simps) (cases do_free; simp)
  ultimately show ?thesis by blast
qed


text \<open>The entries of the \<open>n\<close> pages from \<open>a\<close> on.\<close>

definition entries :: "memory \<Rightarrow> uint64 \<Rightarrow> uint64 \<Rightarrow> nat \<Rightarrow> pte_t list" where
  "entries m pt a n = map (\<lambda>k. the (lookup (ent m) 2 pt (a + of_nat (PGSIZE * k)))) [0..<n]"

definition all_leaves :: "memory \<Rightarrow> uint64 \<Rightarrow> uint64 \<Rightarrow> nat \<Rightarrow> bool" where
  "all_leaves m pt a n \<longleftrightarrow> (\<forall>k < n. \<exists>e. lookup (ent m) 2 pt (a + of_nat (PGSIZE * k)) = Some e \<and> PTE_FLAGS e \<noteq> PTE_V)"

lemma entries_Suc: "entries m pt a (Suc n) = the (lookup (ent m) 2 pt a) # entries m pt (a + of_nat PGSIZE) n"
  unfolding entries_def by (simp add: upt_conv_Cons map_Suc_upt [symmetric] add.assoc del: upt_Suc)

lemma all_leaves_Suc: "all_leaves m pt a (Suc n) \<longleftrightarrow>
   (\<exists>e. lookup (ent m) 2 pt a = Some e \<and> PTE_FLAGS e \<noteq> PTE_V) \<and> all_leaves m pt (a + of_nat PGSIZE) n"
  unfolding all_leaves_def by (auto simp: less_Suc_eq_0_disj add.assoc) 

lemma entries_cong:
  assumes "unat a + PGSIZE * n \<le> 2 ^ 38" "\<And>va. va < MAXVA \<Longrightarrow> page_in a n va \<Longrightarrow> lookup (ent m') 2 pt va = lookup (ent m) 2 pt va"
  shows "entries m' pt a n = entries m pt a n" "all_leaves m' pt a n = all_leaves m pt a n"
proof -
  have "lookup (ent m') 2 pt (a + of_nat (PGSIZE * k)) = lookup (ent m) 2 pt (a + of_nat (PGSIZE * k))" if "k < n" for k
  proof -
    have "PGSIZE * k + PGSIZE \<le> PGSIZE * n" using that by (metis Suc_leI mult_Suc_right mult_le_mono2 add.commute)
    then have "unat (a + of_nat (PGSIZE * k)) = unat a + PGSIZE * k" using assms(1) by (intro unat_add_of_nat) simp
    then show ?thesis using \<open>PGSIZE * k + PGSIZE \<le> PGSIZE * n\<close> assms(1)
      by (intro assms(2)) (simp_all add: page_in_def word_less_nat_alt unat_MAXVA)
  qed
  then show "entries m' pt a n = entries m pt a n" "all_leaves m' pt a n = all_leaves m pt a n"
    by (simp_all add: entries_def all_leaves_def)
qed

text \<open>The pages to free: pages of the allocator's range, each once, neither free nor table pages.\<close>

definition freeable :: "'z kmem_scheme \<Rightarrow> uint64 list \<Rightarrow> uint64 \<Rightarrow> uint64 list \<Rightarrow> bool" where
  "freeable s fs pt ps \<longleftrightarrow> distinct ps \<and> (\<forall>p \<in> set ps. page_ok (kend s) p) \<and> set ps \<inter> (set fs \<union> tset (ent (mem s)) 2 pt) = {}"

lemma uvmunmap_loop_spec:
  "tables_ok s fs 2 pt \<Longrightarrow> unat a mod PGSIZE = 0 \<Longrightarrow> unat a + PGSIZE * n \<le> 2 ^ 38 \<Longrightarrow> all_leaves (mem s) pt a n \<Longrightarrow>
   (do_free \<Longrightarrow> freeable s fs pt (map PTE2PA (entries (mem s) pt a n))) \<Longrightarrow> ps = (if do_free then map PTE2PA (entries (mem s) pt a n) else []) \<Longrightarrow>
   \<exists>s'. uvmunmap_loop pt a (a + of_nat (PGSIZE * n)) do_free s = Ok s' \<and> shrunk pt s ps fs s'
     \<and> (\<forall>va < MAXVA. lookup (ent (mem s')) 2 pt va = (if page_in a n va then None else lookup (ent (mem s)) 2 pt va))"
proof (induction n arbitrary: a s fs ps)
  case 0
  then have "shrunk pt s ps fs s" by (simp add: shrunk_def entries_def)
  with 0 show ?case by (intro exI [of _ s]) (auto simp: uvmunmap_loop.simps page_in_def)
next
  case (Suc n)
  let ?a = "a + of_nat PGSIZE" and ?z = "a + of_nat (PGSIZE * Suc n)"
  from Suc.prems(4) obtain e where e: "lookup (ent (mem s)) 2 pt a = Some e" "PTE_FLAGS e \<noteq> PTE_V" and
    rest: "all_leaves (mem s) pt ?a n" by (auto simp: all_leaves_Suc)
  have aM: "a < MAXVA" using Suc.prems(3) by (simp add: word_less_nat_alt unat_MAXVA)
  have ua: "unat ?a = unat a + PGSIZE" using Suc.prems(3) by (intro unat_add_of_nat) simp
  have "unat ?z = unat a + PGSIZE * Suc n" using Suc.prems(3) by (intro unat_add_of_nat) simp
  then have lt: "a < ?z" by (simp add: word_less_nat_alt)
  define qs where "qs = (if do_free then map PTE2PA (entries (mem s) pt ?a n) else [])"
  have ps: "ps = (if do_free then [PTE2PA e] else []) @ qs" using Suc.prems(6) e(1) by (simp add: entries_Suc qs_def)
  have "do_free \<Longrightarrow> page_ok (kend s) (PTE2PA e) \<and> PTE2PA e \<notin> set fs \<and> PTE2PA e \<notin> tset (ent (mem s)) 2 pt"
    using Suc.prems(5) e(1) by (auto simp: freeable_def entries_Suc)
  from unmap_one [where a_end = ?z and do_free = do_free, OF Suc.prems(1,2) aM e this] lt obtain s1 where
    s1: "uvmunmap_loop pt a ?z do_free s = uvmunmap_loop pt ?a ?z do_free s1" "shrunk pt s (if do_free then [PTE2PA e] else []) fs s1"
      "\<forall>va < MAXVA. lookup (ent (mem s1)) 2 pt va = (if page_in a 1 va then None else lookup (ent (mem s)) 2 pt va)" by blast
  have apart: "\<not> (page_in a 1 va \<and> page_in ?a k va)" for k va using ua by (auto simp: page_in_def)
  have same: "lookup (ent (mem s1)) 2 pt va = lookup (ent (mem s)) 2 pt va" if "va < MAXVA" "page_in ?a n va" for va
    using s1(3) that apart [of va n] by auto
  have bound: "unat ?a + PGSIZE * n \<le> 2 ^ 38" using ua Suc.prems(3) by simp
  note cong = entries_cong [OF bound same]
  have kend: "kend s1 = kend s" using s1(2) unfolding shrunk_def by (blast intro: kend_upd)
  have "\<exists>s'. uvmunmap_loop pt ?a (?a + of_nat (PGSIZE * n)) do_free s1 = Ok s' \<and> shrunk pt s1 qs (rev (if do_free then [PTE2PA e] else []) @ fs) s'
     \<and> (\<forall>va < MAXVA. lookup (ent (mem s')) 2 pt va = (if page_in ?a n va then None else lookup (ent (mem s1)) 2 pt va))"
  proof (rule Suc.IH)
    show "tables_ok s1 (rev (if do_free then [PTE2PA e] else []) @ fs) 2 pt" using s1(2) by (simp add: shrunk_def)
    show "unat ?a mod PGSIZE = 0" using ua Suc.prems(2) by (simp only: mod_add_self2)
    show "all_leaves (mem s1) pt ?a n" using rest cong(2) by simp
    show "freeable s1 (rev (if do_free then [PTE2PA e] else []) @ fs) pt (map PTE2PA (entries (mem s1) pt ?a n))" if do_free
      using that Suc.prems(5) e(1) s1(2) kend cong(1) by (auto simp: freeable_def entries_Suc shrunk_def)
    show "qs = (if do_free then map PTE2PA (entries (mem s1) pt ?a n) else [])" using cong(1) by (simp add: qs_def)
  qed (fact bound)
  moreover have "?a + of_nat (PGSIZE * n) = ?z" by simp
  ultimately obtain s' where s': "uvmunmap_loop pt ?a ?z do_free s1 = Ok s'" "shrunk pt s1 qs (rev (if do_free then [PTE2PA e] else []) @ fs) s'"
    "\<forall>va < MAXVA. lookup (ent (mem s')) 2 pt va = (if page_in ?a n va then None else lookup (ent (mem s1)) 2 pt va)" by metis
  have "page_in a (Suc n) va \<longleftrightarrow> page_in a 1 va \<or> page_in ?a n va" for va using Suc.prems(3) by (intro page_in_Suc) simp
  with s' s1 have "\<forall>va < MAXVA. lookup (ent (mem s')) 2 pt va = (if page_in a (Suc n) va then None else lookup (ent (mem s)) 2 pt va)" by auto
  with shrunk_trans [OF s1(2) s'(2)] s'(1) s1(1) ps show ?case by auto
qed

end
