(* ===== verification/Ucopy.thy ===== *)
theory Ucopy
  imports Uvm
begin

text \<open>
  \<open>uvmcopy\<close>, with which \<open>fork\<close> gives the child a copy of the parent's memory, and a concrete address space on which
  the theorems on page tables and user memory are tried out.
\<close>

section \<open>Copying an address space\<close>

definition child_pte :: "pte_t list \<Rightarrow> uint64 list \<Rightarrow> nat \<Rightarrow> pte_t" where
  "child_pte es ps j = PA2PTE (ps ! j) OR PTE_FLAGS (es ! j) OR PTE_V"

text \<open>
  The state of \<open>uvmcopy\<close> after \<open>k\<close> pages: the pages \<open>ps\<close> have been allocated for the child, mapped below \<open>new\<close> with the
  flags of the parent's entries \<open>es\<close>, and hold what the parent's pages held. The pages of \<open>K\<close>, which the parent uses,
  are untouched.
\<close>

definition copy_inv :: "uint64 set \<Rightarrow> uint64 \<Rightarrow> pte_t list \<Rightarrow> 'z kmem_scheme \<Rightarrow> nat \<Rightarrow> uint64 list \<Rightarrow> uint64 list \<Rightarrow> 'z kmem_scheme \<Rightarrow> bool" where
  "copy_inv K new es s0 k ps fs s \<longleftrightarrow>
     tables_ok s fs 2 new \<and> length ps = k \<and> freeable s fs new ps
     \<and> K \<inter> (tset (ent (mem s)) 2 new \<union> set fs \<union> set ps) = {}
     \<and> (\<forall>x \<in> pages_of K. mem s x = mem s0 x)
     \<and> (\<forall>va < MAXVA. lookup (ent (mem s)) 2 new va =
          (if page_in 0 k va then Some (child_pte es ps (unat va div PGSIZE)) else lookup (ent (mem s0)) 2 new va))
     \<and> (\<forall>j < k. read_bytes (mem s) (ps ! j) PGSIZE = read_bytes (mem s0) (PTE2PA (es ! j)) PGSIZE)
     \<and> s = s0\<lparr>mem := mem s, freelist := freelist s\<rparr>"

lemma keep_apart: "K \<inter> (T \<union> F \<union> P) = {} \<Longrightarrow> F' \<subseteq> F \<union> A \<Longrightarrow> A \<inter> (T \<union> K \<union> P) = {} \<Longrightarrow> K \<inter> (T \<union> F' \<union> P) = {}"
  by auto

lemma read_page_unchanged:
  assumes "\<And>x. x \<notin> pages_of A \<Longrightarrow> m' x = m x" "\<And>r. r \<in> A \<Longrightarrow> table_page r" "table_page p" "p \<notin> A"
  shows "read_bytes m' p PGSIZE = read_bytes m p PGSIZE"
  using assms page_apart [of p A] by (intro read_bytes_cong) auto

lemma page_ok_table_page: "kmem_inv s fs \<Longrightarrow> page_ok (kend s) p \<Longrightarrow> table_page p"
  by (auto simp: kmem_inv_def page_ok_def table_page_def)

lemma pages_of_apart:
  assumes "\<And>r. r \<in> A \<Longrightarrow> table_page r" "\<And>r. r \<in> B \<Longrightarrow> table_page r" "A \<inter> B = {}" "x \<in> pages_of A"
  shows "x \<notin> pages_of B"
proof -
  from assms(4) obtain q where "q \<in> A" "x \<in> page q" by (auto simp: pages_of_def)
  then show ?thesis using assms page_apart [of q B x] by auto
qed

text \<open>Stores into pages that are neither the parent's, nor the child's, nor tables, are allowed.\<close>

lemma copy_frame:
  assumes inv: "copy_inv K new es s0 k ps fs s" and K: "\<And>r. r \<in> K \<Longrightarrow> table_page r"
    and s': "s' = s\<lparr>mem := mem s', freelist := freelist s'\<rparr>" and fs': "kmem_inv s' fs'" "set fs' \<subseteq> set fs \<union> A"
    and A: "\<And>x. x \<notin> pages_of A \<Longrightarrow> mem s' x = mem s x" "\<And>r. r \<in> A \<Longrightarrow> table_page r"
      "A \<inter> (tset (ent (mem s)) 2 new \<union> K \<union> set ps) = {}"
  shows "copy_inv K new es s0 k ps fs' s'"
proof -
  note i = inv [unfolded copy_inv_def]
  have wf: "twf (ent (mem s)) 2 new" using i by (simp add: tables_ok_def)
  have At: "A \<inter> tset (ent (mem s)) 2 new = {}" using A(3) by blast
  note tf = tables_frame [where A = A and m' = "mem s'", OF wf A(1,2) At]
  have fr: "twf (ent (mem s')) 2 new" "tset (ent (mem s')) 2 new = tset (ent (mem s)) 2 new"
    "\<And>va. lookup (ent (mem s')) 2 new va = lookup (ent (mem s)) 2 new va"
    by (rule tf(1), assumption+, rule tf(2), assumption+, rule tf(4), assumption+)
  have ready: "kmem_ready s'" using i by (subst s') (simp add: tables_ok_def)
  have kend: "kend s' = kend s" by (rule kend_upd [OF s'])
  have tp: "table_page p" if "p \<in> set ps" for p
    using i that page_ok_table_page [of s fs p] by (auto simp: freeable_def tables_ok_def)
  have "tset (ent (mem s')) 2 new \<inter> set fs' = {}" using fs'(2) i At by (auto simp: fr(2) tables_ok_def)
  then have "tables_ok s' fs' 2 new" using ready fs'(1) fr(1) by (simp add: tables_ok_def)
  moreover have "freeable s' fs' new ps" using i fs'(2) A(3) by (auto simp: freeable_def fr(2) kend)
  moreover have "K \<inter> (tset (ent (mem s)) 2 new \<union> set fs \<union> set ps) = {}" using i by (elim conjE)
  with fs'(2) A(3) have "K \<inter> (tset (ent (mem s')) 2 new \<union> set fs' \<union> set ps) = {}" by (simp only: fr(2)) (rule keep_apart)
  moreover have "mem s' x = mem s0 x" if "x \<in> pages_of K" for x
  proof -
    have "K \<inter> A = {}" using A(3) by auto
    then have "x \<notin> pages_of A" using pages_of_apart [of K A x] K A(2) that by blast
    then show ?thesis using i A(1) that by simp
  qed
  moreover have "read_bytes (mem s') (ps ! j) PGSIZE = read_bytes (mem s) (ps ! j) PGSIZE" if "j < k" for j
    by (rule read_page_unchanged [OF A(1,2)]) (use i A(3) tp nth_mem [of j ps] that in auto)
  moreover have "s' = s0\<lparr>mem := mem s', freelist := freelist s'\<rparr>" using i s' by (intro kmem_upd_trans [of s s0 s']) auto
  ultimately show ?thesis using i unfolding copy_inv_def fr(3) by simp
qed

text \<open>Allocating a page for the child and filling it from the parent's page.\<close>

lemma copy_alloc:
  assumes inv: "copy_inv K new es s0 k ps (pg # fs) s" and K: "\<And>r. r \<in> K \<Longrightarrow> table_page r"
    and src: "PTE2PA e \<in> K" "page_ok (kend s0) (PTE2PA e)"
  shows "\<exists>s1 s2. kalloc s = Ok (pg, s1) \<and> pg \<noteq> 0 \<and> s2 = s1\<lparr>mem := memmove pg (PTE2PA e) PGSIZE (mem s1)\<rparr>
    \<and> copy_inv K new es s0 k ps fs s2 \<and> freeable s2 fs new (ps @ [pg]) \<and> pg \<notin> K
    \<and> read_bytes (mem s2) pg PGSIZE = read_bytes (mem s0) (PTE2PA e) PGSIZE"
proof -
  note i = inv [unfolded copy_inv_def]
  let ?s1 = "s\<lparr>mem := memset pg 5 PGSIZE (mem s), freelist := read64 (mem s) pg\<rparr>"
  let ?src = "PTE2PA e"
  have kinv: "kmem_inv s (pg # fs)" using i by (simp add: tables_ok_def)
  note al = kmem_inv_alloc [OF kinv]
  have ka: "kalloc s = Ok (pg, ?s1)" "pg \<noteq> 0" using i al by (simp_all add: kalloc_nonempty tables_ok_def)
  have tp: "table_page pg" and pgk: "page_ok (kend s) pg" "pg \<notin> set fs" using kinv free_table_page [OF kinv] by (auto simp: kmem_inv_def)
  have off: "{pg} \<inter> (tset (ent (mem s)) 2 new \<union> K \<union> set ps) = {}"
    using i by (auto simp: tables_ok_def freeable_def)
  have out1: "mem ?s1 x = mem s x" if "x \<notin> pages_of {pg}" for x using that by (simp add: memset_outside)
  have inv1: "copy_inv K new es s0 k ps fs ?s1"
    by (rule copy_frame [OF inv K, where A = "{pg}"]) (use al(3) out1 tp off in auto)
  note i1 = inv1 [unfolded copy_inv_def]
  have low: "unat p + PGSIZE < 2 ^ 64" if "page_ok b p" for p b
    using that by (simp add: page_ok_def word_less_nat_alt PHYSTOP_def KERNBASE_def)
  let ?m1 = "memset pg 5 PGSIZE (mem s)"
  have mv: "memmove pg ?src PGSIZE ?m1 = write_bytes pg (read_bytes ?m1 ?src PGSIZE) ?m1"
    using memmove_eq [OF low low] src(2) pgk(1) by blast
  let ?s2 = "?s1\<lparr>mem := memmove pg ?src PGSIZE (mem ?s1)\<rparr>"
  have out2: "mem ?s2 x = mem ?s1 x" if "x \<notin> pages_of {pg}" for x using that by (simp add: mv write_bytes_outside)
  have kinv2: "kmem_inv ?s2 fs"
  proof (rule kmem_inv_mem [OF al(3)])
    fix q assume q: "q \<in> set fs"
    show "ent (memmove pg ?src PGSIZE (mem ?s1)) q 0 = ent (mem ?s1) q 0"
      using ent_unchanged [of "{pg}" "mem ?s2" "mem ?s1" q 0, OF out2] tp free_table_page [OF kinv, of q] q pgk(2) by auto
  qed
  have inv2: "copy_inv K new es s0 k ps fs ?s2"
  proof (rule copy_frame [OF inv1 K, where A = "{pg}"])
    show "kmem_inv ?s2 fs" by (rule kinv2)
    have "tset (ent (mem ?s1)) 2 new = tset (ent (mem s)) 2 new"
      by (rule tables_frame(2) [where A = "{pg}"]) (use i out1 tp off in \<open>auto simp: tables_ok_def\<close>)
    then show "{pg} \<inter> (tset (ent (mem ?s1)) 2 new \<union> K \<union> set ps) = {}" using off by simp
  qed (use out2 tp in auto)
  have "tset (ent (mem ?s2)) 2 new = tset (ent (mem s)) 2 new"
    by (rule tables_frame(2) [where A = "{pg}"]) (use i out1 out2 tp off in \<open>auto simp: tables_ok_def\<close>)
  moreover have "freeable ?s2 fs new ps" using inv2 unfolding copy_inv_def by (elim conjE)
  ultimately have "freeable ?s2 fs new (ps @ [pg])" using pgk off by (auto simp: freeable_def)
  moreover have "read_bytes (mem ?s2) pg PGSIZE = read_bytes (mem s0) ?src PGSIZE"
  proof -
    have "read_bytes (mem ?s2) pg PGSIZE = read_bytes (mem ?s1) ?src PGSIZE" by (simp add: mv read_write_bytes_same)
    also have "\<dots> = read_bytes (mem s0) ?src PGSIZE"
      using i1 src(1) by (intro read_bytes_cong) (auto simp: pages_of_def)
    finally show ?thesis .
  qed
  ultimately show ?thesis using ka inv2 off by blast
qed


text \<open>New tables come off the free list, so they touch neither the parent nor the pages already copied.\<close>

lemma copy_grown:
  assumes inv: "copy_inv K new es s0 k ps (used @ fs) s" and K: "\<And>r. r \<in> K \<Longrightarrow> table_page r"
    and g: "grown new s used fs s'" and qs: "freeable s (used @ fs) new qs" "K \<inter> set qs = {}"
  shows "tables_ok s' fs 2 new" "freeable s' fs new qs" "K \<inter> (tset (ent (mem s')) 2 new \<union> set fs \<union> set qs) = {}"
    "\<forall>x \<in> pages_of K. mem s' x = mem s0 x" "\<forall>q \<in> set qs. read_bytes (mem s') q PGSIZE = read_bytes (mem s) q PGSIZE"
    "s' = s0\<lparr>mem := mem s', freelist := freelist s'\<rparr>"
proof -
  note i = inv [unfolded copy_inv_def]
  let ?A = "tset (ent (mem s)) 2 new \<union> set used"
  have ok: "tables_ok s (used @ fs) 2 new" and Kd: "K \<inter> (tset (ent (mem s)) 2 new \<union> set (used @ fs) \<union> set ps) = {}"
    and Km: "\<forall>x \<in> pages_of K. mem s x = mem s0 x" and upd: "s = s0\<lparr>mem := mem s, freelist := freelist s\<rparr>"
    using i by blast+
  have ok': "tables_ok s' fs 2 new" and ts: "tset (ent (mem s')) 2 new \<subseteq> ?A"
    and out: "\<forall>x. x \<notin> pages_of ?A \<longrightarrow> mem s' x = mem s x" and upd': "s' = s\<lparr>mem := mem s', freelist := freelist s'\<rparr>"
    using g unfolding grown_def by blast+
  show "tables_ok s' fs 2 new" by (rule ok')
  have kinv: "kmem_inv s (used @ fs)" and wf: "twf (ent (mem s)) 2 new" using ok by (auto simp: tables_ok_def)
  have A: "table_page r" if "r \<in> ?A" for r using that twf_table_page [OF wf] free_table_page [OF kinv] by auto
  have "set used \<inter> set fs = {}" using kinv by (auto simp: kmem_inv_def)
  then show fr: "freeable s' fs new qs" using qs(1) ts kend_upd [OF upd'] by (auto simp: freeable_def)
  show "K \<inter> (tset (ent (mem s')) 2 new \<union> set fs \<union> set qs) = {}" using Kd ts qs(2) by auto
  show "\<forall>x \<in> pages_of K. mem s' x = mem s0 x"
  proof
    fix x assume x: "x \<in> pages_of K"
    have "K \<inter> ?A = {}" using Kd by auto
    then have "x \<notin> pages_of ?A" using pages_of_apart [of K ?A x] K A x by blast
    then show "mem s' x = mem s0 x" using out Km x by simp
  qed
  show "\<forall>q \<in> set qs. read_bytes (mem s') q PGSIZE = read_bytes (mem s) q PGSIZE"
  proof
    fix q assume q: "q \<in> set qs"
    then have "q \<notin> ?A" "table_page q" using qs(1) page_ok_table_page [OF kinv] by (auto simp: freeable_def)
    then show "read_bytes (mem s') q PGSIZE = read_bytes (mem s) q PGSIZE"
      using out A by (intro read_page_unchanged [of ?A]) auto
  qed
  show "s' = s0\<lparr>mem := mem s', freelist := freelist s'\<rparr>" by (rule kmem_upd_trans [OF upd upd'])
qed

lemma page_index: "unat a = PGSIZE * k \<Longrightarrow> page_in a 1 va \<longleftrightarrow> unat va div PGSIZE = k"
  unfolding page_in_def using div_mult_mod_eq [of "unat va" PGSIZE] mod_less_divisor [of PGSIZE "unat va"] by (intro iffI) linarith+

lemma page_in_0: "page_in 0 k va \<longleftrightarrow> unat va div PGSIZE < k"
  by (simp add: page_in_def div_less_iff_less_mult mult.commute)

lemma copy_map:
  assumes inv: "copy_inv K new es s0 k ps fs s" and K: "\<And>r. r \<in> K \<Longrightarrow> table_page r"
    and pg: "freeable s fs new (ps @ [pg])" "pg \<notin> K" "read_bytes (mem s) pg PGSIZE = read_bytes (mem s0) (PTE2PA (es ! k)) PGSIZE"
    and a: "unat a = PGSIZE * k" "PGSIZE * Suc k \<le> 2 ^ 38"
    and free: "\<And>va. va < MAXVA \<Longrightarrow> page_in a 1 va \<Longrightarrow> lookup (ent (mem s0)) 2 new va = None"
  shows "\<exists>r s' fs'. mappages new a (of_nat PGSIZE) pg (PTE_FLAGS (es ! k)) s = Ok (r, s') \<and> freeable s' fs' new (ps @ [pg])
    \<and> (if r = 0 then copy_inv K new es s0 (Suc k) (ps @ [pg]) fs' s' else r = -1 \<and> copy_inv K new es s0 k ps fs' s')"
proof -
  note i = inv [unfolded copy_inv_def]
  let ?f = "PTE_FLAGS (es ! k)"
  have len: "length ps = k" and lk: "\<forall>va < MAXVA. lookup (ent (mem s)) 2 new va =
      (if page_in 0 k va then Some (child_pte es ps (unat va div PGSIZE)) else lookup (ent (mem s0)) 2 new va)"
    and rd: "\<forall>j < k. read_bytes (mem s) (ps ! j) PGSIZE = read_bytes (mem s0) (PTE2PA (es ! j)) PGSIZE"
    and ok: "tables_ok s fs 2 new" and Kd: "K \<inter> (tset (ent (mem s)) 2 new \<union> set fs \<union> set ps) = {}"
    using i by blast+
  have al: "unat a mod PGSIZE = 0" by (simp add: a(1))
  have "mapped_pages new a pg ?f (Suc 0) s fs (mappages_loop new a (a + of_nat (PGSIZE * 0)) pg ?f s)"
  proof (rule mappages_loop_spec [OF ok al])
    show "lookup (ent (mem s)) 2 new va = None" if "va < MAXVA" "page_in a (Suc 0) va" for va
      using lk free that page_index [OF a(1), of va] by (simp add: page_in_0)
  qed (use a in auto)
  moreover have "mappages new a (of_nat PGSIZE) pg ?f s = mappages_loop new a a pg ?f s" using al by (simp add: mappages_def)
  ultimately obtain r s' used fs' k' where m: "mappages new a (of_nat PGSIZE) pg ?f s = Ok (r, s')" "fs = used @ fs'" "grown new s used fs' s'"
      "if r = 0 then k' = Suc 0 else r = -1 \<and> k' < Suc 0 \<and> fs' = []"
      "\<forall>va < MAXVA. lookup (ent (mem s')) 2 new va = (if page_in a k' va then Some (new_pte a pg ?f va) else lookup (ent (mem s)) 2 new va)"
    by (simp add: mapped_pages_def) blast
  note g = copy_grown [OF inv [unfolded m(2)] K m(3)]
  have qs: "freeable s (used @ fs') new (ps @ [pg])" "K \<inter> set (ps @ [pg]) = {}" using pg(1,2) m(2) Kd by auto
  have ps: "freeable s (used @ fs') new ps" "K \<inter> set ps = {}" using qs by (auto simp: freeable_def)
  note gq = g [OF _ qs] and gp = g [OF _ ps]
  have fr: "freeable s' fs' new (ps @ [pg])" by (rule gq(2))
  show ?thesis
  proof (cases "r = 0")
    case True
    have "copy_inv K new es s0 (Suc k) (ps @ [pg]) fs' s'"
      unfolding copy_inv_def
    proof (intro conjI)
      show "\<forall>va < MAXVA. lookup (ent (mem s')) 2 new va =
          (if page_in 0 (Suc k) va then Some (child_pte es (ps @ [pg]) (unat va div PGSIZE)) else lookup (ent (mem s0)) 2 new va)"
      proof (intro allI impI)
        fix va assume va: "va < MAXVA"
        show "lookup (ent (mem s')) 2 new va =
          (if page_in 0 (Suc k) va then Some (child_pte es (ps @ [pg]) (unat va div PGSIZE)) else lookup (ent (mem s0)) 2 new va)"
          using m(4,5) va True lk page_index [OF a(1), of va] new_pte_first [OF al, of va pg ?f] len
          by (auto simp: page_in_0 child_pte_def nth_append)
      qed
      show "\<forall>j < Suc k. read_bytes (mem s') ((ps @ [pg]) ! j) PGSIZE = read_bytes (mem s0) (PTE2PA (es ! j)) PGSIZE"
        using gq(5) rd pg(3) len by (auto simp: nth_append less_Suc_eq)
    qed (use gq len in auto)
    with m(1) fr True show ?thesis by auto
  next
    case False
    have "copy_inv K new es s0 k ps fs' s'"
      unfolding copy_inv_def
    proof (intro conjI)
      show "\<forall>va < MAXVA. lookup (ent (mem s')) 2 new va =
          (if page_in 0 k va then Some (child_pte es ps (unat va div PGSIZE)) else lookup (ent (mem s0)) 2 new va)"
        using m(4,5) lk False by (auto simp: page_in_def)
      show "\<forall>j < k. read_bytes (mem s') (ps ! j) PGSIZE = read_bytes (mem s0) (PTE2PA (es ! j)) PGSIZE"
        using gp(5) rd len by auto
    qed (use gp len in auto)
    with m(1,4) fr False show ?thesis by auto
  qed
qed


text \<open>
  What \<open>uvmcopy\<close> expects: the parent's \<open>n\<close> pages are mapped by leaf entries, its pages and tables (all in \<open>K\<close>) are none of
  the free pages and none of the child's tables, and the child has nothing mapped there yet.
\<close>

definition copy_pre :: "uint64 set \<Rightarrow> uint64 \<Rightarrow> uint64 \<Rightarrow> pte_t list \<Rightarrow> 'z kmem_scheme \<Rightarrow> uint64 list \<Rightarrow> bool" where
  "copy_pre K old new es s fs \<longleftrightarrow>
     tables_ok s fs 2 new \<and> twf (ent (mem s)) 2 old \<and> tset (ent (mem s)) 2 old \<subseteq> K
     \<and> (\<forall>r \<in> K. table_page r) \<and> K \<inter> (tset (ent (mem s)) 2 new \<union> set fs) = {} \<and> PGSIZE * length es \<le> 2 ^ 38
     \<and> (\<forall>j < length es. lookup (ent (mem s)) 2 old (of_nat (PGSIZE * j)) = Some (es ! j) \<and> PTE_FLAGS (es ! j) \<noteq> PTE_V
          \<and> PTE2PA (es ! j) \<in> K \<and> page_ok (kend s) (PTE2PA (es ! j)))
     \<and> (\<forall>va < MAXVA. page_in 0 (length es) va \<longrightarrow> lookup (ent (mem s)) 2 new va = None)"

lemma copy_preD:
  assumes "copy_pre K old new es s fs"
  shows "tables_ok s fs 2 new" "twf (ent (mem s)) 2 old" "tset (ent (mem s)) 2 old \<subseteq> K" "r \<in> K \<Longrightarrow> table_page r"
    "K \<inter> (tset (ent (mem s)) 2 new \<union> set fs) = {}" "PGSIZE * length es \<le> 2 ^ 38"
    "j < length es \<Longrightarrow> lookup (ent (mem s)) 2 old (of_nat (PGSIZE * j)) = Some (es ! j)" "j < length es \<Longrightarrow> PTE_FLAGS (es ! j) \<noteq> PTE_V"
    "j < length es \<Longrightarrow> PTE2PA (es ! j) \<in> K" "j < length es \<Longrightarrow> page_ok (kend s) (PTE2PA (es ! j))"
    "va < MAXVA \<Longrightarrow> page_in 0 (length es) va \<Longrightarrow> lookup (ent (mem s)) 2 new va = None"
  using assms unfolding copy_pre_def by blast+

lemma copy_inv_start: "copy_pre K old new es s fs \<Longrightarrow> copy_inv K new es s 0 [] fs s"
  using copy_preD(1,5) [of K old new es s fs] by (simp add: copy_inv_def freeable_def page_in_0)

lemma parent_ent:
  assumes "copy_pre K old new es s0 fs0" "copy_inv K new es s0 k ps fs s"
    and "q \<in> tset (ent (mem s0)) 2 old" "i < 512"
  shows "ent (mem s) q i = ent (mem s0) q i"
proof -
  from assms(3) have "page q \<subseteq> pages_of K" using copy_preD(3) [OF assms(1)] by (auto simp: pages_of_def)
  then show ?thesis using assms(2,4) unfolding copy_inv_def by (intro ent_cong) auto
qed

lemma parent_lookup:
  assumes "copy_pre K old new es s0 fs0" "copy_inv K new es s0 k ps fs s"
  shows "lookup (ent (mem s)) 2 old va = lookup (ent (mem s0)) 2 old va"
  by (rule lookup_frame) (rule parent_ent [OF assms])

lemma parent_leaf:
  assumes "copy_pre K old new es s0 fs0" "copy_inv K new es s0 k ps fs s"
  shows "leaf (ent (mem s)) 2 old va = leaf (ent (mem s0)) 2 old va"
  by (rule leaf_frame) (rule parent_ent [OF assms])

lemma PTE_FLAGS_mask [simp]: "PTE_FLAGS e AND 0x3FF = PTE_FLAGS e"
  by (simp add: PTE_FLAGS_def and.assoc)

lemma PTE_V_mask [simp]: "PTE_V AND 0x3FF = PTE_V"
  by (simp add: PTE_V_def)

lemma flags_V: "V e \<Longrightarrow> PTE_FLAGS e OR PTE_V = PTE_FLAGS e"
proof -
  assume "V e"
  then have "bit e 0" by (simp add: PTE_V_def and_one_eq odd_iff_mod_2_eq_one bit_0)
  moreover have V: "(PTE_V :: uint64) = mask 1" "(0x3FF :: uint64) = mask 10" by (simp_all add: PTE_V_def mask_eq_exp_minus_1)
  ultimately show ?thesis unfolding PTE_FLAGS_def V by (intro bit_word_eqI) (auto simp: bit_simps)
qed

lemma copy_entries:
  assumes pre: "copy_pre K old new es s0 fs0" and inv: "copy_inv K new es s0 k ps fs s" and k: "k \<le> length es"
  shows "all_leaves (mem s) new 0 k" "map PTE2PA (entries (mem s) new 0 k) = ps" "PGSIZE * k \<le> 2 ^ 38"
proof -
  have len: "length ps = k" and fr: "freeable s fs new ps" and lk: "\<forall>va < MAXVA. lookup (ent (mem s)) 2 new va =
      (if page_in 0 k va then Some (child_pte es ps (unat va div PGSIZE)) else lookup (ent (mem s0)) 2 new va)"
    using inv unfolding copy_inv_def by blast+
  show bound: "PGSIZE * k \<le> 2 ^ 38" using copy_preD(6) [OF pre] k by (meson le_trans mult_le_mono2)
  have child: "lookup (ent (mem s)) 2 new (0 + of_nat (PGSIZE * j)) = Some (child_pte es ps j)" if "j < k" for j
  proof -
    have "PGSIZE * j < 2 ^ 38" using that bound by (meson less_le_trans mult_less_mono2 zero_less_numeral)
    moreover from this have "unat (of_nat (PGSIZE * j) :: uint64) = PGSIZE * j" by (intro unat_of_nat64) simp
    ultimately show ?thesis using lk that by (simp add: word_less_nat_alt unat_MAXVA page_in_0)
  qed
  have pte: "PTE2PA (child_pte es ps j) = ps ! j" "PTE_FLAGS (child_pte es ps j) \<noteq> PTE_V" if "j < k" for j
  proof -
    have "page_ok (kend s) (ps ! j)" using fr len that by (auto simp: freeable_def)
    then have al: "unat (ps ! j) mod PGSIZE = 0" by (simp add: page_ok_def)
    have m: "(PTE_FLAGS (es ! j) OR PTE_V) AND 0x3FF = PTE_FLAGS (es ! j) OR PTE_V" by (simp add: bit.conj_disj_distrib2)
    have "V (es ! j)" using copy_preD(7) [OF pre, of j] that k leaf_lookup by (metis le_trans less_le_trans)
    then show "PTE_FLAGS (child_pte es ps j) \<noteq> PTE_V"
      using PTE_FLAGS_PA2PTE [OF m] copy_preD(8) [OF pre, of j] that k by (simp add: child_pte_def flags_V)
    show "PTE2PA (child_pte es ps j) = ps ! j" unfolding child_pte_def by (rule PTE2PA_PA2PTE [OF al m])
  qed
  show "all_leaves (mem s) new 0 k" unfolding all_leaves_def using child pte(2) by blast
  show "map PTE2PA (entries (mem s) new 0 k) = ps"
  proof (rule nth_equalityI)
    fix j assume "j < length (map PTE2PA (entries (mem s) new 0 k))"
    then have j: "j < k" by (simp add: entries_def)
    then have "entries (mem s) new 0 k ! j = child_pte es ps j" unfolding entries_def using child [OF j] by simp
    then show "map PTE2PA (entries (mem s) new 0 k) ! j = ps ! j" using pte(1) [OF j] j by (simp add: entries_def)
  qed (simp add: entries_def len)
qed

text \<open>Running out of memory: the pages copied so far are unmapped and freed.\<close>

lemma copy_undo:
  assumes pre: "copy_pre K old new es s0 fs0" and inv: "copy_inv K new es s0 k ps fs s" and k: "k \<le> length es"
    and a: "unat a = PGSIZE * k"
  shows "\<exists>s' fs'. uvmunmap new 0 (a div of_nat PGSIZE) True s = Ok s' \<and> copy_inv K new es s0 0 [] fs' s'"
proof -
  note i = inv [unfolded copy_inv_def] and ce = copy_entries [OF pre inv k]
  have lk: "\<forall>va < MAXVA. lookup (ent (mem s)) 2 new va =
      (if page_in 0 k va then Some (child_pte es ps (unat va div PGSIZE)) else lookup (ent (mem s0)) 2 new va)"
    and ok: "tables_ok s fs 2 new" and fr: "freeable s fs new ps" and Kd: "K \<inter> (tset (ent (mem s)) 2 new \<union> set fs \<union> set ps) = {}"
    and Km: "\<forall>x \<in> pages_of K. mem s x = mem s0 x" and upd: "s = s0\<lparr>mem := mem s, freelist := freelist s\<rparr>"
    using i by blast+
  have "\<exists>s'. uvmunmap_loop new 0 (0 + of_nat (PGSIZE * k)) True s = Ok s' \<and> shrunk new s ps fs s'
     \<and> (\<forall>va < MAXVA. lookup (ent (mem s')) 2 new va = (if page_in 0 k va then None else lookup (ent (mem s)) 2 new va))"
    by (rule uvmunmap_loop_spec [OF ok _ _ ce(1)]) (use ce(2,3) fr in auto)
  then obtain s' where s': "uvmunmap_loop new 0 (of_nat (PGSIZE * k)) True s = Ok s'" "shrunk new s ps fs s'"
     "\<forall>va < MAXVA. lookup (ent (mem s')) 2 new va = (if page_in 0 k va then None else lookup (ent (mem s)) 2 new va)"
    by (auto simp del: of_nat_mult)
  have "a div of_nat PGSIZE * of_nat PGSIZE = of_nat (PGSIZE * k)"
  proof -
    have "unat (a div of_nat PGSIZE) = k" by (simp add: unat_div a)
    then have "a div of_nat PGSIZE = of_nat k" by (metis of_nat_unat ucast_id)
    then show ?thesis by simp
  qed
  then have "uvmunmap new 0 (a div of_nat PGSIZE) True s = Ok s'" using s'(1) by (simp add: uvmunmap_def del: of_nat_mult)
  moreover have "copy_inv K new es s0 0 [] (rev ps @ fs) s'"
  proof -
    let ?A = "tset (ent (mem s)) 2 new \<union> set ps"
    have sh: "tables_ok s' (rev ps @ fs) 2 new" "tset (ent (mem s')) 2 new = tset (ent (mem s)) 2 new"
      "\<forall>x. x \<notin> pages_of ?A \<longrightarrow> mem s' x = mem s x" "s' = s\<lparr>mem := mem s', freelist := freelist s'\<rparr>"
      using s'(2) unfolding shrunk_def by blast+
    have A: "table_page r" if "r \<in> ?A" for r
      using that ok fr twf_table_page [of "ent (mem s)" 2 new r] page_ok_table_page [of s fs r] by (auto simp: tables_ok_def freeable_def)
    have "mem s' x = mem s0 x" if "x \<in> pages_of K" for x
    proof -
      have "K \<inter> ?A = {}" using Kd by auto
      then have "x \<notin> pages_of ?A" using pages_of_apart [of K ?A x] copy_preD(4) [OF pre] A that by blast
      then show ?thesis using sh(3) Km that by simp
    qed
    moreover have "lookup (ent (mem s')) 2 new va = lookup (ent (mem s0)) 2 new va" if "va < MAXVA" for va
    proof (cases "page_in 0 k va")
      case True
      then have "page_in 0 (length es) va" using k by (simp add: page_in_0)
      with True show ?thesis using s'(3) that copy_preD(11) [OF pre that] by simp
    next
      case False
      with s'(3) lk that show ?thesis by simp
    qed
    moreover have "K \<inter> (tset (ent (mem s')) 2 new \<union> set (rev ps @ fs)) = {}" using Kd unfolding sh(2) by auto
    ultimately show ?thesis using sh(1) kmem_upd_trans [OF upd sh(4)] by (simp add: copy_inv_def freeable_def page_in_0)
  qed
  ultimately show ?thesis by blast
qed


section \<open>The loop of \<open>uvmcopy\<close>\<close>

lemma copy_unalloc:
  assumes inv: "copy_inv K new es s0 k ps fs s" and K: "\<And>r. r \<in> K \<Longrightarrow> table_page r"
    and pg: "freeable s fs new (ps @ [pg])" "pg \<notin> K"
  shows "\<exists>t. kfree pg s = Ok t \<and> copy_inv K new es s0 k ps (pg # fs) t"
proof -
  have ok: "tables_ok s fs 2 new" using inv unfolding copy_inv_def by blast
  have p: "page_ok (kend s) pg" "pg \<notin> set fs" "pg \<notin> tset (ent (mem s)) 2 new" "pg \<notin> set ps" using pg(1) by (auto simp: freeable_def)
  from kfree_shrunk [OF ok p(1-3)] obtain t where t: "kfree pg s = Ok t" "shrunk new s [pg] fs t" by blast
  let ?s' = "s\<lparr>mem := write64 pg (freelist s) (memset pg 1 PGSIZE (mem s)), freelist := pg\<rparr>"
  have "kfree pg s = Ok ?s'" using kfree_ok ok p(1) by (auto simp: tables_ok_def)
  with t(1) have ts: "t = ?s'" by simp
  have tp: "table_page pg" using ok p(1) page_ok_table_page [of s fs pg] by (auto simp: tables_ok_def)
  have "copy_inv K new es s0 k ps (pg # fs) t"
  proof (rule copy_frame [OF inv K, where A = "{pg}"])
    show "kmem_inv t (pg # fs)" using t(2) by (simp add: shrunk_def tables_ok_def)
    show "mem t x = mem s x" if "x \<notin> pages_of {pg}" for x
      using that range64_mono [of 8 PGSIZE pg] by (auto simp: ts intro!: trans [OF write64_outside] memset_outside)
  qed (use ts tp p pg(2) in auto)
  with t(1) show ?thesis by blast
qed

lemma copy_page:
  assumes pre: "copy_pre K old new es s0 fs0" and inv: "copy_inv K new es s0 k ps fs s" and k: "k < length es"
    and a: "a = of_nat (PGSIZE * k)" "a < sz"
  shows "(\<exists>pg s' fs'. uvmcopy_loop old new a sz s = uvmcopy_loop old new (a + of_nat PGSIZE) sz s' \<and> copy_inv K new es s0 (Suc k) (ps @ [pg]) fs' s')
    \<or> (\<exists>s' fs'. uvmcopy_loop old new a sz s = Ok (-1, s') \<and> copy_inv K new es s0 0 [] fs' s')"
proof -
  note D = copy_preD [OF pre]
  have K: "table_page r" if "r \<in> K" for r using D(4) that .
  have bound: "PGSIZE * Suc k \<le> 2 ^ 38" using D(6) k by (meson Suc_leI le_trans mult_le_mono2)
  have ua: "unat a = PGSIZE * k" unfolding a(1) using bound by (intro unat_of_nat64) simp
  have aM: "a < MAXVA" using ua bound by (simp add: word_less_nat_alt unat_MAXVA)
  let ?e = "es ! k" and ?err = "\<lambda>s. andthen (uvmunmap new 0 (a div of_nat PGSIZE) True s) (\<lambda>s1. Ok (-1 :: int, s1))"
  have undo: "\<exists>s' fs'. ?err t = Ok (-1, s') \<and> copy_inv K new es s0 0 [] fs' s'" if "copy_inv K new es s0 k ps f t" for f t
    using copy_undo [OF pre that _ ua] k by auto
  have "lookup (ent (mem s)) 2 old a = Some ?e" using parent_lookup [OF pre inv] D(7) [OF k] a(1) by simp
  then obtain q where q: "leaf (ent (mem s)) 2 old a = Some q" "ent (mem s) q (px 0 a) = ?e" "V ?e" using leaf_lookup by blast
  let ?x = "q + 8 * of_nat (px 0 a)"
  have w: "walk old a False s = Ok (?x, s)" using aM q(1) by (simp add: walk_def walk_loop_noalloc slot_leaf)
  have rd: "read64 (mem s) ?x = ?e" using q(2) by (simp add: ent_def)
  have tq: "table_page q"
  proof -
    have "leaf (ent (mem s)) 2 old a = leaf (ent (mem s0)) 2 old a" by (rule parent_leaf [OF pre inv])
    then have "q \<in> tset (ent (mem s0)) 2 old" using q(1) leaf_in_tset by metis
    then show ?thesis using D(3) K by blast
  qed
  have loop: "uvmcopy_loop old new a sz s = andthen (kalloc s) (\<lambda>(pg, s2).
      if pg = 0 then ?err s2
      else let s3 = s2\<lparr>mem := memmove pg (PTE2PA ?e) PGSIZE (mem s2)\<rparr> in
        andthen (mappages new a (of_nat PGSIZE) pg (PTE_FLAGS ?e) s3) (\<lambda>(r, s4).
        if r \<noteq> 0 then andthen (kfree pg s4) ?err else uvmcopy_loop old new (a + of_nat PGSIZE) sz s4))"
    using a(2) w rd q(3) slot_not_null [OF tq px_less] by (subst uvmcopy_loop.simps) (simp add: Let_def cong: if_cong)
  show ?thesis
  proof (cases fs)
    case Nil
    then have "kalloc s = Ok (0, s)" using inv by (simp add: kalloc_empty kmem_inv_def copy_inv_def tables_ok_def)
    then show ?thesis using undo [OF inv] loop by auto
  next
    case (Cons pg fs1)
    from copy_alloc [OF inv [unfolded Cons] K D(9) [OF k] D(10) [OF k]] obtain s1 s2 where
      al: "kalloc s = Ok (pg, s1)" "pg \<noteq> 0" "s2 = s1\<lparr>mem := memmove pg (PTE2PA ?e) PGSIZE (mem s1)\<rparr>" "copy_inv K new es s0 k ps fs1 s2"
        "freeable s2 fs1 new (ps @ [pg])" "pg \<notin> K" "read_bytes (mem s2) pg PGSIZE = read_bytes (mem s0) (PTE2PA ?e) PGSIZE" by blast
    have free: "lookup (ent (mem s0)) 2 new va = None" if "va < MAXVA" "page_in a 1 va" for va
      using D(11) [OF that(1)] page_index [OF ua, of va] that(2) k by (simp add: page_in_0)
    from copy_map [OF al(4) K al(5,6,7) ua bound free] obtain r s' fs' where
      mp: "mappages new a (of_nat PGSIZE) pg (PTE_FLAGS ?e) s2 = Ok (r, s')" "freeable s' fs' new (ps @ [pg])"
        "if r = 0 then copy_inv K new es s0 (Suc k) (ps @ [pg]) fs' s' else r = -1 \<and> copy_inv K new es s0 k ps fs' s'" by blast
    show ?thesis
    proof (cases "r = 0")
      case True
      then show ?thesis using mp al loop by (auto simp: Let_def)
    next
      case False
      then have inv': "copy_inv K new es s0 k ps fs' s'" using mp(3) by simp
      have "\<exists>t. kfree pg s' = Ok t \<and> copy_inv K new es s0 k ps (pg # fs') t" by (rule copy_unalloc [OF inv' K mp(2) al(6)])
      then obtain t where t: "kfree pg s' = Ok t" "copy_inv K new es s0 k ps (pg # fs') t" by blast
      then show ?thesis using undo [OF t(2)] mp(1) al False loop by (auto simp: Let_def)
    qed
  qed
qed


lemma below_size: "PGSIZE * k \<le> 2 ^ 38 \<Longrightarrow> (of_nat (PGSIZE * k) :: uint64) < sz \<longleftrightarrow> k < (unat sz + 4095) div PGSIZE"
proof -
  assume "PGSIZE * k \<le> 2 ^ 38"
  then have "unat (of_nat (PGSIZE * k) :: uint64) = PGSIZE * k" by (intro unat_of_nat64) simp
  moreover have "k < (unat sz + 4095) div PGSIZE \<longleftrightarrow> PGSIZE * Suc k \<le> unat sz + 4095"
    by (simp add: Suc_le_eq [symmetric] less_eq_div_iff_mult_less_eq mult.commute)
  ultimately show ?thesis unfolding word_less_nat_alt by auto
qed

lemma uvmcopy_loop_spec:
  assumes pre: "copy_pre K old new es s0 fs0" and n: "length es = (unat sz + 4095) div PGSIZE"
  shows "copy_inv K new es s0 k ps fs s \<Longrightarrow> k \<le> length es \<Longrightarrow>
    \<exists>r s' ps' fs'. uvmcopy_loop old new (of_nat (PGSIZE * k)) sz s = Ok (r, s')
      \<and> (if r = 0 then copy_inv K new es s0 (length es) ps' fs' s' else r = -1 \<and> copy_inv K new es s0 0 [] fs' s')"
proof (induction "length es - k" arbitrary: k ps fs s)
  case 0
  then have k: "k = length es" by simp
  then have "\<not> (of_nat (PGSIZE * k) :: uint64) < sz" using below_size [of k sz] copy_preD(6) [OF pre] n by simp
  then have "uvmcopy_loop old new (of_nat (PGSIZE * k)) sz s = Ok (0, s)" by (subst uvmcopy_loop.simps) simp
  with 0 k show ?case by auto
next
  case (Suc d)
  then have k: "k < length es" by simp
  then have "PGSIZE * k \<le> 2 ^ 38" using copy_preD(6) [OF pre] by (meson le_trans less_imp_le mult_le_mono2)
  then have lt: "(of_nat (PGSIZE * k) :: uint64) < sz" using below_size [of k sz] k n by (simp del: of_nat_mult)
  have d: "d = length es - Suc k" "Suc k \<le> length es" using Suc.hyps(2) k by simp_all
  have step: "of_nat (PGSIZE * k) + of_nat PGSIZE = (of_nat (PGSIZE * Suc k) :: uint64)" by simp
  from copy_page [OF pre Suc.prems(1) k refl lt] consider
      pg s' fs' where "uvmcopy_loop old new (of_nat (PGSIZE * k)) sz s = uvmcopy_loop old new (of_nat (PGSIZE * Suc k)) sz s'"
        "copy_inv K new es s0 (Suc k) (ps @ [pg]) fs' s'"
    | s' fs' where "uvmcopy_loop old new (of_nat (PGSIZE * k)) sz s = Ok (-1, s')" "copy_inv K new es s0 0 [] fs' s'"
    unfolding step by blast
  then show ?case
  proof cases
    case 1
    from Suc.hyps(1) [OF d(1) 1(2) d(2)] show ?thesis unfolding 1(1) .
  next
    case 2
    then show ?thesis by (intro exI [of _ "-1"] exI [of _ s'] exI [of _ fs'] exI [of _ "[] :: uint64 list"]) simp
  qed
qed


section \<open>A concrete address space\<close>

text \<open>A page table with one table page at each level and one leaf entry, for address 0.\<close>

lemma one_page_table:
  assumes tp: "table_page a" "table_page b" "table_page c" and ne: "a \<noteq> b" "a \<noteq> c" "b \<noteq> c"
    and T: "\<And>i. i < 512 \<Longrightarrow> T a i = (if i = 0 then ea else 0)" "\<And>i. i < 512 \<Longrightarrow> T b i = (if i = 0 then eb else 0)"
      "\<And>i. i < 512 \<Longrightarrow> T c i = (if i = 0 then ec else 0)"
    and e: "V ea" "PTE2PA ea = b" "V eb" "PTE2PA eb = c" "V ec"
  shows "twf T 2 a" "tset T 2 a = {a, b, c}" "lookup T 2 a va = (if same_vpn 2 0 va then Some ec else None)"
proof -
  have va: "V (T a i) \<longleftrightarrow> i = 0" and vb: "V (T b i) \<longleftrightarrow> i = 0" if "i < 512" for i using T(1,2) [OF that] e by auto
  have kids: "{i. i < 512 \<and> V (T a i)} = {0}" "{i. i < 512 \<and> V (T b i)} = {0}" using va [of 0] va vb [of 0] vb by fastforce+
  have b: "tset T (Suc 0) b = {b, c}" using kids(2) T(2) [of 0] e by (simp add: tset.simps)
  have wb: "twf T (Suc 0) b" using vb T(2) [of 0] e tp ne by (simp add: twf.simps)
  have two: "2 = Suc (Suc 0)" by simp
  show "tset T 2 a = {a, b, c}" unfolding two using kids(1) T(1) [of 0] e b by (simp add: tset.simps(2) [of T "Suc 0"])
  show "twf T 2 a" unfolding two using va T(1) [of 0] e b wb tp ne by (simp add: twf.simps(2) [of T "Suc 0"])
  have z: "px l 0 = 0" for l by (simp add: px_def PX_def)
  have sv: "same_vpn 2 0 va \<longleftrightarrow> px 0 va = 0 \<and> px 1 va = 0 \<and> px 2 va = 0"
    by (auto simp: same_vpn_def z le_Suc_eq numeral_2_eq_2)
  show "lookup T 2 a va = (if same_vpn 2 0 va then Some ec else None)"
    unfolding sv unfolding two using T px_less e by (auto simp: numeral_2_eq_2)
qed

definition demo_mem :: "memory \<Rightarrow> memory" where
  "demo_mem m = write64 0x87e02000 (PA2PTE 0x87e03000 OR 0x16 OR PTE_V)
     (write64 0x87e01000 (PA2PTE 0x87e02000 OR PTE_V) (write64 0x87e00000 (PA2PTE 0x87e01000 OR PTE_V)
     (memset 0x87e04000 0 PGSIZE (memset 0x87e02000 0 PGSIZE (memset 0x87e01000 0 PGSIZE (memset 0x87e00000 0 PGSIZE m))))))"

lemma demo_ent:
  assumes "table_page q" "i < 512"
  shows "ent (demo_mem m) q i =
    (if q = 0x87e00000 then if i = 0 then PA2PTE 0x87e01000 OR PTE_V else 0
     else if q = 0x87e01000 then if i = 0 then PA2PTE 0x87e02000 OR PTE_V else 0
     else if q = 0x87e02000 then if i = 0 then PA2PTE 0x87e03000 OR 0x16 OR PTE_V else 0
     else if q = 0x87e04000 then 0 else ent m q i)"
proof -
  have tp: "table_page 0x87e00000" "table_page 0x87e01000" "table_page 0x87e02000" "table_page 0x87e04000" by (simp_all add: table_page_def)
  note w = ent_write [where j = 0, simplified]
  show ?thesis unfolding demo_mem_def using assms tp
    by (simp add: w ent_memset_same ent_memset_other)
qed


lemma demo_free_pages:
  "\<exists>s ps. kmem_inv (s :: kmem) ps \<and> kmem_ready s \<and> kend s = 0x80021d40 \<and> set ps = {p. unat p mod PGSIZE = 0 \<and> 0x87ff0000 \<le> p \<and> p < PHYSTOP}"
proof -
  have stop: "unat PHYSTOP = 0x88000000" by (simp add: PHYSTOP_def KERNBASE_def)
  have "\<exists>s'. freerange_loop 0x87ff0000 PHYSTOP boot_kmem = Ok s' \<and> kmem_ready s' \<and> kmem_inv s' (rev (page_seq 0x87ff0000 16) @ []) \<and> kend s' = kend boot_kmem"
    by (rule freerange_loop_ok) (use boot_kmem_ready stop in \<open>simp_all add: kmem_inv_def boot_kmem_def\<close>)
  moreover have "set (page_seq 0x87ff0000 16) = {q. unat q mod PGSIZE = 0 \<and> 0x87ff0000 \<le> q \<and> q < PHYSTOP}"
    by (rule set_page_seq) (simp_all add: stop)
  ultimately show ?thesis using boot_kmem_ready(4) by (metis append_Nil2 set_rev)
qed

text \<open>A parent with one page of its own, a child's empty page table, and some free pages.\<close>

definition demo_ok :: "kmem \<Rightarrow> uint64 list \<Rightarrow> bool" where
  "demo_ok s fs \<longleftrightarrow> tables_ok s fs 2 0x87e04000 \<and> twf (ent (mem s)) 2 0x87e00000
    \<and> tset (ent (mem s)) 2 0x87e00000 = {0x87e00000, 0x87e01000, 0x87e02000} \<and> tset (ent (mem s)) 2 0x87e04000 = {0x87e04000}
    \<and> (\<forall>va. lookup (ent (mem s)) 2 0x87e00000 va = (if same_vpn 2 0 va then Some (PA2PTE 0x87e03000 OR 0x16 OR PTE_V) else None))
    \<and> (\<forall>va. lookup (ent (mem s)) 2 0x87e04000 va = None) \<and> (\<forall>p \<in> set fs. 0x87ff0000 \<le> p) \<and> kend s = 0x80021d40"

lemma demo_space: "\<exists>s fs. demo_ok s fs"
proof -
  obtain s ps where s: "kmem_inv (s :: kmem) ps" "kmem_ready s" "kend s = 0x80021d40"
    "set ps = {p. unat p mod PGSIZE = 0 \<and> 0x87ff0000 \<le> p \<and> p < PHYSTOP}" using demo_free_pages by blast
  let ?s = "s\<lparr>mem := demo_mem (mem s)\<rparr>"
  have hi: "0x87ff0000 \<le> p" if "p \<in> set ps" for p using s(4) that by simp
  have inv: "kmem_inv ?s ps"
  proof (rule kmem_inv_mem [OF s(1)])
    fix q assume q: "q \<in> set ps"
    have "table_page q" using free_table_page [OF s(1) q] .
    with hi [OF q] show "ent (demo_mem (mem s)) q 0 = ent (mem s) q 0" by (auto simp: demo_ent)
  qed
  have tp: "table_page 0x87e00000" "table_page 0x87e01000" "table_page 0x87e02000" "table_page 0x87e04000" by (simp_all add: table_page_def)
  have pa: "PTE2PA (PA2PTE 0x87e01000 OR PTE_V) = 0x87e01000" "PTE2PA (PA2PTE 0x87e02000 OR PTE_V) = 0x87e02000"
    by (simp_all add: PTE2PA_PA2PTE)
  have nz: "PTE_V \<noteq> 0" by (simp add: PTE_V_def)
  note one = one_page_table [of "0x87e00000" "0x87e01000" "0x87e02000" "ent (mem ?s)"
    "PA2PTE 0x87e01000 OR PTE_V" "PA2PTE 0x87e02000 OR PTE_V" "PA2PTE 0x87e03000 OR 0x16 OR PTE_V", OF tp(1-3)]
  have "\<not> V (ent (mem ?s) 0x87e04000 i)" if "i < 512" for i using that tp by (simp add: demo_ent)
  note mt = empty_table [of "ent (mem ?s)" "0x87e04000" 2, OF this]
  show ?thesis unfolding demo_ok_def
  proof (intro exI [of _ ?s] exI [of _ ps] conjI allI ballI)
    show "tables_ok ?s ps 2 0x87e04000" using inv mt(1,2) tp s(2) hi [of "0x87e04000"] by (auto simp: tables_ok_def)
    show "twf (ent (mem ?s)) 2 0x87e00000" by (rule one(1); simp add: demo_ent tp pa nz)
    show "tset (ent (mem ?s)) 2 0x87e00000 = {0x87e00000, 0x87e01000, 0x87e02000}" by (rule one(2); simp add: demo_ent tp pa nz)
    show "lookup (ent (mem ?s)) 2 0x87e00000 va = (if same_vpn 2 0 va then Some (PA2PTE 0x87e03000 OR 0x16 OR PTE_V) else None)" for va
      by (rule one(3); simp add: demo_ent tp pa nz)
    show "tset (ent (mem ?s)) 2 0x87e04000 = {0x87e04000}" by (rule mt(1))
    show "lookup (ent (mem ?s)) 2 0x87e04000 va = None" for va by (rule mt(3))
    show "kend ?s = 0x80021d40" using s(3) by simp
  qed (rule hi)
qed



theorem mappages_correct_witness:
  "\<exists>s fs r s' fs'. demo_ok s fs \<and> mappages 0x87e04000 0x3000 0x2000 0x87e03000 (PTE_R OR PTE_U) s = Ok (r, s') \<and> tables_ok s' fs' 2 0x87e04000"
proof -
  obtain s fs where d: "demo_ok s fs" using demo_space by blast
  have ok: "tables_ok s fs 2 0x87e04000" and free: "\<forall>a < MAXVA. page_in 0x3000 2 a \<longrightarrow> lookup (ent (mem s)) 2 0x87e04000 a = None"
    using d by (simp_all add: demo_ok_def)
  from mappages_correct [OF ok _ _ _ _ free, of "0x2000" "0x87e03000" "PTE_R OR PTE_U"] d show ?thesis by (auto simp: unat_MAXVA)
qed

lemma demo_leaf: "PTE2PA (PA2PTE 0x87e03000 OR 0x16 OR PTE_V) = 0x87e03000"
  "flag (PA2PTE 0x87e03000 OR 0x16 OR PTE_V) PTE_U" "flag (PA2PTE 0x87e03000 OR 0x16 OR PTE_V) PTE_W"
proof -
  have m: "(0x16 OR PTE_V :: uint64) AND 0x3FF = 0x16 OR PTE_V" by (simp add: PTE_V_def)
  show "PTE2PA (PA2PTE 0x87e03000 OR 0x16 OR PTE_V) = 0x87e03000" using PTE2PA_PA2PTE [OF _ m, of "0x87e03000"] by simp
  show "flag (PA2PTE 0x87e03000 OR 0x16 OR PTE_V) PTE_U" "flag (PA2PTE 0x87e03000 OR 0x16 OR PTE_V) PTE_W"
    by (simp_all add: PTE_U_def PTE_W_def PTE_V_def PA2PTE_def)
qed

lemma demo_user:
  assumes "demo_ok s fs"
  shows "space_ok (mem s) 0x87e00000" "user_page (mem s) 0x87e00000 va = (if PGROUNDDOWN va = 0 then Some 0x87e03000 else None)"
    "writable (mem s) 0x87e00000 va \<longleftrightarrow> PGROUNDDOWN va = 0"
proof -
  have z: "PGROUNDDOWN 0 = 0" "(0 :: uint64) < MAXVA" by (simp_all add: PGROUNDDOWN_def MAXVA_def)
  have lk: "lookup (ent (mem s)) 2 0x87e00000 va = (if PGROUNDDOWN va = 0 then Some (PA2PTE 0x87e03000 OR 0x16 OR PTE_V) else None)"
    if "va < MAXVA" for va
    using assms same_vpn_iff [OF z(2) that] z(1) by (auto simp: demo_ok_def)
  have wf: "twf (ent (mem s)) 2 0x87e00000" using assms by (simp add: demo_ok_def)
  have low: "va < MAXVA" if "PGROUNDDOWN va = 0" for va using that PGROUNDDOWN_ge_MAXVA [of va] z(2) by (simp add: not_le [symmetric])
  have "user_ok (mem s) 0x87e00000" unfolding user_ok_def
  proof (intro conjI allI impI)
    fix va e assume "va < MAXVA" "lookup (ent (mem s)) 2 0x87e00000 va = Some e"
    then show "table_page (PTE2PA e)" "PTE2PA e \<notin> tset (ent (mem s)) 2 0x87e00000"
      using lk assms by (auto simp: demo_ok_def demo_leaf(1) table_page_def split: if_splits)
  next
    fix va va' e e' assume "va < MAXVA" "lookup (ent (mem s)) 2 0x87e00000 va = Some e" "va' < MAXVA" "lookup (ent (mem s)) 2 0x87e00000 va' = Some e'"
    then show "PGROUNDDOWN va = PGROUNDDOWN va'" using lk by (auto split: if_splits)
  qed
  then show "space_ok (mem s) 0x87e00000" using wf by (simp add: space_ok_def)
  have pte: "pte_of (mem s) 0x87e00000 va = (if PGROUNDDOWN va = 0 then Some (PA2PTE 0x87e03000 OR 0x16 OR PTE_V) else None)"
    using wf lk low by (simp add: pte_of_lookup)
  show "user_page (mem s) 0x87e00000 va = (if PGROUNDDOWN va = 0 then Some 0x87e03000 else None)"
    by (simp add: user_page_def pte demo_leaf)
  show "writable (mem s) 0x87e00000 va \<longleftrightarrow> PGROUNDDOWN va = 0" by (simp add: writable_def pte demo_leaf)
qed

theorem copyin_correct_witness:
  "\<exists>s fs bs. demo_ok s fs \<and> copyin 0x87e00000 0xFFE 2 s = Ok (0, bs, s) \<and> bs = user_bytes (mem s) 0x87e00000 0xFFE 2
     \<and> (\<exists>cs. copyin 0x87e00000 0xFFE 3 s = Ok (-1, cs, s))"
proof -
  obtain s fs where d: "demo_ok s fs" using demo_space by blast
  have all: "\<forall>i < 2. user_page (mem s) 0x87e00000 (0xFFE + of_nat i) \<noteq> None"
    by (auto simp: demo_user(2) [OF d] PGROUNDDOWN_def less_2_cases_iff)
  have "user_page (mem s) 0x87e00000 (0xFFE + of_nat 2) = None" by (simp add: demo_user(2) [OF d] PGROUNDDOWN_def)
  then have none: "\<not> (\<forall>i < 3. user_page (mem s) 0x87e00000 (0xFFE + of_nat i) \<noteq> None)" by (intro notI) (drule spec [of _ 2], simp)
  have "copyin 0x87e00000 0xFFE 2 s = Ok (0, user_bytes (mem s) 0x87e00000 0xFFE 2, s)"
    using copyin_correct [of "0x87e00000" "0xFFE" 2 s] unfolding if_P [OF all] by auto
  moreover have "\<exists>cs. copyin 0x87e00000 0xFFE 3 s = Ok (-1, cs, s)"
    using copyin_correct [of "0x87e00000" "0xFFE" 3 s] unfolding if_not_P [OF none] by auto
  ultimately show ?thesis using d by blast
qed

theorem copyout_copyin_witness:
  "\<exists>s fs s'. demo_ok s fs \<and> copyout 0x87e00000 0xFFE [7, 8] s = Ok (0, s') \<and> copyin 0x87e00000 0xFFE 2 s' = Ok (0, [7, 8], s')"
proof -
  obtain s fs where d: "demo_ok s fs" using demo_space by blast
  have "\<forall>i < length [7 :: byte, 8]. writable (mem s) 0x87e00000 (0xFFE + of_nat i)"
    by (auto simp: demo_user(3) [OF d] PGROUNDDOWN_def less_Suc_eq)
  with copyout_copyin [OF demo_user(1) [OF d], of "[7, 8]" "0xFFE"] have
    "\<exists>s'. copyout 0x87e00000 0xFFE [7, 8] s = Ok (0, s') \<and> copyin 0x87e00000 0xFFE (Suc (Suc 0)) s' = Ok (0, [7, 8], s')" by auto
  with d show ?thesis by (auto simp: numeral_2_eq_2)
qed

end
