(* ===== verification/Pipe.thy ===== *)
theory Pipe
  imports Dir Ring Ucopy
begin

text \<open>
  Pipes (\<^verbatim>\<open>kernel/pipe.c\<close>; \<open>pipealloc\<close>, which needs the file table, is in theory \<open>File\<close>). A \<open>struct pipe\<close>
  fills a page of its own; the model keeps the structures of the pipes in a table, by the address of
  the page. The counters are unsigned 32-bit numbers that wrap around.
\<close>

section \<open>State\<close>

abbreviation (input) PIPESIZE :: nat where "PIPESIZE \<equiv> 512"

record pipe =
  pdata :: "byte list"
  nread :: uint
  nwrite :: uint
  readopen :: bool
  writeopen :: bool

record pipefs = fs +
  pipes :: "uint64 \<Rightarrow> pipe"

definition set_pipe :: "uint64 \<Rightarrow> (pipe \<Rightarrow> pipe) \<Rightarrow> 'z pipefs_scheme \<Rightarrow> 'z pipefs_scheme" where
  "set_pipe pi f s = s\<lparr>pipes := (pipes s)(pi := f (pipes s pi))\<rparr>"

section \<open>The operations\<close>

definition pipeclose :: "uint64 \<Rightarrow> bool \<Rightarrow> 'z pipefs_scheme \<Rightarrow> 'z pipefs_scheme res" where
  "pipeclose pi w s =
     andthen (acquire (PipeLock pi) s) (\<lambda>s1.
     andthen (if w then wakeup (Some (PipeRead pi)) (set_pipe pi (\<lambda>p. p\<lparr>writeopen := False\<rparr>) s1)
              else wakeup (Some (PipeWrite pi)) (set_pipe pi (\<lambda>p. p\<lparr>readopen := False\<rparr>) s1)) (\<lambda>s2.
     if \<not> readopen (pipes s2 pi) \<and> \<not> writeopen (pipes s2 pi)
     then andthen (release (PipeLock pi) s2) (kfree pi)
     else release (PipeLock pi) s2))"

text \<open>
  The stores \<open>pi->data[pi->nwrite++ % PIPESIZE] = ch\<close> and \<open>ch = pi->data[pi->nread++ % PIPESIZE]\<close>.
\<close>

definition pipe_put :: "byte \<Rightarrow> pipe \<Rightarrow> pipe" where
  "pipe_put ch p = p\<lparr>pdata := (pdata p)[unat (nwrite p) mod PIPESIZE := ch], nwrite := nwrite p + 1\<rparr>"

definition pipe_next :: "pipe \<Rightarrow> byte" where
  "pipe_next p = pdata p ! (unat (nread p) mod PIPESIZE)"

definition pipe_skip :: "pipe \<Rightarrow> pipe" where
  "pipe_skip p = p\<lparr>nread := nread p + 1\<rparr>"

definition pipe_full :: "pipe \<Rightarrow> bool" where
  "pipe_full p \<longleftrightarrow> nwrite p = nread p + of_nat PIPESIZE"

definition pipe_empty :: "pipe \<Rightarrow> bool" where
  "pipe_empty p \<longleftrightarrow> nread p = nwrite p"

text \<open>
  The loop of \<open>pipewrite\<close>, entered with the lock held, \<open>i\<close> bytes written and \<open>k\<close> to go. It ends with the
  result of the call (the lock released), or at the call of \<open>sleep\<close> with the value of \<open>i\<close> at which the
  loop continues.
\<close>

datatype pw = Wrote int | PipeFull nat

definition pipewrite_done :: "uint64 \<Rightarrow> nat \<Rightarrow> 'z pipefs_scheme \<Rightarrow> (pw \<times> 'z pipefs_scheme) res" where
  "pipewrite_done pi i s =
     andthen (wakeup (Some (PipeRead pi)) s) (\<lambda>s1.
     andthen (release (PipeLock pi) s1) (\<lambda>s2. Ok (Wrote (int i), s2)))"

fun pipewrite_loop :: "nat \<Rightarrow> uint64 \<Rightarrow> uint64 \<Rightarrow> nat \<Rightarrow> nat \<Rightarrow> 'z pipefs_scheme \<Rightarrow> (pw \<times> 'z pipefs_scheme) res" where
  "pipewrite_loop pr pi addr i 0 s = pipewrite_done pi i s"
| "pipewrite_loop pr pi addr i (Suc k) s =
     andthen (if \<not> readopen (pipes s pi) then Ok (True, s) else killed pr s) (\<lambda>(stop, s1).
     if stop then andthen (release (PipeLock pi) s1) (\<lambda>s2. Ok (Wrote (-1), s2))
     else if pipe_full (pipes s1 pi)
     then andthen (wakeup (Some (PipeRead pi)) s1) (\<lambda>s2. Ok (PipeFull i, s2))
     else andthen (copyin (pagetable (procs s1 pr)) (addr + of_nat i) 1 s1) (\<lambda>(r, bs, s2).
       if r = -1 then pipewrite_done pi i s2
       else pipewrite_loop pr pi addr (Suc i) k (set_pipe pi (pipe_put (hd bs)) s2)))"

definition pipewrite :: "uint64 \<Rightarrow> uint64 \<Rightarrow> int \<Rightarrow> 'z pipefs_scheme \<Rightarrow> (int \<times> 'z pipefs_scheme) res" where
  "pipewrite pi addr n s =
     with_proc s (\<lambda>pr s1.
     andthen (acquire (PipeLock pi) s1) (\<lambda>s2.
     andthen (pipewrite_loop pr pi addr 0 (nat n) s2) (\<lambda>(out, s3).
     case out of
       Wrote r \<Rightarrow> Ok (r, s3)
     | PipeFull i \<Rightarrow> sleep (PipeWrite pi) (PipeLock pi) s3)))"

fun piperead_loop :: "nat \<Rightarrow> uint64 \<Rightarrow> uint64 \<Rightarrow> nat \<Rightarrow> nat \<Rightarrow> 'z pipefs_scheme \<Rightarrow> (nat \<times> 'z pipefs_scheme) res" where
  "piperead_loop pr pi addr i 0 s = Ok (i, s)"
| "piperead_loop pr pi addr i (Suc k) s =
     (if pipe_empty (pipes s pi) then Ok (i, s)
      else let ch = pipe_next (pipes s pi) in
        andthen (copyout (pagetable (procs s pr)) (addr + of_nat i) [ch] (set_pipe pi pipe_skip s)) (\<lambda>(r, s1).
        if r = -1 then Ok (i, s1) else piperead_loop pr pi addr (Suc i) k s1))"

definition piperead :: "uint64 \<Rightarrow> uint64 \<Rightarrow> int \<Rightarrow> 'z pipefs_scheme \<Rightarrow> (int \<times> 'z pipefs_scheme) res" where
  "piperead pi addr n s =
     with_proc s (\<lambda>pr s1.
     andthen (acquire (PipeLock pi) s1) (\<lambda>s2.
     if pipe_empty (pipes s2 pi) \<and> writeopen (pipes s2 pi)
     then andthen (killed pr s2) (\<lambda>(k, s3).
          if k then andthen (release (PipeLock pi) s3) (\<lambda>s4. Ok (-1, s4))
          else sleep (PipeRead pi) (PipeLock pi) s3)
     else andthen (piperead_loop pr pi addr 0 (nat n) s2) (\<lambda>(i, s3).
          andthen (wakeup (Some (PipeWrite pi)) s3) (\<lambda>s4.
          andthen (release (PipeLock pi) s4) (\<lambda>s5. Ok (int i, s5))))))"

section \<open>A pipe is a bounded queue\<close>

definition pipe_inv :: "pipe \<Rightarrow> bool" where
  "pipe_inv p \<longleftrightarrow> ring_ok PIPESIZE (pdata p) (nread p) (nwrite p)"

definition pipe_queued :: "pipe \<Rightarrow> byte list" where
  "pipe_queued p = ring (pdata p) (nread p) (nwrite p)"

interpretation pipeq: tight_fifo pipe_inv pipe_queued PIPESIZE pipe_full pipe_empty pipe_put pipe_next pipe_skip
proof unfold_locales
  fix q :: pipe and x :: byte
  assume inv: "pipe_inv q"
  then show "length (pipe_queued q) \<le> PIPESIZE" by (simp add: pipe_inv_def pipe_queued_def ring_ok_def)
  show "pipe_full q \<longleftrightarrow> length (pipe_queued q) = PIPESIZE"
    using ring_full_iff inv unfolding pipe_inv_def pipe_full_def pipe_queued_def by blast
  show "pipe_empty q \<longleftrightarrow> pipe_queued q = []"
    by (simp add: pipe_empty_def pipe_queued_def ring_empty_iff)
  { assume "\<not> pipe_full q"
    then have room: "unat (nwrite q - nread q) < PIPESIZE"
      using inv ring_room unfolding pipe_inv_def pipe_full_def by blast
    show "pipe_inv (pipe_put x q)" "pipe_queued (pipe_put x q) = pipe_queued q @ [x]"
      using ring_put [OF inv [unfolded pipe_inv_def] room, of x] by (simp_all add: pipe_inv_def pipe_put_def pipe_queued_def) }
  { assume "\<not> pipe_empty q"
    then have ne: "nread q \<noteq> nwrite q" by (simp add: pipe_empty_def)
    show "pipe_inv (pipe_skip q)" "pipe_queued q = pipe_next q # pipe_queued (pipe_skip q)"
      using ring_get [OF inv [unfolded pipe_inv_def] ne] by (simp_all add: pipe_inv_def pipe_skip_def pipe_queued_def pipe_next_def) }
qed simp

text \<open>
  C11. A pipe refines a bounded first-in first-out queue, although its counters are 32-bit numbers that wrap around and
  are never reduced: whatever order the writer's and the reader's steps come in, the bytes read
  are the bytes written, in order and each once, followed by the at most 512 bytes still in the buffer; a
  step that has to wait changes nothing.
\<close>

theorem pipe_fifo:
  assumes "pipe_inv p"
  shows "case pipeq.interleave ops p of (ins, outs, p') \<Rightarrow>
    pipe_queued p @ ins = outs @ pipe_queued p' \<and> length (pipe_queued p') \<le> PIPESIZE \<and> pipe_inv p' \<and> \<not> (pipe_full p' \<and> pipe_empty p')"
  using pipeq.first_in_first_out [OF assms] pipeq.one_can_move by (auto split: prod.split)

section \<open>Writing and reading\<close>

lemma hold_pipes [simp]: "pipes (hold l s) = pipes s" "set_pipe pi f (hold l s) = hold l (set_pipe pi f s)"
  by (simp_all add: hold_def set_pipe_def)

lemma set_pipe_fields [simp]:
  "procs (set_pipe pi f s) = procs s" "mem (set_pipe pi f s) = mem s" "calm p (set_pipe pi f s) = calm p s"
  "pipes (set_pipe pi f s) pi = f (pipes s pi)" "pi' \<noteq> pi \<Longrightarrow> pipes (set_pipe pi f s) pi' = pipes s pi'"
  by (simp_all add: set_pipe_def calm_def settled_def lock_free_def mycpu_def intr_get_def cpuid_def)

lemma calm_killed_hold:
  assumes "calm p s" "l \<noteq> ProcLock pr"
  shows "killed pr (hold l s) = Ok (pkilled (procs s pr), hold l s)"
proof -
  have "settled (hold l s)" "lock_free (ProcLock pr) (hold l s)"
    using assms calm_mach [OF assms(1)] by (simp_all add: settled_hold lock_free_hold)
  then show ?thesis by (simp add: killed_def acquire_ok release_ok Let_def)
qed


definition awakened :: "chan \<Rightarrow> nat \<Rightarrow> 'z slk_scheme \<Rightarrow> 'z slk_scheme" where
  "awakened ch pr s = s\<lparr>procs := woken (Some ch) (Some pr) (procs s)\<rparr>"

lemma awakened_fields [simp]:
  "calm p (awakened ch pr s) = calm p s" "mem (awakened ch pr s) = mem s" "pipes (awakened ch pr t) = pipes t"
  "pagetable (procs (awakened ch pr s) q) = pagetable (procs s q)"
  by (simp_all add: awakened_def)

lemma pipe_put_fields [simp]: "readopen (pipe_put c p) = readopen p" "writeopen (pipe_put c p) = writeopen p"
  by (simp_all add: pipe_put_def)

lemma pipe_skip_fields [simp]: "readopen (pipe_skip p) = readopen p" "writeopen (pipe_skip p) = writeopen p"
  by (simp_all add: pipe_skip_def)

text \<open>
  The outcome of \<open>pipewrite\<close>'s loop: \<open>m\<close> bytes from the writer's memory have been appended, and the loop has stopped
  because all are written, because nobody will read or the writer was killed, because the buffer is full, or at
  an address that is not mapped.
\<close>

definition wrote :: "nat \<Rightarrow> uint64 \<Rightarrow> uint64 \<Rightarrow> nat \<Rightarrow> nat \<Rightarrow> 'z pipefs_scheme \<Rightarrow> (pw \<times> 'z pipefs_scheme) \<Rightarrow> bool" where
  "wrote pr pi addr i k s out \<longleftrightarrow> (\<exists>m t. m \<le> k \<and> calm pr t
     \<and> pipe_inv (pipes t pi) \<and> pipe_queued (pipes t pi) = pipe_queued (pipes s pi) @ user_bytes (mem s) (pagetable (procs s pr)) (addr + of_nat i) m
     \<and> mem t = mem s \<and> (\<forall>pi'. pi' \<noteq> pi \<longrightarrow> pipes t pi' = pipes s pi')
     \<and> (case out of
          (Wrote r, u) \<Rightarrow> u = t \<and> (m = k \<and> r = int (i + k) \<or> m = 0 \<and> r = -1 \<and> (\<not> readopen (pipes s pi) \<or> pkilled (procs s pr))
              \<or> m < k \<and> r = int (i + m) \<and> \<not> mapped (mem s) (pagetable (procs s pr)) (addr + of_nat (i + m)))
        | (PipeFull j, u) \<Rightarrow> u = hold (PipeLock pi) t \<and> m < k \<and> j = i + m \<and> pipe_full (pipes t pi)))"

lemma copyin_one:
  "copyin pt va 1 s = (if mapped (mem s) pt va then Ok (0, [user_byte (mem s) pt va], s) else Ok (-1, [], s))"
  using copyin_spec [of pt va 1 s] by (auto simp: user_bytes_def split: if_splits)

lemma user_bytes_Suc: "user_bytes m pt va (Suc n) = user_byte m pt va # user_bytes m pt (va + 1) n"
  using user_bytes_append [of m pt va 1 n] by (simp add: user_bytes_def)

lemma pipewrite_loop_ok:
  "calm pr s \<Longrightarrow> pipe_inv (pipes s pi) \<Longrightarrow>
   \<exists>out. pipewrite_loop pr pi addr i k (hold (PipeLock pi) s) = Ok out \<and> wrote pr pi addr i k s out"
proof (induction k arbitrary: i s)
  case 0
  then have "pipewrite_loop pr pi addr i 0 (hold (PipeLock pi) s) = Ok (Wrote (int i), awakened (PipeRead pi) pr s)"
    by (simp add: pipewrite_done_def calm_simps awakened_def)
  moreover have "wrote pr pi addr i 0 s (Wrote (int i), awakened (PipeRead pi) pr s)"
    using 0 by (simp add: wrote_def user_bytes_def)
  ultimately show ?case by blast
next
  case (Suc k)
  let ?l = "PipeLock pi" and ?pt = "pagetable (procs s pr)" and ?a = "addr + of_nat i"
  have kl: "killed pr (hold ?l s) = Ok (pkilled (procs s pr), hold ?l s)" using Suc.prems(1) by (rule calm_killed_hold) simp
  consider (stop) "\<not> readopen (pipes s pi) \<or> pkilled (procs s pr)"
    | (full) "readopen (pipes s pi)" "\<not> pkilled (procs s pr)" "pipe_full (pipes s pi)"
    | (bad) "readopen (pipes s pi)" "\<not> pkilled (procs s pr)" "\<not> pipe_full (pipes s pi)" "\<not> mapped (mem s) ?pt ?a"
    | (put) "readopen (pipes s pi)" "\<not> pkilled (procs s pr)" "\<not> pipe_full (pipes s pi)" "mapped (mem s) ?pt ?a" by blast
  then show ?case
  proof cases
    case stop
    have "pipewrite_loop pr pi addr i (Suc k) (hold ?l s) = Ok (Wrote (-1), s)"
      using stop kl Suc.prems(1) by (auto simp: calm_simps)
    moreover have "wrote pr pi addr i (Suc k) s (Wrote (-1), s)"
      unfolding wrote_def by (rule exI [of _ 0], rule exI [of _ s]) (use Suc.prems stop in \<open>simp add: user_bytes_def\<close>)
    ultimately show ?thesis by blast
  next
    case full
    let ?t = "awakened (PipeRead pi) pr s"
    have "pipewrite_loop pr pi addr i (Suc k) (hold ?l s) = Ok (PipeFull i, hold ?l ?t)"
      using full kl Suc.prems(1) by (simp add: calm_simps awakened_def)
    moreover have "wrote pr pi addr i (Suc k) s (PipeFull i, hold ?l ?t)"
      unfolding wrote_def by (rule exI [of _ 0], rule exI [of _ ?t]) (use Suc.prems full in \<open>simp add: user_bytes_def\<close>)
    ultimately show ?thesis by blast
  next
    case bad
    let ?t = "awakened (PipeRead pi) pr s"
    have "pipewrite_loop pr pi addr i (Suc k) (hold ?l s) = Ok (Wrote (int i), ?t)"
      using bad kl Suc.prems(1) by (simp add: calm_simps awakened_def copyin_one [unfolded One_nat_def] pipewrite_done_def)
    moreover have "wrote pr pi addr i (Suc k) s (Wrote (int i), ?t)"
      unfolding wrote_def by (rule exI [of _ 0], rule exI [of _ ?t]) (use Suc.prems bad in \<open>simp add: user_bytes_def\<close>)
    ultimately show ?thesis by blast
  next
    case put
    let ?c = "user_byte (mem s) ?pt ?a" and ?s = "set_pipe pi (pipe_put (user_byte (mem s) ?pt ?a)) s"
    note q = pipeq.put_inv [OF Suc.prems(2) put(3)] pipeq.put_queued [OF Suc.prems(2) put(3)]
    have step: "pipewrite_loop pr pi addr i (Suc k) (hold ?l s) = pipewrite_loop pr pi addr (Suc i) k (hold ?l ?s)"
      using put kl Suc.prems(1) by (simp add: copyin_one [unfolded One_nat_def])
    have "calm pr ?s" "pipe_inv (pipes ?s pi)" using Suc.prems q by simp_all
    from Suc.IH [OF this, of "Suc i"] obtain out where
      out: "pipewrite_loop pr pi addr (Suc i) k (hold ?l ?s) = Ok out" "wrote pr pi addr (Suc i) k ?s out" by blast
    from out(2) obtain m t where w: "m \<le> k" "calm pr t" "pipe_inv (pipes t pi)"
      "pipe_queued (pipes t pi) = pipe_queued (pipes ?s pi) @ user_bytes (mem ?s) (pagetable (procs ?s pr)) (addr + of_nat (Suc i)) m"
      "mem t = mem ?s" "\<forall>pi'. pi' \<noteq> pi \<longrightarrow> pipes t pi' = pipes ?s pi'"
      "case out of
          (Wrote r, u) \<Rightarrow> u = t \<and> (m = k \<and> r = int (Suc i + k) \<or> m = 0 \<and> r = -1 \<and> (\<not> readopen (pipes ?s pi) \<or> pkilled (procs ?s pr))
              \<or> m < k \<and> r = int (Suc i + m) \<and> \<not> mapped (mem ?s) (pagetable (procs ?s pr)) (addr + of_nat (Suc i + m)))
        | (PipeFull j, u) \<Rightarrow> u = hold ?l t \<and> m < k \<and> j = Suc i + m \<and> pipe_full (pipes t pi)"
      unfolding wrote_def by (elim exE conjE) rule
    have "user_bytes (mem s) ?pt ?a (Suc m) = ?c # user_bytes (mem s) ?pt (addr + of_nat (Suc i)) m"
      by (simp add: user_bytes_Suc ac_simps)
    then have "pipe_queued (pipes t pi) = pipe_queued (pipes s pi) @ user_bytes (mem s) ?pt ?a (Suc m)"
      using w(4) q(2) by (simp del: of_nat_Suc)
    then have "wrote pr pi addr i (Suc k) s out"
      unfolding wrote_def by (intro exI [of _ "Suc m"] exI [of _ t])
        (use w put in \<open>auto simp del: of_nat_Suc split: pw.splits\<close>)
    then show ?thesis using step out(1) by metis
  qed
qed


text \<open>
  The outcome of \<open>piperead\<close>'s loop: the first \<open>m\<close> bytes of the buffer have been stored in the reader's memory. When
  the loop stops early because the next address is not writable, the byte meant for it has left the buffer as well.
\<close>

definition delivered :: "nat \<Rightarrow> uint64 \<Rightarrow> uint64 \<Rightarrow> nat \<Rightarrow> 'z pipefs_scheme \<Rightarrow> nat \<Rightarrow> 'z pipefs_scheme \<Rightarrow> bool" where
  "delivered pr pi a k s m t \<longleftrightarrow>
     (let q = pipe_queued (pipes s pi) in
      calm pr t \<and> pipe_inv (pipes t pi) \<and> procs t = procs s \<and> m \<le> min k (length q)
      \<and> stored (pagetable (procs s pr)) a (take m q) (mem s) (mem t)
      \<and> (if \<forall>j < min k (length q). writable (mem s) (pagetable (procs s pr)) (a + of_nat j)
         then m = min k (length q) \<and> pipe_queued (pipes t pi) = drop m q
         else m < min k (length q) \<and> \<not> writable (mem s) (pagetable (procs s pr)) (a + of_nat m)
              \<and> pipe_queued (pipes t pi) = drop (Suc m) q))"

lemma delivered_none:
  assumes "calm pr s" "pipe_inv (pipes s pi)" "space_ok (mem s) (pagetable (procs s pr))" "k = 0 \<or> pipe_queued (pipes s pi) = []"
  shows "delivered pr pi a k s 0 s"
  using assms stored_Nil by (auto simp: delivered_def)

lemma hold_mem_upd: "(hold l s)\<lparr>mem := m\<rparr> = hold l (s\<lparr>mem := m\<rparr>)"
  by (simp add: hold_def)

lemma pipes_mem_upd [simp]: "pipes (s\<lparr>mem := m\<rparr>) = pipes s"
  by simp

lemma copyout_one:
  assumes "space_ok (mem s) pt"
  obtains m where "copyout pt va [c] s = Ok (if writable (mem s) pt va then 0 else -1, s\<lparr>mem := m\<rparr>)"
    "stored pt va (if writable (mem s) pt va then [c] else []) (mem s) m"
proof -
  from copyout_spec [OF assms, of "[c]" va] obtain r k m where
    c: "copyout pt va [c] s = Ok (r, s\<lparr>mem := m\<rparr>)" "stored pt va (take k [c]) (mem s) m"
      "if \<forall>i < length [c]. writable (mem s) pt (va + of_nat i) then r = 0 \<and> k = length [c] else r = -1 \<and> k < length [c]"
    by auto
  show ?thesis by (rule that [of m]) (use c in \<open>auto split: if_splits\<close>)
qed

lemma stored_writable: "stored pt a bs m m' \<Longrightarrow> writable m' pt va = writable m pt va"
  by (simp add: stored_def writable_def)

lemma delivered_step:
  assumes d: "delivered pr pi (a + 1) k t m u" and q: "pipe_queued (pipes s pi) = c # pipe_queued (pipes t pi)"
    and w: "writable (mem s) (pagetable (procs s pr)) a" and st: "stored (pagetable (procs s pr)) a [c] (mem s) (mem t)"
    and ps: "procs t = procs s" and len: "length (pipe_queued (pipes t pi)) < 2 ^ 63"
  shows "delivered pr pi a (Suc k) s (Suc m) u"
proof -
  let ?pt = "pagetable (procs s pr)" and ?q = "pipe_queued (pipes t pi)"
  have all: "(\<forall>j < min (Suc k) (Suc (length ?q)). writable (mem s) ?pt (a + of_nat j))
     \<longleftrightarrow> (\<forall>j < min k (length ?q). writable (mem t) ?pt (a + 1 + of_nat j))"
    using w stored_writable [OF st] by (simp add: All_less_Suc2 add.assoc)
  have "stored ?pt (a + 1) (take m ?q) (mem t) (mem u)" using d ps by (simp add: delivered_def Let_def)
  with stored_append [OF st, of "take m ?q"] len have "stored ?pt a (c # take m ?q) (mem s) (mem u)" by simp
  then show ?thesis using d ps all w stored_writable [OF st]
    unfolding delivered_def Let_def q by (auto simp: add.assoc split: if_splits)
qed

lemma piperead_loop_ok:
  "calm pr s \<Longrightarrow> pipe_inv (pipes s pi) \<Longrightarrow> space_ok (mem s) (pagetable (procs s pr)) \<Longrightarrow>
   \<exists>m t. piperead_loop pr pi addr i k (hold (PipeLock pi) s) = Ok (i + m, hold (PipeLock pi) t)
     \<and> delivered pr pi (addr + of_nat i) k s m t"
proof (induction k arbitrary: i s)
  case 0
  then show ?case by (intro exI [of _ 0] exI [of _ s]) (simp add: delivered_none)
next
  case (Suc k)
  let ?l = "PipeLock pi" and ?pt = "pagetable (procs s pr)" and ?a = "addr + of_nat i" and ?c = "pipe_next (pipes s pi)"
  show ?case
  proof (cases "pipe_empty (pipes s pi)")
    case True
    then have "pipe_queued (pipes s pi) = []" using pipeq.vacant_iff [OF Suc.prems(2)] by simp
    with True Suc.prems show ?thesis by (intro exI [of _ 0] exI [of _ s]) (simp add: delivered_none)
  next
    case False
    let ?s = "set_pipe pi pipe_skip s"
    note q = pipeq.skip_inv [OF Suc.prems(2) False] pipeq.skip_queued [OF Suc.prems(2) False]
    obtain m where m: "copyout ?pt ?a [?c] (hold ?l ?s) = Ok (if writable (mem s) ?pt ?a then 0 else -1, hold ?l (?s\<lparr>mem := m\<rparr>))"
      "stored ?pt ?a (if writable (mem s) ?pt ?a then [?c] else []) (mem s) m"
      using copyout_one [of "hold ?l ?s" ?pt ?a ?c] Suc.prems(3) by (auto simp: hold_mem_upd)
    let ?t = "?s\<lparr>mem := m\<rparr>"
    show ?thesis
    proof (cases "writable (mem s) ?pt ?a")
      case True
      have "calm pr ?t" "pipe_inv (pipes ?t pi)" "space_ok (mem ?t) (pagetable (procs ?t pr))"
        using Suc.prems(1) q(1) m(2) by (simp_all add: stored_def)
      from Suc.IH [OF this, of "Suc i"] obtain j u where
        u: "piperead_loop pr pi addr (Suc i) k (hold ?l ?t) = Ok (Suc i + j, hold ?l u)"
           "delivered pr pi (addr + of_nat (Suc i)) k ?t j u" by blast
      have "piperead_loop pr pi addr i (Suc k) (hold ?l s) = Ok (i + Suc j, hold ?l u)"
        using False True m(1) u(1) by simp
      moreover have "delivered pr pi ?a (Suc k) s (Suc j) u"
      proof (rule delivered_step)
        show "delivered pr pi (?a + 1) k ?t j u" using u(2) by (simp add: ac_simps)
        show "pipe_queued (pipes s pi) = ?c # pipe_queued (pipes ?t pi)" using q(2) by simp
        show "stored ?pt ?a [?c] (mem s) (mem ?t)" using m(2) True by simp
        show "length (pipe_queued (pipes ?t pi)) < 2 ^ 63" using pipeq.bounded [OF q(1)] by simp
      qed (use True in simp_all)
      ultimately show ?thesis by blast
    next
      case bad: False
      have "piperead_loop pr pi addr i (Suc k) (hold ?l s) = Ok (i + 0, hold ?l ?t)"
        using False bad m(1) by simp
      moreover have "delivered pr pi ?a (Suc k) s 0 ?t"
        unfolding delivered_def Let_def q(2) using bad Suc.prems(1) q(1) m(2) by (auto intro: exI [of _ 0])
      ultimately show ?thesis by blast
    qed
  qed
qed



lemma user_bytes_nth: "j < n \<Longrightarrow> user_bytes m pt a n ! j = user_byte m pt (a + of_nat j)"
  by (simp add: user_bytes_def)

lemma pipewrite_fits:
  assumes "calm pr s" "pipe_inv (pipes s pi)" "readopen (pipes s pi)" "\<not> pkilled (procs s pr)" "0 \<le> n"
    and fits: "length (pipe_queued (pipes s pi)) + nat n \<le> PIPESIZE"
    and src: "\<forall>j < nat n. mapped (mem s) (pagetable (procs s pr)) (addr + of_nat j)"
  obtains t where "pipewrite pi addr n s = Ok (n, t)" "pipe_inv (pipes t pi)"
    "pipe_queued (pipes t pi) = pipe_queued (pipes s pi) @ user_bytes (mem s) (pagetable (procs s pr)) addr (nat n)"
proof -
  from pipewrite_loop_ok [OF assms(1,2), of addr 0 "nat n"] obtain o1 u where
    out: "pipewrite_loop pr pi addr 0 (nat n) (hold (PipeLock pi) s) = Ok (o1, u)" "wrote pr pi addr 0 (nat n) s (o1, u)" by auto
  from out(2) have "\<exists>m t. m \<le> nat n \<and> pipe_inv (pipes t pi)
    \<and> pipe_queued (pipes t pi) = pipe_queued (pipes s pi) @ user_bytes (mem s) (pagetable (procs s pr)) addr m
    \<and> (case o1 of Wrote r \<Rightarrow> u = t \<and> m = nat n \<and> r = n | PipeFull j \<Rightarrow> m < nat n \<and> pipe_full (pipes t pi))"
    unfolding wrote_def using assms(3-5) src by (elim ex_forward) (auto split: pw.splits)
  then obtain m t where w: "m \<le> nat n" "pipe_inv (pipes t pi)"
    "pipe_queued (pipes t pi) = pipe_queued (pipes s pi) @ user_bytes (mem s) (pagetable (procs s pr)) addr m"
    "case o1 of Wrote r \<Rightarrow> u = t \<and> m = nat n \<and> r = n | PipeFull j \<Rightarrow> m < nat n \<and> pipe_full (pipes t pi)" by blast
  have "\<not> (m < nat n \<and> pipe_full (pipes t pi))" using pipeq.full_iff [OF w(2)] w(3) fits by auto
  with w(4) obtain "o1 = Wrote n" "u = t" "m = nat n" by (auto split: pw.splits)
  then show ?thesis using that [of t] w(2,3) out(1) assms(1) by (simp add: pipewrite_def calm_simps)
qed

lemma piperead_some:
  assumes "calm pr s" "pipe_inv (pipes s pi)" "space_ok (mem s) (pagetable (procs s pr))"
    "pipe_queued (pipes s pi) \<noteq> [] \<or> \<not> writeopen (pipes s pi)"
  obtains m t where "piperead pi addr n s = Ok (int m, awakened (PipeWrite pi) pr t)" "delivered pr pi addr (nat n) s m t"
proof -
  from piperead_loop_ok [OF assms(1-3), of addr 0 "nat n"] obtain m t where
    d: "piperead_loop pr pi addr 0 (nat n) (hold (PipeLock pi) s) = Ok (m, hold (PipeLock pi) t)" "delivered pr pi addr (nat n) s m t"
    by auto
  have "calm pr t" using d(2) by (simp add: delivered_def Let_def)
  with d assms pipeq.vacant_iff [OF assms(2)] show ?thesis
    by (intro that [of m t]) (auto simp: piperead_def calm_simps awakened_def)
qed

text \<open>
  C18. What one process writes to an empty pipe another process reads, whatever happened between the two calls
  to anything but the pipe: the write accepts all \<open>n\<close> bytes, the read returns \<open>n\<close>, the bytes in the reader's address
  space are those of the writer's, the rest of the reader's memory is unchanged, and the pipe is empty again.
\<close>

theorem pipe_transfer:
  assumes "calm pr s" "pipe_inv (pipes s pi)" "readopen (pipes s pi)" "\<not> pkilled (procs s pr)"
    and n: "0 < n" "n \<le> int PIPESIZE" and free: "pipe_queued (pipes s pi) = []"
    and src: "\<forall>j < nat n. mapped (mem s) (pagetable (procs s pr)) (src + of_nat j)"
  shows "\<exists>t. pipewrite pi src n s = Ok (n, t) \<and> (\<forall>t' rd. let rpt = pagetable (procs t' rd) in
     pipes t' pi = pipes t pi \<longrightarrow> calm rd t' \<longrightarrow> space_ok (mem t') rpt \<longrightarrow> (\<forall>j < nat n. writable (mem t') rpt (dst + of_nat j))
     \<longrightarrow> (\<exists>u. piperead pi dst n t' = Ok (n, u) \<and> pipe_queued (pipes u pi) = []
           \<and> stored rpt dst (user_bytes (mem s) (pagetable (procs s pr)) src (nat n)) (mem t') (mem u)))"
proof -
  let ?bs = "user_bytes (mem s) (pagetable (procs s pr)) src (nat n)"
  have z: "0 \<le> n" "length (pipe_queued (pipes s pi)) + nat n \<le> PIPESIZE" using n free by auto
  obtain t where t: "pipewrite pi src n s = Ok (n, t)" "pipe_inv (pipes t pi)" "pipe_queued (pipes t pi) = ?bs"
    using pipewrite_fits [OF assms(1-4) z(1,2) src] free by auto
  have ne: "?bs \<noteq> []" using n by (simp flip: length_greater_0_conv)
  have "\<exists>u. piperead pi dst n t' = Ok (n, u) \<and> pipe_queued (pipes u pi) = [] \<and> stored (pagetable (procs t' rd)) dst ?bs (mem t') (mem u)"
    if r: "pipes t' pi = pipes t pi" "calm rd t'" "space_ok (mem t') (pagetable (procs t' rd))"
      "\<forall>j < nat n. writable (mem t') (pagetable (procs t' rd)) (dst + of_nat j)" for t' rd
  proof -
    obtain m u where u: "piperead pi dst n t' = Ok (int m, awakened (PipeWrite pi) rd u)" "delivered rd pi dst (nat n) t' m u"
      using piperead_some [of rd t' pi] r t(2,3) ne by metis
    have "pipe_queued (pipes t' pi) = ?bs" using r(1) t(3) by simp
    with u(2) r(4) have "m = nat n" "pipe_queued (pipes u pi) = []" "stored (pagetable (procs t' rd)) dst ?bs (mem t') (mem u)"
      by (auto simp: delivered_def Let_def)
    with u(1) n show ?thesis by (intro exI [of _ "awakened (PipeWrite pi) rd u"]) simp
  qed
  with t(1) show ?thesis by (auto simp: Let_def)
qed

section \<open>A pipe in use\<close>

text \<open>
  A pipe whose counters are about to wrap around, between two calls of process 0, whose address space is the one
  of theory \<open>Ucopy\<close>'s example: one page, at 0.
\<close>

definition demo_pipe :: pipe where
  "demo_pipe = \<lparr>pdata = replicate 512 0, nread = 0xFFFFFFFF, nwrite = 0xFFFFFFFF, readopen = True, writeopen = True\<rparr>"

lemma demo_pipe_ok: "pipe_inv demo_pipe" "pipe_queued demo_pipe = []" "readopen demo_pipe"
  by (simp_all add: demo_pipe_def pipe_inv_def pipe_queued_def ring_ok_def ring_def)

lemma demo_pipes: "\<exists>(s :: pipefs) k fs. demo_ok k fs \<and> calm 0 s \<and> mem s = mem k \<and> pagetable (procs s 0) = 0x87e00000
   \<and> \<not> pkilled (procs s 0) \<and> pipes s 0x87e05000 = demo_pipe"
proof -
  obtain k fs where d: "demo_ok k fs" using demo_space by blast
  let ?s = "(undefined :: pipefs)\<lparr>tp := 0, sie := (\<lambda>_. True), cpus := (\<lambda>_. \<lparr>c_proc = Some 0, noff = 0, intena = True\<rparr>),
     locks := (\<lambda>_. \<lparr>locked = False, lk_name = [], lk_cpu = None\<rparr>), mem := mem k,
     procs := (\<lambda>_. undefined\<lparr>pagetable := 0x87e00000, pkilled := False\<rparr>), pipes := (\<lambda>_. demo_pipe)\<rparr>"
  have "calm 0 ?s" by (simp add: calm_def settled_def lock_free_def mycpu_def cpuid_def intr_get_def)
  then show ?thesis using d by (intro exI [of _ ?s] exI [of _ k] exI [of _ fs]) simp
qed

theorem pipe_fifo_witness:
  "pipe_inv demo_pipe \<and> (case pipeq.interleave [Put 1, Put 2, Get, Put 3, Get, Get, Get] demo_pipe of (ins, outs, p') \<Rightarrow>
     ins = [1, 2, 3] \<and> outs = ins \<and> pipe_queued p' = [] \<and> nread p' = 2)"
proof -
  have r: "pipeq.interleave [Put 1, Put 2, Get, Put 3, Get, Get, Get] demo_pipe
     = ([1, 2, 3], [1, 2, 3], demo_pipe\<lparr>pdata := (((replicate 512 0)[511 := 1])[0 := 2])[1 := 3], nread := 2, nwrite := 2\<rparr>)"
    by (simp add: demo_pipe_def pipe_put_def pipe_skip_def pipe_next_def pipe_full_def pipe_empty_def)
  show ?thesis using pipe_fifo [OF demo_pipe_ok(1), of "[Put 1, Put 2, Get, Put 3, Get, Get, Get]"] demo_pipe_ok(1,2)
    unfolding r by simp
qed


theorem pipe_transfer_witness:
  "\<exists>(s :: pipefs) t u. calm 0 s \<and> pipewrite 0x87e05000 0xFFE 2 s = Ok (2, t)
     \<and> piperead 0x87e05000 0x10 2 (s\<lparr>pipes := pipes t\<rparr>) = Ok (2, u)
     \<and> user_byte (mem u) 0x87e00000 0x10 = user_byte (mem s) 0x87e00000 0xFFE"
proof -
  obtain s :: pipefs and k fs where s: "demo_ok k fs" "calm 0 s" "mem s = mem k" "pagetable (procs s 0) = 0x87e00000"
    "\<not> pkilled (procs s 0)" "pipes s 0x87e05000 = demo_pipe" using demo_pipes by blast
  note p = demo_pipe_ok [folded s(6)]
  have pg: "j < nat 2 \<Longrightarrow> PGROUNDDOWN (0xFFE + of_nat j) = 0 \<and> PGROUNDDOWN (0x10 + of_nat j) = 0" for j
    by (auto simp: PGROUNDDOWN_def less_2_cases_iff)
  have src: "\<forall>j < nat 2. mapped (mem s) (pagetable (procs s 0)) (0xFFE + of_nat j)"
    and dst: "\<forall>j < nat 2. writable (mem s) 0x87e00000 (0x10 + of_nat j)"
    using pg by (auto simp: s(3,4) demo_user [OF s(1)])
  from pipe_transfer [OF s(2) p(1,3) s(5) _ _ p(2) src, of "0x10"] obtain t where
    t: "pipewrite 0x87e05000 0xFFE 2 s = Ok (2, t)"
    and r: "\<forall>(t' :: pipefs) rd. let rpt = pagetable (procs t' rd) in
       pipes t' 0x87e05000 = pipes t 0x87e05000 \<longrightarrow> calm rd t' \<longrightarrow> space_ok (mem t') rpt \<longrightarrow> (\<forall>j < nat 2. writable (mem t') rpt (0x10 + of_nat j))
       \<longrightarrow> (\<exists>u. piperead 0x87e05000 0x10 2 t' = Ok (2, u) \<and> pipe_queued (pipes u 0x87e05000) = []
           \<and> stored rpt 0x10 (user_bytes (mem s) (pagetable (procs s 0)) 0xFFE (nat 2)) (mem t') (mem u))" by auto
  let ?r = "s\<lparr>pipes := pipes t\<rparr>"
  have "calm 0 ?r" using s(2) by (simp add: calm_def settled_def lock_free_def mycpu_def cpuid_def intr_get_def)
  then obtain u where u: "piperead 0x87e05000 0x10 2 ?r = Ok (2, u)" "stored 0x87e00000 0x10 (user_bytes (mem s) 0x87e00000 0xFFE 2) (mem s) (mem u)"
    using r [THEN spec, of ?r, THEN spec, of 0] dst demo_user(1) [OF s(1)] by (auto simp: Let_def s(3,4))
  moreover have "user_page (mem s) 0x87e00000 0x10 \<noteq> None" by (simp add: s(3) demo_user(2) [OF s(1)] PGROUNDDOWN_def)
  ultimately have "user_byte (mem u) 0x87e00000 0x10 = user_bytes (mem s) 0x87e00000 0xFFE 2 ! 0" by (simp add: stored_def)
  then show ?thesis using t u(1) s(2) by (auto simp: user_bytes_nth)
qed

end
