(* ===== verification/Uart.thy ===== *)
theory Uart
  imports Pipe
begin

text \<open>
  The driver of the 16550a UART (\<^verbatim>\<open>kernel/uart.c\<close>; \<open>uartintr\<close>, which hands the input to the console,
  is in theory \<open>Console\<close>). The device is outside the program: the values it will deliver when the line
  status register LSR and the receive register RHR are read next are lists in the state, and the
  values the driver stores in registers are recorded in order. A driver loop that polls beyond the
  end of these lists waits for the device.
\<close>

section \<open>State\<close>

abbreviation (input) THR :: nat where "THR \<equiv> 0"
abbreviation (input) IER :: nat where "IER \<equiv> 1"
abbreviation (input) FCR :: nat where "FCR \<equiv> 2"
abbreviation (input) LCR :: nat where "LCR \<equiv> 3"
abbreviation (input) UART_TX_BUF_SIZE :: nat where "UART_TX_BUF_SIZE \<equiv> 32"
abbreviation (input) INPUT_BUF_SIZE :: nat where "INPUT_BUF_SIZE \<equiv> 128"

definition LSR_RX_READY :: byte where "LSR_RX_READY = push_bit 0 1"
definition LSR_TX_IDLE :: byte where "LSR_TX_IDLE = push_bit 5 1"

text \<open>
  The variables of \<^verbatim>\<open>uart.c\<close>, of \<^verbatim>\<open>printf.c\<close> (\<open>panicked\<close>, \<open>pr.locking\<close>) and of \<^verbatim>\<open>console.c\<close> (\<open>cons\<close>).
\<close>

record tty = pipefs +
  lsr_in :: "byte list"
  rhr_in :: "byte list"
  uart_wr :: "(nat \<times> byte) list"
  uart_tx_buf :: "byte list"
  uart_tx_w :: uint64
  uart_tx_r :: uint64
  panicked :: bool
  pr_locking :: bool
  cons_buf :: "byte list"
  cons_r :: uint
  cons_w :: uint
  cons_e :: uint

definition WriteReg :: "nat \<Rightarrow> byte \<Rightarrow> 'z tty_scheme \<Rightarrow> 'z tty_scheme" where
  "WriteReg reg v s = s\<lparr>uart_wr := uart_wr s @ [(reg, v)]\<rparr>"

definition ReadLSR :: "'z tty_scheme \<Rightarrow> (byte \<times> 'z tty_scheme) res" where
  "ReadLSR s = (case lsr_in s of [] \<Rightarrow> Wait | v # vs \<Rightarrow> Ok (v, s\<lparr>lsr_in := vs\<rparr>))"

definition ReadRHR :: "'z tty_scheme \<Rightarrow> (byte \<times> 'z tty_scheme) res" where
  "ReadRHR s = (case rhr_in s of [] \<Rightarrow> Wait | v # vs \<Rightarrow> Ok (v, s\<lparr>rhr_in := vs\<rparr>))"

section \<open>The driver\<close>

definition uartinit :: "'z tty_scheme \<Rightarrow> 'z tty_scheme" where
  "uartinit s =
     initlock UartLock ''uart''
       (WriteReg IER 3 (WriteReg FCR 7 (WriteReg LCR 3 (WriteReg 1 0 (WriteReg 0 3
         (WriteReg LCR 0x80 (WriteReg IER 0 s)))))))"

text \<open>
  The loop of \<open>uartstart\<close>; its first argument is the list of the coming values of LSR, of which each
  round takes one.
\<close>

fun uartstart_loop :: "byte list \<Rightarrow> 'z tty_scheme \<Rightarrow> 'z tty_scheme res" where
  "uartstart_loop [] s = (if uart_tx_w s = uart_tx_r s then Ok s else Wait)"
| "uartstart_loop (l # ls) s =
     (if uart_tx_w s = uart_tx_r s then Ok s
      else let s1 = s\<lparr>lsr_in := ls\<rparr> in
        if l AND LSR_TX_IDLE = 0 then Ok s1
        else let c = uart_tx_buf s1 ! (unat (uart_tx_r s1) mod UART_TX_BUF_SIZE) in
          andthen (wakeup (Some UartChan) (s1\<lparr>uart_tx_r := uart_tx_r s1 + 1\<rparr>)) (\<lambda>s2.
          uartstart_loop ls (WriteReg THR c s2)))"

definition uartstart :: "'z tty_scheme \<Rightarrow> 'z tty_scheme res" where
  "uartstart s = uartstart_loop (lsr_in s) s"

definition uartputc :: "byte \<Rightarrow> 'z tty_scheme \<Rightarrow> 'z tty_scheme res" where
  "uartputc c s =
     andthen (acquire UartLock s) (\<lambda>s1.
     if panicked s1 then Wait
     else if uart_tx_w s1 = uart_tx_r s1 + of_nat UART_TX_BUF_SIZE then sleep UartChan UartLock s1
     else andthen (uartstart
            (s1\<lparr>uart_tx_buf := (uart_tx_buf s1)[unat (uart_tx_w s1) mod UART_TX_BUF_SIZE := c],
                uart_tx_w := uart_tx_w s1 + 1\<rparr>))
          (release UartLock))"

text \<open>The polling loop of \<open>uartputc_sync\<close>: it ends at the first value of LSR with the idle bit.\<close>

fun poll_tx :: "byte list \<Rightarrow> 'z tty_scheme \<Rightarrow> 'z tty_scheme res" where
  "poll_tx [] s = Wait"
| "poll_tx (l # ls) s = (if l AND LSR_TX_IDLE = 0 then poll_tx ls s else Ok (s\<lparr>lsr_in := ls\<rparr>))"

definition uartputc_sync :: "byte \<Rightarrow> 'z tty_scheme \<Rightarrow> 'z tty_scheme res" where
  "uartputc_sync c s =
     (let s1 = push_off s in
      if panicked s1 then Wait
      else andthen (poll_tx (lsr_in s1) s1) (\<lambda>s2. pop_off (WriteReg THR c s2)))"

definition uartgetc :: "'z tty_scheme \<Rightarrow> (int \<times> 'z tty_scheme) res" where
  "uartgetc s =
     andthen (ReadLSR s) (\<lambda>(l, s1).
     if l AND LSR_RX_READY \<noteq> 0 then andthen (ReadRHR s1) (\<lambda>(c, s2). Ok (uint c, s2)) else Ok (-1, s1))"

section \<open>The output buffer is a queue\<close>

text \<open>The characters the driver has given to the device, and those that wait in the buffer.\<close>

definition sent :: "'z tty_scheme \<Rightarrow> byte list" where
  "sent s = map snd (filter (\<lambda>w. fst w = THR) (uart_wr s))"

definition tx_queue :: "'z tty_scheme \<Rightarrow> byte list" where
  "tx_queue s = ring (uart_tx_buf s) (uart_tx_r s) (uart_tx_w s)"

definition tx_inv :: "'z tty_scheme \<Rightarrow> bool" where
  "tx_inv s \<longleftrightarrow> ring_ok UART_TX_BUF_SIZE (uart_tx_buf s) (uart_tx_r s) (uart_tx_w s)"

interpretation uartq: tight_fifo tx_inv tx_queue UART_TX_BUF_SIZE
  "\<lambda>s. uart_tx_w s = uart_tx_r s + of_nat UART_TX_BUF_SIZE"
  "\<lambda>s. uart_tx_w s = uart_tx_r s"
  "\<lambda>c s. s\<lparr>uart_tx_buf := (uart_tx_buf s)[unat (uart_tx_w s) mod UART_TX_BUF_SIZE := c], uart_tx_w := uart_tx_w s + 1\<rparr>"
  "\<lambda>s. uart_tx_buf s ! (unat (uart_tx_r s) mod UART_TX_BUF_SIZE)"
  "\<lambda>s. s\<lparr>uart_tx_r := uart_tx_r s + 1\<rparr>"
proof unfold_locales
  fix s :: "'a tty_scheme" and c :: byte
  assume inv: "tx_inv s"
  note ok = inv [unfolded tx_inv_def]
  show "length (tx_queue s) \<le> UART_TX_BUF_SIZE" using ok by (simp add: tx_queue_def ring_ok_def)
  show "uart_tx_w s = uart_tx_r s + of_nat UART_TX_BUF_SIZE \<longleftrightarrow> length (tx_queue s) = UART_TX_BUF_SIZE"
    using ring_full_iff [OF ok] unfolding tx_queue_def by blast
  show "uart_tx_w s = uart_tx_r s \<longleftrightarrow> tx_queue s = []"
    using ring_empty_iff [of "uart_tx_r s" "uart_tx_w s" "uart_tx_buf s"] by (auto simp: tx_queue_def)
  { assume "uart_tx_w s \<noteq> uart_tx_r s + of_nat UART_TX_BUF_SIZE"
    note room = ring_room [OF ok this]
    let ?t = "s\<lparr>uart_tx_buf := (uart_tx_buf s)[unat (uart_tx_w s) mod UART_TX_BUF_SIZE := c], uart_tx_w := uart_tx_w s + 1\<rparr>"
    show "tx_inv ?t" "tx_queue ?t = tx_queue s @ [c]" using ring_put [OF ok room, of c] by (simp_all add: tx_inv_def tx_queue_def) }
  { assume "uart_tx_w s \<noteq> uart_tx_r s"
    then have ne: "uart_tx_r s \<noteq> uart_tx_w s" by simp
    let ?t = "s\<lparr>uart_tx_r := uart_tx_r s + 1\<rparr>"
    show "tx_inv ?t" "tx_queue s = uart_tx_buf s ! (unat (uart_tx_r s) mod UART_TX_BUF_SIZE) # tx_queue ?t"
      using ring_get [OF ok ne] by (simp_all add: tx_inv_def tx_queue_def) }
qed simp

text \<open>The device is ready for as many characters as its next answers say so in a row.\<close>

definition accepts :: "byte list \<Rightarrow> nat" where
  "accepts vs = length (takeWhile (\<lambda>l. l AND LSR_TX_IDLE \<noteq> 0) vs)"

definition flushed :: "nat \<Rightarrow> byte list \<Rightarrow> 'z tty_scheme \<Rightarrow> 'z tty_scheme \<Rightarrow> bool" where
  "flushed k q s t \<longleftrightarrow> tx_inv t \<and> sent t = sent s @ take k q \<and> tx_queue t = drop k q
     \<and> settled t \<and> (\<forall>l. lock_free l t = lock_free l s) \<and> cur t = cur s \<and> panicked t = panicked s
     \<and> procs t = (if 0 < k \<and> q \<noteq> [] then woken (Some UartChan) (cur s) (procs s) else procs s)"

lemma hold_uart [simp]:
  "uart_tx_w (hold l s) = uart_tx_w s" "uart_tx_r (hold l s) = uart_tx_r s" "uart_tx_buf (hold l s) = uart_tx_buf s"
  "lsr_in (hold l s) = lsr_in s" "uart_wr (hold l s) = uart_wr s" "panicked (hold l s) = panicked s"
  "(hold l s)\<lparr>lsr_in := vs\<rparr> = hold l (s\<lparr>lsr_in := vs\<rparr>)" "(hold l s)\<lparr>uart_tx_r := r\<rparr> = hold l (s\<lparr>uart_tx_r := r\<rparr>)"
  "(hold l s)\<lparr>uart_tx_w := r\<rparr> = hold l (s\<lparr>uart_tx_w := r\<rparr>)" "(hold l s)\<lparr>uart_tx_buf := b\<rparr> = hold l (s\<lparr>uart_tx_buf := b\<rparr>)"
  "WriteReg reg v (hold l s) = hold l (WriteReg reg v s)"
  by (simp_all add: hold_def WriteReg_def)

lemma mach_uart [simp]:
  "settled (s\<lparr>lsr_in := vs\<rparr>) = settled s" "settled (s\<lparr>uart_tx_r := r\<rparr>) = settled s" "settled (s\<lparr>uart_tx_w := r\<rparr>) = settled s"
  "settled (s\<lparr>uart_tx_buf := b\<rparr>) = settled s" "settled (WriteReg reg v s) = settled s" "settled (s\<lparr>procs := ps\<rparr>) = settled s"
  "lock_free l (s\<lparr>lsr_in := vs\<rparr>) = lock_free l s" "lock_free l (s\<lparr>uart_tx_r := r\<rparr>) = lock_free l s" "lock_free l (s\<lparr>uart_tx_w := r\<rparr>) = lock_free l s"
  "lock_free l (s\<lparr>uart_tx_buf := b\<rparr>) = lock_free l s" "lock_free l (WriteReg reg v s) = lock_free l s" "lock_free l (s\<lparr>procs := ps\<rparr>) = lock_free l s"
  by (simp_all add: settled_def lock_free_def mycpu_def cpuid_def intr_get_def WriteReg_def)

lemma woken_twice: "woken ch me (woken ch me ps) = woken ch me ps"
  by (auto simp: woken_def wake1_def fun_eq_iff)

lemma flushed_step:
  assumes "flushed (min k (length q)) q u t" "sent u = sent s @ [c]" "cur u = cur s" "panicked u = panicked s"
    "procs u = woken (Some UartChan) (cur s) (procs s)" "\<And>l. lock_free l u = lock_free l s"
  shows "flushed (min (Suc k) (length (c # q))) (c # q) s t"
  using assms by (simp add: flushed_def woken_twice)

lemma uartstart_loop_ok:
  "tx_inv s \<Longrightarrow> settled s \<Longrightarrow> (\<And>l. lock_free l s) \<Longrightarrow> length (tx_queue s) \<le> length vs \<or> accepts vs < length vs \<Longrightarrow>
   \<exists>t. uartstart_loop vs (hold UartLock s) = Ok (hold UartLock t) \<and> flushed (min (accepts vs) (length (tx_queue s))) (tx_queue s) s t"
proof (induction vs arbitrary: s)
  case Nil
  then have "tx_queue s = []" by (simp add: accepts_def)
  then have "uart_tx_w s = uart_tx_r s" using uartq.vacant_iff [OF Nil.prems(1)] by simp
  then show ?case using Nil \<open>tx_queue s = []\<close> by (auto simp: flushed_def)
next
  case (Cons v vs)
  show ?case
  proof (cases "uart_tx_w s = uart_tx_r s")
    case True
    then have "tx_queue s = []" using uartq.vacant_iff [OF Cons.prems(1)] by simp
    then show ?thesis using True Cons.prems by (auto simp: flushed_def)
  next
    case ne: False
    note q = uartq.skip_inv [OF Cons.prems(1) ne] uartq.skip_queued [OF Cons.prems(1) ne]
    let ?c = "uart_tx_buf s ! (unat (uart_tx_r s) mod UART_TX_BUF_SIZE)"
    show ?thesis
    proof (cases "v AND LSR_TX_IDLE = 0")
      case True
      let ?t = "s\<lparr>lsr_in := vs\<rparr>"
      have "uartstart_loop (v # vs) (hold UartLock s) = Ok (hold UartLock ?t)" using ne True by simp
      moreover have "flushed (min (accepts (v # vs)) (length (tx_queue s))) (tx_queue s) s ?t"
        using True Cons.prems by (auto simp: flushed_def accepts_def tx_inv_def tx_queue_def sent_def mycpu_def cpuid_def)
      ultimately show ?thesis by blast
    next
      case False
      let ?s1 = "s\<lparr>lsr_in := vs, uart_tx_r := uart_tx_r s + 1\<rparr>"
      let ?s2 = "WriteReg THR ?c (?s1\<lparr>procs := woken (Some UartChan) (cur s) (procs s)\<rparr>)"
      have "cur ?s1 = cur s" by (simp add: mycpu_def cpuid_def)
      then have wk: "wakeup (Some UartChan) (hold UartLock ?s1) = Ok (hold UartLock (?s1\<lparr>procs := woken (Some UartChan) (cur s) (procs s)\<rparr>))"
        using woken_hold [of ?s1 UartLock "Some UartChan"] Cons.prems(2,3) by simp
      have step: "uartstart_loop (v # vs) (hold UartLock s) = uartstart_loop vs (hold UartLock ?s2)"
        using ne False wk by (simp add: Let_def)
      have qs: "tx_queue s = ?c # tx_queue ?s2" "tx_inv ?s2" using q by (simp_all add: tx_queue_def tx_inv_def WriteReg_def)
      have acc: "accepts (v # vs) = Suc (accepts vs)" using False by (simp add: accepts_def)
      have "settled ?s2" "\<And>l. lock_free l ?s2" "length (tx_queue ?s2) \<le> length vs \<or> accepts vs < length vs"
        using Cons.prems(2-4) qs(1) acc by auto
      from Cons.IH [OF qs(2) this] obtain t where
        t: "uartstart_loop vs (hold UartLock ?s2) = Ok (hold UartLock t)"
           "flushed (min (accepts vs) (length (tx_queue ?s2))) (tx_queue ?s2) ?s2 t" by blast
      have f2: "sent ?s2 = sent s @ [?c]" "cur ?s2 = cur s" "procs ?s2 = woken (Some UartChan) (cur s) (procs s)" "panicked ?s2 = panicked s"
        by (simp_all add: sent_def WriteReg_def mycpu_def cpuid_def)
      have "flushed (min (accepts (v # vs)) (length (tx_queue s))) (tx_queue s) s t"
        unfolding acc qs(1) by (rule flushed_step [OF t(2) f2(1,2,4,3)]) simp
      then show ?thesis using step t(1) by auto
    qed
  qed
qed


text \<open>
  C22. Console output is a queue: \<open>uartputc\<close> adds its character behind those that wait and then passes to the device, in order,
  as many as the device is ready for, so the characters sent followed by those in the buffer are always
  those written; it wakes writers that sleep when it has made room. It returns whenever there is room in the
  buffer and the device answers; with 32 characters waiting it goes to sleep.
\<close>

theorem uartputc_correct:
  assumes "calm p s" "noff (mycpu s) = 0" "tx_inv s" "\<not> panicked s"
  shows "if length (tx_queue s) = UART_TX_BUF_SIZE then uartputc c s = Wait
    else length (tx_queue s) < length (lsr_in s) \<longrightarrow>
      (\<exists>t. uartputc c s = Ok t \<and> flushed (min (accepts (lsr_in s)) (Suc (length (tx_queue s)))) (tx_queue s @ [c]) s t)"
proof (cases "length (tx_queue s) = UART_TX_BUF_SIZE")
  case True
  then have "uart_tx_w s = uart_tx_r s + of_nat UART_TX_BUF_SIZE" using uartq.full_iff [OF assms(3)] by simp
  then have "uartputc c s = sleep UartChan UartLock (hold UartLock s)" using assms(1,4) by (simp add: uartputc_def calm_simps)
  moreover have "sleep UartChan UartLock (hold UartLock s) = Wait" using assms(1,2) by (rule sleep_Wait) simp
  ultimately show ?thesis using True by simp
next
  case False
  then have room: "uart_tx_w s \<noteq> uart_tx_r s + of_nat UART_TX_BUF_SIZE" using uartq.full_iff [OF assms(3)] by simp
  let ?s = "s\<lparr>uart_tx_buf := (uart_tx_buf s)[unat (uart_tx_w s) mod UART_TX_BUF_SIZE := c], uart_tx_w := uart_tx_w s + 1\<rparr>"
  note q = uartq.put_inv [OF assms(3) room, of c] uartq.put_queued [OF assms(3) room, of c]
  have "\<exists>t. uartputc c s = Ok t \<and> flushed (min (accepts (lsr_in s)) (Suc (length (tx_queue s)))) (tx_queue s @ [c]) s t"
    if len: "length (tx_queue s) < length (lsr_in s)"
  proof -
    have pre: "settled ?s" "\<And>l. lock_free l ?s" "length (tx_queue ?s) \<le> length (lsr_in s) \<or> accepts (lsr_in s) < length (lsr_in s)"
      using calm_mach [OF assms(1)] len q(2) by simp_all
    from uartstart_loop_ok [OF q(1) pre] obtain t where
      t: "uartstart_loop (lsr_in s) (hold UartLock ?s) = Ok (hold UartLock t)"
        "flushed (min (accepts (lsr_in s)) (length (tx_queue ?s))) (tx_queue ?s) ?s t" by blast
    have "flushed (min (accepts (lsr_in s)) (Suc (length (tx_queue s)))) (tx_queue s @ [c]) s t"
      using t(2) unfolding q(2) by (simp add: flushed_def sent_def mycpu_def cpuid_def)
    moreover have "release UartLock (hold UartLock t) = Ok t"
      using t(2) pre(2) by (intro release_ok) (simp_all add: flushed_def)
    ultimately show ?thesis using t(1) room assms(1,4) by (simp add: uartputc_def uartstart_def calm_simps)
  qed
  then show ?thesis using False by simp
qed


text \<open>Two characters wait in the buffer, at the end of the array; the device takes one more and is then busy.\<close>

theorem uartputc_correct_witness:
  "\<exists>(s :: tty) t. tx_inv s \<and> tx_queue s = [0x61, 0x62] \<and> uartputc 0x63 s = Ok t \<and> tx_queue t = [0x62, 0x63] \<and> tx_inv t"
proof -
  let ?s = "(undefined :: tty)\<lparr>tp := 0, sie := (\<lambda>_. True), cpus := (\<lambda>_. \<lparr>c_proc = Some 0, noff = 0, intena = True\<rparr>),
     locks := (\<lambda>_. \<lparr>locked = False, lk_name = [], lk_cpu = None\<rparr>), panicked := False, lsr_in := [0x20, 0, 0],
     uart_tx_buf := 0x62 # replicate 30 0 @ [0x61], uart_tx_r := 31, uart_tx_w := 33\<rparr>"
  have q: "tx_queue ?s = [0x61, 0x62]" by (simp add: tx_queue_def ring_def upt_conv_Cons nth_append)
  have "calm 0 ?s" "noff (mycpu ?s) = 0" by (simp_all add: calm_def settled_def lock_free_def mycpu_def cpuid_def intr_get_def)
  moreover have inv: "tx_inv ?s" by (simp add: tx_inv_def ring_ok_def)
  moreover have "\<not> panicked ?s" "accepts (lsr_in ?s) = 1" by (simp_all add: accepts_def LSR_TX_IDLE_def)
  ultimately obtain t where "uartputc 0x63 ?s = Ok t" "flushed 1 [0x61, 0x62, 0x63] ?s t"
    using uartputc_correct [of 0 ?s "0x63"] q by auto
  then show ?thesis using q inv by - (rule exI [of _ ?s], auto simp: flushed_def)
qed

end
