(* ===== verification/Printf.thy ===== *)
theory Printf
  imports Uart
begin

text \<open>
  Formatted output to the console (\<^verbatim>\<open>kernel/printf.c\<close>, \<open>consputc\<close> of \<^verbatim>\<open>kernel/console.c\<close> and \<open>procdump\<close> of
  \<^verbatim>\<open>kernel/proc.c\<close>). A format is the list of its characters without the NUL. An argument of \<open>printf\<close> is
  a 64-bit register, or a string.
\<close>

datatype varg = VWord uint64 | VStr "byte list option"

definition chars :: "string \<Rightarrow> byte list" where
  "chars cs = map of_char cs"

text \<open>\<open>consputc\<close> takes an \<open>int\<close>, so that \<open>BACKSPACE\<close> is not a character.\<close>

datatype outchar = Ch byte | BACKSPACE

definition consputc :: "outchar \<Rightarrow> 'z tty_scheme \<Rightarrow> 'z tty_scheme res" where
  "consputc c s =
     (case c of
        BACKSPACE \<Rightarrow> andthen (uartputc_sync 8 s) (\<lambda>s1. andthen (uartputc_sync 0x20 s1) (uartputc_sync 8))
      | Ch b \<Rightarrow> uartputc_sync b s)"

definition putchars :: "byte list \<Rightarrow> 'z tty_scheme \<Rightarrow> 'z tty_scheme res" where
  "putchars bs = for_each bs (\<lambda>b. consputc (Ch b))"

section \<open>Numbers\<close>

definition digits :: "byte list" where
  "digits = chars ''0123456789abcdef''"

text \<open>
  The digits of \<open>x\<close>, lowest first: the \<open>do \<dots> while\<close> loop of \<open>printint\<close> (the bases in use are 10 and 16).
\<close>

lemma word_div_smaller:
  fixes x b :: uint64
  assumes "\<not> (x div b = 0 \<or> b < 2)"
  shows "unat (x div b) < unat x"
proof -
  have "1 < unat b" using assms by (simp add: word_less_nat_alt)
  moreover have "x \<noteq> 0" using assms by auto
  then have "0 < unat x" by (simp add: unat_gt_0)
  ultimately show ?thesis by (simp add: unat_div)
qed

function printint_loop :: "uint64 \<Rightarrow> uint64 \<Rightarrow> byte list \<Rightarrow> byte list" where
  "printint_loop x base buf =
     (let buf' = buf @ [digits ! unat (x mod base)] in
      if x div base = 0 \<or> base < 2 then buf' else printint_loop (x div base) base buf')"
  by pat_completeness auto
termination
  by (relation "measure (\<lambda>(x, base, buf). unat x)") (auto simp only: in_measure split_conv intro: word_div_smaller)

declare printint_loop.simps [simp del]

text \<open>
  The characters \<open>printint\<close> leaves in \<open>buf\<close>, in reverse order of printing. The array has 16 elements;
  storing a 17th one has no meaning in C.
\<close>

definition printint_buf :: "uint64 \<Rightarrow> uint64 \<Rightarrow> bool \<Rightarrow> byte list" where
  "printint_buf xx base sign =
     (let neg = (sign \<and> xx <s 0); x = (if neg then - xx else xx); buf = printint_loop x base [] in
      if neg then buf @ [of_char (CHR ''-'')] else buf)"

definition printint :: "uint64 \<Rightarrow> uint64 \<Rightarrow> bool \<Rightarrow> 'z tty_scheme \<Rightarrow> 'z tty_scheme res" where
  "printint xx base sign s =
     (let buf = printint_buf xx base sign in
      if length buf > 16 then Panic ''undefined: buf[i]'' else putchars (rev buf) s)"

definition printptr_chars :: "uint64 \<Rightarrow> byte list" where
  "printptr_chars x =
     chars ''0x'' @ map (\<lambda>i. digits ! unat (drop_bit 60 (push_bit (4 * i) x))) [0..<16]"

definition printptr :: "uint64 \<Rightarrow> 'z tty_scheme \<Rightarrow> 'z tty_scheme res" where
  "printptr x s = putchars (printptr_chars x) s"

section \<open>Formats\<close>

text \<open>
  What follows a percent sign: the conversion, how many characters it takes, and how the argument
  is read.
\<close>

datatype conv = CInt uint64 bool | CLong uint64 bool | CPtr | CStr | CPercent | CUnknown byte

text \<open>The chain of tests on \<open>c0\<close>, \<open>c1\<close>, \<open>c2\<close>; the second component is the number of characters after the percent sign.\<close>

definition conversion :: "byte list \<Rightarrow> (conv \<times> nat) option" where
  "conversion rest =
     (let c0 = chr0 rest;
          c1 = (if c0 \<noteq> 0 then chr0 (tl rest) else 0);
          c2 = (if c1 \<noteq> 0 then chr0 (tl (tl rest)) else 0);
          d = of_char (CHR ''d''); l = of_char (CHR ''l''); u = of_char (CHR ''u''); x = of_char (CHR ''x'') in
      if c0 = d then Some (CInt 10 True, 1)
      else if c0 = l \<and> c1 = d then Some (CLong 10 True, 2)
      else if c0 = l \<and> c1 = l \<and> c2 = d then Some (CLong 10 True, 3)
      else if c0 = u then Some (CInt 10 False, 1)
      else if c0 = l \<and> c1 = u then Some (CLong 10 False, 2)
      else if c0 = l \<and> c1 = l \<and> c2 = u then Some (CLong 10 False, 3)
      else if c0 = x then Some (CInt 16 False, 1)
      else if c0 = l \<and> c1 = x then Some (CLong 16 False, 2)
      else if c0 = l \<and> c1 = l \<and> c2 = x then Some (CLong 16 False, 3)
      else if c0 = of_char (CHR ''p'') then Some (CPtr, 1)
      else if c0 = of_char (CHR ''s'') then Some (CStr, 1)
      else if c0 = 0x25 then Some (CPercent, 1)
      else if c0 = 0 then None
      else Some (CUnknown c0, 1))"

text \<open>\<open>va_arg\<close>: the next argument; reading more arguments than were passed has no meaning in C.\<close>

definition va_word :: "varg list \<Rightarrow> (uint64 \<times> varg list) res" where
  "va_word ap = (case ap of VWord w # ap' \<Rightarrow> Ok (w, ap') | _ \<Rightarrow> Panic ''undefined: va_arg'')"

definition va_str :: "varg list \<Rightarrow> (byte list option \<times> varg list) res" where
  "va_str ap = (case ap of VStr p # ap' \<Rightarrow> Ok (p, ap') | _ \<Rightarrow> Panic ''undefined: va_arg'')"

text \<open>\<open>va_arg(ap, int)\<close> passed on as a \<open>long long\<close> is sign-extended.\<close>

definition print_conv :: "conv \<Rightarrow> varg list \<Rightarrow> 'z tty_scheme \<Rightarrow> (varg list \<times> 'z tty_scheme) res" where
  "print_conv c ap s =
     (case c of
        CInt base sign \<Rightarrow> andthen (va_word ap) (\<lambda>(w, ap').
          andthen (printint (scast (ucast w :: uint)) base sign s) (\<lambda>s1. Ok (ap', s1)))
      | CLong base sign \<Rightarrow> andthen (va_word ap) (\<lambda>(w, ap').
          andthen (printint w base sign s) (\<lambda>s1. Ok (ap', s1)))
      | CPtr \<Rightarrow> andthen (va_word ap) (\<lambda>(w, ap'). andthen (printptr w s) (\<lambda>s1. Ok (ap', s1)))
      | CStr \<Rightarrow> andthen (va_str ap) (\<lambda>(p, ap').
          andthen (putchars (case p of None \<Rightarrow> chars ''(null)'' | Some cs \<Rightarrow> cs) s) (\<lambda>s1. Ok (ap', s1)))
      | CPercent \<Rightarrow> andthen (consputc (Ch 0x25) s) (\<lambda>s1. Ok (ap, s1))
      | CUnknown c0 \<Rightarrow> andthen (consputc (Ch 0x25) s) (\<lambda>s1. andthen (consputc (Ch c0) s1) (\<lambda>s2. Ok (ap, s2))))"

lemma conversion_consumes: "conversion rest = Some (c, n) \<Longrightarrow> 0 < n"
  by (auto simp: conversion_def Let_def split: if_splits)

function printf_loop :: "byte list \<Rightarrow> varg list \<Rightarrow> 'z tty_scheme \<Rightarrow> 'z tty_scheme res" where
  "printf_loop [] ap s = Ok s"
| "printf_loop (cx # rest) ap s =
     (if cx \<noteq> 0x25 then andthen (consputc (Ch cx) s) (printf_loop rest ap)
      else case conversion rest of
             None \<Rightarrow> Ok s
           | Some (c, n) \<Rightarrow> andthen (print_conv c ap s) (\<lambda>(ap', s1). printf_loop (drop n rest) ap' s1))"
  by pat_completeness auto
termination
  by (relation "measure (\<lambda>(fmt, ap, s). length fmt)") auto

definition printf :: "byte list \<Rightarrow> varg list \<Rightarrow> 'z tty_scheme \<Rightarrow> 'z tty_scheme res" where
  "printf fmt ap s =
     (let locking = pr_locking s in
      andthen (if locking then acquire PrLock s else Ok s) (\<lambda>s1.
      andthen (printf_loop fmt ap s1) (\<lambda>s2.
      if locking then release PrLock s2 else Ok s2)))"

text \<open>\<open>panic\<close> up to its infinite loop.\<close>

definition panic :: "byte list \<Rightarrow> 'z tty_scheme \<Rightarrow> 'z tty_scheme res" where
  "panic msg s =
     andthen (printf (chars ''panic: '') [] (s\<lparr>pr_locking := False\<rparr>)) (\<lambda>s1.
     andthen (printf (chars ''%s'' @ [10]) [VStr (Some msg)] s1) (\<lambda>s2.
     Ok (s2\<lparr>panicked := True\<rparr>)))"

definition printfinit :: "'z tty_scheme \<Rightarrow> 'z tty_scheme" where
  "printfinit s = (initlock PrLock ''pr'' s)\<lparr>pr_locking := True\<rparr>"

section \<open>The process listing\<close>

definition state_name :: "procstate \<Rightarrow> string" where
  "state_name st =
     (case st of UNUSED \<Rightarrow> ''unused'' | USED \<Rightarrow> ''used'' | SLEEPING \<Rightarrow> ''sleep '' | RUNNABLE \<Rightarrow> ''runble''
      | RUNNING \<Rightarrow> ''run   '' | ZOMBIE \<Rightarrow> ''zombie'')"

definition procdump :: "'z tty_scheme \<Rightarrow> 'z tty_scheme res" where
  "procdump s =
     andthen (printf [10] [] s) (\<lambda>s1.
     for_each [0..<NPROC] (\<lambda>p s.
       let r = procs s p in
       if pstate r = UNUSED then Ok s
       else andthen (printf (chars ''%d %s %s'')
              [VWord (of_int (pid r)), VStr (Some (chars (state_name (pstate r)))),
               VStr (Some (takeWhile (\<lambda>c. c \<noteq> 0) (pname r)))] s)
            (printf [10] [])) s1)"

end
