(* ===== verification/Console.thy ===== *)
theory Console
  imports Printf
begin

text \<open>
  The console (\<^verbatim>\<open>kernel/console.c\<close>, and \<open>uartintr\<close> of \<^verbatim>\<open>kernel/uart.c\<close>): input is collected a line at a
  time in a ring buffer with a read, a write and an edit index, all 32 bits wide and never reduced.
\<close>

section \<open>Reading and writing\<close>

fun consolewrite_loop :: "source \<Rightarrow> int \<Rightarrow> nat \<Rightarrow> 'z tty_scheme \<Rightarrow> (int \<times> 'z tty_scheme) res" where
  "consolewrite_loop src i 0 s = Ok (i, s)"
| "consolewrite_loop src i (Suc k) s =
     andthen (either_copyin src 1 s) (\<lambda>(r, bs, s1).
     if r = -1 then Ok (i, s1)
     else andthen (uartputc (hd bs) s1) (consolewrite_loop (src_add src 1) (i + 1) k))"

definition consolewrite :: "source \<Rightarrow> int \<Rightarrow> 'z tty_scheme \<Rightarrow> (int \<times> 'z tty_scheme) res" where
  "consolewrite src n s = consolewrite_loop src 0 (nat n) s"

text \<open>
  The loop of \<open>consoleread\<close>, entered with the lock held and \<open>n\<close> of \<open>target\<close> bytes to go. It ends with the
  value of the function and the bytes delivered so far, or at the call of \<open>sleep\<close>.
\<close>

datatype cr = Got int | NoInput nat dest

fun consoleread_loop :: "nat \<Rightarrow> dest \<Rightarrow> nat \<Rightarrow> 'z tty_scheme \<Rightarrow> (cr \<times> byte list \<times> 'z tty_scheme) res" where
  "consoleread_loop target dst 0 s =
     andthen (release ConsLock s) (\<lambda>s1. Ok (Got (int target), [], s1))"
| "consoleread_loop target dst (Suc n) s =
     (if cons_r s = cons_w s
      then with_proc s (\<lambda>p s1. andthen (killed p s1) (\<lambda>(k, s2).
           if k then andthen (release ConsLock s2) (\<lambda>s3. Ok (Got (-1), [], s3))
           else Ok (NoInput (Suc n) dst, [], s2)))
      else let c = cons_buf s ! (unat (cons_r s) mod INPUT_BUF_SIZE); s1 = s\<lparr>cons_r := cons_r s + 1\<rparr> in
        if c = 4
        then andthen (release ConsLock (if Suc n < target then s1\<lparr>cons_r := cons_r s1 - 1\<rparr> else s1)) (\<lambda>s2.
             Ok (Got (int target - int (Suc n)), [], s2))
        else andthen (either_copyout dst [c] s1) (\<lambda>(r, s2).
             if r = -1
             then andthen (release ConsLock s2) (\<lambda>s3. Ok (Got (int target - int (Suc n)), [], s3))
             else if c = 10
             then andthen (release ConsLock s2) (\<lambda>s3. Ok (Got (int target - int n), [c], s3))
             else andthen (consoleread_loop target (dst_add dst 1) n s2) (\<lambda>(out, bs, s3).
                  Ok (out, c # bs, s3))))"

text \<open>A negative \<open>n\<close> skips the loop and is returned as \<open>target - n = 0\<close>.\<close>

definition consoleread :: "dest \<Rightarrow> int \<Rightarrow> 'z tty_scheme \<Rightarrow> (int \<times> 'z tty_scheme) res" where
  "consoleread dst n s =
     andthen (acquire ConsLock s) (\<lambda>s1.
     if n \<le> 0 then andthen (release ConsLock s1) (\<lambda>s2. Ok (0, s2))
     else andthen (consoleread_loop (nat n) dst (nat n) s1) (\<lambda>(out, bs, s2).
       case out of Got r \<Rightarrow> Ok (r, s2) | NoInput _ _ \<Rightarrow> sleep ConsChan ConsLock s2))"

section \<open>Input interrupts\<close>

text \<open>The loop that kills a line; the distance from \<open>cons.w\<close> to \<open>cons.e\<close> bounds its rounds.\<close>

fun kill_line :: "nat \<Rightarrow> 'z tty_scheme \<Rightarrow> 'z tty_scheme res" where
  "kill_line 0 s = Ok s"
| "kill_line (Suc k) s =
     (if cons_e s \<noteq> cons_w s \<and> cons_buf s ! (unat (cons_e s - 1) mod INPUT_BUF_SIZE) \<noteq> 10
      then andthen (consputc BACKSPACE (s\<lparr>cons_e := cons_e s - 1\<rparr>)) (kill_line k)
      else Ok s)"

definition consoleintr_default :: "byte \<Rightarrow> 'z tty_scheme \<Rightarrow> 'z tty_scheme res" where
  "consoleintr_default c s =
     (if c \<noteq> 0 \<and> cons_e s - cons_r s < of_nat INPUT_BUF_SIZE
      then let c = (if c = 13 then 10 else c) in
        andthen (consputc (Ch c) s) (\<lambda>s1.
        let s2 = s1\<lparr>cons_buf := (cons_buf s1)[unat (cons_e s1) mod INPUT_BUF_SIZE := c], cons_e := cons_e s1 + 1\<rparr> in
        if c = 10 \<or> c = 4 \<or> cons_e s2 - cons_r s2 = of_nat INPUT_BUF_SIZE
        then wakeup (Some ConsChan) (s2\<lparr>cons_w := cons_e s2\<rparr>)
        else Ok s2)
      else Ok s)"

definition consoleintr :: "byte \<Rightarrow> 'z tty_scheme \<Rightarrow> 'z tty_scheme res" where
  "consoleintr c s =
     andthen (acquire ConsLock s) (\<lambda>s1.
     andthen
       (if c = 16 then procdump s1
        else if c = 21 then kill_line (unat (cons_e s1 - cons_w s1)) s1
        else if c = 8 \<or> c = 0x7F
        then if cons_e s1 \<noteq> cons_w s1 then consputc BACKSPACE (s1\<lparr>cons_e := cons_e s1 - 1\<rparr>) else Ok s1
        else consoleintr_default c s1)
     (release ConsLock))"

text \<open>
  The input loop of \<open>uartintr\<close>. Each round reads LSR at least once, so the number of values the
  device has to offer bounds the number of rounds; the first argument is that bound.
\<close>

fun uartintr_loop :: "nat \<Rightarrow> 'z tty_scheme \<Rightarrow> 'z tty_scheme res" where
  "uartintr_loop 0 s = Wait"
| "uartintr_loop (Suc k) s =
     andthen (uartgetc s) (\<lambda>(c, s1).
     if c = -1 then Ok s1 else andthen (consoleintr (of_int c) s1) (uartintr_loop k))"

definition uartintr :: "'z tty_scheme \<Rightarrow> 'z tty_scheme res" where
  "uartintr s =
     andthen (uartintr_loop (length (lsr_in s)) s) (\<lambda>s1.
     andthen (acquire UartLock s1) (\<lambda>s2.
     andthen (uartstart s2) (release UartLock)))"

section \<open>Echoing\<close>

text \<open>The values of LSR in which the transmitter is idle are what lets a character out.\<close>

definition idles :: "'z tty_scheme \<Rightarrow> nat" where
  "idles s = length (filter (\<lambda>l. l AND LSR_TX_IDLE \<noteq> 0) (lsr_in s))"

text \<open>\<open>cs\<close> have been sent to the terminal by polling, and nothing else has happened.\<close>

definition echoed :: "byte list \<Rightarrow> 'z tty_scheme \<Rightarrow> 'z tty_scheme \<Rightarrow> bool" where
  "echoed cs s t \<longleftrightarrow> (\<exists>vs. t = s\<lparr>lsr_in := vs, uart_wr := uart_wr s @ map (Pair THR) cs\<rparr> \<and> idles t + length cs = idles s)"

lemma echoed_Nil: "echoed [] s s"
  unfolding echoed_def by (intro exI [of _ "lsr_in s"]) simp

lemma echoed_trans: "echoed cs s t \<Longrightarrow> echoed ds t u \<Longrightarrow> echoed (cs @ ds) s u"
  by (auto simp: echoed_def)

lemma echoed_fields:
  assumes "echoed cs s t"
  shows "cons_buf t = cons_buf s" "cons_r t = cons_r s" "cons_w t = cons_w s" "cons_e t = cons_e s" "panicked t = panicked s"
    "settled t = settled s" "lock_free l t = lock_free l s" "procs t = procs s" "cur t = cur s" "idles t + length cs = idles s"
  using assms by (auto simp: echoed_def settled_def lock_free_def mycpu_def cpuid_def intr_get_def)

lemma poll_tx_ok:
  "0 < length (filter (\<lambda>l. l AND LSR_TX_IDLE \<noteq> 0) vs) \<Longrightarrow>
   \<exists>vs'. poll_tx vs s = Ok (s\<lparr>lsr_in := vs'\<rparr>)
     \<and> Suc (length (filter (\<lambda>l. l AND LSR_TX_IDLE \<noteq> 0) vs')) = length (filter (\<lambda>l. l AND LSR_TX_IDLE \<noteq> 0) vs)"
  by (induction vs) auto

lemma uartputc_sync_ok:
  assumes "settled s" "\<not> panicked s" "0 < idles s"
  shows "\<exists>t. uartputc_sync c s = Ok t \<and> echoed [c] s t"
proof -
  from poll_tx_ok [OF assms(3) [unfolded idles_def], of "push_off s"] obtain vs' where
    v: "poll_tx (lsr_in s) (push_off s) = Ok ((push_off s)\<lparr>lsr_in := vs'\<rparr>)"
      "Suc (length (filter (\<lambda>l. l AND LSR_TX_IDLE \<noteq> 0) vs')) = idles s" unfolding idles_def by blast
  let ?t = "s\<lparr>lsr_in := vs', uart_wr := uart_wr s @ [(THR, c)]\<rparr>"
  have p: "panicked (push_off s) = panicked s" "lsr_in (push_off s) = lsr_in s"
    "WriteReg THR c ((push_off s)\<lparr>lsr_in := vs'\<rparr>) = push_off ?t"
    by (simp_all add: push_off_def mach_defs WriteReg_def Let_def)
  have "settled ?t" using assms(1) by (simp add: settled_def mycpu_def cpuid_def intr_get_def)
  then have "uartputc_sync c s = Ok ?t" using assms(2) v(1) p by (simp add: uartputc_sync_def Let_def)
  then show ?thesis using v(2) by (auto simp: echoed_def idles_def)
qed

definition erase :: "byte list" where "erase = [8, 0x20, 8]"

lemma consputc_ok:
  assumes "settled s" "\<not> panicked s" "(case c of Ch _ \<Rightarrow> 1 | BACKSPACE \<Rightarrow> 3) \<le> idles s"
  shows "\<exists>t. consputc c s = Ok t \<and> echoed (case c of Ch b \<Rightarrow> [b] | BACKSPACE \<Rightarrow> erase) s t"
proof (cases c)
  case (Ch b)
  then show ?thesis using uartputc_sync_ok [OF assms(1,2), of b] assms(3) by (auto simp: consputc_def)
next
  case BACKSPACE
  then have "3 \<le> idles s" using assms(3) by simp
  then obtain t where t: "uartputc_sync 8 s = Ok t" "echoed [8] s t" using uartputc_sync_ok [OF assms(1,2)] by fastforce
  note f = echoed_fields [OF t(2)]
  obtain u where u: "uartputc_sync 0x20 t = Ok u" "echoed [0x20] t u"
    using uartputc_sync_ok [of t "0x20"] f \<open>3 \<le> idles s\<close> assms(1,2) by auto
  note g = echoed_fields [OF u(2)]
  obtain v where v: "uartputc_sync 8 u = Ok v" "echoed [8] u v"
    using uartputc_sync_ok [of u 8] f g \<open>3 \<le> idles s\<close> assms(1,2) by auto
  have "echoed erase s v" using echoed_trans [OF t(2) echoed_trans [OF u(2) v(2)]] by (simp add: erase_def)
  then show ?thesis using BACKSPACE t u v by (auto simp: consputc_def)
qed

section \<open>The input buffer\<close>

text \<open>
  The abstract state of the line discipline: the characters of finished lines that have not been read, and those of
  the line that is being edited.
\<close>

definition committed :: "'z tty_scheme \<Rightarrow> byte list" where
  "committed s = ring (cons_buf s) (cons_r s) (cons_w s)"

definition pending :: "'z tty_scheme \<Rightarrow> byte list" where
  "pending s = ring (cons_buf s) (cons_w s) (cons_e s)"

definition cons_inv :: "'z tty_scheme \<Rightarrow> bool" where
  "cons_inv s \<longleftrightarrow> ring_ok INPUT_BUF_SIZE (cons_buf s) (cons_r s) (cons_e s)
     \<and> unat (cons_w s - cons_r s) \<le> unat (cons_e s - cons_r s) \<and> 10 \<notin> set (pending s)"

lemma unat_between:
  fixes r w e :: "'w::len word"
  assumes "unat (w - r) \<le> unat (e - r)"
  shows "unat (e - w) = unat (e - r) - unat (w - r)"
proof -
  have "e - w = (e - r) - (w - r)" by simp
  then show ?thesis using assms unat_sub [of "w - r" "e - r"] by (simp add: word_le_nat_alt)
qed

lemma ring_split:
  fixes r w e :: "'w::len word"
  assumes "unat (w - r) \<le> unat (e - r)"
  shows "ring buf r e = ring buf r w @ ring buf w e"
proof (rule nth_equalityI)
  note b = unat_between [OF assms]
  show "length (ring buf r e) = length (ring buf r w @ ring buf w e)" using assms b by simp
  fix k assume "k < length (ring buf r e)"
  then have k: "k < unat (e - r)" by simp
  show "ring buf r e ! k = (ring buf r w @ ring buf w e) ! k"
  proof (cases "k < unat (w - r)")
    case True
    then show ?thesis using k by (simp add: nth_append ring_at)
  next
    case False
    then have "(of_nat k :: 'w word) = of_nat (unat (w - r)) + of_nat (k - unat (w - r))" by (simp flip: of_nat_add)
    then have "r + of_nat k = w + of_nat (k - unat (w - r))" by (simp add: algebra_simps)
    moreover have "k - unat (w - r) < unat (e - w)" using False k b by simp
    ultimately show ?thesis using k False by (simp add: nth_append ring_at add.commute)
  qed
qed


lemma ring_unput:
  fixes w e :: "'w::len word"
  assumes "w \<noteq> e"
  shows "ring buf w e = ring buf w (e - 1) @ [buf ! (unat (e - 1) mod length buf)]" "unat (e - 1 - w) = unat (e - w) - 1" "0 < unat (e - w)"
proof -
  show p: "0 < unat (e - w)" using assms by (simp add: unat_gt_0)
  show d: "unat (e - 1 - w) = unat (e - w) - 1" using unat_pred [OF p] by (simp add: algebra_simps)
  have "unat (e - w) = Suc (unat (e - 1 - w))" using p d by simp
  then have "ring buf w e = map (\<lambda>k. buf ! (unat (w + of_nat k) mod length buf)) ([0..<unat (e - 1 - w)] @ [unat (e - 1 - w)])"
    unfolding ring_def by simp
  then show "ring buf w e = ring buf w (e - 1) @ [buf ! (unat (e - 1) mod length buf)]" unfolding ring_def by simp
qed

lemma hold_tty [simp]:
  "cons_buf (hold l s) = cons_buf s" "cons_r (hold l s) = cons_r s" "cons_w (hold l s) = cons_w s" "cons_e (hold l s) = cons_e s"
  "panicked (hold l s) = panicked s" "lsr_in (hold l s) = lsr_in s" "idles (hold l s) = idles s"
  "(hold l s)\<lparr>cons_e := e\<rparr> = hold l (s\<lparr>cons_e := e\<rparr>)" "(hold l s)\<lparr>cons_w := e\<rparr> = hold l (s\<lparr>cons_w := e\<rparr>)"
  "(hold l s)\<lparr>cons_buf := b\<rparr> = hold l (s\<lparr>cons_buf := b\<rparr>)"
  by (simp_all add: hold_def idles_def)

lemma settled_tty [simp]:
  "settled (s\<lparr>cons_e := e\<rparr>) = settled s" "settled (s\<lparr>cons_w := e\<rparr>) = settled s" "settled (s\<lparr>cons_buf := b\<rparr>) = settled s"
  "lock_free l (s\<lparr>cons_e := e\<rparr>) = lock_free l s" "lock_free l (s\<lparr>cons_w := e\<rparr>) = lock_free l s"
  "lock_free l (s\<lparr>cons_buf := b\<rparr>) = lock_free l s"
  "idles (s\<lparr>cons_e := e\<rparr>) = idles s" "idles (s\<lparr>cons_w := e\<rparr>) = idles s" "idles (s\<lparr>cons_buf := b\<rparr>) = idles s"
  "cur (s\<lparr>cons_e := e\<rparr>) = cur s" "cur (s\<lparr>cons_w := e\<rparr>) = cur s" "cur (s\<lparr>cons_buf := b\<rparr>) = cur s"
  by (simp_all add: settled_def lock_free_def mycpu_def cpuid_def intr_get_def idles_def)

lemma echoed_hold: "echoed cs (hold l s) t \<Longrightarrow> \<exists>u. t = hold l u \<and> echoed cs s u"
proof -
  assume "echoed cs (hold l s) t"
  then obtain vs where t: "t = (hold l s)\<lparr>lsr_in := vs, uart_wr := uart_wr (hold l s) @ map (Pair THR) cs\<rparr>" "idles t + length cs = idles s"
    by (auto simp: echoed_def)
  let ?u = "s\<lparr>lsr_in := vs, uart_wr := uart_wr s @ map (Pair THR) cs\<rparr>"
  have "t = hold l ?u" using t(1) by (simp add: hold_def)
  then show ?thesis using t(2) by (auto simp: echoed_def)
qed

lemma consputc_hold:
  assumes "settled s" "\<not> panicked s" "(case c of Ch _ \<Rightarrow> 1 | BACKSPACE \<Rightarrow> 3) \<le> idles s"
  obtains t where "consputc c (hold l s) = Ok (hold l t)" "echoed (case c of Ch b \<Rightarrow> [b] | BACKSPACE \<Rightarrow> erase) s t"
  using consputc_ok [of "hold l s" c] assms settled_hold [of s l] echoed_hold [of _ l s] by fastforce

text \<open>The line discipline, and what the terminal shows.\<close>

definition line_input :: "byte \<Rightarrow> byte list \<times> byte list \<Rightarrow> byte list \<times> byte list" where
  "line_input c l =
     (case l of (cm, pd) \<Rightarrow>
        if c = 21 then (cm, [])
        else if c = 8 \<or> c = 0x7F then (cm, butlast pd)
        else if c = 0 \<or> length cm + length pd = INPUT_BUF_SIZE then (cm, pd)
        else let d = (if c = 13 then 10 else c) in
          if d = 10 \<or> d = 4 \<or> length cm + length pd + 1 = INPUT_BUF_SIZE then (cm @ pd @ [d], []) else (cm, pd @ [d]))"

definition line_echo :: "byte \<Rightarrow> byte list \<times> byte list \<Rightarrow> byte list" where
  "line_echo c l =
     (case l of (cm, pd) \<Rightarrow>
        if c = 21 then concat (replicate (length pd) erase)
        else if c = 8 \<or> c = 0x7F then (if pd = [] then [] else erase)
        else if c = 0 \<or> length cm + length pd = INPUT_BUF_SIZE then []
        else [if c = 13 then 10 else c])"

definition line :: "'z tty_scheme \<Rightarrow> byte list \<times> byte list" where
  "line s = (committed s, pending s)"

lemma cons_invD:
  assumes "cons_inv s"
  shows "ring (cons_buf s) (cons_r s) (cons_e s) = committed s @ pending s" "length (committed s) + length (pending s) \<le> 128"
    "length (cons_buf s) = 128" "length (committed s) + length (pending s) = unat (cons_e s - cons_r s)"
proof -
  from assms have le: "unat (cons_w s - cons_r s) \<le> unat (cons_e s - cons_r s)" and ok: "ring_ok 128 (cons_buf s) (cons_r s) (cons_e s)"
    by (simp_all add: cons_inv_def)
  show "length (committed s) + length (pending s) = unat (cons_e s - cons_r s)" using unat_between [OF le] le by (simp add: committed_def pending_def)
  then show "length (committed s) + length (pending s) \<le> 128" "length (cons_buf s) = 128" using ok by (simp_all add: ring_ok_def)
  show "ring (cons_buf s) (cons_r s) (cons_e s) = committed s @ pending s"
    using ring_split [OF le] by (simp add: committed_def pending_def)
qed

text \<open>
  Before lines come into it, the buffer is a queue from the keyboard to the readers, with a reader that has to wait
  although characters are there, as long as their line is not finished.
\<close>

definition cons_ring :: "'z tty_scheme \<Rightarrow> bool" where
  "cons_ring s \<longleftrightarrow> ring_ok INPUT_BUF_SIZE (cons_buf s) (cons_r s) (cons_e s)
     \<and> unat (cons_w s - cons_r s) \<le> unat (cons_e s - cons_r s)"

interpretation consq: fifo cons_ring "\<lambda>s. ring (cons_buf s) (cons_r s) (cons_e s)" INPUT_BUF_SIZE
  "\<lambda>s. \<not> cons_e s - cons_r s < of_nat INPUT_BUF_SIZE"
  "\<lambda>s. cons_r s = cons_w s"
  "\<lambda>c s. s\<lparr>cons_buf := (cons_buf s)[unat (cons_e s) mod INPUT_BUF_SIZE := c], cons_e := cons_e s + 1\<rparr>"
  "\<lambda>s. cons_buf s ! (unat (cons_r s) mod INPUT_BUF_SIZE)"
  "\<lambda>s. s\<lparr>cons_r := cons_r s + 1\<rparr>"
proof unfold_locales
  fix s :: "'a tty_scheme" and c :: byte
  assume inv: "cons_ring s"
  then have ok: "ring_ok INPUT_BUF_SIZE (cons_buf s) (cons_r s) (cons_e s)" and le: "unat (cons_w s - cons_r s) \<le> unat (cons_e s - cons_r s)"
    by (simp_all add: cons_ring_def)
  show "length (ring (cons_buf s) (cons_r s) (cons_e s)) \<le> INPUT_BUF_SIZE" using ok by (simp add: ring_ok_def)
  { let ?t = "s\<lparr>cons_buf := (cons_buf s)[unat (cons_e s) mod INPUT_BUF_SIZE := c], cons_e := cons_e s + 1\<rparr>"
    assume "\<not> \<not> cons_e s - cons_r s < of_nat INPUT_BUF_SIZE"
    then have room: "unat (cons_e s - cons_r s) < INPUT_BUF_SIZE" by (simp add: word_less_nat_alt)
    note p = ring_put [OF ok room, of c]
    show q: "ring (cons_buf ?t) (cons_r ?t) (cons_e ?t) = ring (cons_buf s) (cons_r s) (cons_e s) @ [c]" using p(1) by simp
    have "unat (cons_e ?t - cons_r s) = Suc (unat (cons_e s - cons_r s))" using arg_cong [OF q, of length] by simp
    then show "cons_ring ?t" using p(2) le by (simp add: cons_ring_def) }
  { assume ne: "cons_r s \<noteq> cons_w s"
    then have pos: "0 < unat (cons_w s - cons_r s)" by (simp add: unat_gt_0)
    with le have "cons_r s \<noteq> cons_e s" by auto
    note g = ring_get [OF ok this]
    have "unat (cons_w s - (cons_r s + 1)) \<le> unat (cons_e s - (cons_r s + 1))"
      using unat_pred [of "cons_w s - cons_r s"] unat_pred [of "cons_e s - cons_r s"] pos le by (simp add: algebra_simps)
    then show "cons_ring (s\<lparr>cons_r := cons_r s + 1\<rparr>)" using g(2) by (simp add: cons_ring_def)
    show "ring (cons_buf s) (cons_r s) (cons_e s) = cons_buf s ! (unat (cons_r s) mod INPUT_BUF_SIZE)
        # ring (cons_buf (s\<lparr>cons_r := cons_r s + 1\<rparr>)) (cons_r (s\<lparr>cons_r := cons_r s + 1\<rparr>)) (cons_e (s\<lparr>cons_r := cons_r s + 1\<rparr>))"
      using g(1) by simp }
qed

lemma cons_inv_iff: "cons_inv s \<longleftrightarrow> cons_ring s \<and> 10 \<notin> set (pending s)"
  by (auto simp: cons_inv_def cons_ring_def)

lemma erase_one:
  assumes "cons_inv s" "cons_e s \<noteq> cons_w s"
  shows "cons_inv (s\<lparr>cons_e := cons_e s - 1\<rparr>)" "committed (s\<lparr>cons_e := cons_e s - 1\<rparr>) = committed s"
    "pending (s\<lparr>cons_e := cons_e s - 1\<rparr>) = butlast (pending s)" "pending s \<noteq> []"
    "cons_buf s ! (unat (cons_e s - 1) mod INPUT_BUF_SIZE) = last (pending s)"
proof -
  note u = ring_unput(1) [OF assms(2) [symmetric], of "cons_buf s"] ring_unput(2,3) [OF assms(2) [symmetric]]
  have len: "length (cons_buf s) = 128" using cons_invD [OF assms(1)] by simp
  have le: "unat (cons_w s - cons_r s) \<le> unat (cons_e s - cons_r s)" using assms(1) by (simp add: cons_inv_def)
  have pos: "unat (cons_w s - cons_r s) < unat (cons_e s - cons_r s)" using unat_between [OF le] u(3) by simp
  then have "cons_r s \<noteq> cons_e s" by auto
  note v = ring_unput(2) [OF this]
  show "committed (s\<lparr>cons_e := cons_e s - 1\<rparr>) = committed s" by (simp add: committed_def)
  show p: "pending (s\<lparr>cons_e := cons_e s - 1\<rparr>) = butlast (pending s)" "pending s \<noteq> []"
    "cons_buf s ! (unat (cons_e s - 1) mod INPUT_BUF_SIZE) = last (pending s)"
    using u(1) len by (simp_all add: pending_def)
  show "cons_inv (s\<lparr>cons_e := cons_e s - 1\<rparr>)"
    using assms(1) p(1) v pos unfolding cons_inv_def by (auto simp: ring_ok_def dest: in_set_butlastD)
qed

lemma pending_empty_iff: "pending s = [] \<longleftrightarrow> cons_e s = cons_w s"
  using ring_empty_iff [of "cons_w s" "cons_e s" "cons_buf s"] by (auto simp: pending_def)

lemma echoed_line: "echoed cs s t \<Longrightarrow> committed t = committed s \<and> pending t = pending s \<and> cons_inv t = cons_inv s"
  using echoed_fields [of cs s t] by (simp add: committed_def pending_def cons_inv_def)


lemma echoed_edit: "echoed cs s t \<Longrightarrow> echoed cs (s\<lparr>cons_e := x\<rparr>) (t\<lparr>cons_e := x\<rparr>)"
proof -
  assume "echoed cs s t"
  then obtain vs where t: "t = s\<lparr>lsr_in := vs, uart_wr := uart_wr s @ map (Pair THR) cs\<rparr>" "idles t + length cs = idles s"
    by (auto simp: echoed_def)
  show ?thesis unfolding echoed_def by (rule exI [of _ vs]) (use t in simp)
qed

lemma kill_line_ok:
  "n = length (pending s) \<Longrightarrow> cons_inv s \<Longrightarrow> settled s \<Longrightarrow> \<not> panicked s \<Longrightarrow> 3 * n \<le> idles s \<Longrightarrow>
   \<exists>t. kill_line n (hold l s) = Ok (hold l t) \<and> echoed (concat (replicate n erase)) (s\<lparr>cons_e := cons_w s\<rparr>) t"
proof (induction n arbitrary: s)
  case 0
  then have "cons_e s = cons_w s" using pending_empty_iff [of s] by simp
  then have "s\<lparr>cons_e := cons_w s\<rparr> = s" by simp
  then have "echoed [] (s\<lparr>cons_e := cons_w s\<rparr>) s" by (simp add: echoed_Nil)
  then show ?case by auto
next
  case (Suc n)
  then have ne: "cons_e s \<noteq> cons_w s" using pending_empty_iff [of s] by auto
  let ?s = "s\<lparr>cons_e := cons_e s - 1\<rparr>"
  note e = erase_one [OF Suc.prems(2) ne]
  have nl: "cons_buf s ! (unat (cons_e s - 1) mod INPUT_BUF_SIZE) \<noteq> 10"
    using e(4,5) Suc.prems(2) last_in_set [of "pending s"] unfolding cons_inv_def by metis
  have "settled ?s" "\<not> panicked ?s" "(case BACKSPACE of Ch _ \<Rightarrow> 1 | BACKSPACE \<Rightarrow> 3) \<le> idles ?s" using Suc.prems by simp_all
  then obtain t where t: "consputc BACKSPACE (hold l ?s) = Ok (hold l t)" "echoed erase ?s t"
    by (rule consputc_hold [of _ _ l]) simp
  note f = echoed_fields [OF t(2)] and el = echoed_line [OF t(2)]
  have "n = length (pending t)" "cons_inv t" "settled t" "\<not> panicked t" "3 * n \<le> idles t"
    using Suc.prems e f el by (simp_all add: erase_def)
  from Suc.IH [OF this] obtain u where
    u: "kill_line n (hold l t) = Ok (hold l u)" "echoed (concat (replicate n erase)) (t\<lparr>cons_e := cons_w t\<rparr>) u" by blast
  have "kill_line (Suc n) (hold l s) = Ok (hold l u)" using ne nl t(1) u(1) by simp
  moreover have "echoed erase (s\<lparr>cons_e := cons_w s\<rparr>) (t\<lparr>cons_e := cons_w t\<rparr>)"
    using echoed_edit [OF t(2), of "cons_w s"] f(3) by simp
  from echoed_trans [OF this u(2)] have "echoed (concat (replicate (Suc n) erase)) (s\<lparr>cons_e := cons_w s\<rparr>) u" by simp
  ultimately show ?case by blast
qed

text \<open>Whether \<open>c\<close> finishes a line: a reader that sleeps is woken up exactly then.\<close>

definition ends_line :: "byte \<Rightarrow> byte list \<times> byte list \<Rightarrow> bool" where
  "ends_line c l \<longleftrightarrow> c \<noteq> 21 \<and> length (fst l) < length (fst (line_input c l))"

text \<open>Storing a character, and passing the line to the readers.\<close>

lemma store_char:
  fixes s :: "'z tty_scheme" and c :: byte
  assumes "cons_inv s" "length (committed s) + length (pending s) < 128"
  defines "t \<equiv> s\<lparr>cons_buf := (cons_buf s)[unat (cons_e s) mod INPUT_BUF_SIZE := c], cons_e := cons_e s + 1\<rparr>"
  shows "ring_ok 128 (cons_buf t) (cons_r t) (cons_e t)" "committed t = committed s" "pending t = pending s @ [c]"
    "unat (cons_w t - cons_r t) \<le> unat (cons_e t - cons_r t)" "unat (cons_e t - cons_r t) = Suc (length (committed s) + length (pending s))"
proof -
  note d = cons_invD [OF assms(1)]
  have inv: "cons_ring s" "\<not> \<not> cons_e s - cons_r s < of_nat INPUT_BUF_SIZE"
    using assms(1,2) d(4) by (simp_all add: cons_inv_iff word_less_nat_alt)
  have "cons_ring t" unfolding t_def by (rule consq.put_inv [OF inv])
  then show ok: "ring_ok 128 (cons_buf t) (cons_r t) (cons_e t)" and le: "unat (cons_w t - cons_r t) \<le> unat (cons_e t - cons_r t)"
    by (simp_all add: cons_ring_def)
  have all: "ring (cons_buf t) (cons_r t) (cons_e t) = committed s @ pending s @ [c]"
    using consq.put_queued [OF inv, of c] d(1) by (simp add: t_def)
  show "unat (cons_e t - cons_r t) = Suc (length (committed s) + length (pending s))"
    using arg_cong [OF all, of length] by simp
  have "committed t @ pending t = committed s @ pending s @ [c]"
    using ring_split [OF le, of "cons_buf t"] all by (simp add: committed_def pending_def)
  moreover have "length (committed t) = length (committed s)" by (simp add: committed_def t_def)
  ultimately show "committed t = committed s" "pending t = pending s @ [c]" by auto
qed


text \<open>What one character typed at the terminal does, \<open>^P\<close> (which prints the process list) apart.\<close>

definition typed :: "byte \<Rightarrow> 'z tty_scheme \<Rightarrow> 'z tty_scheme \<Rightarrow> bool" where
  "typed c s t \<longleftrightarrow> cons_inv t \<and> line t = line_input c (line s)
     \<and> uart_wr t = uart_wr s @ map (Pair THR) (line_echo c (line s))
     \<and> procs t = (if ends_line c (line s) then woken (Some ConsChan) (cur s) (procs s) else procs s)
     \<and> cons_r t = cons_r s \<and> settled t \<and> (\<forall>l. lock_free l t = lock_free l s)"

lemma line_input_key:
  assumes "c \<noteq> 21" "c \<noteq> 8" "c \<noteq> 0x7F" "c \<noteq> 0" "length cm + length pd < 128"
  defines "d \<equiv> (if c = 13 then 10 else c)"
  defines "fin \<equiv> d = 10 \<or> d = 4 \<or> length cm + length pd + 1 = 128"
  shows "line_input c (cm, pd) = (if fin then (cm @ pd @ [d], []) else (cm, pd @ [d]))" "line_echo c (cm, pd) = [d]"
    "ends_line c (cm, pd) = fin"
proof -
  show l: "line_input c (cm, pd) = (if fin then (cm @ pd @ [d], []) else (cm, pd @ [d]))"
    using assms(1-5) unfolding line_input_def fin_def d_def by (auto simp: Let_def)
  show "line_echo c (cm, pd) = [d]" using assms(1-5) unfolding line_echo_def d_def by auto
  show "ends_line c (cm, pd) = fin" using assms(1) l by (simp add: ends_line_def)
qed

lemma echo_key:
  assumes "cons_inv s" "settled s" "\<And>l. lock_free l s" "\<not> panicked s" "1 \<le> idles s" "c \<noteq> 21" "c \<noteq> 8" "c \<noteq> 0x7F"
  shows "\<exists>t. consoleintr_default c (hold ConsLock s) = Ok (hold ConsLock t) \<and> typed c s t"
proof (cases "c \<noteq> 0 \<and> length (committed s) + length (pending s) < 128")
  case False
  have "cons_e s - cons_r s < 128 \<longleftrightarrow> length (committed s) + length (pending s) < 128"
    using cons_invD(4) [OF assms(1)] by (simp add: word_less_nat_alt)
  then have "consoleintr_default c (hold ConsLock s) = Ok (hold ConsLock s)" using False by (auto simp: consoleintr_default_def)
  moreover have "typed c s s"
    using False assms(1,2,6-8) cons_invD(2) [OF assms(1)] by (auto simp: typed_def line_def line_input_def line_echo_def ends_line_def)
  ultimately show ?thesis by blast
next
  case True
  let ?d = "if c = 13 then 10 else c"
  have lt: "cons_e s - cons_r s < 128" using True cons_invD(4) [OF assms(1)] by (simp add: word_less_nat_alt)
  have one: "(case Ch ?d of Ch _ \<Rightarrow> 1 | BACKSPACE \<Rightarrow> 3) \<le> idles s" using assms(5) by simp
  obtain u where u: "consputc (Ch ?d) (hold ConsLock s) = Ok (hold ConsLock u)" "echoed [?d] s u"
    using consputc_hold [OF assms(2,4) one] by auto
  note f = echoed_fields [OF u(2)] and el = echoed_line [OF u(2)]
  have wr: "uart_wr u = uart_wr s @ [(THR, ?d)]" using u(2) by (auto simp: echoed_def)
  have inv: "cons_inv u" "length (committed u) + length (pending u) < 128" using el assms(1) True by simp_all
  let ?v = "u\<lparr>cons_buf := (cons_buf u)[unat (cons_e u) mod INPUT_BUF_SIZE := ?d], cons_e := cons_e u + 1\<rparr>"
  note st = store_char [OF inv, of ?d]
  let ?full = "?d = 10 \<or> ?d = 4 \<or> cons_e ?v - cons_r ?v = 128"
  have full: "cons_e ?v - cons_r ?v = 128 \<longleftrightarrow> length (committed s) + length (pending s) + 1 = 128"
    using st(5) el by (simp add: word_unat_eq_iff)
  note key = line_input_key [of c "committed s" "pending s", OF assms(6-8)]
  have key: "line_input c (line s) = (if ?d = 10 \<or> ?d = 4 \<or> length (committed s) + length (pending s) + 1 = 128
      then (committed s @ pending s @ [?d], []) else (committed s, pending s @ [?d]))"
    "line_echo c (line s) = [?d]"
    "ends_line c (line s) = (?d = 10 \<or> ?d = 4 \<or> length (committed s) + length (pending s) + 1 = 128)"
    unfolding line_def by (rule key; use True in simp)+
  show ?thesis
  proof (cases ?full)
    case True
    let ?w = "?v\<lparr>cons_w := cons_e ?v\<rparr>"
    let ?t = "?w\<lparr>procs := woken (Some ConsChan) (cur s) (procs s)\<rparr>"
    have "wakeup (Some ConsChan) (hold ConsLock ?w) = Ok (hold ConsLock ?t)"
      using woken_hold [of ?w ConsLock "Some ConsChan"] assms(2,3) f by simp
    then have "consoleintr_default c (hold ConsLock s) = Ok (hold ConsLock ?t)"
      using True u(1) lt \<open>c \<noteq> 0 \<and> _\<close> by (simp add: consoleintr_default_def Let_def)
    moreover have "typed c s ?t"
    proof -
      have cm: "committed ?t = committed s @ pending s @ [?d]"
        using st(1-3) ring_split [OF st(4), of "cons_buf ?v"] el by (simp add: committed_def pending_def)
      moreover have "pending ?t = []" using ring_empty_iff [of "cons_w ?t" "cons_e ?t" "cons_buf ?t"] by (simp add: pending_def)
      moreover from this have "cons_inv ?t" using st(1) by (simp add: cons_inv_def)
      ultimately show ?thesis using True full key assms(2) f wr by (simp add: typed_def line_def)
    qed
    ultimately show ?thesis by blast
  next
    case False
    then have "consoleintr_default c (hold ConsLock s) = Ok (hold ConsLock ?v)"
      using u(1) lt \<open>c \<noteq> 0 \<and> _\<close> by (simp add: consoleintr_default_def Let_def)
    moreover have "typed c s ?v"
    proof -
      have "10 \<notin> set (pending ?v)" using st(3) el assms(1) False unfolding cons_inv_def by auto
      then have "cons_inv ?v" using st(1,4) by (simp add: cons_inv_def)
      then show ?thesis using False full key assms(2) f wr st(2,3) el by (simp add: typed_def line_def)
    qed
    ultimately show ?thesis by blast
  qed
qed


lemma erase_key:
  assumes "cons_inv s" "settled s" "\<not> panicked s" "3 \<le> idles s" "c = 8 \<or> c = 0x7F"
  shows "\<exists>t. (if cons_e s \<noteq> cons_w s then consputc BACKSPACE (hold ConsLock (s\<lparr>cons_e := cons_e s - 1\<rparr>)) else Ok (hold ConsLock s))
    = Ok (hold ConsLock t) \<and> typed c s t"
proof (cases "cons_e s = cons_w s")
  case True
  then have "typed c s s" using assms pending_empty_iff [of s] by (auto simp: typed_def line_def line_input_def line_echo_def ends_line_def)
  then show ?thesis using True by auto
next
  case False
  let ?s = "s\<lparr>cons_e := cons_e s - 1\<rparr>"
  note e = erase_one [OF assms(1) False]
  have "settled ?s" "\<not> panicked ?s" "(case BACKSPACE of Ch _ \<Rightarrow> 1 | BACKSPACE \<Rightarrow> 3) \<le> idles ?s" using assms by simp_all
  then obtain t where t: "consputc BACKSPACE (hold ConsLock ?s) = Ok (hold ConsLock t)" "echoed erase ?s t"
    by (rule consputc_hold [of _ _ ConsLock]) simp
  have "uart_wr t = uart_wr s @ map (Pair THR) erase" using t(2) by (auto simp: echoed_def)
  then have "typed c s t" using assms(2,5) e echoed_fields [OF t(2)] echoed_line [OF t(2)]
    by (auto simp: typed_def line_def line_input_def line_echo_def ends_line_def)
  then show ?thesis using False t(1) by auto
qed

lemma kill_key:
  assumes "cons_inv s" "settled s" "\<not> panicked s" "3 * length (pending s) \<le> idles s"
  shows "\<exists>t. kill_line (unat (cons_e s - cons_w s)) (hold ConsLock s) = Ok (hold ConsLock t) \<and> typed 21 s t"
proof -
  let ?s = "s\<lparr>cons_e := cons_w s\<rparr>" and ?bs = "concat (replicate (length (pending s)) erase)"
  have n: "unat (cons_e s - cons_w s) = length (pending s)" by (simp add: pending_def)
  from kill_line_ok [OF refl assms] obtain t where
    t: "kill_line (length (pending s)) (hold ConsLock s) = Ok (hold ConsLock t)" "echoed ?bs ?s t" by blast
  have p: "pending ?s = []" "committed ?s = committed s" using pending_empty_iff [of ?s] by (simp_all add: committed_def)
  have "ring_ok 128 (cons_buf s) (cons_r s) (cons_w s)" using assms(1) by (auto simp: cons_inv_def ring_ok_def)
  then have "cons_inv ?s" using p by (simp add: cons_inv_def)
  moreover have "uart_wr t = uart_wr s @ map (Pair THR) ?bs" using t(2) by (auto simp: echoed_def)
  ultimately have "typed 21 s t" using assms(2) p echoed_fields [OF t(2)] echoed_line [OF t(2)]
    by (simp add: typed_def line_def line_input_def line_echo_def ends_line_def)
  then show ?thesis using t(1) n by auto
qed

text \<open>
  C20. The console's input handler refines a line discipline with two lists, the characters ready to be read and the
  line being edited: a key is appended and echoed, backspace takes the last character of the line
  back (never one of a finished line), \<open>^U\<close> takes all of them, a newline, \<open>^D\<close> or a full buffer hands the line over
  and wakes the readers up, and a character that does not fit is dropped without an echo. The
  handler returns whenever the terminal accepts the characters of the echo.
\<close>

theorem consoleintr_correct:
  assumes "cons_inv s" "settled s" "\<And>l. lock_free l s" "\<not> panicked s" "c \<noteq> 16" "3 * Suc (length (pending s)) \<le> idles s"
  shows "\<exists>t. consoleintr c s = Ok t \<and> typed c s t"
proof -
  let ?h = "hold ConsLock s"
  have "\<exists>t. (if c = 16 then procdump ?h else if c = 21 then kill_line (unat (cons_e ?h - cons_w ?h)) ?h
        else if c = 8 \<or> c = 0x7F
        then if cons_e ?h \<noteq> cons_w ?h then consputc BACKSPACE (?h\<lparr>cons_e := cons_e ?h - 1\<rparr>) else Ok ?h
        else consoleintr_default c ?h) = Ok (hold ConsLock t) \<and> typed c s t"
    using kill_key [OF assms(1,2,4)] erase_key [OF assms(1,2,4), of c] echo_key [OF assms(1-4), of c] assms(5,6)
    by (cases "c = 21"; cases "c = 8 \<or> c = 0x7F"; cases "cons_e s = cons_w s") auto
  then obtain t where t: "(if c = 16 then procdump ?h else if c = 21 then kill_line (unat (cons_e ?h - cons_w ?h)) ?h
        else if c = 8 \<or> c = 0x7F
        then if cons_e ?h \<noteq> cons_w ?h then consputc BACKSPACE (?h\<lparr>cons_e := cons_e ?h - 1\<rparr>) else Ok ?h
        else consoleintr_default c ?h) = Ok (hold ConsLock t)" "typed c s t" by blast
  have "release ConsLock (hold ConsLock t) = Ok t" using t(2) assms(3) by (intro release_ok) (auto simp: typed_def)
  then show ?thesis using t assms(2,3) by (simp add: consoleintr_def acquire_ok)
qed


section \<open>Reading a line\<close>

lemma take_char:
  assumes "cons_inv s" "cons_r s \<noteq> cons_w s"
  shows "cons_inv (s\<lparr>cons_r := cons_r s + 1\<rparr>)" "pending (s\<lparr>cons_r := cons_r s + 1\<rparr>) = pending s"
    "committed s = cons_buf s ! (unat (cons_r s) mod INPUT_BUF_SIZE) # committed (s\<lparr>cons_r := cons_r s + 1\<rparr>)"
proof -
  let ?t = "s\<lparr>cons_r := cons_r s + 1\<rparr>"
  have inv: "cons_ring s" using assms(1) by (simp add: cons_inv_iff)
  note g = consq.skip_inv [OF inv assms(2)] consq.skip_queued [OF inv assms(2)]
  show p: "pending ?t = pending s" by (simp add: pending_def)
  show inv': "cons_inv ?t" using g(1) p assms(1) by (simp add: cons_inv_iff)
  have "committed s @ pending s = cons_buf s ! (unat (cons_r s) mod INPUT_BUF_SIZE) # committed ?t @ pending ?t"
    using g(2) cons_invD(1) [OF assms(1)] cons_invD(1) [OF inv'] by simp
  then show "committed s = cons_buf s ! (unat (cons_r s) mod INPUT_BUF_SIZE) # committed ?t" unfolding p by simp
qed

text \<open>The characters a \<open>read\<close> of \<open>n\<close> bytes delivers: a line with its newline, cut at \<open>n\<close> characters or before \<open>^D\<close>.\<close>

fun one_line :: "nat \<Rightarrow> byte list \<Rightarrow> byte list" where
  "one_line 0 cs = []"
| "one_line (Suc n) [] = []"
| "one_line (Suc n) (c # cs) = (if c = 4 then [] else if c = 10 then [c] else c # one_line n cs)"

lemma length_one_line: "length (one_line n cs) \<le> n"
  by (induction n cs rule: one_line.induct) auto

definition line_ready :: "nat \<Rightarrow> byte list \<Rightarrow> bool" where
  "line_ready n cs \<longleftrightarrow> n \<le> length cs \<or> 10 \<in> set cs \<or> 4 \<in> set cs"

text \<open>What is left: a \<open>^D\<close> is consumed only by a \<open>read\<close> that delivers nothing.\<close>

definition line_rest :: "nat \<Rightarrow> nat \<Rightarrow> byte list \<Rightarrow> byte list" where
  "line_rest target n cs = (if n = target \<and> 0 < n \<and> hd cs = 4 then tl cs else drop (length (one_line n cs)) cs)"

definition got_line :: "nat \<Rightarrow> uint64 \<Rightarrow> nat \<Rightarrow> nat \<Rightarrow> 'z tty_scheme \<Rightarrow> 'z tty_scheme \<Rightarrow> bool" where
  "got_line p a target n s t \<longleftrightarrow> cons_inv t \<and> calm p t \<and> procs t = procs s
     \<and> committed t = line_rest target n (committed s) \<and> pending t = pending s
     \<and> stored (pagetable (procs s p)) a (one_line n (committed s)) (mem s) (mem t)"

lemma copyout_user:
  assumes "calm p s" "space_ok (mem s) (pagetable (procs s p))" "writable (mem s) (pagetable (procs s p)) a"
  obtains m where "either_copyout (UserDst a) [c] (hold l s) = Ok (0, hold l (s\<lparr>mem := m\<rparr>))"
    "stored (pagetable (procs s p)) a [c] (mem s) m"
proof -
  have "space_ok (mem (hold l s)) (pagetable (procs s p))" using assms(2) by simp
  from copyout_one [OF this, of a c] assms(3) obtain m where
    "copyout (pagetable (procs s p)) a [c] (hold l s) = Ok (0, hold l (s\<lparr>mem := m\<rparr>))" "stored (pagetable (procs s p)) a [c] (mem s) m"
    by (auto simp: hold_mem_upd)
  moreover have "myproc (hold l s) = Ok (Some p, hold l s)" using assms(1) by (simp add: calm_def myproc_ok kernel_simps)
  ultimately show ?thesis using that [of m] by (simp add: either_copyout_def)
qed

lemma calm_cons_r [simp]: "calm p (s\<lparr>cons_r := x\<rparr>) = calm p s" "(hold l s)\<lparr>cons_r := x\<rparr> = hold l (s\<lparr>cons_r := x\<rparr>)"
  by (simp_all add: calm_def settled_def lock_free_def mycpu_def cpuid_def intr_get_def hold_def)

lemma line_mem [simp]: "committed (s\<lparr>mem := m\<rparr>) = committed s" "pending (s\<lparr>mem := m\<rparr>) = pending s" "cons_inv (s\<lparr>mem := m\<rparr>) = cons_inv s"
  by (simp_all add: committed_def pending_def cons_inv_def)

lemma consoleread_loop_ok:
  "calm p s \<Longrightarrow> cons_inv s \<Longrightarrow> space_ok (mem s) (pagetable (procs s p)) \<Longrightarrow> n \<le> target \<Longrightarrow> target < 2 ^ 31 \<Longrightarrow>
   (\<And>j. j < n \<Longrightarrow> writable (mem s) (pagetable (procs s p)) (a + of_nat j)) \<Longrightarrow> line_ready n (committed s) \<Longrightarrow>
   \<exists>t. consoleread_loop target (UserDst a) n (hold ConsLock s)
        = Ok (Got (int target - int n + int (length (one_line n (committed s)))), one_line n (committed s), t) \<and> got_line p a target n s t"
proof (induction n arbitrary: a s)
  case 0
  then have "got_line p a target 0 s s" by (simp add: got_line_def line_rest_def stored_Nil)
  then show ?case using 0 by (auto simp: calm_simps)
next
  case (Suc n)
  let ?pt = "pagetable (procs s p)" and ?l = ConsLock
  have ne: "cons_r s \<noteq> cons_w s" using Suc.prems(7) ring_empty_iff [of "cons_r s" "cons_w s" "cons_buf s"]
    by (auto simp: line_ready_def committed_def)
  let ?s = "s\<lparr>cons_r := cons_r s + 1\<rparr>"
  note tk = take_char [OF Suc.prems(2) ne]
  obtain c cs where c: "cons_buf s ! (unat (cons_r s) mod INPUT_BUF_SIZE) = c" "committed s = c # cs" "committed ?s = cs" using tk(3) by simp
  have w0: "writable (mem ?s) (pagetable (procs ?s p)) a" using Suc.prems(6) [of 0] by simp
  have "calm p ?s" "space_ok (mem ?s) (pagetable (procs ?s p))" using Suc.prems(1,3) by simp_all
  then obtain m where m: "either_copyout (UserDst a) [c] (hold ?l ?s) = Ok (0, hold ?l (?s\<lparr>mem := m\<rparr>))" "stored ?pt a [c] (mem s) m"
    using copyout_user [OF _ _ w0, of c ?l] by auto
  let ?t = "?s\<lparr>mem := m\<rparr>"
  show ?case
  proof (cases "c = 4 \<or> c = 10")
    case True
    let ?u = "if c = 10 then ?t else if Suc n < target then s else ?s"
    have "consoleread_loop target (UserDst a) (Suc n) (hold ?l s)
        = Ok (Got (int target - int (Suc n) + int (length (one_line (Suc n) (committed s)))), one_line (Suc n) (committed s), ?u)"
      using ne True c m(1) Suc.prems(1) by (auto simp: calm_simps Let_def)
    moreover have "got_line p a target (Suc n) s ?u"
      using True c tk m(2) Suc.prems by (auto simp: got_line_def line_rest_def stored_Nil)
    ultimately show ?thesis by blast
  next
    case False
    have pre: "calm p ?t" "cons_inv ?t" "space_ok (mem ?t) (pagetable (procs ?t p))" "n \<le> target"
      using Suc.prems m(2) tk(1) by (simp_all add: stored_def)
    have w: "writable (mem ?t) (pagetable (procs ?t p)) (a + 1 + of_nat j)" if "j < n" for j
      using Suc.prems(6) [of "Suc j"] that stored_writable [OF m(2)] by (simp add: add.assoc)
    have r: "line_ready n (committed ?t)" using Suc.prems(7) c False by (auto simp: line_ready_def)
    from Suc.IH [OF pre Suc.prems(5) w r] obtain t where
      t: "consoleread_loop target (UserDst (a + 1)) n (hold ?l ?t) = Ok (Got (int target - int n + int (length (one_line n cs))), one_line n cs, t)"
         "got_line p (a + 1) target n ?t t" using c by auto
    have "consoleread_loop target (UserDst a) (Suc n) (hold ?l s)
        = Ok (Got (int target - int (Suc n) + int (length (one_line (Suc n) (committed s)))), one_line (Suc n) (committed s), t)"
      using ne False c m(1) t(1) by (auto simp: Let_def dst_add_def)
    moreover have "got_line p a target (Suc n) s t"
    proof -
      have "n < 2 ^ 63" using Suc.prems(4,5) by simp
      then have "length [c] + length (one_line n cs) < 2 ^ 64" using length_one_line [of n cs] by simp
      then have "stored ?pt a (c # one_line n cs) (mem s) (mem t)"
        using stored_append [OF m(2), of "one_line n cs" "mem t"] t(2) c by (simp add: got_line_def)
      then show ?thesis using t(2) c False tk Suc.prems(4) by (auto simp: got_line_def line_rest_def)
    qed
    ultimately show ?thesis by blast
  qed
qed


text \<open>
  C21. A \<open>read\<close> of the console delivers one line: when a line, an end of file or \<open>n\<close> characters are there, \<open>consoleread\<close>
  returns without sleeping, stores the characters up to and including the first newline (at most \<open>n\<close> of
  them, and none from \<open>^D\<close> on) in the caller's memory, takes exactly these out of the buffer, and leaves the line
  being edited alone. A \<open>^D\<close> that ends a line stays for the next \<open>read\<close>, which then delivers 0 bytes and takes it.
\<close>

theorem consoleread_correct:
  assumes "calm p s" "cons_inv s" "space_ok (mem s) (pagetable (procs s p))" "0 < n" "n < 2 ^ 31"
    "\<forall>j < nat n. writable (mem s) (pagetable (procs s p)) (a + of_nat j)" "line_ready (nat n) (committed s)"
  shows "\<exists>t. consoleread (UserDst a) n s = Ok (int (length (one_line (nat n) (committed s))), t) \<and> got_line p a (nat n) (nat n) s t"
proof -
  have "nat n < 2 ^ 31" using assms(4,5) by simp
  from consoleread_loop_ok [OF assms(1-3) le_refl this _ assms(7)] assms(6) obtain t where
    "consoleread_loop (nat n) (UserDst a) (nat n) (hold ConsLock s) = Ok (Got (int (length (one_line (nat n) (committed s)))), one_line (nat n) (committed s), t)"
    "got_line p a (nat n) (nat n) s t" by auto
  then show ?thesis using assms(1,4) by (auto simp: consoleread_def calm_simps)
qed

section \<open>A console in use\<close>

text \<open>The line \<open>hi\<close> is waiting to be read, the next one has its first character, and the terminal is idle.\<close>

lemma demo_console: "\<exists>(s :: tty) k fs. demo_ok k fs \<and> calm 0 s \<and> mem s = mem k \<and> pagetable (procs s 0) = 0x87e00000
   \<and> cons_inv s \<and> committed s = [0x68, 0x69, 10] \<and> pending s = [0x78] \<and> \<not> panicked s \<and> idles s = 10"
proof -
  obtain k fs where d: "demo_ok k fs" using demo_space by blast
  let ?s = "(undefined :: tty)\<lparr>tp := 0, sie := (\<lambda>_. True), cpus := (\<lambda>_. \<lparr>c_proc = Some 0, noff = 0, intena = True\<rparr>),
     locks := (\<lambda>_. \<lparr>locked = False, lk_name = [], lk_cpu = None\<rparr>), mem := mem k,
     procs := (\<lambda>_. undefined\<lparr>pagetable := 0x87e00000, pkilled := False\<rparr>), panicked := False, lsr_in := replicate 10 0x20,
     cons_buf := [0x68, 0x69, 10, 0x78] @ replicate 124 0, cons_r := 0, cons_w := 3, cons_e := 4\<rparr>"
  have "calm 0 ?s" by (simp add: calm_def settled_def lock_free_def mycpu_def cpuid_def intr_get_def)
  moreover have r: "committed ?s = [0x68, 0x69, 10]" "pending ?s = [0x78]"
    by (simp_all add: committed_def pending_def ring_def upt_conv_Cons)
  moreover from r(2) have "cons_inv ?s" by (simp add: cons_inv_def ring_ok_def)
  moreover have "idles ?s = 10" by (simp add: idles_def LSR_TX_IDLE_def)
  ultimately show ?thesis using d by (intro exI [of _ ?s] exI [of _ k] exI [of _ fs]) simp
qed

theorem consoleintr_correct_witness:
  "\<exists>(s :: tty) t. cons_inv s \<and> line s = ([0x68, 0x69, 10], [0x78]) \<and> consoleintr 0x7F s = Ok t \<and> line t = ([0x68, 0x69, 10], [])"
proof -
  obtain s :: tty where s: "calm 0 s" "cons_inv s" "committed s = [0x68, 0x69, 10]" "pending s = [0x78]" "\<not> panicked s" "idles s = 10"
    using demo_console by blast
  from consoleintr_correct [of s "0x7F"] s calm_mach [OF s(1)] show ?thesis
    by - (rule exI [of _ s], auto simp: typed_def line_def line_input_def)
qed

theorem consoleread_correct_witness:
  "\<exists>(s :: tty) t. committed s = [0x68, 0x69, 10] \<and> consoleread (UserDst 0x10) 100 s = Ok (3, t) \<and> committed t = [] \<and> pending t = [0x78]"
proof -
  obtain s :: tty and k fs where s: "demo_ok k fs" "calm 0 s" "mem s = mem k" "pagetable (procs s 0) = 0x87e00000"
    "cons_inv s" "committed s = [0x68, 0x69, 10]" "pending s = [0x78]" using demo_console by blast
  have pg: "PGROUNDDOWN (0x10 + of_nat j) = 0" if "j < 100" for j
  proof -
    have "unat (0x10 + of_nat j :: uint64) = 16 + j" using that by (simp add: unat_add_of_nat)
    then have "unat (PGROUNDDOWN (0x10 + of_nat j)) = 0" using that by (simp add: unat_PGROUNDDOWN)
    then show ?thesis by (simp add: unat_eq_0)
  qed
  have "space_ok (mem s) (pagetable (procs s 0))" "\<forall>j < nat 100. writable (mem s) (pagetable (procs s 0)) (0x10 + of_nat j)"
    "line_ready (nat 100) (committed s)"
    using pg by (simp_all add: s(3,4,6) demo_user [OF s(1)] line_ready_def)
  moreover have "one_line (nat 100) (committed s) = [0x68, 0x69, 10]" using s(6) one_line.simps(3) [of 99] one_line.simps(3) [of 98] one_line.simps(3) [of 97] by simp
  ultimately show ?thesis using consoleread_correct [OF s(2,5), of 100 "0x10"] s
    by - (rule exI [of _ s], auto simp: got_line_def line_rest_def)
qed

end
