(* ===== verification/Virtio.thy ===== *)
theory Virtio
  imports Console
begin

text \<open>
  The driver of the virtio disk (\<^verbatim>\<open>kernel/virtio_disk.c\<close>, \<^verbatim>\<open>kernel/virtio.h\<close>). The three queue structures
  that driver and device share are kept as the C structures, each in the page \<open>kalloc\<close> gave for it. The
  device is outside the program: the values its registers will deliver are a list in the state,
  stores to its registers are recorded, and the changes it makes to the shared structures happen
  between the two halves of \<open>virtio_disk_rw\<close>, which is split at the call of \<open>sleep\<close>.
\<close>

section \<open>State\<close>

abbreviation (input) NUM :: nat where "NUM \<equiv> 8"
abbreviation (input) VRING_DESC_F_NEXT :: ushort where "VRING_DESC_F_NEXT \<equiv> 1"
abbreviation (input) VRING_DESC_F_WRITE :: ushort where "VRING_DESC_F_WRITE \<equiv> 2"
abbreviation (input) VIRTIO_BLK_T_IN :: uint where "VIRTIO_BLK_T_IN \<equiv> 0"
abbreviation (input) VIRTIO_BLK_T_OUT :: uint where "VIRTIO_BLK_T_OUT \<equiv> 1"

text \<open>The addresses a descriptor may hold: \<open>disk.ops[i]\<close>, the data of a buffer, \<open>disk.info[i].status\<close>.\<close>

datatype daddr = NullAddr | OpsAddr nat | DataAddr nat | StatusAddr nat

record virtq_desc =
  dd_addr :: daddr
  dd_len :: uint
  dd_flags :: ushort
  dd_next :: ushort

record virtio_blk_req =
  req_type :: uint
  req_reserved :: uint
  req_sector :: uint64

text \<open>\<open>bdisk\<close> is the field \<open>disk\<close> of \<open>struct buf\<close>: the device owns the buffer.\<close>

record vdisk = tty +
  vreg_in :: "uint list"
  vreg_out :: "(nat \<times> uint) list"
  desc_pg :: uint64
  avail_pg :: uint64
  used_pg :: uint64
  vdesc :: "virtq_desc list"
  avail_idx :: ushort
  avail_ring :: "ushort list"
  dev_used_idx :: ushort
  used_ring :: "(uint \<times> uint) list"
  dfree :: "bool list"
  used_idx :: ushort
  info_b :: "nat option list"
  info_status :: "byte list"
  vops :: "virtio_blk_req list"
  bdisk :: "nat \<Rightarrow> bool"

definition vread :: "'z vdisk_scheme \<Rightarrow> (uint \<times> 'z vdisk_scheme) res" where
  "vread s = (case vreg_in s of [] \<Rightarrow> Wait | v # vs \<Rightarrow> Ok (v, s\<lparr>vreg_in := vs\<rparr>))"

definition vwrite :: "nat \<Rightarrow> uint \<Rightarrow> 'z vdisk_scheme \<Rightarrow> 'z vdisk_scheme" where
  "vwrite reg v s = s\<lparr>vreg_out := vreg_out s @ [(reg, v)]\<rparr>"

definition null_desc :: virtq_desc where
  "null_desc = \<lparr>dd_addr = NullAddr, dd_len = 0, dd_flags = 0, dd_next = 0\<rparr>"

section \<open>Initialisation\<close>

text \<open>The registers, by their offsets.\<close>

abbreviation (input) R_STATUS :: nat where "R_STATUS \<equiv> 0x070"
abbreviation (input) R_DRIVER_FEATURES :: nat where "R_DRIVER_FEATURES \<equiv> 0x020"
abbreviation (input) R_QUEUE_SEL :: nat where "R_QUEUE_SEL \<equiv> 0x030"
abbreviation (input) R_QUEUE_NUM :: nat where "R_QUEUE_NUM \<equiv> 0x038"
abbreviation (input) R_QUEUE_READY :: nat where "R_QUEUE_READY \<equiv> 0x044"
abbreviation (input) R_QUEUE_NOTIFY :: nat where "R_QUEUE_NOTIFY \<equiv> 0x050"
abbreviation (input) R_INTERRUPT_ACK :: nat where "R_INTERRUPT_ACK \<equiv> 0x064"
abbreviation (input) R_QUEUE_DESC_LOW :: nat where "R_QUEUE_DESC_LOW \<equiv> 0x080"
abbreviation (input) R_DRIVER_DESC_LOW :: nat where "R_DRIVER_DESC_LOW \<equiv> 0x090"
abbreviation (input) R_DEVICE_DESC_LOW :: nat where "R_DEVICE_DESC_LOW \<equiv> 0x0a0"

definition driver_features :: "uint \<Rightarrow> uint" where
  "driver_features f = f AND NOT (push_bit 5 1) AND NOT (push_bit 7 1) AND NOT (push_bit 11 1) AND NOT (push_bit 12 1)
     AND NOT (push_bit 27 1) AND NOT (push_bit 29 1) AND NOT (push_bit 28 1)"

text \<open>The test of the four identification registers; a wrong value ends the evaluation of \<open>||\<close>.\<close>

fun vcheck :: "uint list \<Rightarrow> 'z vdisk_scheme \<Rightarrow> 'z vdisk_scheme res" where
  "vcheck [] s = Ok s"
| "vcheck (v # vs) s =
     andthen (vread s) (\<lambda>(w, s1). if w \<noteq> v then Panic ''could not find virtio disk'' else vcheck vs s1)"

definition write_addr :: "nat \<Rightarrow> uint64 \<Rightarrow> 'z vdisk_scheme \<Rightarrow> 'z vdisk_scheme" where
  "write_addr reg a s = vwrite (reg + 4) (ucast (drop_bit 32 a)) (vwrite reg (ucast a) s)"

text \<open>The second half of \<open>virtio_disk_init\<close>: the queue memory and the hand-over to the device.\<close>

definition virtio_queue_init :: "uint \<Rightarrow> 'z vdisk_scheme \<Rightarrow> 'z vdisk_scheme res" where
  "virtio_queue_init status s =
     andthen (kalloc s) (\<lambda>(d, s1). andthen (kalloc (s1\<lparr>desc_pg := d\<rparr>)) (\<lambda>(a, s2).
     andthen (kalloc (s2\<lparr>avail_pg := a\<rparr>)) (\<lambda>(u, s3).
     let s4 = s3\<lparr>used_pg := u\<rparr> in
     if d = 0 \<or> a = 0 \<or> u = 0 then Panic ''virtio disk kalloc''
     else let
       s5 = s4\<lparr>mem := memset u 0 PGSIZE (memset a 0 PGSIZE (memset d 0 PGSIZE (mem s4))),
               vdesc := replicate NUM null_desc, avail_idx := 0, avail_ring := replicate NUM 0,
               dev_used_idx := 0, used_ring := replicate NUM (0, 0)\<rparr>;
       s6 = vwrite R_QUEUE_NUM (of_nat NUM) s5;
       s7 = write_addr R_DEVICE_DESC_LOW u (write_addr R_DRIVER_DESC_LOW a (write_addr R_QUEUE_DESC_LOW d s6));
       s8 = vwrite R_QUEUE_READY 1 s7
     in Ok (vwrite R_STATUS (status OR 4) (s8\<lparr>dfree := replicate NUM True\<rparr>)))))"

definition virtio_disk_init :: "'z vdisk_scheme \<Rightarrow> 'z vdisk_scheme res" where
  "virtio_disk_init s =
     andthen (vcheck [0x74726976, 2, 2, 0x554d4551] (initlock VdiskLock ''virtio_disk'' s)) (\<lambda>s1.
     let s2 = vwrite R_STATUS 3 (vwrite R_STATUS 1 (vwrite R_STATUS 0 s1)) in
     andthen (vread s2) (\<lambda>(features, s3).
     let s4 = vwrite R_STATUS 11 (vwrite R_DRIVER_FEATURES (driver_features features) s3) in
     andthen (vread s4) (\<lambda>(status, s5).
     if status AND 8 = 0 then Panic ''virtio disk FEATURES_OK unset''
     else andthen (vread (vwrite R_QUEUE_SEL 0 s5)) (\<lambda>(ready, s6).
     if ready \<noteq> 0 then Panic ''virtio disk should not be ready''
     else andthen (vread s6) (\<lambda>(qmax, s7).
     if qmax = 0 then Panic ''virtio disk has no queue 0''
     else if qmax < of_nat NUM then Panic ''virtio disk max queue too short''
     else virtio_queue_init status s7)))))"

section \<open>Descriptors\<close>

definition alloc_desc :: "'z vdisk_scheme \<Rightarrow> nat option \<times> 'z vdisk_scheme" where
  "alloc_desc s =
     (case find (\<lambda>i. dfree s ! i) [0..<NUM] of
        Some i \<Rightarrow> (Some i, s\<lparr>dfree := (dfree s)[i := False]\<rparr>)
      | None \<Rightarrow> (None, s))"

definition set_desc :: "nat \<Rightarrow> virtq_desc \<Rightarrow> 'z vdisk_scheme \<Rightarrow> 'z vdisk_scheme" where
  "set_desc i d s = s\<lparr>vdesc := (vdesc s)[i := d]\<rparr>"

definition free_desc :: "nat \<Rightarrow> 'z vdisk_scheme \<Rightarrow> 'z vdisk_scheme res" where
  "free_desc i s =
     (if i \<ge> NUM then Panic ''free_desc 1''
      else if dfree s ! i then Panic ''free_desc 2''
      else wakeup (Some DiskFreeChan) ((set_desc i null_desc s)\<lparr>dfree := (dfree s)[i := True]\<rparr>))"

text \<open>
  \<open>free_chain\<close> follows the links. Each round frees a descriptor or panics, so \<open>NUM + 1\<close> rounds are
  enough; the first argument counts them.
\<close>

fun free_chain_loop :: "nat \<Rightarrow> nat \<Rightarrow> 'z vdisk_scheme \<Rightarrow> 'z vdisk_scheme res" where
  "free_chain_loop 0 i s = Wait"
| "free_chain_loop (Suc k) i s =
     (if i \<ge> NUM then Panic ''undefined: desc[i]''
      else let fl = dd_flags (vdesc s ! i); nxt = dd_next (vdesc s ! i) in
        andthen (free_desc i s) (\<lambda>s1.
        if fl AND VRING_DESC_F_NEXT \<noteq> 0 then free_chain_loop k (unat nxt) s1 else Ok s1))"

definition free_chain :: "nat \<Rightarrow> 'z vdisk_scheme \<Rightarrow> 'z vdisk_scheme res" where
  "free_chain i s = free_chain_loop (NUM + 1) i s"

text \<open>The loop of \<open>alloc3_desc\<close>, with the descriptors it has so far.\<close>

fun alloc3_loop :: "nat \<Rightarrow> nat list \<Rightarrow> 'z vdisk_scheme \<Rightarrow> (nat list option \<times> 'z vdisk_scheme) res" where
  "alloc3_loop 0 idx s = Ok (Some idx, s)"
| "alloc3_loop (Suc k) idx s =
     (case alloc_desc s of
        (Some i, s1) \<Rightarrow> alloc3_loop k (idx @ [i]) s1
      | (None, s1) \<Rightarrow> andthen (for_each idx free_desc s1) (\<lambda>s2. Ok (None, s2)))"

definition alloc3_desc :: "'z vdisk_scheme \<Rightarrow> (nat list option \<times> 'z vdisk_scheme) res" where
  "alloc3_desc s = alloc3_loop 3 [] s"

section \<open>Requests\<close>

definition set_bdisk :: "nat \<Rightarrow> bool \<Rightarrow> 'z vdisk_scheme \<Rightarrow> 'z vdisk_scheme" where
  "set_bdisk b v s = s\<lparr>bdisk := (bdisk s)(b := v)\<rparr>"

text \<open>The formatting of the request and of its three descriptors.\<close>

definition format_req :: "nat \<Rightarrow> bool \<Rightarrow> nat \<Rightarrow> nat \<Rightarrow> nat \<Rightarrow> 'z vdisk_scheme \<Rightarrow> 'z vdisk_scheme" where
  "format_req b wr i0 i1 i2 s =
     (let sector = ucast (blockno (bufs s b) * 2);
          s1 = s\<lparr>vops := (vops s)[i0 := \<lparr>req_type = (if wr then VIRTIO_BLK_T_OUT else VIRTIO_BLK_T_IN),
                 req_reserved = 0, req_sector = sector\<rparr>]\<rparr>;
          s2 = set_desc i0 \<lparr>dd_addr = OpsAddr i0, dd_len = 16, dd_flags = VRING_DESC_F_NEXT, dd_next = of_nat i1\<rparr> s1;
          s3 = set_desc i1 \<lparr>dd_addr = DataAddr b, dd_len = of_nat BSIZE,
                 dd_flags = (if wr then 0 else VRING_DESC_F_WRITE) OR VRING_DESC_F_NEXT, dd_next = of_nat i2\<rparr> s2;
          s4 = s3\<lparr>info_status := (info_status s3)[i0 := 0xff]\<rparr>
      in set_desc i2 \<lparr>dd_addr = StatusAddr i0, dd_len = 1, dd_flags = VRING_DESC_F_WRITE, dd_next = 0\<rparr> s4)"

text \<open>
  \<open>virtio_disk_rw\<close> up to the loop that waits for \<open>b->disk == 0\<close>; the lock is held, and the result is the
  first descriptor of the chain. When no three descriptors are free it sleeps.
\<close>

definition virtio_disk_submit :: "nat \<Rightarrow> bool \<Rightarrow> 'z vdisk_scheme \<Rightarrow> (nat \<times> 'z vdisk_scheme) res" where
  "virtio_disk_submit b wr s =
     andthen (acquire VdiskLock s) (\<lambda>s1.
     andthen (alloc3_desc s1) (\<lambda>(idx, s2).
     case idx of
       None \<Rightarrow> sleep DiskFreeChan VdiskLock s2
     | Some ix \<Rightarrow>
         let i0 = ix ! 0;
             s3 = set_bdisk b True (format_req b wr i0 (ix ! 1) (ix ! 2) s2);
             s4 = s3\<lparr>info_b := (info_b s3)[i0 := Some b],
                     avail_ring := (avail_ring s3)[unat (avail_idx s3) mod NUM := of_nat i0]\<rparr>;
             s5 = s4\<lparr>avail_idx := avail_idx s4 + 1\<rparr>
         in Ok (i0, vwrite R_QUEUE_NOTIFY 0 s5)))"

text \<open>The rest of \<open>virtio_disk_rw\<close>, entered with the lock held: it sleeps again while the device has the buffer.\<close>

definition virtio_disk_finish :: "nat \<Rightarrow> nat \<Rightarrow> 'z vdisk_scheme \<Rightarrow> 'z vdisk_scheme res" where
  "virtio_disk_finish b i0 s =
     (if bdisk s b then sleep (BufChan b) VdiskLock s
      else andthen (free_chain i0 (s\<lparr>info_b := (info_b s)[i0 := None]\<rparr>)) (release VdiskLock))"

text \<open>
  The loop over the completed requests. The device only adds entries while the loop runs, so the
  number of entries at its start is the number of rounds until the indices agree.
\<close>

fun virtio_intr_loop :: "nat \<Rightarrow> 'z vdisk_scheme \<Rightarrow> 'z vdisk_scheme res" where
  "virtio_intr_loop 0 s = Ok s"
| "virtio_intr_loop (Suc k) s =
     (let i = unat (fst (used_ring s ! (unat (used_idx s) mod NUM))) in
      if i \<ge> NUM then Panic ''undefined: info[id]''
      else if info_status s ! i \<noteq> 0 then Panic ''virtio_disk_intr status''
      else case info_b s ! i of
             None \<Rightarrow> Panic ''kerneltrap''
           | Some b \<Rightarrow>
               andthen (wakeup (Some (BufChan b)) (set_bdisk b False s)) (\<lambda>s1.
               virtio_intr_loop k (s1\<lparr>used_idx := used_idx s1 + 1\<rparr>)))"

definition virtio_disk_intr :: "'z vdisk_scheme \<Rightarrow> 'z vdisk_scheme res" where
  "virtio_disk_intr s =
     andthen (acquire VdiskLock s) (\<lambda>s1.
     andthen (vread s1) (\<lambda>(st, s2).
     let s3 = vwrite R_INTERRUPT_ACK (st AND 3) s2 in
     andthen (virtio_intr_loop (unat (dev_used_idx s3 - used_idx s3)) s3) (release VdiskLock)))"

end
