(* ===== verification/File.thy ===== *)
theory File
  imports Virtio
begin

text \<open>
  Open files (\<^verbatim>\<open>kernel/file.c\<close>, \<open>pipealloc\<close> of \<^verbatim>\<open>kernel/pipe.c\<close>, \<open>consoleinit\<close> of \<^verbatim>\<open>kernel/console.c\<close>): the table
  of open files with their reference counts, and reading and writing by the kind of file.
\<close>

section \<open>State\<close>

abbreviation (input) NFILE :: nat where "NFILE \<equiv> 100"
abbreviation (input) NDEV :: nat where "NDEV \<equiv> 10"
abbreviation (input) CONSOLE :: nat where "CONSOLE \<equiv> 1"

datatype fdtype = FD_NONE | FD_PIPE | FD_INODE | FD_DEVICE

record kfile =
  ftype :: fdtype
  fref :: int
  readable :: bool
  writable :: bool
  fpipe :: uint64
  fip :: "nat option"
  foff :: uint
  fmajor :: ushort

text \<open>The functions a device switch entry can point to: only the console registers itself.\<close>

datatype devfn = ConsoleFn

record ftab = vdisk +
  files :: "nat \<Rightarrow> kfile"
  devsw_read :: "nat \<Rightarrow> devfn option"
  devsw_write :: "nat \<Rightarrow> devfn option"

definition set_file :: "nat \<Rightarrow> (kfile \<Rightarrow> kfile) \<Rightarrow> 'z ftab_scheme \<Rightarrow> 'z ftab_scheme" where
  "set_file f g s = s\<lparr>files := (files s)(f := g (files s f))\<rparr>"

definition consoleinit :: "'z ftab_scheme \<Rightarrow> 'z ftab_scheme" where
  "consoleinit s =
     (uartinit (initlock ConsLock ''cons'' s))
       \<lparr>devsw_read := (devsw_read s)(CONSOLE \<mapsto> ConsoleFn), devsw_write := (devsw_write s)(CONSOLE \<mapsto> ConsoleFn)\<rparr>"

section \<open>The table of open files\<close>

definition fileinit :: "'z ftab_scheme \<Rightarrow> 'z ftab_scheme" where
  "fileinit s = initlock FtableLock ''ftable'' s"

definition filealloc :: "'z ftab_scheme \<Rightarrow> (nat option \<times> 'z ftab_scheme) res" where
  "filealloc s =
     andthen (acquire FtableLock s) (\<lambda>s1.
     case find (\<lambda>f. fref (files s1 f) = 0) [0..<NFILE] of
       Some f \<Rightarrow> andthen (release FtableLock (set_file f (\<lambda>r. r\<lparr>fref := 1\<rparr>) s1)) (\<lambda>s2. Ok (Some f, s2))
     | None \<Rightarrow> andthen (release FtableLock s1) (\<lambda>s2. Ok (None, s2)))"

definition filedup :: "nat \<Rightarrow> 'z ftab_scheme \<Rightarrow> (nat \<times> 'z ftab_scheme) res" where
  "filedup f s =
     andthen (acquire FtableLock s) (\<lambda>s1.
     if fref (files s1 f) < 1 then Panic ''filedup''
     else andthen (release FtableLock (set_file f (\<lambda>r. r\<lparr>fref := fref r + 1\<rparr>) s1)) (\<lambda>s2. Ok (f, s2)))"

definition fileclose :: "nat \<Rightarrow> 'z ftab_scheme \<Rightarrow> 'z ftab_scheme res" where
  "fileclose f s =
     andthen (acquire FtableLock s) (\<lambda>s1.
     if fref (files s1 f) < 1 then Panic ''fileclose''
     else let s2 = set_file f (\<lambda>r. r\<lparr>fref := fref r - 1\<rparr>) s1 in
       if fref (files s2 f) > 0 then release FtableLock s2
       else let ff = files s2 f in
         andthen (release FtableLock (set_file f (\<lambda>r. r\<lparr>fref := 0, ftype := FD_NONE\<rparr>) s2)) (\<lambda>s3.
         if ftype ff = FD_PIPE then pipeclose (fpipe ff) (writable ff) s3
         else if ftype ff = FD_INODE \<or> ftype ff = FD_DEVICE
         then andthen (begin_op s3) (\<lambda>s4.
              case fip ff of
                None \<Rightarrow> Panic ''kerneltrap''
              | Some ip \<Rightarrow> andthen (iput ip s4) end_op)
         else Ok s3))"

text \<open>
  \<open>struct stat\<close> as it lies in memory: four bytes of padding before \<open>size\<close>, whose contents the C code
  leaves open; \<open>pad\<close> is what they hold.
\<close>

definition stat_bytes :: "byte list \<Rightarrow> stat \<Rightarrow> byte list" where
  "stat_bytes pad st = le_bytes 4 (st_dev st) @ le_bytes 4 (st_ino st) @ le_bytes 2 (st_type st)
     @ le_bytes 2 (st_nlink st) @ pad @ le_bytes 8 (st_size st)"

definition filestat :: "byte list \<Rightarrow> nat \<Rightarrow> uint64 \<Rightarrow> 'z ftab_scheme \<Rightarrow> (int \<times> 'z ftab_scheme) res" where
  "filestat pad f addr s =
     andthen (myproc s) (\<lambda>(p, s1).
     if ftype (files s1 f) = FD_INODE \<or> ftype (files s1 f) = FD_DEVICE
     then andthen (ilock (fip (files s1 f)) s1) (\<lambda>s2.
          case fip (files s2 f) of
            None \<Rightarrow> Panic ''kerneltrap''
          | Some ip \<Rightarrow>
              let st = stati ip s2 in
              andthen (iunlock (Some ip) s2) (\<lambda>s3.
              case p of
                None \<Rightarrow> Panic ''kerneltrap''
              | Some i \<Rightarrow> andthen (copyout (pagetable (procs s3 i)) addr (stat_bytes pad st) s3) (\<lambda>(r, s4).
                  if r < 0 then Ok (-1, s4) else Ok (0, s4))))
     else Ok (-1, s1))"

section \<open>Reading and writing\<close>

text \<open>A device's function, if its major number is in range and the device has one.\<close>

definition devfn_of :: "(nat \<Rightarrow> devfn option) \<Rightarrow> ushort \<Rightarrow> devfn option" where
  "devfn_of sw m = (if sint m < 0 \<or> sint m \<ge> int NDEV then None else sw (unat m))"

definition fileread :: "nat \<Rightarrow> uint64 \<Rightarrow> int \<Rightarrow> 'z ftab_scheme \<Rightarrow> (int \<times> 'z ftab_scheme) res" where
  "fileread f addr n s =
     (let r = files s f in
      if \<not> readable r then Ok (-1, s)
      else case ftype r of
        FD_PIPE \<Rightarrow> piperead (fpipe r) addr n s
      | FD_DEVICE \<Rightarrow>
          (case devfn_of (devsw_read s) (fmajor r) of
             None \<Rightarrow> Ok (-1, s)
           | Some ConsoleFn \<Rightarrow> consoleread (UserDst addr) n s)
      | FD_INODE \<Rightarrow>
          andthen (ilock (fip r) s) (\<lambda>s1.
          case fip r of
            None \<Rightarrow> Panic ''kerneltrap''
          | Some ip \<Rightarrow>
              andthen (readi ip (UserDst addr) (foff (files s1 f)) (of_int n) s1) (\<lambda>(k, _, s2).
              let s3 = (if k > 0 then set_file f (\<lambda>r. r\<lparr>foff := foff r + of_int k\<rparr>) s2 else s2) in
              andthen (iunlock (Some ip) s3) (\<lambda>s4. Ok (k, s4))))
      | FD_NONE \<Rightarrow> Panic ''fileread'')"

text \<open>
  The most bytes \<open>filewrite\<close> passes to one transaction: \<open>((MAXOPBLOCKS - 1 - 1 - 2) / 2) * BSIZE\<close>.
\<close>

abbreviation (input) filewrite_max :: nat where "filewrite_max \<equiv> (MAXOPBLOCKS - 1 - 1 - 2) div 2 * BSIZE"

definition filewrite_chunk :: "nat \<Rightarrow> nat \<Rightarrow> uint64 \<Rightarrow> nat \<Rightarrow> nat \<Rightarrow> 'z ftab_scheme \<Rightarrow> (int \<times> 'z ftab_scheme) res" where
  "filewrite_chunk f ip addr i n1 s =
     andthen (begin_op s) (\<lambda>s1.
     andthen (ilock (Some ip) s1) (\<lambda>s2.
     andthen (writei ip (UserSrc (addr + of_nat i)) (foff (files s2 f)) (of_nat n1) s2) (\<lambda>(r, s3).
     let s4 = (if r > 0 then set_file f (\<lambda>r'. r'\<lparr>foff := foff r' + of_int r\<rparr>) s3 else s3) in
     andthen (iunlock (Some ip) s4) (\<lambda>s5.
     andthen (end_op s5) (\<lambda>s6. Ok (r, s6))))))"

function filewrite_loop :: "nat \<Rightarrow> nat \<Rightarrow> uint64 \<Rightarrow> nat \<Rightarrow> nat \<Rightarrow> 'z ftab_scheme \<Rightarrow> (nat \<times> 'z ftab_scheme) res" where
  "filewrite_loop f ip addr i n s =
     (if i < n
      then let n1 = min (n - i) filewrite_max in
        andthen (filewrite_chunk f ip addr i n1 s) (\<lambda>(r, s1).
        if r \<noteq> int n1 then Ok (i, s1) else filewrite_loop f ip addr (i + n1) n s1)
      else Ok (i, s))"
  by pat_completeness auto
termination
  by (relation "measure (\<lambda>(f, ip, addr, i, n, s). n - i)") auto

declare filewrite_loop.simps [simp del]

text \<open>A negative \<open>n\<close> leaves \<open>i = 0\<close>, and \<open>0 \<noteq> n\<close> makes the result -1.\<close>

definition filewrite :: "nat \<Rightarrow> uint64 \<Rightarrow> int \<Rightarrow> 'z ftab_scheme \<Rightarrow> (int \<times> 'z ftab_scheme) res" where
  "filewrite f addr n s =
     (let r = files s f in
      if \<not> writable r then Ok (-1, s)
      else case ftype r of
        FD_PIPE \<Rightarrow> pipewrite (fpipe r) addr n s
      | FD_DEVICE \<Rightarrow>
          (case devfn_of (devsw_write s) (fmajor r) of
             None \<Rightarrow> Ok (-1, s)
           | Some ConsoleFn \<Rightarrow> consolewrite (UserSrc addr) n s)
      | FD_INODE \<Rightarrow>
          if n \<le> 0 then Ok (if n = 0 then 0 else -1, s)
          else (case fip r of
                  None \<Rightarrow> andthen (begin_op s) (\<lambda>_. Panic ''ilock'')
                | Some ip \<Rightarrow>
                    andthen (filewrite_loop f ip addr 0 (nat n) s) (\<lambda>(i, s1).
                    Ok (if int i = n then n else -1, s1)))
      | FD_NONE \<Rightarrow> Panic ''filewrite'')"

section \<open>Creating a pipe\<close>

definition close_opt :: "nat option \<Rightarrow> 'z ftab_scheme \<Rightarrow> 'z ftab_scheme res" where
  "close_opt f s = (case f of None \<Rightarrow> Ok s | Some g \<Rightarrow> fileclose g s)"

definition pipealloc :: "'z ftab_scheme \<Rightarrow> ((nat \<times> nat) option \<times> 'z ftab_scheme) res" where
  "pipealloc s =
     (let bad = (\<lambda>f0 f1 s. andthen (close_opt f0 s) (\<lambda>s1. andthen (close_opt f1 s1) (\<lambda>s2. Ok (None, s2)))) in
      andthen (filealloc s) (\<lambda>(f0, s1).
      case f0 of
        None \<Rightarrow> bad None None s1
      | Some a \<Rightarrow>
          andthen (filealloc s1) (\<lambda>(f1, s2).
          case f1 of
            None \<Rightarrow> bad (Some a) None s2
          | Some b \<Rightarrow>
              andthen (kalloc s2) (\<lambda>(pi, s3).
              if pi = 0 then bad (Some a) (Some b) s3
              else let
                s4 = set_pipe pi (\<lambda>p. p\<lparr>readopen := True, writeopen := True, nwrite := 0, nread := 0\<rparr>) s3;
                s5 = initlock (PipeLock pi) ''pipe'' s4;
                s6 = set_file a (\<lambda>r. r\<lparr>ftype := FD_PIPE, readable := True, writable := False, fpipe := pi\<rparr>) s5;
                s7 = set_file b (\<lambda>r. r\<lparr>ftype := FD_PIPE, readable := False, writable := True, fpipe := pi\<rparr>) s6
              in Ok (Some (a, b), s7)))))"

end
