(* ===== verification/Exec.thy ===== *)
theory Exec
  imports File
begin

text \<open>
  Loading a program (\<^verbatim>\<open>kernel/exec.c\<close>, \<^verbatim>\<open>kernel/elf.h\<close>). The header structures are read from the file as
  bytes at the offsets the compiler gives their fields. The argument strings are addresses of pages
  of the kernel's memory.
\<close>

section \<open>The trap frame\<close>

text \<open>Offsets of the fields of \<open>struct trapframe\<close>, which fills a page of its own.\<close>

abbreviation (input) tf_kernel_satp :: uint64 where "tf_kernel_satp \<equiv> 0"
abbreviation (input) tf_kernel_sp :: uint64 where "tf_kernel_sp \<equiv> 8"
abbreviation (input) tf_kernel_trap :: uint64 where "tf_kernel_trap \<equiv> 16"
abbreviation (input) tf_epc :: uint64 where "tf_epc \<equiv> 24"
abbreviation (input) tf_kernel_hartid :: uint64 where "tf_kernel_hartid \<equiv> 32"
abbreviation (input) tf_sp :: uint64 where "tf_sp \<equiv> 48"
abbreviation (input) tf_a0 :: uint64 where "tf_a0 \<equiv> 112"
abbreviation (input) tf_a1 :: uint64 where "tf_a1 \<equiv> 120"
abbreviation (input) tf_a7 :: uint64 where "tf_a7 \<equiv> 168"
abbreviation (input) TRAPFRAME_SIZE :: nat where "TRAPFRAME_SIZE \<equiv> 288"

definition tf_get :: "nat \<Rightarrow> uint64 \<Rightarrow> 'z ptable_scheme \<Rightarrow> uint64" where
  "tf_get p off s = read64 (mem s) (trapframe (procs s p) + off)"

definition tf_put :: "nat \<Rightarrow> uint64 \<Rightarrow> uint64 \<Rightarrow> 'z ptable_scheme \<Rightarrow> 'z ptable_scheme" where
  "tf_put p off v s = s\<lparr>mem := write64 (trapframe (procs s p) + off) v (mem s)\<rparr>"

section \<open>Segments\<close>

definition ELF_MAGIC :: uint where "ELF_MAGIC = 0x464C457F"
abbreviation (input) ELF_PROG_LOAD :: uint where "ELF_PROG_LOAD \<equiv> 1"
abbreviation (input) MAXARG :: nat where "MAXARG \<equiv> 32"
abbreviation (input) USERSTACK :: nat where "USERSTACK \<equiv> 1"

definition get64 :: "nat \<Rightarrow> byte list \<Rightarrow> uint64" where
  "get64 off bs = of_le (get_bytes off 8 bs)"

record elfhdr =
  eh_magic :: uint
  eh_entry :: uint64
  eh_phoff :: uint64
  eh_phnum :: ushort

record proghdr =
  ph_type :: uint
  ph_flags :: uint
  ph_off :: uint64
  ph_vaddr :: uint64
  ph_filesz :: uint64
  ph_memsz :: uint64

definition elfhdr_get :: "byte list \<Rightarrow> elfhdr" where
  "elfhdr_get bs = \<lparr>eh_magic = get32 0 bs, eh_entry = get64 24 bs, eh_phoff = get64 32 bs, eh_phnum = get16 56 bs\<rparr>"

definition proghdr_get :: "byte list \<Rightarrow> proghdr" where
  "proghdr_get bs = \<lparr>ph_type = get32 0 bs, ph_flags = get32 4 bs, ph_off = get64 8 bs, ph_vaddr = get64 16 bs,
     ph_filesz = get64 32 bs, ph_memsz = get64 40 bs\<rparr>"

definition flags2perm :: "uint \<Rightarrow> uint64" where
  "flags2perm flg = (if flg AND 1 \<noteq> 0 then PTE_X else 0) OR (if flg AND 2 \<noteq> 0 then PTE_W else 0)"

text \<open>
  \<open>loadseg\<close> with a size of more than \<open>2 ^ 32 - PGSIZE\<close> bytes starts over when its 32-bit counter wraps
  around, and never ends.
\<close>

fun loadseg_loop :: "uint64 \<Rightarrow> uint64 \<Rightarrow> nat \<Rightarrow> uint \<Rightarrow> uint \<Rightarrow> uint list \<Rightarrow> 'z fs_scheme \<Rightarrow> (int \<times> 'z fs_scheme) res" where
  "loadseg_loop pt va ip offset sz [] s = (if unat sz + PGSIZE > 2 ^ 32 then Wait else Ok (0, s))"
| "loadseg_loop pt va ip offset sz (i # is) s =
     andthen (walkaddr pt (va + ucast i) s) (\<lambda>(pa, s1).
     if pa = 0 then Panic ''loadseg: address should exist''
     else let n = (if sz - i < of_nat PGSIZE then sz - i else of_nat PGSIZE) in
       andthen (readi ip (KernDst pa) (offset + i) n s1) (\<lambda>(r, _, s2).
       if r \<noteq> sint n then Ok (-1, s2) else loadseg_loop pt va ip offset sz is s2))"

definition loadseg :: "uint64 \<Rightarrow> uint64 \<Rightarrow> nat \<Rightarrow> uint \<Rightarrow> uint \<Rightarrow> 'z fs_scheme \<Rightarrow> (int \<times> 'z fs_scheme) res" where
  "loadseg pt va ip offset sz s =
     loadseg_loop pt va ip offset sz (map (\<lambda>k. of_nat (PGSIZE * k)) [0..<(unat sz + PGSIZE - 1) div PGSIZE]) s"

text \<open>
  The loop over the program headers. The result is the new size, and whether all went well; on
  failure the size is the one the page table has to be freed with.
\<close>

fun load_loop :: "nat \<Rightarrow> uint64 \<Rightarrow> nat \<Rightarrow> uint \<Rightarrow> uint64 \<Rightarrow> 'z fs_scheme \<Rightarrow> (bool \<times> uint64 \<times> 'z fs_scheme) res" where
  "load_loop ip pt 0 off sz s = Ok (True, sz, s)"
| "load_loop ip pt (Suc k) off sz s =
     andthen (readi ip LocalDst off 56 s) (\<lambda>(r, bs, s1).
     let ph = proghdr_get bs in
     if r \<noteq> 56 then Ok (False, sz, s1)
     else if ph_type ph \<noteq> ELF_PROG_LOAD then load_loop ip pt k (off + 56) sz s1
     else if ph_memsz ph < ph_filesz ph then Ok (False, sz, s1)
     else if ph_vaddr ph + ph_memsz ph < ph_vaddr ph then Ok (False, sz, s1)
     else if unat (ph_vaddr ph) mod PGSIZE \<noteq> 0 then Ok (False, sz, s1)
     else andthen (uvmalloc pt sz (ph_vaddr ph + ph_memsz ph) (flags2perm (ph_flags ph)) s1) (\<lambda>(sz1, s2).
       if sz1 = 0 then Ok (False, sz, s2)
       else andthen (loadseg pt (ph_vaddr ph) ip (ucast (ph_off ph)) (ucast (ph_filesz ph)) s2) (\<lambda>(r, s3).
         if r < 0 then Ok (False, sz1, s3) else load_loop ip pt k (off + 56) sz1 s3)))"

section \<open>The stack of the new program\<close>

abbreviation align16 :: "uint64 \<Rightarrow> uint64" where
  "align16 sp \<equiv> sp - sp mod 16"

text \<open>
  Pushing the argument strings: the stack pointer and the addresses of the copies, or \<open>None\<close> when they
  do not fit.
\<close>

fun push_args :: "uint64 \<Rightarrow> uint64 \<Rightarrow> uint64 list \<Rightarrow> uint64 list \<Rightarrow> uint64 \<Rightarrow> 'z fs_scheme
    \<Rightarrow> ((uint64 \<times> uint64 list) option \<times> 'z fs_scheme) res" where
  "push_args pt stackbase [] ustack sp s = Ok (Some (sp, ustack), s)"
| "push_args pt stackbase (a # argv) ustack sp s =
     (if length ustack \<ge> MAXARG then Ok (None, s)
      else case strlen a (mem s) of
        None \<Rightarrow> Wait
      | Some n \<Rightarrow>
          let sp1 = align16 (sp - (of_nat n + 1)) in
          if sp1 < stackbase then Ok (None, s)
          else andthen (copyout pt sp1 (read_bytes (mem s) a (n + 1)) s) (\<lambda>(r, s1).
            if r < 0 then Ok (None, s1) else push_args pt stackbase argv (ustack @ [sp1]) sp1 s1))"

section \<open>Exec\<close>

text \<open>\<open>safestrcpy\<close> on an array of a structure: the bytes it stores, for \<open>n = k + 1\<close>.\<close>

fun safestrcpy_l :: "byte list \<Rightarrow> nat \<Rightarrow> byte list" where
  "safestrcpy_l t 0 = [0]"
| "safestrcpy_l t (Suc k) = (if chr0 t \<noteq> 0 then chr0 t # safestrcpy_l (tl t) k else [0, 0])"

definition set_name :: "nat \<Rightarrow> byte list \<Rightarrow> 'z ptable_scheme \<Rightarrow> 'z ptable_scheme" where
  "set_name p t s = set_proc p (\<lambda>r. r\<lparr>pname := put_bytes 0 (safestrcpy_l t 15) (pname r)\<rparr>) s"

text \<open>The part of a path after its last slash.\<close>

fun last_elem :: "byte list \<Rightarrow> byte list \<Rightarrow> byte list" where
  "last_elem lst [] = lst"
| "last_elem lst (c # s) = last_elem (if c = slash then s else lst) s"

text \<open>\<open>goto bad\<close> while the inode is still locked, and after it has been released.\<close>

definition exec_bad :: "uint64 \<Rightarrow> uint64 \<Rightarrow> nat option \<Rightarrow> 'z fs_scheme \<Rightarrow> (int \<times> 'z fs_scheme) res" where
  "exec_bad pt sz ip s =
     andthen (if pt \<noteq> 0 then proc_freepagetable pt sz s else Ok s) (\<lambda>s1.
     case ip of
       None \<Rightarrow> Ok (-1, s1)
     | Some i \<Rightarrow> andthen (iunlockput i s1) (\<lambda>s2. andthen (end_op s2) (\<lambda>s3. Ok (-1, s3))))"

text \<open>The part of \<open>exec\<close> that opens the file and loads the segments: the header, page table and size.\<close>

definition exec_load :: "byte list \<Rightarrow> nat \<Rightarrow> 'z fs_scheme \<Rightarrow> ((elfhdr \<times> uint64 \<times> uint64) option \<times> 'z fs_scheme) res" where
  "exec_load path p s =
     (let bad = (\<lambda>pt sz ip s. andthen (exec_bad pt sz ip s) (\<lambda>(_, s'). Ok (None, s'))) in
      andthen (begin_op s) (\<lambda>s1.
      andthen (namei path s1) (\<lambda>(i, s2).
      case i of
        None \<Rightarrow> andthen (end_op s2) (\<lambda>s3. Ok (None, s3))
      | Some ip \<Rightarrow>
          andthen (ilock (Some ip) s2) (\<lambda>s3.
          andthen (readi ip LocalDst 0 64 s3) (\<lambda>(r, bs, s4).
          let elf = elfhdr_get bs in
          if r \<noteq> 64 then bad 0 0 (Some ip) s4
          else if eh_magic elf \<noteq> ELF_MAGIC then bad 0 0 (Some ip) s4
          else andthen (proc_pagetable p s4) (\<lambda>(pt, s5).
            if pt = 0 then bad 0 0 (Some ip) s5
            else andthen (load_loop ip pt (unat (eh_phnum elf)) (ucast (eh_phoff elf)) 0 s5) (\<lambda>(ok, sz, s6).
              if \<not> ok then bad pt sz (Some ip) s6
              else andthen (iunlockput ip s6) (\<lambda>s7.
                   andthen (end_op s7) (\<lambda>s8. Ok (Some (elf, pt, sz), s8))))))))))"

text \<open>The part that builds the stack: the new size, the stack pointer and \<open>argc\<close>.\<close>

definition exec_stack :: "uint64 \<Rightarrow> uint64 \<Rightarrow> uint64 list \<Rightarrow> 'z fs_scheme \<Rightarrow> ((uint64 \<times> uint64 \<times> nat) option \<times> 'z fs_scheme) res" where
  "exec_stack pt sz0 argv s =
     (let bad = (\<lambda>sz s. andthen (exec_bad pt sz None s) (\<lambda>(_, s'). Ok (None, s')));
          szr = PGROUNDUP sz0; stk = of_nat ((USERSTACK + 1) * PGSIZE) in
      andthen (uvmalloc pt szr (szr + stk) PTE_W s) (\<lambda>(sz1, s1).
      if sz1 = 0 then bad szr s1
      else andthen (uvmclear pt (sz1 - stk) s1) (\<lambda>s2.
        let stackbase = sz1 - of_nat (USERSTACK * PGSIZE) in
        andthen (push_args pt stackbase argv [] sz1 s2) (\<lambda>(out, s3).
        case out of
          None \<Rightarrow> bad sz1 s3
        | Some (sp, ustack) \<Rightarrow>
            let argc = length ustack in
            if argc \<ge> MAXARG then Panic ''undefined: ustack[argc]''
            else let sp1 = align16 (sp - of_nat ((argc + 1) * 8)) in
              if sp1 < stackbase then bad sz1 s3
              else andthen (copyout pt sp1 (concat (map (le_bytes 8) (ustack @ [0]))) s3) (\<lambda>(r, s4).
                if r < 0 then bad sz1 s4 else Ok (Some (sz1, sp1, argc), s4))))))"

definition exec :: "byte list \<Rightarrow> uint64 list \<Rightarrow> 'z fs_scheme \<Rightarrow> (int \<times> 'z fs_scheme) res" where
  "exec path argv s =
     with_proc s (\<lambda>p s1.
     andthen (exec_load path p s1) (\<lambda>(out, s2).
     case out of
       None \<Rightarrow> Ok (-1, s2)
     | Some (elf, pt, sz0) \<Rightarrow>
         with_proc s2 (\<lambda>p s3.
         let oldsz = psz (procs s3 p) in
         andthen (exec_stack pt sz0 argv s3) (\<lambda>(out, s4).
         case out of
           None \<Rightarrow> Ok (-1, s4)
         | Some (sz, sp, argc) \<Rightarrow>
             let s5 = tf_put p tf_a1 sp s4;
                 s6 = set_name p (last_elem path path) s5;
                 oldpt = pagetable (procs s6 p);
                 s7 = set_proc p (\<lambda>r. r\<lparr>pagetable := pt, psz := sz\<rparr>) s6;
                 s8 = tf_put p tf_sp sp (tf_put p tf_epc (eh_entry elf) s7) in
             andthen (proc_freepagetable oldpt oldsz s8) (\<lambda>s9. Ok (int argc, s9))))))"

end
