(* ===== verification/Sysfile.thy ===== *)
theory Sysfile
  imports Exec
begin

text \<open>
  The system calls on files (\<^verbatim>\<open>kernel/sysfile.c\<close>) and the fetching of their arguments (the first part of
  \<^verbatim>\<open>kernel/syscall.c\<close>). A system call returns a register value.
\<close>

abbreviation (input) NOFILE :: nat where "NOFILE \<equiv> 16"
abbreviation (input) MAXPATH :: nat where "MAXPATH \<equiv> 128"
abbreviation (input) O_RDONLY :: uint where "O_RDONLY \<equiv> 0x000"
abbreviation (input) O_WRONLY :: uint where "O_WRONLY \<equiv> 0x001"
abbreviation (input) O_RDWR :: uint where "O_RDWR \<equiv> 0x002"
abbreviation (input) O_CREATE :: uint where "O_CREATE \<equiv> 0x200"
abbreviation (input) O_TRUNC :: uint where "O_TRUNC \<equiv> 0x400"

section \<open>Arguments\<close>

definition fetchaddr :: "uint64 \<Rightarrow> 'z ptable_scheme \<Rightarrow> (uint64 option \<times> 'z ptable_scheme) res" where
  "fetchaddr addr s =
     with_proc s (\<lambda>p s1.
     let sz = psz (procs s1 p) in
     if addr \<ge> sz \<or> addr + 8 > sz then Ok (None, s1)
     else andthen (copyin (pagetable (procs s1 p)) addr 8 s1) (\<lambda>(r, bs, s2).
       if r \<noteq> 0 then Ok (None, s2) else Ok (Some (of_le bs), s2)))"

text \<open>
  \<open>fetchstr\<close> into a local array: the length, and the string without its NUL.
\<close>

definition fetchstr :: "uint64 \<Rightarrow> nat \<Rightarrow> 'z ptable_scheme \<Rightarrow> (int \<times> byte list \<times> 'z ptable_scheme) res" where
  "fetchstr addr mx s =
     with_proc s (\<lambda>p s1.
     andthen (copyinstr (pagetable (procs s1 p)) addr mx s1) (\<lambda>(r, bs, s2).
     if r < 0 then Ok (-1, [], s2)
     else let str = takeWhile (\<lambda>c. c \<noteq> 0) bs in Ok (int (length str), str, s2)))"

text \<open>\<open>fetchstr\<close> into a page of the kernel; a failing copy may leave a part of the string there.\<close>

definition fetchstr_page :: "uint64 \<Rightarrow> uint64 \<Rightarrow> nat \<Rightarrow> 'z ptable_scheme \<Rightarrow> (int \<times> 'z ptable_scheme) res" where
  "fetchstr_page addr buf mx s =
     with_proc s (\<lambda>p s1.
     andthen (copyinstr (pagetable (procs s1 p)) addr mx s1) (\<lambda>(r, bs, s2).
     let s3 = s2\<lparr>mem := write_bytes buf bs (mem s2)\<rparr> in
     if r < 0 then Ok (-1, s3) else Ok (int (length (takeWhile (\<lambda>c. c \<noteq> 0) bs)), s3)))"

definition argraw :: "nat \<Rightarrow> 'z ptable_scheme \<Rightarrow> (uint64 \<times> 'z ptable_scheme) res" where
  "argraw n s =
     with_proc s (\<lambda>p s1. if n \<le> 5 then Ok (tf_get p (tf_a0 + 8 * of_nat n) s1, s1) else Panic ''argraw'')"

definition argint :: "nat \<Rightarrow> 'z ptable_scheme \<Rightarrow> (uint \<times> 'z ptable_scheme) res" where
  "argint n s = andthen (argraw n s) (\<lambda>(w, s1). Ok (ucast w, s1))"

definition argaddr :: "nat \<Rightarrow> 'z ptable_scheme \<Rightarrow> (uint64 \<times> 'z ptable_scheme) res" where
  "argaddr n s = argraw n s"

definition argstr :: "nat \<Rightarrow> nat \<Rightarrow> 'z ptable_scheme \<Rightarrow> (int \<times> byte list \<times> 'z ptable_scheme) res" where
  "argstr n mx s = andthen (argaddr n s) (\<lambda>(addr, s1). fetchstr addr mx s1)"

section \<open>File descriptors\<close>

definition argfd :: "nat \<Rightarrow> 'z ptable_scheme \<Rightarrow> ((nat \<times> nat) option \<times> 'z ptable_scheme) res" where
  "argfd n s =
     andthen (argint n s) (\<lambda>(w, s1).
     if sint w < 0 \<or> sint w \<ge> int NOFILE then Ok (None, s1)
     else with_proc s1 (\<lambda>p s2.
       case ofile (procs s2 p) ! unat w of
         None \<Rightarrow> Ok (None, s2)
       | Some f \<Rightarrow> Ok (Some (unat w, f), s2)))"

definition set_ofile :: "nat \<Rightarrow> nat \<Rightarrow> nat option \<Rightarrow> 'z ptable_scheme \<Rightarrow> 'z ptable_scheme" where
  "set_ofile p fd f s = set_proc p (\<lambda>r. r\<lparr>ofile := (ofile r)[fd := f]\<rparr>) s"

definition fdalloc :: "nat \<Rightarrow> 'z ptable_scheme \<Rightarrow> (nat option \<times> 'z ptable_scheme) res" where
  "fdalloc f s =
     with_proc s (\<lambda>p s1.
     case find (\<lambda>fd. ofile (procs s1 p) ! fd = None) [0..<NOFILE] of
       Some fd \<Rightarrow> Ok (Some fd, set_ofile p fd (Some f) s1)
     | None \<Rightarrow> Ok (None, s1))"

definition sys_dup :: "'z ftab_scheme \<Rightarrow> (int \<times> 'z ftab_scheme) res" where
  "sys_dup s =
     andthen (argfd 0 s) (\<lambda>(a, s1).
     case a of
       None \<Rightarrow> Ok (-1, s1)
     | Some (_, f) \<Rightarrow>
         andthen (fdalloc f s1) (\<lambda>(fd, s2).
         case fd of
           None \<Rightarrow> Ok (-1, s2)
         | Some d \<Rightarrow> andthen (filedup f s2) (\<lambda>(_, s3). Ok (int d, s3))))"

definition sys_read :: "'z ftab_scheme \<Rightarrow> (int \<times> 'z ftab_scheme) res" where
  "sys_read s =
     andthen (argaddr 1 s) (\<lambda>(p, s1). andthen (argint 2 s1) (\<lambda>(n, s2). andthen (argfd 0 s2) (\<lambda>(a, s3).
     case a of None \<Rightarrow> Ok (-1, s3) | Some (_, f) \<Rightarrow> fileread f p (sint n) s3)))"

definition sys_write :: "'z ftab_scheme \<Rightarrow> (int \<times> 'z ftab_scheme) res" where
  "sys_write s =
     andthen (argaddr 1 s) (\<lambda>(p, s1). andthen (argint 2 s1) (\<lambda>(n, s2). andthen (argfd 0 s2) (\<lambda>(a, s3).
     case a of None \<Rightarrow> Ok (-1, s3) | Some (_, f) \<Rightarrow> filewrite f p (sint n) s3)))"

definition sys_close :: "'z ftab_scheme \<Rightarrow> (int \<times> 'z ftab_scheme) res" where
  "sys_close s =
     andthen (argfd 0 s) (\<lambda>(a, s1).
     case a of
       None \<Rightarrow> Ok (-1, s1)
     | Some (fd, f) \<Rightarrow>
         with_proc s1 (\<lambda>p s2. andthen (fileclose f (set_ofile p fd None s2)) (\<lambda>s3. Ok (0, s3))))"

definition sys_fstat :: "byte list \<Rightarrow> 'z ftab_scheme \<Rightarrow> (int \<times> 'z ftab_scheme) res" where
  "sys_fstat pad s =
     andthen (argaddr 1 s) (\<lambda>(st, s1). andthen (argfd 0 s1) (\<lambda>(a, s2).
     case a of None \<Rightarrow> Ok (-1, s2) | Some (_, f) \<Rightarrow> filestat pad f st s2))"

section \<open>Links and directories\<close>

text \<open>The value of \<open>end_op(); return r;\<close>.\<close>

definition end_return :: "int \<Rightarrow> 'z log_scheme \<Rightarrow> (int \<times> 'z log_scheme) res" where
  "end_return r s = andthen (end_op s) (\<lambda>s1. Ok (r, s1))"

definition add_nlink :: "nat \<Rightarrow> ushort \<Rightarrow> 'z fs_scheme \<Rightarrow> 'z fs_scheme res" where
  "add_nlink ip d s = iupdate ip (set_inode ip (\<lambda>r. r\<lparr>inlink := inlink r + d\<rparr>) s)"

definition link_bad :: "nat \<Rightarrow> 'z fs_scheme \<Rightarrow> (int \<times> 'z fs_scheme) res" where
  "link_bad ip s =
     andthen (ilock (Some ip) s) (\<lambda>s1. andthen (add_nlink ip (- 1) s1) (\<lambda>s2.
     andthen (iunlockput ip s2) (end_return (-1))))"

definition sys_link :: "'z fs_scheme \<Rightarrow> (int \<times> 'z fs_scheme) res" where
  "sys_link s =
     andthen (argstr 0 MAXPATH s) (\<lambda>(r, old, s1).
     if r < 0 then Ok (-1, s1)
     else andthen (argstr 1 MAXPATH s1) (\<lambda>(r, new, s2).
     if r < 0 then Ok (-1, s2)
     else andthen (begin_op s2) (\<lambda>s3.
     andthen (namei old s3) (\<lambda>(i, s4).
     case i of
       None \<Rightarrow> end_return (-1) s4
     | Some ip \<Rightarrow>
         andthen (ilock (Some ip) s4) (\<lambda>s5.
         if itype (inodes s5 ip) = T_DIR then andthen (iunlockput ip s5) (end_return (-1))
         else andthen (add_nlink ip 1 s5) (\<lambda>s6.
           andthen (iunlock (Some ip) s6) (\<lambda>s7.
           andthen (nameiparent new (replicate DIRSIZ 0) s7) (\<lambda>(d, name, s8).
           case d of
             None \<Rightarrow> link_bad ip s8
           | Some dp \<Rightarrow>
               andthen (ilock (Some dp) s8) (\<lambda>s9.
               andthen (if idev (inodes s9 dp) \<noteq> idev (inodes s9 ip) then Ok (-1, s9)
                        else dirlink dp name (inum (inodes s9 ip)) s9) (\<lambda>(r, s10).
               if r < 0 then andthen (iunlockput dp s10) (link_bad ip)
               else andthen (iunlockput dp s10) (\<lambda>s11.
                    andthen (iput ip s11) (end_return 0))))))))))))"

fun isdirempty_loop :: "nat \<Rightarrow> uint list \<Rightarrow> 'z fs_scheme \<Rightarrow> (bool \<times> 'z fs_scheme) res" where
  "isdirempty_loop dp [] s = Ok (True, s)"
| "isdirempty_loop dp (off # offs) s =
     andthen (readi dp LocalDst off 16 s) (\<lambda>(r, bs, s1).
     if r \<noteq> 16 then Panic ''isdirempty: readi''
     else if de_inum (dirent_get bs) \<noteq> 0 then Ok (False, s1)
     else isdirempty_loop dp offs s1)"

definition isdirempty :: "nat \<Rightarrow> 'z fs_scheme \<Rightarrow> (bool \<times> 'z fs_scheme) res" where
  "isdirempty dp s = isdirempty_loop dp (drop 2 (dir_offs (isize (inodes s dp)))) s"

text \<open>The strings \<^verbatim>\<open>"."\<close> and \<^verbatim>\<open>".."\<close>.\<close>

abbreviation dot :: "byte list" where "dot \<equiv> [0x2E]"
abbreviation dotdot :: "byte list" where "dotdot \<equiv> [0x2E, 0x2E]"

text \<open>\<open>sys_unlink\<close> from the moment both inodes are locked.\<close>

definition unlink_entry :: "nat \<Rightarrow> nat \<Rightarrow> uint \<Rightarrow> 'z fs_scheme \<Rightarrow> (int \<times> 'z fs_scheme) res" where
  "unlink_entry dp ip off s =
     andthen (writei dp (LocalSrc (replicate 16 0)) off 16 s) (\<lambda>(r, s1).
     if r \<noteq> 16 then Panic ''unlink: writei''
     else andthen (if itype (inodes s1 ip) = T_DIR then add_nlink dp (- 1) s1 else Ok s1) (\<lambda>s2.
       andthen (iunlockput dp s2) (\<lambda>s3.
       andthen (add_nlink ip (- 1) s3) (\<lambda>s4.
       andthen (iunlockput ip s4) (end_return 0)))))"

definition sys_unlink :: "'z fs_scheme \<Rightarrow> (int \<times> 'z fs_scheme) res" where
  "sys_unlink s =
     andthen (argstr 0 MAXPATH s) (\<lambda>(r, path, s1).
     if r < 0 then Ok (-1, s1)
     else andthen (begin_op s1) (\<lambda>s2.
     andthen (nameiparent path (replicate DIRSIZ 0) s2) (\<lambda>(d, name, s3).
     case d of
       None \<Rightarrow> end_return (-1) s3
     | Some dp \<Rightarrow>
         let bad = (\<lambda>s. andthen (iunlockput dp s) (end_return (-1))) in
         andthen (ilock (Some dp) s3) (\<lambda>s4.
         if namecmp name dot = 0 \<or> namecmp name dotdot = 0 then bad s4
         else andthen (dirlookup dp name s4) (\<lambda>(found, s5).
         case found of
           None \<Rightarrow> bad s5
         | Some (ip, off) \<Rightarrow>
             andthen (ilock (Some ip) s5) (\<lambda>s6.
             if sint (inlink (inodes s6 ip)) < 1 then Panic ''unlink: nlink < 1''
             else andthen (if itype (inodes s6 ip) = T_DIR then isdirempty ip s6 else Ok (True, s6)) (\<lambda>(e, s7).
               if \<not> e then andthen (iunlockput ip s7) bad
               else unlink_entry dp ip off s7)))))))"

text \<open>\<open>create\<close> returns the new inode locked. Its \<open>goto fail\<close>:\<close>

definition create_fail :: "nat \<Rightarrow> nat \<Rightarrow> 'z fs_scheme \<Rightarrow> (nat option \<times> 'z fs_scheme) res" where
  "create_fail dp ip s =
     andthen (iupdate ip (set_inode ip (\<lambda>r. r\<lparr>inlink := 0\<rparr>) s)) (\<lambda>s1.
     andthen (iunlockput ip s1) (\<lambda>s2.
     andthen (iunlockput dp s2) (\<lambda>s3. Ok (None, s3))))"

text \<open>\<open>create\<close> once the new inode is allocated and locked.\<close>

definition create_new :: "nat \<Rightarrow> nat \<Rightarrow> byte list \<Rightarrow> ushort \<Rightarrow> ushort \<Rightarrow> ushort \<Rightarrow> 'z fs_scheme \<Rightarrow> (nat option \<times> 'z fs_scheme) res" where
  "create_new dp ip name ty mj mn s =
     andthen (iupdate ip (set_inode ip (\<lambda>r. r\<lparr>imajor := mj, iminor := mn, inlink := 1\<rparr>) s)) (\<lambda>s1.
     andthen (if ty = T_DIR
              then andthen (dirlink ip dot (inum (inodes s1 ip)) s1) (\<lambda>(r, s2).
                   if r < 0 then Ok (r, s2) else dirlink ip dotdot (inum (inodes s2 dp)) s2)
              else Ok (0, s1)) (\<lambda>(r, s3).
     if r < 0 then create_fail dp ip s3
     else andthen (dirlink dp name (inum (inodes s3 ip)) s3) (\<lambda>(r, s4).
       if r < 0 then create_fail dp ip s4
       else andthen (if ty = T_DIR then add_nlink dp 1 s4 else Ok s4) (\<lambda>s5.
            andthen (iunlockput dp s5) (\<lambda>s6. Ok (Some ip, s6))))))"

definition create :: "byte list \<Rightarrow> ushort \<Rightarrow> ushort \<Rightarrow> ushort \<Rightarrow> 'z fs_scheme \<Rightarrow> (nat option \<times> 'z fs_scheme) res" where
  "create path ty mj mn s =
     andthen (nameiparent path (replicate DIRSIZ 0) s) (\<lambda>(d, name, s1).
     case d of
       None \<Rightarrow> Ok (None, s1)
     | Some dp \<Rightarrow>
         andthen (ilock (Some dp) s1) (\<lambda>s2.
         andthen (dirlookup dp name s2) (\<lambda>(found, s3).
         case found of
           Some (ip, _) \<Rightarrow>
             andthen (iunlockput dp s3) (\<lambda>s4.
             andthen (ilock (Some ip) s4) (\<lambda>s5.
             if ty = T_FILE \<and> (itype (inodes s5 ip) = T_FILE \<or> itype (inodes s5 ip) = T_DEVICE) then Ok (Some ip, s5)
             else andthen (iunlockput ip s5) (\<lambda>s6. Ok (None, s6))))
         | None \<Rightarrow>
             andthen (ialloc (idev (inodes s3 dp)) ty s3) (\<lambda>(i, s4).
             case i of
               None \<Rightarrow> andthen (iunlockput dp s4) (\<lambda>s5. Ok (None, s5))
             | Some ip \<Rightarrow> andthen (ilock (Some ip) s4) (create_new dp ip name ty mj mn)))))"

section \<open>Open\<close>

text \<open>The two ways \<open>sys_open\<close> gets its inode; it is locked on success.\<close>

definition open_inode :: "uint \<Rightarrow> byte list \<Rightarrow> 'z fs_scheme \<Rightarrow> (nat option \<times> 'z fs_scheme) res" where
  "open_inode omode path s =
     (if omode AND O_CREATE \<noteq> 0 then create path T_FILE 0 0 s
      else andthen (namei path s) (\<lambda>(i, s1).
        case i of
          None \<Rightarrow> Ok (None, s1)
        | Some ip \<Rightarrow>
            andthen (ilock (Some ip) s1) (\<lambda>s2.
            if itype (inodes s2 ip) = T_DIR \<and> omode \<noteq> O_RDONLY
            then andthen (iunlockput ip s2) (\<lambda>s3. Ok (None, s3))
            else Ok (Some ip, s2))))"

definition open_file :: "nat \<Rightarrow> nat \<Rightarrow> uint \<Rightarrow> 'z ftab_scheme \<Rightarrow> 'z ftab_scheme" where
  "open_file f ip omode s =
     set_file f (\<lambda>r. (if itype (inodes s ip) = T_DEVICE then r\<lparr>ftype := FD_DEVICE, fmajor := imajor (inodes s ip)\<rparr>
                      else r\<lparr>ftype := FD_INODE, foff := 0\<rparr>)
       \<lparr>fip := Some ip, readable := omode AND O_WRONLY = 0,
        writable := (omode AND O_WRONLY \<noteq> 0 \<or> omode AND O_RDWR \<noteq> 0)\<rparr>) s"

definition sys_open :: "'z ftab_scheme \<Rightarrow> (int \<times> 'z ftab_scheme) res" where
  "sys_open s =
     andthen (argint 1 s) (\<lambda>(omode, s1).
     andthen (argstr 0 MAXPATH s1) (\<lambda>(n, path, s2).
     if n < 0 then Ok (-1, s2)
     else andthen (begin_op s2) (\<lambda>s3.
     andthen (open_inode omode path s3) (\<lambda>(i, s4).
     case i of
       None \<Rightarrow> end_return (-1) s4
     | Some ip \<Rightarrow>
         let bad = (\<lambda>s. andthen (iunlockput ip s) (end_return (-1))); mj = sint (imajor (inodes s4 ip)) in
         if itype (inodes s4 ip) = T_DEVICE \<and> (mj < 0 \<or> mj \<ge> int NDEV) then bad s4
         else andthen (filealloc s4) (\<lambda>(fo, s5).
         case fo of
           None \<Rightarrow> bad s5
         | Some f \<Rightarrow>
             andthen (fdalloc f s5) (\<lambda>(fd, s6).
             case fd of
               None \<Rightarrow> andthen (fileclose f s6) bad
             | Some d \<Rightarrow>
                 let s7 = open_file f ip omode s6 in
                 andthen (if omode AND O_TRUNC \<noteq> 0 \<and> itype (inodes s7 ip) = T_FILE then itrunc ip s7 else Ok s7) (\<lambda>s8.
                 andthen (iunlock (Some ip) s8) (end_return (int d)))))))))"

text \<open>\<open>sys_mkdir\<close> and \<open>sys_mknod\<close> after their arguments are known.\<close>

definition make_node :: "byte list \<Rightarrow> ushort \<Rightarrow> ushort \<Rightarrow> ushort \<Rightarrow> 'z fs_scheme \<Rightarrow> (int \<times> 'z fs_scheme) res" where
  "make_node path ty mj mn s =
     andthen (create path ty mj mn s) (\<lambda>(i, s1).
     case i of
       None \<Rightarrow> end_return (-1) s1
     | Some ip \<Rightarrow> andthen (iunlockput ip s1) (end_return 0))"

definition sys_mkdir :: "'z fs_scheme \<Rightarrow> (int \<times> 'z fs_scheme) res" where
  "sys_mkdir s =
     andthen (begin_op s) (\<lambda>s1.
     andthen (argstr 0 MAXPATH s1) (\<lambda>(r, path, s2).
     if r < 0 then end_return (-1) s2 else make_node path T_DIR 0 0 s2))"

definition sys_mknod :: "'z fs_scheme \<Rightarrow> (int \<times> 'z fs_scheme) res" where
  "sys_mknod s =
     andthen (begin_op s) (\<lambda>s1.
     andthen (argint 1 s1) (\<lambda>(mj, s2). andthen (argint 2 s2) (\<lambda>(mn, s3).
     andthen (argstr 0 MAXPATH s3) (\<lambda>(r, path, s4).
     if r < 0 then end_return (-1) s4 else make_node path T_DEVICE (ucast mj) (ucast mn) s4))))"

definition sys_chdir :: "'z fs_scheme \<Rightarrow> (int \<times> 'z fs_scheme) res" where
  "sys_chdir s =
     with_proc s (\<lambda>p s0.
     andthen (begin_op s0) (\<lambda>s1.
     andthen (argstr 0 MAXPATH s1) (\<lambda>(r, path, s2).
     if r < 0 then end_return (-1) s2
     else andthen (namei path s2) (\<lambda>(i, s3).
     case i of
       None \<Rightarrow> end_return (-1) s3
     | Some ip \<Rightarrow>
         andthen (ilock (Some ip) s3) (\<lambda>s4.
         if itype (inodes s4 ip) \<noteq> T_DIR then andthen (iunlockput ip s4) (end_return (-1))
         else andthen (iunlock (Some ip) s4) (\<lambda>s5.
           case cwd (procs s5 p) of
             None \<Rightarrow> Panic ''kerneltrap''
           | Some c \<Rightarrow>
               andthen (iput c s5) (\<lambda>s6.
               andthen (end_op s6) (\<lambda>s7. Ok (0, set_proc p (\<lambda>r. r\<lparr>cwd := Some ip\<rparr>) s7)))))))))"

section \<open>Exec and pipe\<close>

text \<open>
  The argument loop of \<open>sys_exec\<close>, with \<open>k\<close> slots of \<open>argv\<close> left: the pages filled so far, and whether
  the vector was complete.
\<close>

fun exec_args :: "nat \<Rightarrow> uint64 \<Rightarrow> uint64 list \<Rightarrow> 'z ptable_scheme \<Rightarrow> (bool \<times> uint64 list \<times> 'z ptable_scheme) res" where
  "exec_args 0 uargv argv s = Ok (False, argv, s)"
| "exec_args (Suc k) uargv argv s =
     andthen (fetchaddr (uargv + 8 * of_nat (length argv)) s) (\<lambda>(u, s1).
     case u of
       None \<Rightarrow> Ok (False, argv, s1)
     | Some uarg \<Rightarrow>
         if uarg = 0 then Ok (True, argv, s1)
         else andthen (kalloc s1) (\<lambda>(pg, s2).
           if pg = 0 then Ok (False, argv, s2)
           else andthen (fetchstr_page uarg pg PGSIZE s2) (\<lambda>(r, s3).
             if r < 0 then Ok (False, argv @ [pg], s3) else exec_args k uargv (argv @ [pg]) s3)))"

definition sys_exec :: "'z fs_scheme \<Rightarrow> (int \<times> 'z fs_scheme) res" where
  "sys_exec s =
     andthen (argaddr 1 s) (\<lambda>(uargv, s1).
     andthen (argstr 0 MAXPATH s1) (\<lambda>(r, path, s2).
     if r < 0 then Ok (-1, s2)
     else andthen (exec_args MAXARG uargv [] s2) (\<lambda>(ok, argv, s3).
       andthen (if ok then exec path argv s3 else Ok (-1, s3)) (\<lambda>(ret, s4).
       andthen (for_each argv kfree s4) (\<lambda>s5. Ok (ret, s5))))))"

definition close_both :: "nat \<Rightarrow> nat \<Rightarrow> 'z ftab_scheme \<Rightarrow> (int \<times> 'z ftab_scheme) res" where
  "close_both rfl wfl s = andthen (fileclose rfl s) (\<lambda>s1. andthen (fileclose wfl s1) (\<lambda>s2. Ok (-1, s2)))"

definition sys_pipe :: "'z ftab_scheme \<Rightarrow> (int \<times> 'z ftab_scheme) res" where
  "sys_pipe s =
     with_proc s (\<lambda>p s0.
     andthen (argaddr 0 s0) (\<lambda>(fdarray, s1).
     andthen (pipealloc s1) (\<lambda>(out, s2).
     case out of
       None \<Rightarrow> Ok (-1, s2)
     | Some (rfl, wfl) \<Rightarrow>
         andthen (fdalloc rfl s2) (\<lambda>(a, s3).
         case a of
           None \<Rightarrow> close_both rfl wfl s3
         | Some fd0 \<Rightarrow>
             andthen (fdalloc wfl s3) (\<lambda>(b, s4).
             case b of
               None \<Rightarrow> close_both rfl wfl (set_ofile p fd0 None s4)
             | Some fd1 \<Rightarrow>
                 let undo = (\<lambda>s. close_both rfl wfl (set_ofile p fd1 None (set_ofile p fd0 None s)));
                     pt = pagetable (procs s4 p) in
                 andthen (copyout pt fdarray (le_bytes 4 (of_nat fd0 :: uint)) s4) (\<lambda>(r, s5).
                 if r < 0 then undo s5
                 else andthen (copyout pt (fdarray + 4) (le_bytes 4 (of_nat fd1 :: uint)) s5) (\<lambda>(r, s6).
                   if r < 0 then undo s6 else Ok (0, s6))))))))"

end
