(* ===== verification/Fork.thy ===== *)
theory Fork
  imports Sysfile
begin

text \<open>
  Creating and ending processes: \<open>userinit\<close>, \<open>fork\<close>, \<open>exit\<close> of \<^verbatim>\<open>kernel/proc.c\<close>, and the first part of
  \<open>forkret\<close>. They use the file system and the table of open files, which is why they are not in theory
  \<open>Proc\<close>. The state gets the remaining variables of the kernel and the control registers of the harts.
\<close>

section \<open>State\<close>

record csrs =
  stvec :: uint64
  sepc :: uint64
  scause :: uint64
  stval :: uint64
  satp :: uint64
  spp :: bool
  spie :: bool
  stimecmp :: uint64

text \<open>
  \<open>first\<close> is the static variable of \<open>forkret\<close>. The addresses of code are those of \<open>kernelvec\<close>,
  \<open>usertrap\<close> and of \<open>uservec\<close> and \<open>userret\<close> in the trampoline. \<open>mtime\<close> is what the register \<open>time\<close> reads;
  \<open>plic_in\<close> are the values the interrupt controller will answer, \<open>plic_wr\<close> the stores to its registers.
\<close>

record kern = ftab +
  first :: bool
  ticks :: uint
  started :: bool
  kernel_pagetable :: uint64
  csr :: "nat \<Rightarrow> csrs"
  mtime :: uint64
  plic_in :: "uint list"
  plic_wr :: "(uint64 \<times> uint) list"
  kernelvec_addr :: uint64
  usertrap_addr :: uint64
  uservec_addr :: uint64
  userret_addr :: uint64

section \<open>The first process\<close>

definition initcode :: "byte list" where
  "initcode =
     [0x17, 0x05, 0x00, 0x00, 0x13, 0x05, 0x45, 0x02, 0x97, 0x05, 0x00, 0x00, 0x93, 0x85, 0x35, 0x02, 0x93, 0x08,
      0x70, 0x00, 0x73, 0x00, 0x00, 0x00, 0x93, 0x08, 0x20, 0x00, 0x73, 0x00, 0x00, 0x00, 0xef, 0xf0, 0x9f, 0xff,
      0x2f, 0x69, 0x6e, 0x69, 0x74, 0x00, 0x00, 0x24, 0x00, 0x00, 0x00, 0x00, 0x00, 0x00, 0x00, 0x00]"

definition userinit :: "'z fs_scheme \<Rightarrow> 'z fs_scheme res" where
  "userinit s =
     andthen (allocproc s) (\<lambda>(a, s1).
     let s2 = s1\<lparr>initproc := a\<rparr> in
     case a of
       None \<Rightarrow> Panic ''kerneltrap''
     | Some p \<Rightarrow>
         andthen (uvmfirst (pagetable (procs s2 p)) initcode s2) (\<lambda>s3.
         let s4 = set_proc p (\<lambda>r. r\<lparr>psz := of_nat PGSIZE\<rparr>) s3;
             s5 = tf_put p tf_sp (of_nat PGSIZE) (tf_put p tf_epc 0 s4);
             s6 = set_name p (chars ''initcode'') s5 in
         andthen (namei [slash] s6) (\<lambda>(c, s7).
         release (ProcLock p) (set_proc p (\<lambda>r. r\<lparr>cwd := c, pstate := RUNNABLE\<rparr>) s7))))"

section \<open>Fork\<close>

text \<open>The loop that duplicates the open files of \<open>p\<close> for \<open>np\<close>.\<close>

definition dup_files :: "nat \<Rightarrow> nat \<Rightarrow> 'z ftab_scheme \<Rightarrow> 'z ftab_scheme res" where
  "dup_files p np s =
     for_each [0..<NOFILE] (\<lambda>i s.
       case ofile (procs s p) ! i of
         None \<Rightarrow> Ok s
       | Some f \<Rightarrow> andthen (filedup f s) (\<lambda>(g, s1). Ok (set_ofile np i (Some g) s1))) s"

definition fork :: "'z ftab_scheme \<Rightarrow> (int \<times> 'z ftab_scheme) res" where
  "fork s =
     with_proc s (\<lambda>p s0.
     andthen (allocproc s0) (\<lambda>(a, s1).
     case a of
       None \<Rightarrow> Ok (-1, s1)
     | Some np \<Rightarrow>
         andthen (uvmcopy (pagetable (procs s1 p)) (pagetable (procs s1 np)) (psz (procs s1 p)) s1) (\<lambda>(r, s2).
         if r < 0
         then andthen (freeproc np s2) (\<lambda>s3. andthen (release (ProcLock np) s3) (\<lambda>s4. Ok (-1, s4)))
         else let
           s3 = set_proc np (\<lambda>r. r\<lparr>psz := psz (procs s2 p)\<rparr>) s2;
           s4 = s3\<lparr>mem := write_bytes (trapframe (procs s3 np))
                  (read_bytes (mem s3) (trapframe (procs s3 p)) TRAPFRAME_SIZE) (mem s3)\<rparr>;
           s5 = tf_put np tf_a0 0 s4 in
         andthen (dup_files p np s5) (\<lambda>s6.
         case cwd (procs s6 p) of
           None \<Rightarrow> Panic ''kerneltrap''
         | Some c \<Rightarrow>
             andthen (idup c s6) (\<lambda>(c', s7).
             let s8 = set_name np (takeWhile (\<lambda>b. b \<noteq> 0) (pname (procs s7 p)))
                        (set_proc np (\<lambda>r. r\<lparr>cwd := Some c'\<rparr>) s7);
                 n = pid (procs s8 np) in
             andthen (release (ProcLock np) s8) (\<lambda>s9.
             andthen (acquire WaitLock s9) (\<lambda>s10.
             andthen (release WaitLock (set_proc np (\<lambda>r. r\<lparr>parent := Some p\<rparr>) s10)) (\<lambda>s11.
             andthen (acquire (ProcLock np) s11) (\<lambda>s12.
             andthen (release (ProcLock np) (set_proc np (\<lambda>r. r\<lparr>pstate := RUNNABLE\<rparr>) s12)) (\<lambda>s13.
             Ok (n, s13)))))))))))"

section \<open>Exit\<close>

definition close_files :: "nat \<Rightarrow> 'z ftab_scheme \<Rightarrow> 'z ftab_scheme res" where
  "close_files p s =
     for_each [0..<NOFILE] (\<lambda>fd s.
       case ofile (procs s p) ! fd of
         None \<Rightarrow> Ok s
       | Some f \<Rightarrow> andthen (fileclose f s) (\<lambda>s1. Ok (set_ofile p fd None s1))) s"

text \<open>
  \<open>exit\<close> up to \<open>swtch\<close> in \<open>sched\<close>, from which the zombie never returns. The result is the state in which
  the process leaves the CPU.
\<close>

definition exit :: "int \<Rightarrow> 'z ftab_scheme \<Rightarrow> 'z ftab_scheme res" where
  "exit status s =
     andthen (myproc s) (\<lambda>(me, s0).
     if me = initproc s0 then Panic ''init exiting''
     else case me of
       None \<Rightarrow> Panic ''kerneltrap''
     | Some p \<Rightarrow>
         andthen (close_files p s0) (\<lambda>s1.
         andthen (begin_op s1) (\<lambda>s2.
         case cwd (procs s2 p) of
           None \<Rightarrow> Panic ''kerneltrap''
         | Some c \<Rightarrow>
             andthen (iput c s2) (\<lambda>s3.
             andthen (end_op s3) (\<lambda>s4.
             andthen (acquire WaitLock (set_proc p (\<lambda>r. r\<lparr>cwd := None\<rparr>) s4)) (\<lambda>s5.
             andthen (reparent p s5) (\<lambda>s6.
             andthen (wakeup (map_option ProcChan (parent (procs s6 p))) s6) (\<lambda>s7.
             andthen (acquire (ProcLock p) s7) (\<lambda>s8.
             andthen (release WaitLock (set_proc p (\<lambda>r. r\<lparr>xstate := status, pstate := ZOMBIE\<rparr>) s8)) (\<lambda>s9.
             andthen (sched_enter s9) (\<lambda>(_, s10). Ok s10)))))))))))"

text \<open>\<open>forkret\<close> up to the call of \<open>usertrapret\<close>.\<close>

definition forkret_start :: "'z kern_scheme \<Rightarrow> 'z kern_scheme res" where
  "forkret_start s =
     with_proc s (\<lambda>p s1.
     andthen (release (ProcLock p) s1) (\<lambda>s2.
     if first s2 then andthen (fsinit ROOTDEV s2) (\<lambda>s3. Ok (s3\<lparr>first := False\<rparr>)) else Ok s2))"

end
