(* ===== verification/Syscall.thy ===== *)
theory Syscall
  imports Fork
begin

text \<open>
  The system calls on processes (\<^verbatim>\<open>kernel/sysproc.c\<close>) and the dispatch of system calls (\<open>syscall\<close> of
  \<^verbatim>\<open>kernel/syscall.c\<close>).
\<close>

text \<open>What a system call does: it returns a register value, or the process has left the CPU for good.\<close>

datatype sysout = Ret uint64 | Gone

definition ret_int :: "(int \<times> 's) res \<Rightarrow> (sysout \<times> 's) res" where
  "ret_int m = andthen m (\<lambda>(r, s). Ok (Ret (of_int r), s))"

section \<open>System calls on processes\<close>

definition sys_exit :: "'z kern_scheme \<Rightarrow> (sysout \<times> 'z kern_scheme) res" where
  "sys_exit s = andthen (argint 0 s) (\<lambda>(n, s1). andthen (exit (sint n) s1) (\<lambda>s2. Ok (Gone, s2)))"

definition sys_getpid :: "'z kern_scheme \<Rightarrow> (int \<times> 'z kern_scheme) res" where
  "sys_getpid s = with_proc s (\<lambda>p s1. Ok (pid (procs s1 p), s1))"

definition sys_fork :: "'z kern_scheme \<Rightarrow> (int \<times> 'z kern_scheme) res" where
  "sys_fork s = fork s"

definition sys_wait :: "'z kern_scheme \<Rightarrow> (int \<times> 'z kern_scheme) res" where
  "sys_wait s = andthen (argaddr 0 s) (\<lambda>(p, s1). wait p s1)"

definition sys_sbrk :: "'z kern_scheme \<Rightarrow> (sysout \<times> 'z kern_scheme) res" where
  "sys_sbrk s =
     andthen (argint 0 s) (\<lambda>(n, s1).
     with_proc s1 (\<lambda>p s2.
     let addr = psz (procs s2 p) in
     andthen (growproc (sint n) s2) (\<lambda>(r, s3).
     if r < 0 then Ok (Ret (of_int (-1)), s3) else Ok (Ret addr, s3))))"

text \<open>
  The loop of \<open>sys_sleep\<close>, entered with \<open>tickslock\<close> held; a thread that wakes up continues here with the
  same \<open>ticks0\<close>. The comparison is unsigned.
\<close>

definition sys_sleep_loop :: "uint \<Rightarrow> uint \<Rightarrow> 'z kern_scheme \<Rightarrow> (int \<times> 'z kern_scheme) res" where
  "sys_sleep_loop ticks0 n s =
     (if ticks s - ticks0 < n
      then with_proc s (\<lambda>p s1. andthen (killed p s1) (\<lambda>(k, s2).
           if k then andthen (release TicksLock s2) (\<lambda>s3. Ok (-1, s3))
           else sleep TicksChan TicksLock s2))
      else andthen (release TicksLock s) (\<lambda>s1. Ok (0, s1)))"

definition sys_sleep :: "'z kern_scheme \<Rightarrow> (int \<times> 'z kern_scheme) res" where
  "sys_sleep s =
     andthen (argint 0 s) (\<lambda>(n, s1).
     let n' = (if sint n < 0 then 0 else n) in
     andthen (acquire TicksLock s1) (\<lambda>s2. sys_sleep_loop (ticks s2) n' s2))"

definition sys_kill :: "'z kern_scheme \<Rightarrow> (int \<times> 'z kern_scheme) res" where
  "sys_kill s = andthen (argint 0 s) (\<lambda>(n, s1). kill (sint n) s1)"

definition sys_uptime :: "'z kern_scheme \<Rightarrow> (int \<times> 'z kern_scheme) res" where
  "sys_uptime s =
     andthen (acquire TicksLock s) (\<lambda>s1.
     let x = ticks s1 in andthen (release TicksLock s1) (\<lambda>s2. Ok (uint x, s2)))"

section \<open>Dispatch\<close>

text \<open>The table \<open>syscalls\<close>; \<open>pad\<close> is the padding of \<open>struct stat\<close> (theory \<open>File\<close>).\<close>

definition syscalls :: "byte list \<Rightarrow> int \<Rightarrow> ('z kern_scheme \<Rightarrow> (sysout \<times> 'z kern_scheme) res) option" where
  "syscalls pad num =
     (if num = 1 then Some (\<lambda>s. ret_int (sys_fork s))
      else if num = 2 then Some sys_exit
      else if num = 3 then Some (\<lambda>s. ret_int (sys_wait s))
      else if num = 4 then Some (\<lambda>s. ret_int (sys_pipe s))
      else if num = 5 then Some (\<lambda>s. ret_int (sys_read s))
      else if num = 6 then Some (\<lambda>s. ret_int (sys_kill s))
      else if num = 7 then Some (\<lambda>s. ret_int (sys_exec s))
      else if num = 8 then Some (\<lambda>s. ret_int (sys_fstat pad s))
      else if num = 9 then Some (\<lambda>s. ret_int (sys_chdir s))
      else if num = 10 then Some (\<lambda>s. ret_int (sys_dup s))
      else if num = 11 then Some (\<lambda>s. ret_int (sys_getpid s))
      else if num = 12 then Some sys_sbrk
      else if num = 13 then Some (\<lambda>s. ret_int (sys_sleep s))
      else if num = 14 then Some (\<lambda>s. ret_int (sys_uptime s))
      else if num = 15 then Some (\<lambda>s. ret_int (sys_open s))
      else if num = 16 then Some (\<lambda>s. ret_int (sys_write s))
      else if num = 17 then Some (\<lambda>s. ret_int (sys_mknod s))
      else if num = 18 then Some (\<lambda>s. ret_int (sys_unlink s))
      else if num = 19 then Some (\<lambda>s. ret_int (sys_link s))
      else if num = 20 then Some (\<lambda>s. ret_int (sys_mkdir s))
      else if num = 21 then Some (\<lambda>s. ret_int (sys_close s))
      else None)"

text \<open>The result tells whether the process is gone.\<close>

definition syscall :: "byte list \<Rightarrow> 'z kern_scheme \<Rightarrow> (bool \<times> 'z kern_scheme) res" where
  "syscall pad s =
     with_proc s (\<lambda>p s1.
     let num = sint (ucast (tf_get p tf_a7 s1) :: uint) in
     case syscalls pad num of
       Some f \<Rightarrow>
         andthen (f s1) (\<lambda>(out, s2).
         case out of Gone \<Rightarrow> Ok (True, s2) | Ret v \<Rightarrow> Ok (False, tf_put p tf_a0 v s2))
     | None \<Rightarrow>
         andthen (printf (chars ''%d %s: unknown sys call %d'' @ [10])
           [VWord (of_int (pid (procs s1 p))), VStr (Some (takeWhile (\<lambda>c. c \<noteq> 0) (pname (procs s1 p)))),
            VWord (of_int num)] s1) (\<lambda>s2.
         Ok (False, tf_put p tf_a0 (of_int (-1)) s2)))"

end
