(* ===== verification/Trap.thy ===== *)
theory Trap
  imports Syscall
begin

text \<open>
  Traps and interrupts (\<^verbatim>\<open>kernel/trap.c\<close>), the interrupt controller (\<^verbatim>\<open>kernel/plic.c\<close>) and the boot
  sequence (\<^verbatim>\<open>kernel/main.c\<close>, \<open>kvminit\<close> and \<open>kvminithart\<close> of \<^verbatim>\<open>kernel/vm.c\<close>). A trap handler that calls \<open>yield\<close>
  is split there: what it does before it gives up the CPU, and what it does after.
\<close>

section \<open>Control registers\<close>

definition set_csr :: "(csrs \<Rightarrow> csrs) \<Rightarrow> 'z kern_scheme \<Rightarrow> 'z kern_scheme" where
  "set_csr f s = s\<lparr>csr := (csr s)(tp s := f (csr s (tp s)))\<rparr>"

definition mycsr :: "'z kern_scheme \<Rightarrow> csrs" where
  "mycsr s = csr s (tp s)"

definition MAKE_SATP :: "uint64 \<Rightarrow> uint64" where
  "MAKE_SATP pt = push_bit 60 8 OR drop_bit 12 pt"

definition trapinit :: "'z kern_scheme \<Rightarrow> 'z kern_scheme" where
  "trapinit s = initlock TicksLock ''time'' s"

definition trapinithart :: "'z kern_scheme \<Rightarrow> 'z kern_scheme" where
  "trapinithart s = set_csr (\<lambda>c. c\<lparr>stvec := kernelvec_addr s\<rparr>) s"

section \<open>The interrupt controller\<close>

abbreviation (input) UART0_IRQ :: uint where "UART0_IRQ \<equiv> 10"
abbreviation (input) VIRTIO0_IRQ :: uint where "VIRTIO0_IRQ \<equiv> 1"

definition PLIC_SENABLE :: "nat \<Rightarrow> uint64" where "PLIC_SENABLE hart = PLIC + 0x2080 + of_nat hart * 0x100"
definition PLIC_SPRIORITY :: "nat \<Rightarrow> uint64" where "PLIC_SPRIORITY hart = PLIC + 0x201000 + of_nat hart * 0x2000"
definition PLIC_SCLAIM :: "nat \<Rightarrow> uint64" where "PLIC_SCLAIM hart = PLIC + 0x201004 + of_nat hart * 0x2000"

definition plic_write :: "uint64 \<Rightarrow> uint \<Rightarrow> 'z kern_scheme \<Rightarrow> 'z kern_scheme" where
  "plic_write a v s = s\<lparr>plic_wr := plic_wr s @ [(a, v)]\<rparr>"

definition plicinit :: "'z kern_scheme \<Rightarrow> 'z kern_scheme" where
  "plicinit s = plic_write (PLIC + 4) 1 (plic_write (PLIC + 40) 1 s)"

definition plicinithart :: "'z kern_scheme \<Rightarrow> 'z kern_scheme" where
  "plicinithart s =
     plic_write (PLIC_SPRIORITY (cpuid s)) 0
       (plic_write (PLIC_SENABLE (cpuid s)) (push_bit 10 1 OR push_bit 1 1) s)"

definition plic_claim :: "'z kern_scheme \<Rightarrow> (uint \<times> 'z kern_scheme) res" where
  "plic_claim s = (case plic_in s of [] \<Rightarrow> Wait | v # vs \<Rightarrow> Ok (v, s\<lparr>plic_in := vs\<rparr>))"

definition plic_complete :: "uint \<Rightarrow> 'z kern_scheme \<Rightarrow> 'z kern_scheme" where
  "plic_complete irq s = plic_write (PLIC_SCLAIM (cpuid s)) irq s"

section \<open>Device interrupts\<close>

definition clockintr :: "'z kern_scheme \<Rightarrow> 'z kern_scheme res" where
  "clockintr s =
     andthen (if cpuid s = 0
              then andthen (acquire TicksLock s) (\<lambda>s1.
                   andthen (wakeup (Some TicksChan) (s1\<lparr>ticks := ticks s1 + 1\<rparr>)) (release TicksLock))
              else Ok s) (\<lambda>s1.
     Ok (set_csr (\<lambda>c. c\<lparr>stimecmp := mtime s1 + 1000000\<rparr>) s1))"

definition devintr :: "'z kern_scheme \<Rightarrow> (nat \<times> 'z kern_scheme) res" where
  "devintr s =
     (let cause = scause (mycsr s) in
      if cause = 0x8000000000000009
      then andthen (plic_claim s) (\<lambda>(irq, s1).
           andthen (if irq = UART0_IRQ then uartintr s1
                    else if irq = VIRTIO0_IRQ then virtio_disk_intr s1
                    else if irq \<noteq> 0 then printf (chars ''unexpected interrupt irq=%d'' @ [10]) [VWord (ucast irq)] s1
                    else Ok s1) (\<lambda>s2.
           Ok (1, if irq \<noteq> 0 then plic_complete irq s2 else s2)))
      else if cause = 0x8000000000000005
      then andthen (clockintr s) (\<lambda>s1. Ok (2, s1))
      else Ok (0, s))"

section \<open>Traps from user space\<close>

text \<open>
  \<open>usertrapret\<close>: the result is the argument of the jump to \<open>userret\<close>, the \<open>satp\<close> of the user page table.
\<close>

definition usertrapret :: "'z kern_scheme \<Rightarrow> (uint64 \<times> 'z kern_scheme) res" where
  "usertrapret s0 =
     with_proc s0 (\<lambda>p s.
     let s1 = intr_off s;
         s2 = set_csr (\<lambda>c. c\<lparr>stvec := TRAMPOLINE + (uservec_addr s1 - trampoline_addr s1)\<rparr>) s1;
         s3 = tf_put p tf_kernel_satp (satp (mycsr s2)) s2;
         s4 = tf_put p tf_kernel_sp (kstack (procs s3 p) + of_nat PGSIZE) s3;
         s5 = tf_put p tf_kernel_trap (usertrap_addr s4) s4;
         s6 = tf_put p tf_kernel_hartid (of_nat (tp s5)) s5;
         s7 = set_csr (\<lambda>c. c\<lparr>spp := False, spie := True\<rparr>) s6;
         s8 = set_csr (\<lambda>c. c\<lparr>sepc := tf_get p tf_epc s7\<rparr>) s7
     in Ok (MAKE_SATP (pagetable (procs s8 p)), s8))"

text \<open>How \<open>usertrap\<close> ends: in user space, in \<open>yield\<close> (with the saved \<open>intena\<close>), or in \<open>exit\<close>.\<close>

datatype trapout = ToUser uint64 | InYield bool | TrapGone

definition to_user :: "'z kern_scheme \<Rightarrow> (trapout \<times> 'z kern_scheme) res" where
  "to_user s = andthen (usertrapret s) (\<lambda>(v, s1). Ok (ToUser v, s1))"

definition usertrap_end :: "nat \<Rightarrow> nat \<Rightarrow> 'z kern_scheme \<Rightarrow> (trapout \<times> 'z kern_scheme) res" where
  "usertrap_end p which_dev s =
     andthen (killed p s) (\<lambda>(k, s1).
     if k then andthen (exit (-1) s1) (\<lambda>s2. Ok (TrapGone, s2))
     else if which_dev = 2 then andthen (yield_enter s1) (\<lambda>(ena, s2). Ok (InYield ena, s2))
     else to_user s1)"

definition usertrap :: "byte list \<Rightarrow> 'z kern_scheme \<Rightarrow> (trapout \<times> 'z kern_scheme) res" where
  "usertrap pad s =
     (if spp (mycsr s) then Panic ''usertrap: not from user mode''
      else with_proc (set_csr (\<lambda>c. c\<lparr>stvec := kernelvec_addr s\<rparr>) s) (\<lambda>p s1.
        let s2 = tf_put p tf_epc (sepc (mycsr s1)) s1 in
        if scause (mycsr s2) = 8
        then andthen (killed p s2) (\<lambda>(k, s3).
          if k then andthen (exit (-1) s3) (\<lambda>s4. Ok (TrapGone, s4))
          else andthen (syscall pad (intr_on (tf_put p tf_epc (tf_get p tf_epc s3 + 4) s3))) (\<lambda>(gone, s4).
            if gone then Ok (TrapGone, s4) else usertrap_end p 0 s4))
        else andthen (devintr s2) (\<lambda>(dev, s3).
          if dev \<noteq> 0 then usertrap_end p dev s3
          else andthen (printf (chars ''usertrap(): unexpected scause 0x%lx pid=%d'' @ [10])
                 [VWord (scause (mycsr s3)), VWord (of_int (pid (procs s3 p)))] s3) (\<lambda>s4.
            andthen (printf (chars ''            sepc=0x%lx stval=0x%lx'' @ [10])
                 [VWord (sepc (mycsr s4)), VWord (stval (mycsr s4))] s4) (\<lambda>s5.
            andthen (setkilled p s5) (usertrap_end p 0))))))"

definition usertrap_resume :: "nat \<Rightarrow> bool \<Rightarrow> 'z kern_scheme \<Rightarrow> (trapout \<times> 'z kern_scheme) res" where
  "usertrap_resume p ena s = andthen (yield_exit p ena s) to_user"

definition forkret :: "'z kern_scheme \<Rightarrow> (uint64 \<times> 'z kern_scheme) res" where
  "forkret s = andthen (forkret_start s) usertrapret"

section \<open>Traps from the kernel\<close>

text \<open>
  The handler keeps \<open>sepc\<close> and \<open>sstatus\<close> and puts them back at its end. Here \<open>sstatus\<close> is the bits SPP, SPIE
  and, per hart, SIE. The result is \<open>Some ena\<close> when the thread yields.
\<close>

definition restore_trap :: "uint64 \<Rightarrow> bool \<Rightarrow> bool \<Rightarrow> bool \<Rightarrow> 'z kern_scheme \<Rightarrow> 'z kern_scheme" where
  "restore_trap pc pp pie ie s =
     (set_csr (\<lambda>c. c\<lparr>sepc := pc, spp := pp, spie := pie\<rparr>) s)\<lparr>sie := (sie s)(tp s := ie)\<rparr>"

definition kerneltrap :: "'z kern_scheme \<Rightarrow> (bool option \<times> 'z kern_scheme) res" where
  "kerneltrap s =
     (let c = mycsr s in
      if \<not> spp c then Panic ''kerneltrap: not from supervisor mode''
      else if intr_get s then Panic ''kerneltrap: interrupts enabled''
      else andthen (devintr s) (\<lambda>(dev, s1).
        if dev = 0
        then andthen (printf (chars ''scause=0x%lx sepc=0x%lx stval=0x%lx'' @ [10])
               [VWord (scause c), VWord (sepc (mycsr s1)), VWord (stval (mycsr s1))] s1) (\<lambda>_. Panic ''kerneltrap'')
        else andthen (if dev = 2 then myproc s1 else Ok (None, s1)) (\<lambda>(p, s2).
          if p \<noteq> None then andthen (yield_enter s2) (\<lambda>(ena, s3). Ok (Some ena, s3))
          else Ok (None, restore_trap (sepc c) (spp c) (spie c) (sie s (tp s)) s2))))"

section \<open>Boot\<close>

definition kvminit :: "uint64 \<Rightarrow> 'z kern_scheme \<Rightarrow> 'z kern_scheme res" where
  "kvminit etext s = andthen (kvmmake etext (trampoline_addr s) s) (\<lambda>(pt, s1). Ok (s1\<lparr>kernel_pagetable := pt\<rparr>))"

definition kvminithart :: "'z kern_scheme \<Rightarrow> 'z kern_scheme" where
  "kvminithart s = set_csr (\<lambda>c. c\<lparr>satp := MAKE_SATP (kernel_pagetable s)\<rparr>) s"

text \<open>\<open>main\<close> up to the call of \<open>scheduler\<close>, on hart 0 and on the others; \<open>etext\<close> is a symbol of the linker.\<close>

definition main_hart0 :: "uint64 \<Rightarrow> 'z kern_scheme \<Rightarrow> 'z kern_scheme res" where
  "main_hart0 etext s =
     andthen (printf [10] [] (printfinit (consoleinit s))) (\<lambda>s1.
     andthen (printf (chars ''xv6 kernel is booting'' @ [10]) [] s1) (\<lambda>s2.
     andthen (printf [10] [] s2) (\<lambda>s3.
     andthen (kinit s3) (\<lambda>s4.
     andthen (kvminit etext s4) (\<lambda>s5.
     andthen (procinit (kvminithart s5)) (\<lambda>s6.
     andthen (binit (plicinithart (plicinit (trapinithart (trapinit s6))))) (\<lambda>s7.
     andthen (iinit s7) (\<lambda>s8.
     andthen (virtio_disk_init (fileinit s8)) (\<lambda>s9.
     andthen (userinit s9) (\<lambda>s10. Ok (s10\<lparr>started := True\<rparr>)))))))))))"

definition main :: "uint64 \<Rightarrow> 'z kern_scheme \<Rightarrow> 'z kern_scheme res" where
  "main etext s =
     (if cpuid s = 0 then main_hart0 etext s
      else if \<not> started s then Wait
      else andthen (printf (chars ''hart %d starting'' @ [10]) [VWord (of_nat (cpuid s))] s) (\<lambda>s1.
        Ok (plicinithart (trapinithart (kvminithart s1)))))"

end
