(* ===== verification/Block.thy ===== *)
theory Block
  imports Fs
begin

text \<open>
  Correctness of the block allocator (\<open>balloc\<close>, \<open>bfree\<close>, \<open>bzero\<close> of \<^verbatim>\<open>kernel/fs.c\<close>): inside a transaction
  the bitmap in the buffer cache implements a set of used block numbers. The rules for operations in a transaction
  of the log are lifted to states of the file system here.
\<close>

section \<open>Transactions of the file system\<close>

lemma tx_upd:
  fixes s :: "'z fs_scheme"
  assumes "tx p s0 s C P Own"
  shows "tx p (s0\<lparr>mem := x, inodes := i, kmsgs := m\<rparr>) (s\<lparr>mem := x, inodes := i, kmsgs := m\<rparr>) C P Own"
proof -
  let ?u = "\<lambda>s :: 'z fs_scheme. s\<lparr>mem := x, inodes := i, kmsgs := m\<rparr>"
  note d = txD [OF assms]
  have eq: "?u s = (?u s0)\<lparr>procs := procs s, slocks := slocks s, bufs := bufs s, bnext := bnext s, bprev := bprev s,
      disk := disk s, dwrites := dwrites s, lh_n := lh_n s, lh_block := lh_block s\<rparr>"
  proof -
    have "s = s0\<lparr>procs := procs s, slocks := slocks s, bufs := bufs s, bnext := bnext s, bprev := bprev s,
      disk := disk s, dwrites := dwrites s, lh_n := lh_n s, lh_block := lh_block s\<rparr>" using d(1) by (simp add: tframe_def)
    then have "?u s = ?u (s0\<lparr>procs := procs s, slocks := slocks s, bufs := bufs s, bnext := bnext s, bprev := bprev s,
      disk := disk s, dwrites := dwrites s, lh_n := lh_n s, lh_block := lh_block s\<rparr>)" by (rule arg_cong)
    then show ?thesis by simp
  qed
  have fr: "tframe p (?u s0) (?u s)"
    using d(1) eq unfolding tframe_def by simp
  have c: "content (?u s) = content s" "refs (?u s) = refs s" "lockset (?u s) = lockset s" "bc_inv (?u s) = bc_inv s"
    "bowns p (?u s) = bowns p s" by (rule cache_cong; simp)+
  have "calm p (?u s) = calm p s"
    by (simp add: calm_def settled_def lock_free_def mycpu_def intr_get_def cpuid_def)
  then have "sim p (?u s) (?u s) C (\<lambda>k. (if k \<in> set P then 1 else 0) + (if k \<in> dom Own then 1 else 0)) (dom Own)
      (disk s0) (dwrites s0) Own"
    using d(2) c by (simp add: sim_def bstep_def bframe_refl)
  moreover have "pinned (?u s) = P" using d(3) by (simp add: pinned_def)
  ultimately show ?thesis using fr d by (simp add: tx_def)
qed

text \<open>
  A thread in a transaction has come from \<open>s0\<close> to \<open>s\<close> by operations of the file system: like \<open>tx\<close>, and
  memory, the inode table and the messages may have changed too.
\<close>

definition ftx ::
  "nat \<Rightarrow> 'z fs_scheme \<Rightarrow> 'z fs_scheme \<Rightarrow> (uint \<Rightarrow> block) \<Rightarrow> uint list \<Rightarrow> (uint \<rightharpoonup> nat) \<Rightarrow> bool"
where
  "ftx p s0 s C P Own \<longleftrightarrow> tx p (s0\<lparr>mem := mem s, inodes := inodes s, kmsgs := kmsgs s\<rparr>) s C P Own"

lemma ftx_start: "log_inv p s \<Longrightarrow> ftx p s s (content s) (pinned s) Map.empty"
  using tx_start [of p s] by (simp add: ftx_def)

lemma ftx_end: "ftx p s0 s C P Map.empty \<Longrightarrow> log_inv p s \<and> content s = C \<and> pinned s = P"
  unfolding ftx_def by (rule tx_end)

lemma ftx_inodes: "ftx p s0 s C P Own \<Longrightarrow> ftx p s0 (s\<lparr>inodes := i\<rparr>) C P Own"
  unfolding ftx_def by (drule tx_upd [where x = "mem s" and i = i and m = "kmsgs s"]) simp

lemma ftx_mem: "ftx p s0 s C P Own \<Longrightarrow> ftx p s0 (s\<lparr>mem := x\<rparr>) C P Own"
  unfolding ftx_def by (drule tx_upd [where x = x and i = "inodes s" and m = "kmsgs s"]) simp

lemma ftx_kmsgs: "ftx p s0 s C P Own \<Longrightarrow> ftx p s0 (s\<lparr>kmsgs := m\<rparr>) C P Own"
  unfolding ftx_def by (drule tx_upd [where x = "mem s" and i = "inodes s" and m = m]) simp

lemma ftxD:
  fixes s :: "'z fs_scheme"
  assumes "ftx p s0 s C P Own"
  shows "lg_start s = lg_start s0" "lg_size s = lg_size s0" "outstanding s = outstanding s0" "sb s = sb s0"
    "finite (dom Own)" "length (C n) = BSIZE" "disk s = disk s0" "dwrites s = dwrites s0" "distinct P"
proof -
  note t = assms [unfolded ftx_def]
  show "lg_start s = lg_start s0" "lg_size s = lg_size s0" "outstanding s = outstanding s0" 
    using tframe_log [OF txD(1) [OF t]] by simp_all
  show "sb s = sb s0" using tframe_field [OF txD(1) [OF t], of sb] by simp
  show "finite (dom Own)" by (rule txD(4) [OF t])
  show "length (C n) = BSIZE" by (rule sim_length [OF txD(2) [OF t]])
  show "disk s = disk s0" "dwrites s = dwrites s0" using simD(6,7) [OF txD(2) [OF t]] by simp_all
  show "distinct P" using txD(10) [OF t] by (simp add: log_list_def)
qed

lemma ftx_clean: "ftx p s0 s C P Own \<Longrightarrow> n \<notin> set P \<Longrightarrow> n \<notin> dom Own \<Longrightarrow> C n = disk s0 n"
  unfolding ftx_def using sim_clean [OF txD(2), of p "s0\<lparr>mem := mem s, inodes := inodes s, kmsgs := kmsgs s\<rparr>" s C P Own n] by simp

lemma ftx_data: "ftx p s0 s C P Own \<Longrightarrow> Own n = Some b \<Longrightarrow> bdata (bufs s b) = C n"
  unfolding ftx_def by (rule sim_data [OF txD(2)])

text \<open>The blocks apart, an operation has left inodes and memory alone.\<close>

abbreviation same :: "'z fs_scheme \<Rightarrow> 'z fs_scheme \<Rightarrow> bool" where
  "same s t \<equiv> inodes t = inodes s \<and> mem t = mem s"

lemma tx_ftx:
  assumes "tx p (s0\<lparr>mem := x, inodes := i, kmsgs := m\<rparr>) t C P Own"
  shows "ftx p s0 t C P Own \<and> inodes t = i \<and> mem t = x"
proof -
  have "inodes t = i" "kmsgs t = m" "mem t = x" by (subst tframe_field [OF txD(1) [OF assms]]; simp)+
  then show ?thesis using assms by (simp add: ftx_def)
qed

lemma wp_bread_ftx:
  assumes s: "ftx p s0 s C P Own" and n: "n \<notin> dom Own" and room: "n \<in> set P \<or> length P + card (dom Own) < NBUF"
    and k: "\<And>b t. ftx p s0 t C P (Own(n \<mapsto> b)) \<Longrightarrow> same s t \<Longrightarrow> bdata (bufs t b) = C n \<Longrightarrow> returns (k b t) Q"
  shows "returns (andthen (bread ROOTDEV n s) (\<lambda>(b, t). k b t)) Q"
proof (rule wp_bread_tx [OF s [unfolded ftx_def] n])
  have "card (set P \<union> dom Own) \<le> length P + card (dom Own)"
    using card_Un_le [of "set P" "dom Own"] card_length [of P] by linarith
  then show "n \<in> set P \<or> card (set P \<union> dom Own) < NBUF" using room by auto
qed (auto dest!: tx_ftx intro: k)

lemma bread_ftx:
  assumes "ftx p s0 s C P Own" and "n \<notin> dom Own" and "n \<in> set P \<or> length P + card (dom Own) < NBUF"
  obtains b t where "bread ROOTDEV n s = Ok (b, t)" and "ftx p s0 t C P (Own(n \<mapsto> b))" and "same s t"
    and "bdata (bufs t b) = C n"
proof -
  have "returns (andthen (bread ROOTDEV n s) (\<lambda>(b, t). Ok (b, t)))
      (\<lambda>(b, t). ftx p s0 t C P (Own(n \<mapsto> b)) \<and> same s t \<and> bdata (bufs t b) = C n)"
    by (rule wp_bread_ftx [OF assms]) simp
  then show ?thesis by (auto elim!: returnsE intro: that)
qed

lemma ftx_set_data:
  assumes s: "ftx p s0 s C P Own" and "Own n = Some b" and "length d = BSIZE"
  shows "ftx p s0 (set_data b d s) (C(n := d)) P Own" "same s (set_data b d s)"
  using tx_ftx [OF tx_set_data [OF s [unfolded ftx_def] assms(2,3)]] by simp_all

lemma wp_brelse_ftx:
  assumes s: "ftx p s0 s C P Own" and "Own n = Some b" and "n \<notin> set P \<Longrightarrow> C n = disk s0 n"
    and Q: "\<And>t. ftx p s0 t C P (Own(n := None)) \<Longrightarrow> same s t \<Longrightarrow> Q t"
  shows "returns (brelse b s) Q"
  by (rule wp_brelse_tx [OF s [unfolded ftx_def] assms(2)]) (use assms(3) in \<open>auto dest!: tx_ftx intro: Q\<close>)

lemma wp_brelse_then:
  assumes s: "ftx p s0 s C P Own" and "Own n = Some b" and "n \<notin> set P \<Longrightarrow> C n = disk s0 n"
    and k: "\<And>t. ftx p s0 t C P (Own(n := None)) \<Longrightarrow> same s t \<Longrightarrow> returns (k t) Q"
  shows "returns (andthen (brelse b s) k) Q"
  by (rule returns_andthen [OF wp_brelse_ftx [OF assms(1-3)]]) (auto intro: k)

text \<open>The transaction has room for \<open>k\<close> more blocks.\<close>

definition room :: "nat \<Rightarrow> 'z log_scheme \<Rightarrow> uint list \<Rightarrow> nat \<Rightarrow> bool" where
  "room k s P h \<longleftrightarrow> int (length P + k) \<le> lg_size s - 1 \<and> length P + k + h < NBUF \<and> 1 \<le> outstanding s"

lemma wp_log_write_ftx:
  assumes s: "ftx p s0 s C P Own" and "Own n = Some b" and "n \<notin> log_area (lg_start s0) (lg_size s0)"
    and "room 1 s0 P 0"
    and k: "\<And>t. ftx p s0 t C (log_add n P) Own \<Longrightarrow> same s t \<Longrightarrow> returns (k t) Q"
  shows "returns (andthen (log_write b s) k) Q"
proof (rule wp_log_write [OF s [unfolded ftx_def] assms(2)])
  show "n \<notin> log_area (lg_start s) (lg_size s)" "int (length P) < lg_size s - 1" "Suc (length P) < NBUF" "1 \<le> outstanding s"
    using assms(3,4) ftxD [OF s] by (simp_all add: room_def)
qed (auto dest!: tx_ftx intro: k)

section \<open>The bitmap\<close>

lemma bm_test_bit: "bm_test bi bs \<longleftrightarrow> bit (bs ! (bi div 8)) (bi mod 8)"
  by (simp add: bm_test_def push_bit_of_1 and_exp_eq_0_iff_not_bit)

lemma bm_upd:
  assumes "length bs = BSIZE" and "bi < BPB" and "bj < BPB"
  shows "bm_test bj (bm_set bi bs) \<longleftrightarrow> bj = bi \<or> bm_test bj bs"
    and "bm_test bj (bm_clear bi bs) \<longleftrightarrow> bj \<noteq> bi \<and> bm_test bj bs"
proof -
  have eq: "bj = bi \<longleftrightarrow> bj div 8 = bi div 8 \<and> bj mod 8 = bi mod 8" by (metis div_mult_mod_eq)
  show "bm_test bj (bm_set bi bs) \<longleftrightarrow> bj = bi \<or> bm_test bj bs"
    using assms by (cases "bj div 8 = bi div 8") (auto simp: eq bm_test_bit bm_set_def nth_list_update bit_simps)
  show "bm_test bj (bm_clear bi bs) \<longleftrightarrow> bj \<noteq> bi \<and> bm_test bj bs"
    using assms by (cases "bj div 8 = bi div 8") (auto simp: eq bm_test_bit bm_clear_def nth_list_update bit_simps dest: bit_imp_le_length)
qed

lemma length_bm [simp]: "length (bm_set bi bs) = length bs" "length (bm_clear bi bs) = length bs"
  by (simp_all add: bm_set_def bm_clear_def)

text \<open>Block \<open>b\<close> is marked in the bitmap.\<close>

definition used :: "superblock \<Rightarrow> (uint \<Rightarrow> block) \<Rightarrow> nat \<Rightarrow> bool" where
  "used k C b \<longleftrightarrow> bm_test (b mod BPB) (C (BBLOCK b k))"

text \<open>
  The geometry of the device: the bitmap lies outside the log, and every free block is a data
  block, outside the log and the bitmap.
\<close>

abbreviation nblocks :: "superblock \<Rightarrow> nat" where "nblocks k \<equiv> unat (sb_size k)"

definition bitmap :: "superblock \<Rightarrow> uint set" where
  "bitmap k = (\<lambda>b. BBLOCK b k) ` {..<nblocks k}"

definition map_ok :: "superblock \<Rightarrow> uint set \<Rightarrow> (uint \<Rightarrow> block) \<Rightarrow> bool" where
  "map_ok k L C \<longleftrightarrow> nblocks k < 2 ^ 31 \<and> bitmap k \<inter> L = {}
     \<and> (\<forall>b < nblocks k. \<not> used k C b \<longrightarrow> of_nat b \<notin> L \<and> of_nat b \<notin> bitmap k)"

definition first_free :: "superblock \<Rightarrow> (uint \<Rightarrow> block) \<Rightarrow> nat option" where
  "first_free k C = find (\<lambda>b. \<not> used k C b) [0..<nblocks k]"

definition alloc :: "superblock \<Rightarrow> nat \<Rightarrow> (uint \<Rightarrow> block) \<Rightarrow> uint \<Rightarrow> block" where
  "alloc k i C = C(BBLOCK i k := bm_set (i mod BPB) (C (BBLOCK i k)), of_nat i := replicate BSIZE 0)"

definition unalloc :: "superblock \<Rightarrow> nat \<Rightarrow> (uint \<Rightarrow> block) \<Rightarrow> uint \<Rightarrow> block" where
  "unalloc k i C = C(BBLOCK i k := bm_clear (i mod BPB) (C (BBLOCK i k)))"

lemma BBLOCK_inj:
  assumes "b < 2 ^ 32" and "c < 2 ^ 32"
  shows "BBLOCK b k = BBLOCK c k \<longleftrightarrow> b div BPB = c div BPB"
proof -
  have "b div BPB \<le> b" "c div BPB \<le> c" by simp_all
  then have "b div BPB < 2 ^ 32" "c div BPB < 2 ^ 32" using assms by linarith+
  then show ?thesis by (simp add: BBLOCK_def of_nat32_inj)
qed

lemma bitmapI: "b < nblocks k \<Longrightarrow> BBLOCK b k \<in> bitmap k"
  by (auto simp: bitmap_def)

lemma used_bm:
  assumes "\<And>n. length (C n) = BSIZE" and "i < 2 ^ 32" and "b < 2 ^ 32"
  shows "used k (C(BBLOCK i k := bm_set (i mod BPB) (C (BBLOCK i k)))) b \<longleftrightarrow> b = i \<or> used k C b"
    and "used k (C(BBLOCK i k := bm_clear (i mod BPB) (C (BBLOCK i k)))) b \<longleftrightarrow> b \<noteq> i \<and> used k C b"
proof -
  have eq: "b = i \<longleftrightarrow> b div BPB = i div BPB \<and> b mod BPB = i mod BPB" by (metis div_mult_mod_eq)
  have lt: "b mod BPB < BPB" "i mod BPB < BPB" by simp_all
  show "used k (C(BBLOCK i k := bm_set (i mod BPB) (C (BBLOCK i k)))) b \<longleftrightarrow> b = i \<or> used k C b"
    "used k (C(BBLOCK i k := bm_clear (i mod BPB) (C (BBLOCK i k)))) b \<longleftrightarrow> b \<noteq> i \<and> used k C b"
    by (cases "BBLOCK b k = BBLOCK i k"; use BBLOCK_inj [OF assms(3,2)] bm_upd [OF assms(1) lt(2,1)] eq in \<open>auto simp: used_def\<close>)+
qed

lemma used_other: "n \<notin> bitmap k \<Longrightarrow> b < nblocks k \<Longrightarrow> used k (C(n := d)) b = used k C b"
  by (auto simp: used_def bitmap_def)

lemma nblocks_less: "b < nblocks k \<Longrightarrow> b < 2 ^ 32"
  using unsigned_less [of "sb_size k", where ?'a = nat] by simp

lemma used_alloc:
  assumes "\<And>n. length (C n) = BSIZE" and "i < nblocks k" and "b < nblocks k" and "of_nat i \<notin> bitmap k"
  shows "used k (alloc k i C) b \<longleftrightarrow> b = i \<or> used k C b"
proof -
  have "used k (alloc k i C) b = used k (C(BBLOCK i k := bm_set (i mod BPB) (C (BBLOCK i k)))) b"
    using assms(3,4) by (simp add: alloc_def used_other)
  with used_bm(1) [where C = C, OF assms(1) nblocks_less [OF assms(2)] nblocks_less [OF assms(3)]] show ?thesis by simp
qed

lemma used_unalloc:
  assumes "\<And>n. length (C n) = BSIZE" and "i < nblocks k" and "b < nblocks k"
  shows "used k (unalloc k i C) b \<longleftrightarrow> b \<noteq> i \<and> used k C b"
  using used_bm(2) [where C = C, OF assms(1) nblocks_less [OF assms(2)] nblocks_less [OF assms(3)]]
  by (simp add: unalloc_def)

lemma first_free_Some:
  "first_free k C = Some i \<longleftrightarrow> i < nblocks k \<and> \<not> used k C i \<and> (\<forall>j < i. used k C j)"
  by (auto simp: first_free_def find_Some_iff)

lemma first_free_None: "first_free k C = None \<longleftrightarrow> (\<forall>j < nblocks k. used k C j)"
  by (auto simp: first_free_def find_None_iff)

section \<open>Allocating and freeing blocks\<close>

lemma in_log_add [simp]: "n \<in> set (log_add n P)"
  by (simp add: log_add_def)

lemma wp_store_then:
  assumes s: "ftx p s0 s C P Own" and o: "Own n = Some b" and n: "n \<notin> log_area (lg_start s0) (lg_size s0)"
    and r: "room 1 s0 P 0" and len: "length d = BSIZE"
    and k: "\<And>t. ftx p s0 t (C(n := d)) (log_add n P) (Own(n := None)) \<Longrightarrow> same s t \<Longrightarrow> returns (k t) Q"
  shows "returns (andthen (log_write b (set_data b d s)) (\<lambda>t. andthen (brelse b t) k)) Q"
proof (rule wp_log_write_ftx [OF ftx_set_data(1) [OF s o len] o n r])
  fix t
  assume t: "ftx p s0 t (C(n := d)) (log_add n P) Own" "same (set_data b d s) t"
  show "returns (andthen (brelse b t) k) Q"
    by (rule wp_brelse_then [OF t(1) o]) (use t(2) ftx_set_data(2) [OF s o len] in \<open>auto intro: k\<close>)
qed

lemma wp_store:
  assumes "ftx p s0 s C P Own" and "Own n = Some b" and "n \<notin> log_area (lg_start s0) (lg_size s0)"
    and "room 1 s0 P 0" and "length d = BSIZE"
    and "\<And>t. ftx p s0 t (C(n := d)) (log_add n P) (Own(n := None)) \<Longrightarrow> same s t \<Longrightarrow> Q t"
  shows "returns (andthen (log_write b (set_data b d s)) (brelse b)) Q"
  using wp_store_then [OF assms(1-5), of Ok Q] assms(6) by simp

lemma room_bread: "room k s P (card (dom Own)) \<Longrightarrow> n \<in> set P \<or> length P + card (dom Own) < NBUF"
  by (auto simp: room_def)

lemma room_0: "room k s P h \<Longrightarrow> room k s P 0"
  by (auto simp: room_def)

lemma wp_bzero:
  assumes s: "ftx p s0 s C P Own" and n: "n \<notin> dom Own" "n \<notin> log_area (lg_start s0) (lg_size s0)"
    and r: "room 1 s0 P (card (dom Own))"
  shows "returns (bzero ROOTDEV n s) (\<lambda>t. ftx p s0 t (C(n := replicate BSIZE 0)) (log_add n P) Own \<and> same s t)"
  unfolding bzero_def
proof (rule wp_bread_ftx [OF s n(1) room_bread [OF r]])
  fix b t
  assume t: "ftx p s0 t C P (Own(n \<mapsto> b))" "same s t" 
  show "returns (andthen (log_write b (set_data b (replicate BSIZE 0) t)) (brelse b))
      (\<lambda>t. ftx p s0 t (C(n := replicate BSIZE 0)) (log_add n P) Own \<and> same s t)"
    by (rule wp_store [OF t(1) _ n(2) room_0 [OF r]]) (use t(2) n(1) in \<open>simp_all add: fun_upd_None_if_notin_dom\<close>)
qed

lemma length_log_add: "length (log_add n P) \<le> Suc (length P)"
  by (simp add: log_add_def)

lemma room_log_add: "room (Suc k) s P h \<Longrightarrow> room k s (log_add n P) h"
  using length_log_add [of n P] by (auto simp: room_def)

lemma room_mono: "room k s P h \<Longrightarrow> j \<le> k \<Longrightarrow> g \<le> h \<Longrightarrow> room j s P g"
  by (auto simp: room_def)

lemma wp_bfree:
  assumes s: "ftx p s0 s C P Own" and m: "map_ok (sb s0) (log_area (lg_start s0) (lg_size s0)) C"
    and o: "bitmap (sb s0) \<inter> dom Own = {}" and r: "room 1 s0 P (card (dom Own))"
    and b: "unat b < nblocks (sb s0)" "used (sb s0) C (unat b)"
  shows "returns (bfree ROOTDEV b s) (\<lambda>t. ftx p s0 t (unalloc (sb s0) (unat b) C) (log_add (BBLOCK (unat b) (sb s0)) P) Own
     \<and> same s t)"
proof -
  let ?n = "BBLOCK (unat b) (sb s0)" and ?i = "unat b mod BPB"
  have n: "?n \<notin> dom Own" "?n \<notin> log_area (lg_start s0) (lg_size s0)"
    using bitmapI [OF b(1)] o m by (auto simp: map_ok_def)
  have len: "length (C ?n) = BSIZE" by (rule ftxD [OF s])
  show ?thesis
    unfolding bfree_def ftxD(4) [OF s] Let_def
  proof (rule wp_bread_ftx [OF s n(1) room_bread [OF r]])
    fix bp t
    assume t: "ftx p s0 t C P (Own(?n \<mapsto> bp))" "same s t" "bdata (bufs t bp) = C ?n"
    have "returns (andthen (log_write bp (set_data bp (bm_clear ?i (C ?n)) t)) (brelse bp)) (\<lambda>t. ftx p s0 t (unalloc (sb s0) (unat b) C)
       (log_add ?n P) Own \<and> same s t)"
      by (rule wp_store [OF t(1) _ n(2) room_0 [OF r]])
        (use t(2) n(1) len in \<open>simp_all add: fun_upd_None_if_notin_dom unalloc_def\<close>)
    then show "returns (if \<not> bm_test ?i (bdata (bufs t bp)) then Panic ''freeing free block''
         else andthen (log_write bp (set_data bp (bm_clear ?i (bdata (bufs t bp))) t)) (brelse bp))
       (\<lambda>t. ftx p s0 t (unalloc (sb s0) (unat b) C) (log_add ?n P) Own \<and> same s t)"
      using b(2) by (simp add: t(3) used_def)
  qed
qed

text \<open>The search of one bitmap block is the search of the numbers it covers.\<close>

lemma find_append: "find f (xs @ ys) = (case find f xs of Some x \<Rightarrow> Some x | None \<Rightarrow> find f ys)"
  by (induction xs) auto

lemma find_map: "find f (map g xs) = map_option g (find (f \<circ> g) xs)"
  by (induction xs) auto

lemma scan_block:
  "find (\<lambda>b. \<not> used k C b) [j * BPB..<nblocks k]
     = (case find (\<lambda>bi. \<not> bm_test bi (C (BBLOCK (j * BPB) k))) [0..<min BPB (nblocks k - j * BPB)] of
          Some bi \<Rightarrow> Some (j * BPB + bi)
        | None \<Rightarrow> find (\<lambda>b. \<not> used k C b) [Suc j * BPB..<nblocks k])"
proof -
  let ?m = "min BPB (nblocks k - j * BPB)"
  have shift: "map ((+) a) [0..<m] = [a..<a + m]" for a m :: nat by (induction m) simp_all
  have split: "[j * BPB..<nblocks k] = map ((+) (j * BPB)) [0..<?m] @ [Suc j * BPB..<nblocks k]"
  proof (cases "Suc j * BPB \<le> nblocks k")
    case True
    then have "[j * BPB..<nblocks k] = [j * BPB..<j * BPB + BPB] @ [j * BPB + BPB..<nblocks k]"
      using upt_add_eq_append [of "j * BPB" "j * BPB + BPB" "nblocks k - (j * BPB + BPB)"] by simp
    moreover have "?m = BPB" using True by simp
    ultimately show ?thesis by (simp add: shift add.commute)
  next
    case False
    then have "?m = nblocks k - j * BPB" by simp
    with False show ?thesis by (cases "j * BPB \<le> nblocks k") (simp_all add: shift not_le)
  qed
  have u: "used k C (j * BPB + bi) = bm_test bi (C (BBLOCK (j * BPB) k))" if "bi < ?m" for bi
    using that by (simp add: used_def BBLOCK_def)
  have "find ((\<lambda>b. \<not> used k C b) \<circ> (+) (j * BPB)) [0..<?m] = find (\<lambda>bi. \<not> bm_test bi (C (BBLOCK (j * BPB) k))) [0..<?m]"
    by (rule find_cong) (use u in auto)
  then show ?thesis unfolding split find_append find_map by (auto split: option.splits)
qed

text \<open>What \<open>balloc\<close> returns when the search of the bitmap gives \<open>r\<close>.\<close>

definition balloc_post ::
  "nat \<Rightarrow> 'z fs_scheme \<Rightarrow> (uint \<Rightarrow> block) \<Rightarrow> uint list \<Rightarrow> (uint \<rightharpoonup> nat) \<Rightarrow> 'z fs_scheme \<Rightarrow> nat option \<Rightarrow> uint \<times> 'z fs_scheme \<Rightarrow> bool"
where
  "balloc_post p s0 C P Own s r = (\<lambda>(b, t). same s t
     \<and> (case r of
          None \<Rightarrow> b = 0 \<and> ftx p s0 t C P Own
        | Some i \<Rightarrow> b = of_nat i \<and> ftx p s0 t (alloc (sb s0) i C) (log_add (of_nat i) (log_add (BBLOCK i (sb s0)) P)) Own))"

lemma balloc_post_same: "same s u \<Longrightarrow> balloc_post p s0 C P Own u = balloc_post p s0 C P Own s"
  by (simp add: balloc_post_def fun_eq_iff)

abbreviation claim_block :: "uint \<Rightarrow> nat \<Rightarrow> byte list \<Rightarrow> 'z fs_scheme \<Rightarrow> (uint \<times> 'z fs_scheme) res" where
  "claim_block n bp d s \<equiv> andthen (log_write bp (set_data bp d s)) (\<lambda>s2.
     andthen (brelse bp s2) (\<lambda>s3. andthen (bzero ROOTDEV n s3) (\<lambda>s4. Ok (n, s4))))"

lemma wp_claim_block:
  fixes s0 :: "'z fs_scheme"
  defines "k \<equiv> sb s0" and "L \<equiv> log_area (lg_start s0) (lg_size s0)"
  assumes s: "ftx p s0 s C P (Own(BBLOCK i k \<mapsto> bp))" and r: "room 2 s0 P (card (dom Own))" and i: "of_nat i \<notin> L" "of_nat i \<notin> dom Own"
    and n: "BBLOCK i k \<notin> L" "BBLOCK i k \<notin> dom Own"
  shows "returns (claim_block (of_nat i) bp (bm_set (i mod BPB) (C (BBLOCK i k))) s) (balloc_post p s0 C P Own s (Some i))"
proof (rule wp_store_then [OF s])
  show "room 1 s0 P 0" "length (bm_set (i mod BPB) (C (BBLOCK i k))) = BSIZE" "BBLOCK i k \<notin> log_area (lg_start s0) (lg_size s0)"
    using room_mono [OF r, of 1 0] ftxD(6) [OF s] n by (simp_all add: L_def)
  fix t
  assume t: "ftx p s0 t (C(BBLOCK i k := bm_set (i mod BPB) (C (BBLOCK i k)))) (log_add (BBLOCK i k) P)
      ((Own(BBLOCK i k \<mapsto> bp))(BBLOCK i k := None))" "same s t"
  then have t': "ftx p s0 t (C(BBLOCK i k := bm_set (i mod BPB) (C (BBLOCK i k)))) (log_add (BBLOCK i k) P) Own"
    using n(2) by (simp add: fun_upd_None_if_notin_dom)
  have r': "room 1 s0 (log_add (BBLOCK i k) P) (card (dom Own))" using room_log_add [of 1] r by (simp add: numeral_2_eq_2)
  show "returns (andthen (bzero ROOTDEV (of_nat i) t) (\<lambda>s4. Ok (of_nat i, s4))) (balloc_post p s0 C P Own s (Some i))"
    by (rule returns_andthen [OF wp_bzero [OF t' i(2) i(1) [unfolded L_def] r']])
      (simp add: balloc_post_def alloc_def k_def t(2))
qed simp

lemma wp_balloc_loop:
  fixes s0 :: "'z fs_scheme"
  defines "k \<equiv> sb s0" and "L \<equiv> log_area (lg_start s0) (lg_size s0)"
  assumes s: "ftx p s0 s C P Own" and m: "map_ok k L C" and r: "room 2 s0 P (card (dom Own))"
    and o: "bitmap k \<inter> dom Own = {}" "\<And>b. b < nblocks k \<Longrightarrow> \<not> used k C b \<Longrightarrow> of_nat b \<notin> dom Own"
    and N: "N = (nblocks k + BPB - 1) div BPB" and j: "j \<le> N"
  shows "returns (balloc_loop ROOTDEV (map (\<lambda>j. j * BPB) [j..<N]) s)
     (balloc_post p s0 C P Own s (find (\<lambda>b. \<not> used k C b) [j * BPB..<nblocks k]))"
  using s j
proof (induction "N - j" arbitrary: j s)
  case 0
  then have "nblocks k \<le> j * BPB" using N by simp
  then show ?case using 0 by (simp add: kprintf_def ftx_kmsgs balloc_post_def)
next
  case (Suc d)
  let ?b = "j * BPB" and ?Q = "balloc_post p s0 C P Own s (find (\<lambda>b. \<not> used k C b) [j * BPB..<nblocks k])"
  let ?n = "BBLOCK ?b k" and ?js = "map (\<lambda>j. j * BPB) [Suc j..<N]"
  have lt: "j < N" "?b < nblocks k" using Suc.hyps(2) N by auto
  have n: "?n \<notin> dom Own" "?n \<notin> L" using bitmapI [OF lt(2)] o m by (auto simp: map_ok_def)
  have sb: "sb s = k" using ftxD(4) [OF Suc.prems(1)] by (simp add: k_def)
  have "\<not> 2 ^ 31 \<le> ?b" using lt m by (simp add: map_ok_def)
  then have unf: "balloc_loop ROOTDEV (map (\<lambda>j. j * BPB) [j..<N]) s = andthen (bread ROOTDEV ?n s) (\<lambda>(bp, s1).
        case find (\<lambda>bi. \<not> bm_test bi (bdata (bufs s1 bp))) [0..<min BPB (nblocks (sb s1) - ?b)] of
          Some bi \<Rightarrow> claim_block (of_nat (?b + bi)) bp (bm_set bi (bdata (bufs s1 bp))) s1
        | None \<Rightarrow> andthen (brelse bp s1) (balloc_loop ROOTDEV ?js))"
    using lt(1) by (simp add: sb upt_conv_Cons)
  show ?case
    unfolding unf
  proof (rule wp_bread_ftx [OF Suc.prems(1) n(1) room_bread [OF r]])
    fix bp t
    assume t: "ftx p s0 t C P (Own(?n \<mapsto> bp))" "same s t" "bdata (bufs t bp) = C ?n"
    let ?f = "find (\<lambda>bi. \<not> bm_test bi (C ?n)) [0..<min BPB (nblocks k - ?b)]"
    have sbt: "sb t = k" using ftxD(4) [OF t(1)] by (simp add: k_def)
    have none: "returns (andthen (brelse bp t) (balloc_loop ROOTDEV ?js)) ?Q" if "?f = None"
    proof (rule wp_brelse_then [OF t(1), of ?n])
      show "C ?n = disk s0 ?n" if "?n \<notin> set P" using ftx_clean [OF s that n(1)] .
      fix u
      assume u: "ftx p s0 u C P ((Own(?n \<mapsto> bp))(?n := None))" "same t u"
      then have "ftx p s0 u C P Own" using n(1) by (simp add: fun_upd_None_if_notin_dom)
      from Suc.hyps(1) [of "Suc j", OF _ this] show "returns (balloc_loop ROOTDEV ?js u) ?Q"
        using Suc.hyps(2) lt(1) that balloc_post_same [of s u] u(2) t(2) by (simp add: scan_block [of k C j])
    qed simp
    have some: "returns (claim_block (of_nat (?b + bi)) bp (bm_set bi (C ?n)) t) ?Q" if f: "?f = Some bi" for bi
    proof -
      have eq: "find (\<lambda>b. \<not> used k C b) [j * BPB..<nblocks k] = Some (?b + bi)" using scan_block [of k C j] f by simp
      then have i: "?b + bi < nblocks k" "\<not> used k C (?b + bi)" by (auto simp: find_Some_iff)
      have "bi < BPB" using f by (auto simp: find_Some_iff)
      then have bb: "BBLOCK (?b + bi) (sb s0) = ?n" "(?b + bi) mod BPB = bi" by (simp_all add: BBLOCK_def k_def)
      have "of_nat (?b + bi) \<notin> L" using m i unfolding map_ok_def by blast
      with wp_claim_block [of p s0 t C P Own "?b + bi" bp] t(1,2) balloc_post_same [of s t] r n o(2) [OF i] show ?thesis
        unfolding bb eq by (simp add: L_def k_def)
    qed
    show "returns (case find (\<lambda>bi. \<not> bm_test bi (bdata (bufs t bp))) [0..<min BPB (nblocks (sb t) - ?b)] of
          Some bi \<Rightarrow> claim_block (of_nat (?b + bi)) bp (bm_set bi (bdata (bufs t bp))) t
        | None \<Rightarrow> andthen (brelse bp t) (balloc_loop ROOTDEV ?js)) ?Q"
      unfolding t(3) sbt by (cases ?f) (use none some in auto)
  qed
qed

lemma wp_balloc:
  assumes s: "ftx p s0 s C P Own" and m: "map_ok (sb s0) (log_area (lg_start s0) (lg_size s0)) C"
    and r: "room 2 s0 P (card (dom Own))" and o: "bitmap (sb s0) \<inter> dom Own = {}"
    "\<And>b. b < nblocks (sb s0) \<Longrightarrow> \<not> used (sb s0) C b \<Longrightarrow> of_nat b \<notin> dom Own"
  shows "returns (balloc ROOTDEV s) (balloc_post p s0 C P Own s (first_free (sb s0) C))"
  using wp_balloc_loop [OF s m r o refl, of 0] ftxD(4) [OF s]
  by (simp add: balloc_def bmap_starts_def first_free_def)

section \<open>Properties\<close>

text \<open>The conditions under which a thread may allocate: it is in a transaction that has room for two more blocks.\<close>

definition may_alloc :: "nat \<Rightarrow> 'z fs_scheme \<Rightarrow> bool" where
  "may_alloc p s \<longleftrightarrow> log_inv p s \<and> room 2 s (pinned s) 0
     \<and> map_ok (sb s) (log_area (lg_start s) (lg_size s)) (content s)"

text \<open>
  C12. Block allocation. In a transaction with room for two blocks, \<open>balloc\<close> returns. If the bitmap marks
  every block it returns 0 and changes no block; otherwise it returns the first unmarked block,
  which is below the size of the device. Then exactly that block's bit has been set, the block itself
  is zero, and no other block has changed. Nothing has been written to the disk.
\<close>

theorem balloc_correct:
  assumes "may_alloc p s"
  shows "\<exists>b t. balloc ROOTDEV s = Ok (b, t) \<and> log_inv p t \<and> disk t = disk s \<and> inodes t = inodes s
     \<and> (if \<forall>i < nblocks (sb s). used (sb s) (content s) i
        then b = 0 \<and> content t = content s
        else \<exists>i < nblocks (sb s). b = of_nat i \<and> \<not> used (sb s) (content s) i \<and> (\<forall>j < i. used (sb s) (content s) j)
          \<and> (\<forall>j < nblocks (sb s). used (sb s) (content t) j \<longleftrightarrow> j = i \<or> used (sb s) (content s) j)
          \<and> content t b = replicate BSIZE 0
          \<and> (\<forall>n. n \<noteq> b \<and> n \<noteq> BBLOCK i (sb s) \<longrightarrow> content t n = content s n))"
proof -
  have inv: "log_inv p s" and r: "room 2 s (pinned s) 0" and m: "map_ok (sb s) (log_area (lg_start s) (lg_size s)) (content s)"
    using assms by (simp_all add: may_alloc_def)
  let ?C = "content s" and ?k = "sb s"
  note s = ftx_start [OF inv]
  obtain b t where t: "balloc ROOTDEV s = Ok (b, t)" and post: "balloc_post p s ?C (pinned s) Map.empty s (first_free ?k ?C) (b, t)"
    by (rule returnsE [OF wp_balloc [OF s m]]) (use r in auto)
  show ?thesis
  proof (cases "first_free ?k ?C")
    case None
    then have f: "ftx p s t ?C (pinned s) Map.empty" "b = 0" "same s t" using post by (simp_all add: balloc_post_def)
    have "\<forall>i < nblocks ?k. used ?k ?C i" using None by (simp add: first_free_None)
    then show ?thesis using t f ftx_end [OF f(1)] ftxD(7) [OF f(1)] by simp
  next
    case (Some i)
    then have f: "ftx p s t (alloc ?k i ?C) (log_add (of_nat i) (log_add (BBLOCK i ?k) (pinned s))) Map.empty"
        "b = of_nat i" "same s t" using post by (simp_all add: balloc_post_def)
    have i: "i < nblocks ?k" "\<not> used ?k ?C i" "\<forall>j < i. used ?k ?C j" using Some by (simp_all add: first_free_Some)
    note e = ftx_end [OF f(1)]
    have free: "of_nat i \<notin> bitmap ?k" using m i(1,2) by (auto simp: map_ok_def)
    have "used ?k (content t) j \<longleftrightarrow> j = i \<or> used ?k ?C j" if "j < nblocks ?k" for j
      using used_alloc [OF ftxD(6) [OF s] i(1) that free] e by simp
    moreover have "content t b = replicate BSIZE 0" "\<forall>n. n \<noteq> b \<and> n \<noteq> BBLOCK i ?k \<longrightarrow> content t n = ?C n"
      using e f(2) by (simp_all add: alloc_def)
    ultimately have "\<exists>i < nblocks ?k. b = of_nat i \<and> \<not> used ?k ?C i \<and> (\<forall>j < i. used ?k ?C j)
          \<and> (\<forall>j < nblocks ?k. used ?k (content t) j \<longleftrightarrow> j = i \<or> used ?k ?C j)
          \<and> content t b = replicate BSIZE 0 \<and> (\<forall>n. n \<noteq> b \<and> n \<noteq> BBLOCK i ?k \<longrightarrow> content t n = ?C n)"
      using i f(2) by - (rule exI [of _ i], simp)
    then show ?thesis using t f(3) e ftxD(7) [OF f(1)] i(1,2) by (intro exI [of _ b] exI [of _ t]) auto
  qed
qed

text \<open>
  C13. Freeing a block, in the same conditions. Of a block that is marked \<open>bfree\<close> clears exactly the bit and changes
  no block but that bitmap block; of a block that is not marked it panics.
\<close>

theorem bfree_correct:
  assumes "may_alloc p s" and "unat b < nblocks (sb s)"
  shows "if used (sb s) (content s) (unat b)
     then \<exists>t. bfree ROOTDEV b s = Ok t \<and> log_inv p t \<and> disk t = disk s \<and> inodes t = inodes s
       \<and> (\<forall>j < nblocks (sb s). used (sb s) (content t) j \<longleftrightarrow> j \<noteq> unat b \<and> used (sb s) (content s) j)
       \<and> (\<forall>n. n \<noteq> BBLOCK (unat b) (sb s) \<longrightarrow> content t n = content s n)
     else bfree ROOTDEV b s = Panic ''freeing free block''"
proof -
  have inv: "log_inv p s" and r: "room 2 s (pinned s) 0" and m: "map_ok (sb s) (log_area (lg_start s) (lg_size s)) (content s)"
    using assms(1) by (simp_all add: may_alloc_def)
  note s = ftx_start [OF inv]
  have r1: "room 1 s (pinned s) (card (dom (Map.empty :: uint \<rightharpoonup> nat)))" using room_mono [OF r] by simp
  let ?n = "BBLOCK (unat b) (sb s)"
  show ?thesis
  proof (cases "used (sb s) (content s) (unat b)")
    case True
    obtain t where t: "bfree ROOTDEV b s = Ok t" and f: "same s t"
        "ftx p s t (unalloc (sb s) (unat b) (content s)) (log_add ?n (pinned s)) Map.empty"
      by (rule returnsE [OF wp_bfree [OF s m _ r1 assms(2) True]]) auto
    have "used (sb s) (content t) j \<longleftrightarrow> j \<noteq> unat b \<and> used (sb s) (content s) j" if "j < nblocks (sb s)" for j
      using used_unalloc [OF ftxD(6) [OF s] assms(2) that] ftx_end [OF f(2)] by simp
    moreover have "\<forall>n. n \<noteq> ?n \<longrightarrow> content t n = content s n" using ftx_end [OF f(2)] by (simp add: unalloc_def)
    ultimately show ?thesis using True t f ftx_end [OF f(2)] ftxD(7) [OF f(2)] by simp
  next
    case False
    obtain bp t where "bread ROOTDEV ?n s = Ok (bp, t)" "bdata (bufs t bp) = content s ?n"
      by (rule bread_ftx [OF s _ room_bread [OF r1]]) auto
    with False show ?thesis by (simp add: bfree_def used_def Let_def)
  qed
qed

section \<open>A concrete file system\<close>

text \<open>
  A device of 1000 blocks with a log of 30 blocks from block 2 on and its bitmap in block 45, in which the
  blocks up to 45 are in use. A transaction has begun.
\<close>

definition demo_sb :: superblock where
  "demo_sb = \<lparr>sb_magic = FSMAGIC, sb_size = 1000, sb_nblocks = 954, sb_ninodes = 200, sb_nlog = 30, sb_logstart = 2,
     sb_inodestart = 32, sb_bmapstart = 45\<rparr>"

definition demo_disk :: "uint \<Rightarrow> block" where
  "demo_disk n = (if n = 45 then replicate 5 255 @ 63 # replicate 1018 0 else replicate 1024 0)"

text \<open>The machine of the log's example with another disk, a super block and an inode table.\<close>

definition fs_on :: "(uint \<Rightarrow> block) \<Rightarrow> superblock \<Rightarrow> (nat \<Rightarrow> inode) \<Rightarrow> fs" where
  "fs_on D k is = log.extend (idle_log\<lparr>disk := D\<rparr>) (fs.fields k is [])"

lemma fs_on_sel [simp]:
  "bufs (fs_on D k is) = bufs boot_bcache" "disk (fs_on D k is) = D" "bnext (fs_on D k is) = ring_next"
  "bprev (fs_on D k is) = ring_prev" "slocks (fs_on D k is) = slocks boot_bcache" "lg_start (fs_on D k is) = 2"
  "lg_size (fs_on D k is) = 30" "outstanding (fs_on D k is) = 1" "lg_dev (fs_on D k is) = ROOTDEV"
  "lh_n (fs_on D k is) = 0" "lh_block (fs_on D k is) = replicate LOGSIZE 0" "sb (fs_on D k is) = k" "inodes (fs_on D k is) = is"
  by (simp_all add: fs_on_def idle_log_def boot_defs log.defs fs.defs)

lemma fs_on_calm: "calm 0 (fs_on D k is)"
  by (simp add: fs_on_def fs.defs idle_log_def boot_defs log.defs calm_def settled_def lock_free_def mach_defs)

lemma fs_on_uncached: "\<not> cached (fs_on D k is) n b"
  by (simp add: cached_def boot_bcache_fields ROOTDEV_def)

lemma fs_on_bc:
  assumes "\<And>n. length (D n) = BSIZE"
  shows "bc_inv (fs_on D k is)" "content (fs_on D k is) = D" "refs (fs_on D k is) = (\<lambda>_. 0)" "lockset (fs_on D k is) = {}"
proof -
  let ?s = "fs_on D k is"
  have "dll ?s [0..<NBUF]" using idle_ring by (simp add: dll_def)
  moreover have "set [0..<NBUF] = {..<NBUF}" by auto
  moreover have "\<not> slocked (slocks ?s (BufLock b))" for b by (simp add: boot_defs)
  then have "buf_ok ?s b" for b
    by (simp add: buf_ok_def boot_bcache_fields ROOTDEV_def del: fs_on_sel(5))
  ultimately show "bc_inv ?s"
    unfolding bc_inv_def using fs_on_uncached [of D k "is"] assms by auto
  show "content ?s = D" "refs ?s = (\<lambda>_. 0)" "lockset ?s = {}"
    using fs_on_uncached [of D k "is"] content_uncached [of ?s] refs_uncached [of ?s] lockset_uncached [of ?s]
    by (auto simp: fun_eq_iff)
qed

lemma fs_on_inv:
  assumes "\<And>n. length (D n) = BSIZE" and "D 2 = replicate BSIZE 0"
  shows "log_inv 0 (fs_on D k is)" "content (fs_on D k is) = D" "pinned (fs_on D k is) = []"
proof -
  have "hdr_n (D 2) = 0"
    by (simp add: hdr_n_def get32_def get_bytes_def assms(2) of_le_def numeral_eq_Suc)
  then show "log_inv 0 (fs_on D k is)"
    using fs_on_calm [of D k "is"] fs_on_bc [of D k "is"] assms(1) by (simp add: log_inv_def pinned_def log_list_def)
qed (use fs_on_bc assms(1) in \<open>auto simp: pinned_def\<close>)

definition demo_fs :: fs where
  "demo_fs = fs_on demo_disk demo_sb (\<lambda>_. undefined)"

lemma demo_bitmap: "bitmap demo_sb = {45}"
proof -
  have "BBLOCK b demo_sb = 45" if "b < 1000" for b using that by (simp add: BBLOCK_def demo_sb_def)
  then show ?thesis by (auto simp: bitmap_def demo_sb_def image_def intro!: exI [of _ "0 :: nat"])
qed

lemma demo_used: "b < 1000 \<Longrightarrow> used demo_sb demo_disk b \<longleftrightarrow> b < 46"
proof -
  assume b: "b < 1000"
  have ff: "bit (255 :: byte) i" if "i < 8" for i
    using bit_mask_iff [of 8 i, where 'a = byte] that by (simp add: mask_eq_exp_minus_1)
  have hf: "bit (63 :: byte) i \<longleftrightarrow> i < 6" if "i < 8" for i
    using bit_mask_iff [of 6 i, where 'a = byte] that by (simp add: mask_eq_exp_minus_1)
  have u: "used demo_sb demo_disk b \<longleftrightarrow> bit ((replicate 5 255 @ (63 :: byte) # replicate 1018 0) ! (b div 8)) (b mod 8)"
    using b by (simp add: used_def BBLOCK_def demo_sb_def demo_disk_def bm_test_bit)
  consider "b div 8 < 5" | "b div 8 = 5" | "5 < b div 8" by linarith
  then show ?thesis
  proof cases
    case 1
    then show ?thesis unfolding u using ff [of "b mod 8"] by (simp add: nth_append)
  next
    case 2
    then have "b = 40 + b mod 8" by presburger
    with 2 show ?thesis unfolding u using hf [of "b mod 8"] by (auto simp: nth_append)
  next
    case 3
    then have "b div 8 - 6 < 1018" using b by simp
    with 3 show ?thesis unfolding u by (simp add: nth_append nth_Cons')
  qed
qed

lemma demo_inv: "log_inv 0 demo_fs" "content demo_fs = demo_disk" "pinned demo_fs = []" "sb demo_fs = demo_sb"
  "lg_start demo_fs = 2" "lg_size demo_fs = 30" "outstanding demo_fs = 1"
  unfolding demo_fs_def by (auto intro!: fs_on_inv simp: demo_disk_def)

lemma demo_may_alloc: "may_alloc 0 demo_fs"
proof -
  have free: "\<not> used demo_sb demo_disk b \<longleftrightarrow> 46 \<le> b" if "b < nblocks demo_sb" for b
    using demo_used [of b] that by (auto simp: demo_sb_def)
  have "of_nat b \<notin> log_area 2 30 \<and> (of_nat b :: uint) \<notin> bitmap demo_sb" if "b < nblocks demo_sb" "46 \<le> b" for b
  proof -
    have "unat (of_nat b :: uint) = b" using that(1) by (intro unat_of_nat32) (simp add: demo_sb_def)
    with that(2) show ?thesis by (auto simp: log_area_idle demo_bitmap word_less_nat_alt dest: arg_cong [of _ _ unat])
  qed
  moreover have "bitmap demo_sb \<inter> log_area 2 30 = {}" by (simp add: demo_bitmap log_area_idle)
  moreover have "nblocks demo_sb < 2 ^ 31" by (simp add: demo_sb_def)
  ultimately have "map_ok demo_sb (log_area 2 30) demo_disk" using free by (auto simp: map_ok_def)
  then show ?thesis by (simp add: may_alloc_def demo_inv room_def)
qed

theorem balloc_correct_witness:
  "\<exists>t. balloc ROOTDEV demo_fs = Ok (46, t) \<and> log_inv 0 t \<and> used demo_sb (content t) 46 \<and> \<not> used demo_sb (content t) 47
     \<and> content t 46 = replicate 1024 0"
proof -
  have sz: "nblocks demo_sb = 1000" by (simp add: demo_sb_def)
  have n: "\<not> (\<forall>i < 1000. used demo_sb demo_disk i)" using demo_used [of 46] by (auto intro!: exI [of _ "46 :: nat"])
  obtain b t i where t: "balloc ROOTDEV demo_fs = Ok (b, t)" "log_inv 0 t" "i < 1000" "b = of_nat i" "\<not> used demo_sb demo_disk i"
    "\<forall>j < i. used demo_sb demo_disk j" "\<forall>j < 1000. used demo_sb (content t) j \<longleftrightarrow> j = i \<or> used demo_sb demo_disk j"
    "content t b = replicate BSIZE 0"
    using balloc_correct [OF demo_may_alloc] unfolding demo_inv(2,4) sz if_not_P [OF n] by blast
  have "46 \<le> i" using t(3,5) demo_used by auto
  moreover have "\<not> 46 < i" using t(6) demo_used [of 46] by auto
  ultimately have "i = 46" by simp
  with t show ?thesis by (intro exI [of _ t]) (simp add: demo_used)
qed

theorem bfree_correct_witness:
  "(\<exists>t. bfree ROOTDEV 45 demo_fs = Ok t \<and> \<not> used demo_sb (content t) 45 \<and> used demo_sb (content t) 44)
   \<and> bfree ROOTDEV 46 demo_fs = Panic ''freeing free block''"
  using bfree_correct [OF demo_may_alloc, of 45] bfree_correct [OF demo_may_alloc, of 46] demo_used [of 45] demo_used [of 46]
    demo_used [of 44]
  by (auto simp: demo_inv demo_sb_def)

end
