(* ===== verification/Inode.thy ===== *)
theory Inode
  imports Block Ucopy
begin

text \<open>
  Correctness of the contents of inodes (\<open>bmap\<close>, \<open>readi\<close>, \<open>writei\<close>, \<open>iupdate\<close> of \<^verbatim>\<open>kernel/fs.c\<close>): the blocks of an inode,
  direct and indirect, implement an array of bytes.
\<close>


section \<open>The block map of an inode\<close>

text \<open>The address of block \<open>j\<close> of a file whose inode is \<open>r\<close>, 0 if there is none.\<close>

definition iaddr :: "(uint \<Rightarrow> block) \<Rightarrow> inode \<Rightarrow> nat \<Rightarrow> uint" where
  "iaddr C r j =
     (if j < NDIRECT then iaddrs r ! j
      else if iaddrs r ! NDIRECT = 0 then 0
      else get32 (4 * (j - NDIRECT)) (C (iaddrs r ! NDIRECT)))"

definition fbyte :: "(uint \<Rightarrow> block) \<Rightarrow> inode \<Rightarrow> nat \<Rightarrow> byte" where
  "fbyte C r i = C (iaddr C r (i div BSIZE)) ! (i mod BSIZE)"

definition file_bytes :: "(uint \<Rightarrow> block) \<Rightarrow> inode \<Rightarrow> nat \<Rightarrow> nat \<Rightarrow> byte list" where
  "file_bytes C r off n = map (fbyte C r) [off..<off + n]"

lemma wp_bmap_mapped:
  assumes s: "ftx p s0 s C P Own" and j: "unat bn < MAXFILE" and d: "idev (inodes s ip) = ROOTDEV"
    and a: "iaddr C (inodes s ip) (unat bn) \<noteq> 0" and o: "iaddrs (inodes s ip) ! NDIRECT \<notin> dom Own"
    and r: "length P + card (dom Own) < NBUF"
  shows "returns (bmap ip bn s) (\<lambda>(b, t). b = iaddr C (inodes s ip) (unat bn) \<and> ftx p s0 t C P Own \<and> same s t)"
proof (cases "unat bn < NDIRECT")
  case True
  then show ?thesis using a s by (simp add: bmap_def iaddr_def Let_def)
next
  case False
  let ?n = "iaddrs (inodes s ip) ! NDIRECT" and ?k = "4 * (unat bn - NDIRECT)"
  have n: "?n \<noteq> 0" and ad: "iaddr C (inodes s ip) (unat bn) = get32 ?k (C ?n)" using a False by (auto simp: iaddr_def split: if_splits)
  obtain b t where t: "bread ROOTDEV ?n s = Ok (b, t)" "ftx p s0 t C P (Own(?n \<mapsto> b))" "same s t" "bdata (bufs t b) = C ?n"
    by (rule bread_ftx [OF s o disjI2 [OF r]])
  have "returns (andthen (brelse b t) (\<lambda>u. Ok (get32 ?k (C ?n), u)))
      (\<lambda>(b, t). b = get32 ?k (C ?n) \<and> ftx p s0 t C P Own \<and> same s t)"
    by (rule wp_brelse_then [OF t(2), of ?n]) (use t(3) o ftx_clean [OF s _ o] in \<open>simp_all add: fun_upd_None_if_notin_dom\<close>)
  moreover have "unat bn - NDIRECT < NINDIRECT" using False j by linarith
  then have "bmap ip bn s = andthen (brelse b t) (\<lambda>u. Ok (get32 ?k (C ?n), u))"
    using False n a t ad d by (simp add: bmap_def Let_def)
  ultimately show ?thesis by (simp add: ad)
qed

lemma brelse_ftx:
  assumes "ftx p s0 s C P (Own(n \<mapsto> b))" and "n \<notin> dom Own" and "n \<notin> set P \<Longrightarrow> C n = disk s0 n"
  obtains t where "brelse b s = Ok t" and "ftx p s0 t C P Own" and "same s t"
proof -
  have "returns (brelse b s) (\<lambda>t. ftx p s0 t C P Own \<and> same s t)"
    by (rule wp_brelse_ftx [OF assms(1), of n]) (use assms(2,3) in \<open>simp_all add: fun_upd_None_if_notin_dom\<close>)
  then show ?thesis by (auto elim!: returnsE intro: that)
qed

section \<open>Reading\<close>

lemma piece_add:
  fixes n tot off :: uint
  assumes "tot < n"
  defines "m \<equiv> piece (n - tot) off"
  shows "unat (tot + m) = unat tot + unat m" "unat tot + unat m \<le> unat n" "0 < unat m" "unat m \<le> BSIZE - unat off mod BSIZE"
proof -
  have d: "unat (n - tot) = unat n - unat tot" using assms(1) by (intro unat_sub) simp
  have t: "unat tot < unat n" using assms(1) by (simp add: word_less_nat_alt)
  have m: "unat m = min (unat n - unat tot) (BSIZE - unat off mod BSIZE)" by (simp add: m_def unat_piece d)
  then show "unat tot + unat m \<le> unat n" "0 < unat m" "unat m \<le> BSIZE - unat off mod BSIZE" using t by auto
  then have "unat tot + unat m < 2 ^ 32" using unsigned_less [of n, where ?'a = nat] by simp
  then show "unat (tot + m) = unat tot + unat m" by (simp add: unat_word_ariths)
qed

lemma piece_next:
  fixes n tot off :: uint
  assumes "tot < n" and "unat off = base + unat tot" and "base + unat n \<le> MAXFILE * BSIZE"
  defines "m \<equiv> piece (n - tot) off"
  shows "unat (off + m) = unat off + unat m" "tot + m \<le> n" "unat n - unat (tot + m) < unat n - unat tot"
    "unat off div BSIZE < MAXFILE" "unat (off + m) = base + unat (tot + m)"
proof -
  note m = piece_add [OF assms(1), of off, folded m_def]
  have "unat off + unat m < 2 ^ 32" using assms(2,3) m(2) by simp
  then show o: "unat (off + m) = unat off + unat m" by (simp add: unat_word_ariths)
  show "tot + m \<le> n" using m(1,2) by (simp add: word_le_nat_alt)
  show "unat n - unat (tot + m) < unat n - unat tot" using m by linarith
  have "unat off < MAXFILE * BSIZE" using assms(1-3) by (simp add: word_less_nat_alt)
  then show "unat off div BSIZE < MAXFILE" by (rule less_mult_imp_div_less)
  show "unat (off + m) = base + unat (tot + m)" using o assms(2) m(1) by simp
qed

lemma in_block:
  assumes "off mod BSIZE + x < BSIZE"
  shows "(off + x) div BSIZE = off div BSIZE" "(off + x) mod BSIZE = off mod BSIZE + x"
proof -
  have "(BSIZE * q + y) div BSIZE = q \<and> (BSIZE * q + y) mod BSIZE = y" if "y < BSIZE" for q y :: nat using that by simp
  from this [OF assms, of "off div BSIZE"]
  show "(off + x) div BSIZE = off div BSIZE" "(off + x) mod BSIZE = off mod BSIZE + x" by (simp_all add: add.assoc [symmetric])
qed

lemma file_bytes_block:
  assumes "length (C (iaddr C r (off div BSIZE))) = BSIZE" and "off mod BSIZE + m \<le> BSIZE"
  shows "file_bytes C r off m = get_bytes (off mod BSIZE) m (C (iaddr C r (off div BSIZE)))"
proof (rule nth_equalityI)
  show "length (file_bytes C r off m) = length (get_bytes (off mod BSIZE) m (C (iaddr C r (off div BSIZE))))"
    using assms by (simp add: file_bytes_def get_bytes_def)
  fix i
  assume "i < length (file_bytes C r off m)"
  then have i: "i < m" by (simp add: file_bytes_def)
  then have lt: "off mod BSIZE + i < BSIZE" using assms(2) by linarith
  from in_block [OF lt] show "file_bytes C r off m ! i = get_bytes (off mod BSIZE) m (C (iaddr C r (off div BSIZE))) ! i"
    using i assms by (simp add: file_bytes_def fbyte_def get_bytes_def)
qed


lemma file_bytes_append: "file_bytes C r off (m + n) = file_bytes C r off m @ file_bytes C r (off + m) n"
  using upt_add_eq_append [of off "off + m" n] by (simp add: file_bytes_def add.assoc)

lemma length_file_bytes [simp]: "length (file_bytes C r off n) = n"
  by (simp add: file_bytes_def)

lemma ftx_proc:
  fixes s :: "'z fs_scheme"
  assumes "ftx p s0 s C P Own"
  shows "calm p s" "pagetable (procs s q) = pagetable (procs s0 q)"
proof -
  note t = assms [unfolded ftx_def]
  show "calm p s" by (rule simD(1) [OF txD(2) [OF t]])
  obtain st where "procs s q = (procs s0 q)\<lparr>pstate := st\<rparr>" using txD(1) [OF t] by (auto simp: tframe_def)
  then show "pagetable (procs s q) = pagetable (procs s0 q)" by simp
qed

text \<open>
  A destination that takes \<open>n\<close> bytes of the file from \<open>off\<close> on: \<open>dst k\<close> is where the bytes from \<open>off + k\<close> on go,
  and \<open>M k\<close> says that memory holds the first \<open>k\<close> bytes.
\<close>

definition takes ::
  "nat \<Rightarrow> uint64 \<Rightarrow> (nat \<Rightarrow> dest) \<Rightarrow> (nat \<Rightarrow> memory \<Rightarrow> bool) \<Rightarrow> nat \<Rightarrow> (nat \<Rightarrow> nat \<Rightarrow> byte list) \<Rightarrow> 'z fs_scheme itself \<Rightarrow> bool"
where
  "takes p pt dst M n f T \<longleftrightarrow> (\<forall>k m. dst_add (dst k) m = dst (k + unat m))
     \<and> (\<forall>k m (t :: 'z fs_scheme). M k (mem t) \<and> calm p t \<and> pagetable (procs t p) = pt \<and> k + m \<le> n
         \<longrightarrow> (\<exists>x. either_copyout (dst k) (f k m) t = Ok (0, t\<lparr>mem := x\<rparr>) \<and> M (k + m) x))"

lemma takesD:
  fixes t :: "'z fs_scheme"
  assumes "takes p pt dst M n f TYPE('z fs_scheme)"
  shows "dst_add (dst k) w = dst (k + unat w)"
    and "M k (mem t) \<Longrightarrow> calm p t \<Longrightarrow> pagetable (procs t p) = pt \<Longrightarrow> k + m \<le> n
         \<Longrightarrow> \<exists>x. either_copyout (dst k) (f k m) t = Ok (0, t\<lparr>mem := x\<rparr>) \<and> M (k + m) x"
  using assms unfolding takes_def by simp_all

lemma wp_readi_loop:
  fixes s0 :: "'z fs_scheme"
  assumes snk: "takes p (pagetable (procs s0 p)) dst M (unat n) (\<lambda>k m. file_bytes C r (base + k) m) TYPE('z fs_scheme)"
    and fit: "base + unat n \<le> MAXFILE * BSIZE" and map: "\<And>j. j * BSIZE < base + unat n \<Longrightarrow> iaddr C r j \<noteq> 0"
    and room: "length P < NBUF" and d: "idev r = ROOTDEV"
    and "ftx p s0 s C P Map.empty" and "inodes s ip = r" and "M (unat tot) (mem s)" and "tot \<le> n" and "unat off = base + unat tot"
  shows "returns (readi_loop ip (dst (unat tot)) off tot n s) (\<lambda>(x, bs, t). x = sint n
     \<and> bs = file_bytes C r (unat off) (unat n - unat tot) \<and> ftx p s0 t C P Map.empty \<and> inodes t = inodes s \<and> M (unat n) (mem t))"
  using assms(6-10)
proof (induction "unat n - unat tot" arbitrary: tot off s rule: less_induct)
  case less
  note s = less.prems
  show ?case
  proof (cases "tot < n")
    case False
    then have "tot = n" using s(4) by simp
    then show ?thesis using s by (subst readi_loop.simps) (simp add: file_bytes_def)
  next
    case True
    let ?m = "piece (n - tot) off" and ?j = "unat off div BSIZE" and ?o = "unat off mod BSIZE"
    note m = piece_add [OF True, of off]
    have lt: "unat off < base + unat n" using True s(5) by (simp add: word_less_nat_alt)
    then have jm: "?j * BSIZE < base + unat n" by (metis div_times_less_eq_dividend le_less_trans)
    have bn: "unat (off div 1024) = ?j" by (simp add: unat_div)
    have j: "unat (off div 1024) < MAXFILE" unfolding bn by (rule piece_next [OF True s(5) fit])
    let ?a = "iaddr C r ?j"
    have a: "?a \<noteq> 0" by (rule map [OF jm])
    let ?Q = "\<lambda>(x, bs, t). x = sint n \<and> bs = file_bytes C r (unat off) (unat n - unat tot) \<and> ftx p s0 t C P Map.empty
        \<and> inodes t = inodes s \<and> M (unat n) (mem t)"
    obtain s1 where s1: "bmap ip (off div 1024) s = Ok (?a, s1)" "ftx p s0 s1 C P Map.empty" "same s s1"
      by (rule returnsE [OF wp_bmap_mapped [OF s(1) j, of ip]]) (use s(2) d a bn room in auto)
    obtain b s2 where s2: "bread ROOTDEV ?a s1 = Ok (b, s2)" "ftx p s0 s2 C P (Map.empty(?a \<mapsto> b))" "same s1 s2"
        "bdata (bufs s2 b) = C ?a"
      by (rule bread_ftx [OF s1(2), of ?a]) (use room in auto)
    let ?bs = "file_bytes C r (unat off) (unat ?m)"
    have bs: "get_bytes (unat (off mod 1024)) (unat ?m) (bdata (bufs s2 b)) = ?bs"
      unfolding s2(4) off_mod by (rule file_bytes_block [symmetric]) (use ftxD(6) [OF s(1)] m(4) in auto)
    have "M (unat tot) (mem s2)" using s(3) s1(3) s2(3) by simp
    from takesD(2) [OF snk this ftx_proc [OF s2(2)] m(2)]
    obtain x where x: "either_copyout (dst (unat tot)) ?bs s2 = Ok (0, s2\<lparr>mem := x\<rparr>)" "M (unat tot + unat ?m) x"
      unfolding s(5) by blast
    obtain s4 where s4: "brelse b (s2\<lparr>mem := x\<rparr>) = Ok s4" "ftx p s0 s4 C P Map.empty" "same (s2\<lparr>mem := x\<rparr>) s4"
      by (rule brelse_ftx [OF ftx_mem [OF s2(2)]]) (use ftx_clean [OF s(1)] in auto)
    note nx = piece_next [OF True s(5) fit]
    have rest: "returns (readi_loop ip (dst (unat (tot + ?m))) (off + ?m) (tot + ?m) n s4) (\<lambda>(x, bs, t). x = sint n
       \<and> bs = file_bytes C r (unat (off + ?m)) (unat n - unat (tot + ?m)) \<and> ftx p s0 t C P Map.empty \<and> inodes t = inodes s4
       \<and> M (unat n) (mem t))"
      by (rule less.hyps [OF nx(3) s4(2) _ _ nx(2,5)]) (use s(2) s1(3) s2(3) s4(3) x(2) m(1) in simp_all)
    have "unat n - unat tot = unat ?m + (unat n - unat (tot + ?m))" using m(1,2) by simp
    then have bytes: "file_bytes C r (unat off) (unat n - unat tot) = ?bs @ file_bytes C r (unat (off + ?m)) (unat n - unat (tot + ?m))"
      using file_bytes_append [of C r "unat off" "unat ?m"] nx(1) by simp
    have ids: "idev (inodes s1 ip) = ROOTDEV" "inodes s4 = inodes s" using s1(3) s2(3) s4(3) s(2) d by simp_all
    from takesD(1) [OF snk, of "unat tot" ?m] have dst: "dst_add (dst (unat tot)) ?m = dst (unat (tot + ?m))" using m(1) by simp
    have "readi_loop ip (dst (unat tot)) off tot n s
        = andthen (readi_loop ip (dst (unat (tot + ?m))) (off + ?m) (tot + ?m) n s4) (\<lambda>(t, rest, s5). Ok (t, ?bs @ rest, s5))"
      by (subst readi_loop.simps)
        (simp only: True if_True s1(1) andthen.simps split a if_False ids(1) s2(1) Let_def bs x(1) s4(1) dst zero_neq_neg_one)
    then show ?thesis using bytes ids(2) by (auto intro!: returns_andthen [OF rest])
  qed
qed

text \<open>Two destinations: a variable of the kernel, and memory of the process.\<close>

lemma either_copyout_calm:
  "calm p s \<Longrightarrow> either_copyout dst bs s =
     (case dst of UserDst a \<Rightarrow> copyout (pagetable (procs s p)) a bs s | KernDst a \<Rightarrow> Ok (0, s\<lparr>mem := write_bytes a bs (mem s)\<rparr>)
      | LocalDst \<Rightarrow> Ok (0, s))"
  by (auto simp: either_copyout_def calm_def myproc_ok split: dest.splits)

lemma takes_local: "takes p pt (\<lambda>_. LocalDst) (\<lambda>_ m. m = m0) n f TYPE('z fs_scheme)"
  unfolding takes_def by (auto simp: either_copyout_calm dst_add_def)

lemma file_bytes_slice: "k + m \<le> n \<Longrightarrow> file_bytes C r (base + k) m = take m (drop k (file_bytes C r base n))"
  by (simp add: file_bytes_def take_map drop_map take_upt)

lemma takes_user:
  assumes "n < 2 ^ 64" and "\<forall>i < n. writable m0 pt (a + of_nat i)"
  shows "takes p pt (\<lambda>k. UserDst (a + of_nat k)) (\<lambda>k m. stored pt a (take k (file_bytes C r base n)) m0 m \<and> space_ok m pt) n
    (\<lambda>k m. file_bytes C r (base + k) m) TYPE('z fs_scheme)"
  unfolding takes_def
proof (intro conjI allI impI)
  fix k w
  show "dst_add (UserDst (a + of_nat k)) w = UserDst (a + of_nat (k + unat w))" by (simp add: dst_add_def)
next
  fix k m and t :: "'z fs_scheme"
  assume "(stored pt a (take k (file_bytes C r base n)) m0 (mem t) \<and> space_ok (mem t) pt) \<and> calm p t \<and> pagetable (procs t p) = pt
    \<and> k + m \<le> n"
  then have st: "stored pt a (take k (file_bytes C r base n)) m0 (mem t)" and sp: "space_ok (mem t) pt" and c: "calm p t"
    and pt: "pagetable (procs t p) = pt" and k: "k + m \<le> n" by simp_all
  let ?bs = "file_bytes C r (base + k) m" and ?D = "file_bytes C r base n"
  have w: "\<forall>i < length ?bs. writable (mem t) pt (a + of_nat k + of_nat i)"
  proof (intro allI impI)
    fix i
    assume "i < length ?bs"
    then have "k + i < n" using k by simp
    with assms(2) have "writable m0 pt (a + of_nat (k + i))" by blast
    then have "writable m0 pt (a + of_nat k + of_nat i)" by (simp add: add.assoc)
    then show "writable (mem t) pt (a + of_nat k + of_nat i)" using st by (simp add: stored_def writable_def)
  qed
  have "length ?bs < 2 ^ 64" using k assms(1) by simp
  from copyout_spec [OF sp this, of "a + of_nat k"] w obtain m' where
    m': "copyout pt (a + of_nat k) ?bs t = Ok (0, t\<lparr>mem := m'\<rparr>)" "stored pt (a + of_nat k) ?bs (mem t) m'"
    by auto
  have "take (k + m) ?D = take k ?D @ ?bs" using file_bytes_slice [OF k, of C r base] by (simp add: take_add)
  moreover have "stored pt a (take k ?D @ ?bs) m0 m'"
  proof (rule stored_append [OF st])
    have len: "length (take k ?D) = k" using k by simp
    show "stored pt (a + of_nat (length (take k ?D))) ?bs (mem t) m'" unfolding len by (rule m'(2))
    show "length (take k ?D) + length ?bs < 2 ^ 64" unfolding len using k assms(1) by simp
  qed
  moreover have "space_ok m' pt" using m'(2) by (simp add: stored_def)
  moreover have "either_copyout (UserDst (a + of_nat k)) ?bs t = Ok (0, t\<lparr>mem := m'\<rparr>)"
    using m'(1) c pt by (simp add: either_copyout_calm)
  ultimately show "\<exists>x. either_copyout (UserDst (a + of_nat k)) ?bs t = Ok (0, t\<lparr>mem := x\<rparr>)
      \<and> stored pt a (take (k + m) ?D) m0 x \<and> space_ok x pt" by auto
qed

definition no_holes :: "(uint \<Rightarrow> block) \<Rightarrow> inode \<Rightarrow> bool" where
  "no_holes C r \<longleftrightarrow> idev r = ROOTDEV \<and> length (iaddrs r) = NDIRECT + 1 \<and> unat (isize r) \<le> MAXFILE * BSIZE
     \<and> (\<forall>j. j * BSIZE < unat (isize r) \<longrightarrow> iaddr C r j \<noteq> 0)"

text \<open>How much of a request \<open>readi\<close> serves.\<close>

definition read_len :: "inode \<Rightarrow> uint \<Rightarrow> uint \<Rightarrow> nat" where
  "read_len r off n = (if off + n < off then 0 else min (unat n) (unat (isize r) - unat off))"

lemma sint_below: "unat w < 2 ^ 31 \<Longrightarrow> sint (w :: uint) = int (unat w)"
proof -
  assume "unat w < 2 ^ 31"
  then have u: "uint w < 2 ^ 31" "uint w = int (unat w)" by (simp_all only: unat_eq_nat_uint nat_less_iff uint_ge_0) simp_all
  have "signed_take_bit 31 (uint w) = uint w" by (rule signed_take_bit_int_eq_self) (use u(1) uint_ge_0 [of w] in linarith)+
  then have "sint w = uint w" using sint_uint [of w] by simp
  then show ?thesis using u(2) by (rule trans)
qed

lemma wp_readi:
  fixes s0 :: "'z fs_scheme"
  assumes s: "ftx p s0 s C P Map.empty" and P: "length P < NBUF" and h: "no_holes C (inodes s ip)"
    and snk: "takes p (pagetable (procs s0 p)) dst M (read_len (inodes s ip) off n)
      (\<lambda>k m. file_bytes C (inodes s ip) (unat off + k) m) TYPE('z fs_scheme)"
    and M: "M 0 (mem s)"
  shows "\<exists>t. readi ip (dst 0) off n s = Ok (int (read_len (inodes s ip) off n),
         file_bytes C (inodes s ip) (unat off) (read_len (inodes s ip) off n), t)
     \<and> ftx p s0 t C P Map.empty \<and> inodes t = inodes s \<and> M (read_len (inodes s ip) off n) (mem t)"
proof -
  let ?r = "inodes s ip" and ?l = "read_len (inodes s ip) off n"
  show ?thesis
  proof (cases "off > isize ?r \<or> off + n < off")
    case True
    then have l: "?l = 0" by (auto simp: read_len_def word_less_nat_alt)
    with True s M show ?thesis by (simp add: readi_def Let_def file_bytes_def)
  next
    case False
    define w where "w = (if off + n > isize ?r then isize ?r - off else n)"
    have le: "off \<le> isize ?r" "\<not> off + n < off" using False by auto
    then have sum: "unat (off + n) = unat off + unat n" by (simp add: not_less unat_plus_simple)
    have sub: "unat (isize ?r - off) = unat (isize ?r) - unat off" using le(1) by (rule unat_sub)
    have n: "unat w = ?l" using le sum sub by (auto simp: w_def read_len_def word_less_nat_alt not_less word_le_nat_alt)
    have top: "unat off + ?l \<le> unat (isize ?r)" using le(1) by (auto simp: read_len_def word_le_nat_alt)
    have size: "unat (isize ?r) \<le> MAXFILE * BSIZE" using h by (simp add: no_holes_def)
    have "returns (readi_loop ip (dst (unat (0 :: uint))) off 0 w s) (\<lambda>(x, bs, t). x = sint w
     \<and> bs = file_bytes C ?r (unat off) (unat w - unat (0 :: uint)) \<and> ftx p s0 t C P Map.empty \<and> inodes t = inodes s \<and> M (unat w) (mem t))"
      by (rule wp_readi_loop [where base = "unat off" and r = ?r, OF _ _ _ _ _ s])
        (use snk M h top size n P in \<open>auto simp: no_holes_def word_le_nat_alt\<close>)
    moreover have "sint w = int ?l"
    proof -
      have "unat w < 2 ^ 31" using n top size by simp
      then show ?thesis unfolding n [symmetric] by (rule sint_below)
    qed
    ultimately show ?thesis using le n by (auto simp: readi_def Let_def not_less w_def [symmetric] elim!: returnsE)
  qed
qed

lemma log_inv_room: "log_inv p s \<Longrightarrow> length (pinned s) < NBUF"
  by (simp add: log_inv_def log_list_def)

lemma stored_bytes:
  assumes "stored pt a bs m m'" and "\<forall>i < length bs. writable m pt (a + of_nat i)" and "space_ok m pt" and "length bs < 2 ^ 64"
  shows "user_bytes m' pt a (length bs) = bs"
proof (rule nth_equalityI)
  fix i
  assume "i < length (user_bytes m' pt a (length bs))"
  then have i: "i < length bs" by simp
  moreover have "unat (of_nat i :: uint64) = i" using i assms(4) by (simp add: unat_of_nat64)
  moreover have "user_page m pt (a + of_nat i) \<noteq> None" using assms(2,3) i by (intro writable_user_page) auto
  ultimately show "user_bytes m' pt a (length bs) ! i = bs ! i" using assms(1) by (simp add: user_bytes_def stored_def)
qed simp

text \<open>
  C0. Reading a file. Between the operations of a transaction \<open>readi\<close> returns the number of bytes of the request
  that lie inside the file, 0 if the request starts behind its end or wraps around. If the process can write to its
  buffer, these bytes of the file are in it afterwards, however the file is spread over blocks, direct or
  indirect, and the buffer over pages; no block, no inode and nothing outside the buffer has changed.
\<close>

theorem readi_correct:
  fixes s :: "'z fs_scheme"
  assumes "pt = pagetable (procs s p)" and "log_inv p s" and "no_holes (content s) (inodes s ip)" and "space_ok (mem s) pt"
    and "\<forall>i < read_len (inodes s ip) off n. writable (mem s) pt (a + of_nat i)"
  shows "\<exists>bs t. readi ip (UserDst a) off n s = Ok (int (read_len (inodes s ip) off n), bs, t)
     \<and> bs = file_bytes (content s) (inodes s ip) (unat off) (read_len (inodes s ip) off n)
     \<and> user_bytes (mem t) pt a (length bs) = bs
     \<and> (\<forall>va. user_page (mem s) pt va \<noteq> None \<and> \<not> unat (va - a) < length bs
          \<longrightarrow> user_byte (mem t) pt va = user_byte (mem s) pt va)
     \<and> (\<forall>x. x \<notin> pages_of (user_pages (mem s) pt) \<longrightarrow> mem t x = mem s x)
     \<and> log_inv p t \<and> content t = content s \<and> inodes t = inodes s"
proof -
  let ?l = "read_len (inodes s ip) off n" and ?C = "content s" and ?r = "inodes s ip"
  let ?bs = "file_bytes ?C ?r (unat off) ?l"
  have l: "?l < 2 ^ 64" using unsigned_less [of n, where ?'a = nat] by (auto simp: read_len_def min_less_iff_disj)
  let ?M = "\<lambda>k m. stored pt a (take k ?bs) (mem s) m \<and> space_ok m pt"
  have "takes p (pagetable (procs s p)) (\<lambda>k. UserDst (a + of_nat k)) ?M ?l (\<lambda>k m. file_bytes ?C ?r (unat off + k) m) TYPE('z fs_scheme)"
    unfolding assms(1) [symmetric] by (rule takes_user [OF l assms(5)])
  from wp_readi [OF ftx_start [OF assms(2)] log_inv_room [OF assms(2)] assms(3) this] assms(4) stored_Nil [OF assms(4), of a]
  obtain t where "readi ip (UserDst (a + of_nat 0)) off n s = Ok (int ?l, ?bs, t)"
    "ftx p s t ?C (pinned s) Map.empty" "inodes t = inodes s" "?M ?l (mem t)" by (simp only: take_0 simp_thms) blast
  then have t: "readi ip (UserDst a) off n s = Ok (int ?l, ?bs, t)"
    "ftx p s t ?C (pinned s) Map.empty" "inodes t = inodes s" "?M ?l (mem t)" by simp_all
  have st: "stored pt a ?bs (mem s) (mem t)" using t(4) by simp
  have "user_bytes (mem t) pt a (length ?bs) = ?bs" by (rule stored_bytes [OF st]) (use assms(4,5) l in simp_all)
  with t st ftx_end [OF t(2)] show ?thesis by (intro exI [of _ ?bs] exI [of _ t]) (simp add: stored_def)
qed


section \<open>The blocks of a file\<close>

text \<open>All block addresses of an inode: those of the data, and at index \<open>MAXFILE\<close> that of the indirect block.\<close>

definition faddr :: "(uint \<Rightarrow> block) \<Rightarrow> inode \<Rightarrow> nat \<Rightarrow> uint" where
  "faddr C r j = (if j < MAXFILE then iaddr C r j else iaddrs r ! NDIRECT)"

definition fblocks :: "(uint \<Rightarrow> block) \<Rightarrow> inode \<Rightarrow> uint set" where
  "fblocks C r = faddr C r ` {..MAXFILE} - {0}"

text \<open>
  A well-formed file: its blocks are data blocks, marked as used, and no block occurs twice. Block 0 is in use, so
  that \<open>balloc\<close> returns 0 only as a failure.
\<close>

definition ifile :: "superblock \<Rightarrow> uint set \<Rightarrow> (uint \<Rightarrow> block) \<Rightarrow> inode \<Rightarrow> bool" where
  "ifile k L C r \<longleftrightarrow> length (iaddrs r) = NDIRECT + 1 \<and> (\<forall>n. length (C n) = BSIZE) \<and> map_ok k L C
     \<and> 0 < nblocks k \<and> used k C 0
     \<and> (\<forall>a \<in> fblocks C r. a \<notin> L \<and> a \<notin> bitmap k \<and> unat a < nblocks k \<and> used k C (unat a))
     \<and> (\<forall>i \<le> MAXFILE. \<forall>j \<le> MAXFILE. faddr C r i = faddr C r j \<and> faddr C r i \<noteq> 0 \<longrightarrow> i = j)"

lemma fblocksI: "j \<le> MAXFILE \<Longrightarrow> faddr C r j \<noteq> 0 \<Longrightarrow> faddr C r j \<in> fblocks C r"
  by (simp add: fblocks_def)

lemma ifileD:
  assumes "ifile k L C r"
  shows "length (iaddrs r) = 13" "length (C n) = BSIZE" "map_ok k L C" "used k C 0"
    "a \<in> fblocks C r \<Longrightarrow> a \<notin> L \<and> a \<notin> bitmap k \<and> unat a < nblocks k \<and> used k C (unat a)"
    "i \<le> MAXFILE \<Longrightarrow> j \<le> MAXFILE \<Longrightarrow> faddr C r i = faddr C r j \<Longrightarrow> faddr C r i \<noteq> 0 \<Longrightarrow> i = j" "0 < nblocks k"
  using assms by (simp_all add: ifile_def)

lemma fresh_block:
  assumes f: "ifile k L C r" and i: "i < nblocks k" "\<not> used k C i"
  shows "unat (of_nat i :: uint) = i" "(of_nat i :: uint) \<noteq> 0" "of_nat i \<notin> fblocks C r" "of_nat i \<notin> L" "of_nat i \<notin> bitmap k"
proof -
  show u: "unat (of_nat i :: uint) = i" using nblocks_less [OF i(1)] by (rule unat_of_nat32)
  show "(of_nat i :: uint) \<noteq> 0" using u i ifileD(4) [OF f] by (metis unat_0)
  show "of_nat i \<notin> fblocks C r" using u i ifileD(5) [OF f, of "of_nat i"] by auto
  show "of_nat i \<notin> L" "of_nat i \<notin> bitmap k" using ifileD(3) [OF f] i by (auto simp: map_ok_def)
qed

text \<open>The file after it has got the block \<open>i\<close> at the index \<open>j\<close>.\<close>

lemma ifile_grow:
  assumes f: "ifile k L C r" and i: "i < nblocks k" "\<not> used k C i" and j: "j \<le> MAXFILE" "faddr C r j = 0"
    and len: "length (iaddrs r') = 13" "\<And>n. length (C' n) = BSIZE"
    and used: "\<And>b. b < nblocks k \<Longrightarrow> used k C' b \<longleftrightarrow> b = i \<or> used k C b"
    and addr: "\<And>l. l \<le> MAXFILE \<Longrightarrow> faddr C' r' l = (if l = j then of_nat i else faddr C r l)"
  shows "ifile k L C' r'" "fblocks C' r' = insert (of_nat i) (fblocks C r)"
proof -
  note fr = fresh_block [OF f i]
  show fb: "fblocks C' r' = insert (of_nat i) (fblocks C r)"
    using j fr(2) addr by (auto simp: fblocks_def image_iff)
  have "map_ok k L C'" using ifileD(3) [OF f] used by (auto simp: map_ok_def)
  moreover have "used k C' 0" using used [of 0] ifileD(4) [OF f] i(1) by simp
  moreover have "a \<notin> L \<and> a \<notin> bitmap k \<and> unat a < nblocks k \<and> used k C' (unat a)" if "a \<in> fblocks C' r'" for a
    using that ifileD(5) [OF f, of a] fr i used unfolding fb by auto
  moreover have "l = l'" if "l \<le> MAXFILE" "l' \<le> MAXFILE" "faddr C' r' l = faddr C' r' l'" "faddr C' r' l \<noteq> 0" for l l'
    using that fr(2,3) ifileD(6) [OF f that(1,2)] fblocksI [of l C r] fblocksI [of l' C r] by (auto simp: addr split: if_splits)
  then have "\<forall>l \<le> MAXFILE. \<forall>l' \<le> MAXFILE. faddr C' r' l = faddr C' r' l' \<and> faddr C' r' l \<noteq> 0 \<longrightarrow> l = l'" by blast
  ultimately show "ifile k L C' r'" using len i(1) by (simp add: ifile_def)
qed

text \<open>How the blocks of one file may change: addresses are kept, and new blocks come from the free ones; no other block changes.\<close>

definition enlarged :: "superblock \<Rightarrow> (uint \<Rightarrow> block) \<Rightarrow> inode \<Rightarrow> (uint \<Rightarrow> block) \<Rightarrow> inode \<Rightarrow> bool" where
  "enlarged k C r C' r' \<longleftrightarrow> r' = r\<lparr>iaddrs := iaddrs r'\<rparr>
     \<and> (\<forall>j \<le> MAXFILE. faddr C r j \<noteq> 0 \<longrightarrow> faddr C' r' j = faddr C r j)
     \<and> (\<forall>a \<in> fblocks C' r'. a \<in> fblocks C r \<or> \<not> used k C (unat a))
     \<and> (\<forall>b < nblocks k. used k C' b \<longleftrightarrow> used k C b \<or> b \<in> unat ` fblocks C' r')
     \<and> (\<forall>n. n \<notin> bitmap k \<and> n \<notin> fblocks C' r' \<longrightarrow> C' n = C n)"

lemma enlarged_refl: "ifile k L C r \<Longrightarrow> enlarged k C r C r"
  using ifileD(5) [of k L C r] by (auto simp: enlarged_def)

lemma enlargedD:
  assumes "enlarged k C r C' r'"
  shows "r' = r\<lparr>iaddrs := iaddrs r'\<rparr>" "j \<le> MAXFILE \<Longrightarrow> faddr C r j \<noteq> 0 \<Longrightarrow> faddr C' r' j = faddr C r j"
    "a \<in> fblocks C' r' \<Longrightarrow> a \<in> fblocks C r \<or> \<not> used k C (unat a)"
    "b < nblocks k \<Longrightarrow> used k C' b \<longleftrightarrow> used k C b \<or> b \<in> unat ` fblocks C' r'"
    "n \<notin> bitmap k \<Longrightarrow> n \<notin> fblocks C' r' \<Longrightarrow> C' n = C n" "fblocks C r \<subseteq> fblocks C' r'"
proof -
  show "fblocks C r \<subseteq> fblocks C' r'"
  proof
    fix a
    assume "a \<in> fblocks C r"
    then obtain j where j: "j \<le> MAXFILE" "a = faddr C r j" "a \<noteq> 0" by (auto simp: fblocks_def)
    then have "faddr C' r' j = a" using assms by (simp add: enlarged_def)
    with j show "a \<in> fblocks C' r'" using fblocksI [of j C' r'] by simp
  qed
qed (use assms in \<open>simp_all add: enlarged_def\<close>)

lemma enlarged_trans:
  assumes g: "enlarged k C r C' r'" "enlarged k C' r' C'' r''" and f: "ifile k L C'' r''"
  shows "enlarged k C r C'' r''"
  unfolding enlarged_def
proof (intro conjI allI impI ballI)
  show "r'' = r\<lparr>iaddrs := iaddrs r''\<rparr>" by (subst enlargedD(1) [OF g(2)], subst enlargedD(1) [OF g(1)]) simp
  show "faddr C'' r'' j = faddr C r j" if "j \<le> MAXFILE" "faddr C r j \<noteq> 0" for j
    using enlargedD(2) [OF g(1) that] enlargedD(2) [OF g(2) that(1)] that(2) by simp
  show "a \<in> fblocks C r \<or> \<not> used k C (unat a)" if "a \<in> fblocks C'' r''" for a
    using enlargedD(3) [OF g(2) that] enlargedD(3) [OF g(1), of a] enlargedD(4) [OF g(1), of "unat a"] ifileD(5) [OF f that] by blast
  show "used k C'' b \<longleftrightarrow> used k C b \<or> b \<in> unat ` fblocks C'' r''" if "b < nblocks k" for b
    using enlargedD(4) [OF g(1) that] enlargedD(4) [OF g(2) that] enlargedD(6) [OF g(2)] by blast
  show "C'' n = C n" if "n \<notin> bitmap k \<and> n \<notin> fblocks C'' r''" for n
    using that enlargedD(5) [OF g(2), of n] enlargedD(5) [OF g(1), of n] enlargedD(6) [OF g(2)] by auto
qed

lemma enlarged_by:
  assumes f: "ifile k L C r" and i: "i < nblocks k" "\<not> used k C i"
    and r: "r' = r\<lparr>iaddrs := iaddrs r'\<rparr>" and fb: "fblocks C' r' = insert (of_nat i) (fblocks C r)"
    and used: "\<And>b. b < nblocks k \<Longrightarrow> used k C' b \<longleftrightarrow> b = i \<or> used k C b"
    and addr: "\<And>l. l \<le> MAXFILE \<Longrightarrow> faddr C' r' l = (if l = j then of_nat i else faddr C r l)" and j: "faddr C r j = 0"
    and same: "\<And>n. n \<notin> bitmap k \<Longrightarrow> n \<notin> fblocks C' r' \<Longrightarrow> C' n = C n"
  shows "enlarged k C r C' r'"
  unfolding enlarged_def
proof (intro conjI allI impI ballI)
  show "faddr C' r' l = faddr C r l" if "l \<le> MAXFILE" "faddr C r l \<noteq> 0" for l using addr that j by auto
  show "used k C' b \<longleftrightarrow> used k C b \<or> b \<in> unat ` fblocks C' r'" if "b < nblocks k" for b
    unfolding fb using used [OF that] fresh_block(1) [OF f i] ifileD(5) [OF f] by auto
qed (use r fb same fresh_block(1) [OF f i] i(2) in auto)


lemma get32_zero: "off + 4 \<le> BSIZE \<Longrightarrow> get32 off (replicate BSIZE 0) = 0"
proof -
  assume "off + 4 \<le> BSIZE"
  then have "get_bytes off 4 (replicate BSIZE (0 :: byte)) = [0, 0, 0, 0]"
    by (simp add: get_bytes_def min_def) (simp add: numeral_eq_Suc)
  then show ?thesis by (simp add: get32_def of_le_def)
qed

lemma alloc_keep:
  assumes "ifile k L C r" and "i < nblocks k" "\<not> used k C i" and "n \<in> fblocks C r"
  shows "alloc k i C n = C n"
  using ifileD(5) [OF assms(1,4)] fresh_block(3) [OF assms(1-3)] bitmapI [OF assms(2)] assms(4) by (auto simp: alloc_def)

lemma alloc_new: "alloc k i C (of_nat i) = replicate BSIZE 0"
  by (simp add: alloc_def)

lemma length_alloc: "(\<And>n. length (C n) = BSIZE) \<Longrightarrow> length (alloc k i C n) = BSIZE"
  by (simp add: alloc_def)

lemma alloc_other: "n \<notin> bitmap k \<Longrightarrow> n \<noteq> of_nat i \<Longrightarrow> i < nblocks k \<Longrightarrow> alloc k i C n = C n"
  using bitmapI [of i k] by (auto simp: alloc_def)

text \<open>The file has got block \<open>i\<close> at index \<open>j\<close>, a block of zeros, and its other data blocks have kept their contents.\<close>

definition extended ::
  "superblock \<Rightarrow> uint set \<Rightarrow> nat \<Rightarrow> nat \<Rightarrow> (uint \<Rightarrow> block) \<Rightarrow> inode \<Rightarrow> (uint \<Rightarrow> block) \<Rightarrow> inode \<Rightarrow> bool"
where
  "extended k L j i C r C' r' \<longleftrightarrow> ifile k L C' r' \<and> enlarged k C r C' r'
     \<and> (\<forall>l \<le> MAXFILE. faddr C' r' l = (if l = j then of_nat i else faddr C r l))
     \<and> (\<forall>l < MAXFILE. iaddr C r l \<noteq> 0 \<longrightarrow> C' (iaddr C r l) = C (iaddr C r l))
     \<and> C' (of_nat i) = replicate BSIZE 0"

lemma faddr_ind: "faddr C r MAXFILE = iaddrs r ! NDIRECT"
  by (simp add: faddr_def)

lemma faddr_data: "l < MAXFILE \<Longrightarrow> faddr C r l = iaddr C r l"
  by (simp add: faddr_def)

lemma ind_block: "iaddrs r ! NDIRECT \<noteq> 0 \<Longrightarrow> iaddrs r ! NDIRECT \<in> fblocks C r"
  using fblocksI [of MAXFILE C r] by (simp add: faddr_def)

lemma data_in: "l < MAXFILE \<Longrightarrow> iaddr C r l \<noteq> 0 \<Longrightarrow> iaddr C r l \<in> fblocks C r"
  using fblocksI [of l C r] by (simp add: faddr_data)

lemma used_alloc_file:
  assumes f: "ifile k L C r" and i: "i < nblocks k" "\<not> used k C i" and b: "b < nblocks k"
  shows "used k (alloc k i C) b \<longleftrightarrow> b = i \<or> used k C b"
  using used_alloc [OF ifileD(2) [OF f] i(1) b fresh_block(5) [OF f i]] .

lemma extended_direct:
  assumes f: "ifile k L C r" and i: "i < nblocks k" "\<not> used k C i" and m: "m \<le> NDIRECT" "iaddrs r ! m = 0"
  defines "C' \<equiv> alloc k i C" and "r' \<equiv> r\<lparr>iaddrs := (iaddrs r)[m := of_nat i]\<rparr>" and "j \<equiv> if m = NDIRECT then MAXFILE else m"
  shows "extended k L j i C r C' r'"
proof -
  note fr = fresh_block [OF f i] and len = ifileD(1) [OF f]
  have j: "j \<le> MAXFILE" "faddr C r j = 0" using m by (auto simp: j_def faddr_def iaddr_def)
  have keep: "n \<in> fblocks C r \<Longrightarrow> C' n = C n" for n unfolding C'_def by (rule alloc_keep [OF f i])
  have addr: "faddr C' r' l = (if l = j then of_nat i else faddr C r l)" if "l \<le> MAXFILE" for l
  proof (cases "m = NDIRECT")
    case True
    then have "get32 (4 * (l - NDIRECT)) (C' (of_nat i)) = 0" if "l < MAXFILE"
      unfolding C'_def alloc_new using that by (intro get32_zero) simp
    then show ?thesis using True that m(2) len fr(2) by (auto simp: faddr_def iaddr_def r'_def j_def)
  next
    case False
    have "C' (iaddrs r ! NDIRECT) = C (iaddrs r ! NDIRECT)" if "iaddrs r ! NDIRECT \<noteq> 0" by (rule keep [OF ind_block [OF that]])
    then show ?thesis using False that m len by (auto simp: faddr_def iaddr_def r'_def j_def nth_list_update)
  qed
  have used: "used k C' b \<longleftrightarrow> b = i \<or> used k C b" if "b < nblocks k" for b unfolding C'_def by (rule used_alloc_file [OF f i that])
  have l: "length (iaddrs r') = 13" "length (C' n) = BSIZE" for n
    using len length_alloc [of C, OF ifileD(2) [OF f]] by (simp_all add: r'_def C'_def)
  note g = ifile_grow [OF f i j l used addr]
  have "enlarged k C r C' r'"
  proof (rule enlarged_by [OF f i _ g(2) used addr j(2)])
    show "C' n = C n" if "n \<notin> bitmap k" "n \<notin> fblocks C' r'" for n
    proof -
      have "n \<noteq> of_nat i" using that(2) g(2) by blast
      then show ?thesis unfolding C'_def by (rule alloc_other [OF that(1) _ i(1)])
    qed
  qed (simp add: r'_def)
  then show ?thesis
    using g(1) addr keep [OF data_in] alloc_new [of k i C] by (simp add: extended_def C'_def)
qed

lemma extended_indirect:
  assumes f: "ifile k L C r" and i: "i < nblocks k" "\<not> used k C i" and j: "NDIRECT \<le> j" "j < MAXFILE" "iaddr C r j = 0"
    and d: "iaddrs r ! NDIRECT \<noteq> 0"
  defines "C' \<equiv> (alloc k i C)(iaddrs r ! NDIRECT := put32 (4 * (j - NDIRECT)) (of_nat i) (C (iaddrs r ! NDIRECT)))"
  shows "extended k L j i C r C' r"
proof -
  let ?n = "iaddrs r ! NDIRECT"
  note fr = fresh_block [OF f i] and len = ifileD(1) [OF f] and n = ind_block [OF d, of C]
  have off: "4 * (j - NDIRECT) + 4 \<le> length (C ?n)" using j ifileD(2) [OF f] by simp
  have ne: "of_nat i \<noteq> ?n" using fr(3) n by auto
  have addr: "faddr C' r l = (if l = j then of_nat i else faddr C r l)" if lm: "l \<le> MAXFILE" for l
  proof (cases "NDIRECT \<le> l \<and> l < MAXFILE")
    case True
    then have apart: "4 * (l - NDIRECT) + 4 \<le> 4 * (j - NDIRECT) \<or> 4 * (j - NDIRECT) + 4 \<le> 4 * (l - NDIRECT)" if "l \<noteq> j"
      using that j(1) by arith
    have "get32 (4 * (l - NDIRECT)) (C' ?n) = (if l = j then of_nat i else get32 (4 * (l - NDIRECT)) (C ?n))"
      using get32_put32 [OF off] get32_put32_other [OF off apart] by (simp add: C'_def)
    with True d show ?thesis by (simp add: faddr_def iaddr_def)
  next
    case False
    then consider "l < NDIRECT" | "l = MAXFILE" using lm by linarith
    then show ?thesis
    proof cases
      case 1
      then show ?thesis using j(1) by (simp add: faddr_def iaddr_def)
    next
      case 2
      then show ?thesis using j(2) by (simp add: faddr_def)
    qed
  qed
  have nb: "?n \<notin> bitmap k" using ifileD(5) [OF f n] by simp
  have used: "used k C' b \<longleftrightarrow> b = i \<or> used k C b" if "b < nblocks k" for b
    unfolding C'_def used_other [OF nb that] by (rule used_alloc_file [OF f i that])
  have l: "length (C' n) = BSIZE" for n
    using length_alloc [of C, OF ifileD(2) [OF f]] off ifileD(2) [OF f] by (simp add: C'_def)
  have j': "j \<le> MAXFILE" "faddr C r j = 0" using j by (simp_all add: faddr_data)
  note g = ifile_grow [OF f i j' len l used addr]
  have "enlarged k C r C' r"
  proof (rule enlarged_by [OF f i _ g(2) used addr j'(2)])
    show "C' l = C l" if "l \<notin> bitmap k" "l \<notin> fblocks C' r" for l
    proof -
      have "l \<noteq> of_nat i" "l \<noteq> ?n" using that(2) g(2) n by blast+
      then show ?thesis using alloc_other [OF that(1) _ i(1)] by (simp add: C'_def)
    qed
  qed simp
  moreover have "C' (iaddr C r l) = C (iaddr C r l)" if "l < MAXFILE" "iaddr C r l \<noteq> 0" for l
  proof -
    have "iaddr C r l \<noteq> ?n" using ifileD(6) [OF f, of l MAXFILE] that by (auto simp: faddr_def)
    then show ?thesis using alloc_keep [OF f i data_in [OF that]] by (simp add: C'_def)
  qed
  ultimately show ?thesis using g(1) addr ne alloc_new [of k i C] by (simp add: extended_def C'_def)
qed


section \<open>Allocating blocks for a file\<close>

text \<open>
  The result of asking for the block at index \<open>j\<close>: it was there already, or the device is full, or the file
  has been extended by a block of zeros that is part of the transaction now.
\<close>

definition dev_full :: "superblock \<Rightarrow> (uint \<Rightarrow> block) \<Rightarrow> bool" where
  "dev_full k C \<longleftrightarrow> (\<forall>b < nblocks k. used k C b)"

definition got ::
  "superblock \<Rightarrow> uint set \<Rightarrow> nat \<Rightarrow> (uint \<Rightarrow> block) \<Rightarrow> uint list \<Rightarrow> inode \<Rightarrow> (uint \<Rightarrow> block) \<Rightarrow> uint list \<Rightarrow> inode \<Rightarrow> bool"
where
  "got k L j C P r C' P' r' \<longleftrightarrow>
     C' = C \<and> P' = P \<and> r' = r \<and> dev_full k C
     \<or> (\<exists>i. extended k L j i C r C' r' \<and> of_nat i \<in> set P' \<and> (of_nat i :: uint) \<noteq> 0 \<and> set P \<subseteq> set P'
          \<and> length P' \<le> length P + 2 + (if iaddrs r ! NDIRECT \<in> set P then 0 else 1)
          \<and> (j < NDIRECT \<or> j = MAXFILE \<longrightarrow> length P' \<le> length P + 2)
          \<and> (NDIRECT \<le> j \<longrightarrow> iaddrs r' ! NDIRECT \<in> set P'))"

lemma set_log_add [simp]: "set (log_add n P) = insert n (set P)"
  by (auto simp: log_add_def)

lemma length_log_add2: "length (log_add a (log_add b P)) \<le> length P + 2"
  using length_log_add [of a "log_add b P"] length_log_add [of b P] by simp

lemma wp_new_direct:
  fixes s0 :: "'z fs_scheme"
  defines "k \<equiv> sb s0" and "L \<equiv> log_area (lg_start s0) (lg_size s0)"
  assumes s: "ftx p s0 s C P Map.empty" and f: "ifile k L C (inodes s ip)" and r: "room 2 s0 P 0"
    and m: "m \<le> NDIRECT" "iaddrs (inodes s ip) ! m = 0"
  defines "j \<equiv> if m = NDIRECT then MAXFILE else m"
  shows "returns (andthen (balloc ROOTDEV s) (\<lambda>(a, s1). if a = 0 then Ok (0, s1) else Ok (a, set_addr ip m a s1)))
     (\<lambda>(a, t). \<exists>C' P' r'. ftx p s0 t C' P' Map.empty \<and> inodes t = (inodes s)(ip := r') \<and> mem t = mem s
        \<and> got k L j C P (inodes s ip) C' P' r' \<and> a = faddr C' r' j)"
proof (rule returns_andthen [OF wp_balloc [OF s]])
  show "map_ok (sb s0) (log_area (lg_start s0) (lg_size s0)) C" using ifileD(3) [OF f] by (simp add: k_def L_def)
  show "room 2 s0 P (card (dom Map.empty))" using r by simp
  fix x
  assume x: "balloc_post p s0 C P Map.empty s (first_free (sb s0) C) x"
  obtain a t where at: "x = (a, t)" by (cases x)
  let ?r = "inodes s ip"
  have j: "j \<le> MAXFILE" "faddr C ?r j = 0" using m by (auto simp: j_def faddr_def iaddr_def)
  show "returns (case x of (a, s1) \<Rightarrow> if a = 0 then Ok (0, s1) else Ok (a, set_addr ip m a s1))
     (\<lambda>(a, t). \<exists>C' P' r'. ftx p s0 t C' P' Map.empty \<and> inodes t = (inodes s)(ip := r') \<and> mem t = mem s
        \<and> got k L j C P ?r C' P' r' \<and> a = faddr C' r' j)"
  proof (cases "first_free (sb s0) C")
    case None
    then have "a = 0" "ftx p s0 t C P Map.empty" "same s t" using x at by (simp_all add: balloc_post_def)
    moreover have "dev_full k C" using None by (simp add: first_free_None dev_full_def k_def)
    ultimately show ?thesis using j(2) at by (auto simp: got_def intro!: exI [of _ C] exI [of _ P] exI [of _ ?r])
  next
    case (Some i)
    let ?C = "alloc k i C" and ?P = "log_add (of_nat i) (log_add (BBLOCK i k) P)"
      and ?r' = "?r\<lparr>iaddrs := (iaddrs ?r)[m := of_nat i]\<rparr>"
    have i: "i < nblocks k" "\<not> used k C i" using Some by (simp_all add: first_free_Some k_def)
    have t: "a = of_nat i" "ftx p s0 t ?C ?P Map.empty" "same s t" using x at Some by (auto simp: balloc_post_def k_def)
    note fr = fresh_block [OF f i]
    have e: "extended k L j i C ?r ?C ?r'" unfolding j_def by (rule extended_direct [OF f i m])
    have len: "length (iaddrs ?r) = 13" by (rule ifileD(1) [OF f])
    have "got k L j C P ?r ?C ?P ?r'"
      unfolding got_def
      by (rule disjI2, rule exI [of _ i]) (use e fr(2) length_log_add2 [of "of_nat i" "BBLOCK i k" P] m len in \<open>auto simp: j_def\<close>)
    moreover have "faddr ?C ?r' j = of_nat i" using e j(1) by (simp add: extended_def)
    moreover have "ftx p s0 (set_addr ip m (of_nat i) t) ?C ?P Map.empty"
      unfolding set_addr_def set_inode_def by (rule ftx_inodes [OF t(2)])
    moreover have "inodes (set_addr ip m (of_nat i) t) = (inodes s)(ip := ?r')" "mem (set_addr ip m (of_nat i) t) = mem s"
      using t(3) by (simp_all add: set_addr_def set_inode_def)
    ultimately show ?thesis using at t(1) fr(2) by (auto intro!: exI [of _ ?C] exI [of _ ?P] exI [of _ ?r'])
  qed
qed auto


text \<open>The part of \<open>bmap\<close> that works in the indirect block.\<close>

definition bmap_ind :: "nat \<Rightarrow> nat \<Rightarrow> nat \<Rightarrow> 'z fs_scheme \<Rightarrow> (uint \<times> 'z fs_scheme) res" where
  "bmap_ind ip k bp s2 = (let addr = get32 (4 * k) (bdata (bufs s2 bp)) in
     andthen (if addr = 0
              then andthen (balloc (idev (inodes s2 ip)) s2) (\<lambda>(addr, s3).
                   if addr \<noteq> 0
                   then andthen (log_write bp (set_data bp (put32 (4 * k) addr (bdata (bufs s3 bp))) s3)) (\<lambda>s4. Ok (addr, s4))
                   else Ok (addr, s3))
              else Ok (addr, s2)) (\<lambda>(addr, s3).
     andthen (brelse bp s3) (\<lambda>s4. Ok (addr, s4))))"

lemma wp_new_indirect:
  fixes s0 :: "'z fs_scheme"
  defines "k \<equiv> sb s0" and "L \<equiv> log_area (lg_start s0) (lg_size s0)"
  assumes s: "ftx p s0 s C P Map.empty" and f: "ifile k L C (inodes s ip)" and r: "room 3 s0 P 1"
    and j: "NDIRECT \<le> j" "j < MAXFILE" "iaddr C (inodes s ip) j = 0" and n: "iaddrs (inodes s ip) ! NDIRECT = n" "n \<noteq> 0"
    and d: "idev (inodes s ip) = ROOTDEV"
  shows "returns (andthen (bread ROOTDEV n s) (\<lambda>(bp, s2). bmap_ind ip (j - NDIRECT) bp s2))
     (\<lambda>(a, t). \<exists>C' P' r'. ftx p s0 t C' P' Map.empty \<and> inodes t = (inodes s)(ip := r') \<and> mem t = mem s
        \<and> got k L j C P (inodes s ip) C' P' r' \<and> a = faddr C' r' j)" (is "returns _ ?Q")
proof (rule wp_bread_ftx [OF s])
  show "n \<in> set P \<or> length P + card (dom Map.empty) < NBUF" using r by (simp add: room_def)
  fix bp t
  assume t: "ftx p s0 t C P (Map.empty(n \<mapsto> bp))" "same s t" "bdata (bufs t bp) = C n"
  let ?r = "inodes s ip" and ?o = "4 * (j - NDIRECT)"
  have nb: "n \<in> fblocks C ?r" using ind_block [of ?r C] n by simp
  note nd = ifileD(5) [OF f nb]
  have z: "get32 ?o (C n) = 0" using j n by (auto simp: iaddr_def)
  have fj: "faddr C ?r j = 0" using j by (simp add: faddr_data)
  have unf: "bmap_ind ip (j - NDIRECT) bp t = andthen (balloc ROOTDEV t) (\<lambda>(a, s3).
      andthen (if a \<noteq> 0 then andthen (log_write bp (set_data bp (put32 ?o a (bdata (bufs s3 bp))) s3)) (\<lambda>s4. Ok (a, s4)) else Ok (a, s3))
       (\<lambda>(a, s4). andthen (brelse bp s4) (\<lambda>s5. Ok (a, s5))))"
    using t z d by (simp add: bmap_ind_def Let_def split_def)
  show "returns (bmap_ind ip (j - NDIRECT) bp t) ?Q"
    unfolding unf
  proof (rule returns_andthen [OF wp_balloc [OF t(1)]])
    show "map_ok (sb s0) (log_area (lg_start s0) (lg_size s0)) C" using ifileD(3) [OF f] by (simp add: k_def L_def)
    show "room 2 s0 P (card (dom (Map.empty(n \<mapsto> bp))))" using room_mono [OF r] by simp
    show "bitmap (sb s0) \<inter> dom (Map.empty(n \<mapsto> bp)) = {}" using nd by (auto simp: k_def)
    show "of_nat b \<notin> dom (Map.empty(n \<mapsto> bp))" if "b < nblocks (sb s0)" "\<not> used (sb s0) C b" for b
      using fresh_block(3) [OF f, of b] that nb by (auto simp: k_def)
    fix x
    assume x: "balloc_post p s0 C P (Map.empty(n \<mapsto> bp)) t (first_free (sb s0) C) x"
    obtain a u where au: "x = (a, u)" by (cases x)
    show "returns (case x of (a, s3) \<Rightarrow>
      andthen (if a \<noteq> 0 then andthen (log_write bp (set_data bp (put32 ?o a (bdata (bufs s3 bp))) s3)) (\<lambda>s4. Ok (a, s4)) else Ok (a, s3))
       (\<lambda>(a, s4). andthen (brelse bp s4) (\<lambda>s5. Ok (a, s5)))) ?Q"
    proof (cases "first_free (sb s0) C")
      case None
      then have u: "a = 0" "ftx p s0 u C P (Map.empty(n \<mapsto> bp))" "same s u" using x au t(2) by (simp_all add: balloc_post_def)
      have "dev_full k C" using None by (simp add: first_free_None dev_full_def k_def)
      obtain v where v: "brelse bp u = Ok v" "ftx p s0 v C P Map.empty" "same u v"
        by (rule brelse_ftx [OF u(2)]) (use ftx_clean [OF s] in auto)
      have "\<exists>C' P' r'. ftx p s0 v C' P' Map.empty \<and> inodes v = (inodes s)(ip := r') \<and> mem v = mem s
          \<and> got k L j C P ?r C' P' r' \<and> 0 = faddr C' r' j"
        by (rule exI [of _ C], rule exI [of _ P], rule exI [of _ ?r]) (use v u \<open>dev_full k C\<close> fj in \<open>simp add: got_def\<close>)
      then show ?thesis using au u(1) v(1) by simp
    next
      case (Some i)
      let ?C1 = "alloc k i C" and ?P1 = "log_add (of_nat i) (log_add (BBLOCK i k) P)"
      let ?C2 = "?C1(n := put32 ?o (of_nat i) (C n))" and ?P2 = "log_add n ?P1"
      have i: "i < nblocks k" "\<not> used k C i" using Some by (simp_all add: first_free_Some k_def)
      have u: "a = of_nat i" "ftx p s0 u ?C1 ?P1 (Map.empty(n \<mapsto> bp))" "same s u"
        using x au Some t(2) by (simp_all add: balloc_post_def k_def)
      note fr = fresh_block [OF f i]
      have un: "bdata (bufs u bp) = C n" using ftx_data [OF u(2), of n bp] alloc_keep [OF f i nb] by simp
      have e: "extended k L j i C ?r ?C2 ?r" using extended_indirect [OF f i j] n by simp
      have len: "length (put32 ?o (of_nat i) (C n)) = BSIZE" using ifileD(2) [OF f] j by simp
      have r1: "room 1 s0 ?P1 0" using room_log_add [OF room_log_add, of 1 s0 P 0] room_mono [OF r, of 3 0] by (simp add: numeral_eq_Suc)
      have "returns (andthen (log_write bp (set_data bp (put32 ?o (of_nat i) (C n)) u)) (\<lambda>s4. andthen (brelse bp s4) (\<lambda>s5. Ok (of_nat i :: uint, s5))))
         ?Q"
      proof (rule wp_store_then [OF u(2) _ _ r1 len])
        show "n \<notin> log_area (lg_start s0) (lg_size s0)" using nd by (simp add: L_def)
        fix v
        assume v: "ftx p s0 v (?C1(n := put32 ?o (of_nat i) (C n))) ?P2 ((Map.empty(n \<mapsto> bp))(n := None))" "same u v"
        have "length ?P2 \<le> length P + 2 + (if n \<in> set P then 0 else 1)"
          using length_log_add2 [of "of_nat i" "BBLOCK i k" P] by (simp add: log_add_def)
        then have "got k L j C P ?r ?C2 ?P2 ?r"
          unfolding got_def by - (rule disjI2, rule exI [of _ i], use e fr(2) n j in auto)
        moreover have "of_nat i = faddr ?C2 ?r j" using e j by (simp add: extended_def)
        ultimately show "returns (Ok (of_nat i, v)) ?Q"
          using v u(3) by (auto intro!: exI [of _ ?C2] exI [of _ ?P2] exI [of _ ?r])
      qed simp
      then show ?thesis using au u(1) fr(2) un by simp
    qed
  qed
qed simp_all


text \<open>How many blocks the indirect block may still add to the transaction.\<close>

definition ind_cost :: "uint list \<Rightarrow> inode \<Rightarrow> nat" where
  "ind_cost P r = (if iaddrs r ! NDIRECT = 0 then 2 else if iaddrs r ! NDIRECT \<in> set P then 0 else 1)"

text \<open>
  The effect of \<open>bmap\<close> for block \<open>j\<close> of a file: the file is still well formed, no other block of it has moved and
  its contents are the same; a new block is zero and in the transaction; if there is no block the device is full.
\<close>

definition bmapped ::
  "superblock \<Rightarrow> uint set \<Rightarrow> nat \<Rightarrow> (uint \<Rightarrow> block) \<Rightarrow> uint list \<Rightarrow> inode \<Rightarrow> (uint \<Rightarrow> block) \<Rightarrow> uint list \<Rightarrow> inode \<Rightarrow> bool"
where
  "bmapped k L j C P r C' P' r' \<longleftrightarrow> ifile k L C' r' \<and> enlarged k C r C' r'
     \<and> (\<forall>l < MAXFILE. l \<noteq> j \<longrightarrow> iaddr C' r' l = iaddr C r l)
     \<and> (\<forall>l < MAXFILE. iaddr C r l \<noteq> 0 \<longrightarrow> C' (iaddr C r l) = C (iaddr C r l))
     \<and> (iaddr C r j = 0 \<and> iaddr C' r' j \<noteq> 0 \<longrightarrow> C' (iaddr C' r' j) = replicate BSIZE 0 \<and> iaddr C' r' j \<in> set P')
     \<and> (iaddr C' r' j = 0 \<longrightarrow> dev_full k C') \<and> set P \<subseteq> set P'
     \<and> length P' + ind_cost P' r' \<le> length P + ind_cost P r + (if iaddr C r j = 0 then 2 else 0)"

lemma bmappedD:
  assumes "bmapped k L j C P r C' P' r'"
  shows "ifile k L C' r'" "enlarged k C r C' r'" "l < MAXFILE \<Longrightarrow> l \<noteq> j \<Longrightarrow> iaddr C' r' l = iaddr C r l"
    "l < MAXFILE \<Longrightarrow> iaddr C r l \<noteq> 0 \<Longrightarrow> C' (iaddr C r l) = C (iaddr C r l)"
    "iaddr C r j = 0 \<Longrightarrow> iaddr C' r' j \<noteq> 0 \<Longrightarrow> C' (iaddr C' r' j) = replicate BSIZE 0 \<and> iaddr C' r' j \<in> set P'"
    "iaddr C' r' j = 0 \<Longrightarrow> dev_full k C'" "set P \<subseteq> set P'"
    "length P' + ind_cost P' r' \<le> length P + ind_cost P r + (if iaddr C r j = 0 then 2 else 0)"
  using assms unfolding bmapped_def by blast+

lemma bmapped_refl:
  assumes "ifile k L C r" and "iaddr C r j = 0 \<longrightarrow> dev_full k C"
  shows "bmapped k L j C P r C P r"
  using assms enlarged_refl [OF assms(1)] by (simp add: bmapped_def)

lemma extended_iaddr:
  assumes "extended k L j i C r C' r'" and "l < MAXFILE"
  shows "iaddr C' r' l = (if l = j then of_nat i else iaddr C r l)"
proof -
  have "faddr C' r' l = (if l = j then of_nat i else faddr C r l)" using assms by (simp add: extended_def)
  then show ?thesis by (simp only: faddr_data [OF assms(2)])
qed

lemma extended_ind:
  assumes "extended k L j i C r C' r'"
  shows "iaddrs r' ! NDIRECT = (if j = MAXFILE then of_nat i else iaddrs r ! NDIRECT)"
  using assms unfolding extended_def by (metis faddr_ind order_refl)

lemma got_bmapped:
  assumes f: "ifile k L C r" and j: "j < MAXFILE" "iaddr C r j = 0" "j < NDIRECT \<or> iaddrs r ! NDIRECT \<noteq> 0"
    and g: "got k L j C P r C' P' r'"
  shows "bmapped k L j C P r C' P' r'"
  using g unfolding got_def
proof
  assume "C' = C \<and> P' = P \<and> r' = r \<and> dev_full k C"
  then show ?thesis using bmapped_refl [OF f] by simp
next
  assume "\<exists>i. extended k L j i C r C' r' \<and> of_nat i \<in> set P' \<and> (of_nat i :: uint) \<noteq> 0 \<and> set P \<subseteq> set P'
          \<and> length P' \<le> length P + 2 + (if iaddrs r ! NDIRECT \<in> set P then 0 else 1)
          \<and> (j < NDIRECT \<or> j = MAXFILE \<longrightarrow> length P' \<le> length P + 2)
          \<and> (NDIRECT \<le> j \<longrightarrow> iaddrs r' ! NDIRECT \<in> set P')"
  then obtain i where e: "extended k L j i C r C' r'" and i: "of_nat i \<in> set P'" "(of_nat i :: uint) \<noteq> 0" "set P \<subseteq> set P'"
    and len: "length P' \<le> length P + 2 + (if iaddrs r ! NDIRECT \<in> set P then 0 else 1)"
      "j < NDIRECT \<longrightarrow> length P' \<le> length P + 2" and ind: "NDIRECT \<le> j \<longrightarrow> iaddrs r' ! NDIRECT \<in> set P'" by auto
  note a = extended_iaddr [OF e] and n = extended_ind [OF e]
  have n': "iaddrs r' ! NDIRECT = iaddrs r ! NDIRECT" using n j(1) by simp
  have cost: "length P' + ind_cost P' r' \<le> length P + ind_cost P r + 2"
  proof (cases "j < NDIRECT")
    case True
    then show ?thesis using len(2) i(3) n' by (auto simp: ind_cost_def)
  next
    case False
    then show ?thesis using len(1) ind j(3) n' by (auto simp: ind_cost_def)
  qed
  show ?thesis unfolding bmapped_def
  proof (intro conjI)
    show "ifile k L C' r'" "enlarged k C r C' r'" "\<forall>l < MAXFILE. iaddr C r l \<noteq> 0 \<longrightarrow> C' (iaddr C r l) = C (iaddr C r l)"
      using e by (simp_all add: extended_def)
    show "\<forall>l < MAXFILE. l \<noteq> j \<longrightarrow> iaddr C' r' l = iaddr C r l" using a by simp
    show "iaddr C r j = 0 \<and> iaddr C' r' j \<noteq> 0 \<longrightarrow> C' (iaddr C' r' j) = replicate BSIZE 0 \<and> iaddr C' r' j \<in> set P'"
      using a [OF j(1)] e i(1) by (simp add: extended_def)
    show "iaddr C' r' j = 0 \<longrightarrow> dev_full k C'" using a [OF j(1)] i(2) by simp
    show "length P' + ind_cost P' r' \<le> length P + ind_cost P r + (if iaddr C r j = 0 then 2 else 0)" using cost j(2) by simp
  qed (rule i(3))
qed

lemma bmapped_after_ind:
  assumes e: "extended k L MAXFILE i C r C1 r1" and i: "(of_nat i :: uint) \<noteq> 0" "of_nat i \<in> set P1" "set P \<subseteq> set P1"
    and len: "length P1 \<le> length P + 2"
    and j: "j < MAXFILE" "iaddr C r j = 0" "iaddrs r ! NDIRECT = 0" and b: "bmapped k L j C1 P1 r1 C' P' r'"
  shows "bmapped k L j C P r C' P' r'"
proof -
  have a: "iaddr C1 r1 l = iaddr C r l" if "l < MAXFILE" for l using extended_iaddr [OF e that] that by simp
  note d = bmappedD [OF b]
  have e1: "enlarged k C r C1 r1" and c1: "\<And>l. l < MAXFILE \<Longrightarrow> iaddr C r l \<noteq> 0 \<Longrightarrow> C1 (iaddr C r l) = C (iaddr C r l)"
    using e by (simp_all add: extended_def)
  have cost: "ind_cost P1 r1 = 0" "ind_cost P r = 2" using extended_ind [OF e] i j(3) by (simp_all add: ind_cost_def)
  show ?thesis unfolding bmapped_def
  proof (intro conjI allI impI)
    show "ifile k L C' r'" "enlarged k C r C' r'" by (rule d(1), rule enlarged_trans [OF e1 d(2,1)])
    show "iaddr C' r' l = iaddr C r l" if "l < MAXFILE" "l \<noteq> j" for l using d(3) [OF that] a [OF that(1)] by simp
    show "C' (iaddr C r l) = C (iaddr C r l)" if "l < MAXFILE" "iaddr C r l \<noteq> 0" for l
      using d(4) [OF that(1)] c1 [OF that] a [OF that(1)] that(2) by simp
    show "C' (iaddr C' r' j) = replicate BSIZE 0" "iaddr C' r' j \<in> set P'" if "iaddr C r j = 0 \<and> iaddr C' r' j \<noteq> 0"
      using d(5) that a [OF j(1)] by simp_all
    show "set P \<subseteq> set P'" using i(3) d(7) by blast
    show "length P' + ind_cost P' r' \<le> length P + ind_cost P r + (if iaddr C r j = 0 then 2 else 0)"
      using d(8) len cost a [OF j(1)] j(2) by simp
  qed (rule d(6))
qed


lemma bmap_unfold:
  assumes "NDIRECT \<le> unat bn" and "unat bn < MAXFILE"
  shows "bmap ip bn s = andthen (if iaddrs (inodes s ip) ! NDIRECT = 0
        then andthen (balloc (idev (inodes s ip)) s) (\<lambda>(addr, s1). if addr = 0 then Ok (0, s1) else Ok (addr, set_addr ip NDIRECT addr s1))
        else Ok (iaddrs (inodes s ip) ! NDIRECT, s)) (\<lambda>(ind, s1).
      if ind = 0 then Ok (0, s1)
      else andthen (bread (idev (inodes s1 ip)) ind s1) (\<lambda>(bp, s2). bmap_ind ip (unat bn - NDIRECT) bp s2))"
proof -
  have "\<not> unat bn < NDIRECT" "unat bn - NDIRECT < NINDIRECT" using assms by linarith+
  then show ?thesis unfolding bmap_def bmap_ind_def Let_def by (simp only: if_False if_True)
qed

lemma wp_bmap_new_ind:
  fixes s0 :: "'z fs_scheme"
  defines "k \<equiv> sb s0" and "L \<equiv> log_area (lg_start s0) (lg_size s0)"
  assumes t: "ftx p s0 t C1 P1 Map.empty" and e: "extended k L MAXFILE i C r C1 (inodes t ip)"
    and i: "of_nat i \<in> set P1" "(of_nat i :: uint) \<noteq> 0" "set P \<subseteq> set P1" "length P1 \<le> length P + 2"
    and j: "NDIRECT \<le> j" "j < MAXFILE" "iaddr C r j = 0" "iaddrs r ! NDIRECT = 0" and d: "idev r = ROOTDEV" and rm: "room 5 s0 P 1"
  shows "returns (andthen (bread (idev (inodes t ip)) (iaddrs (inodes t ip) ! NDIRECT) t) (\<lambda>(bp, s2). bmap_ind ip (j - NDIRECT) bp s2))
     (\<lambda>(a, u). \<exists>C' P' r'. ftx p s0 u C' P' Map.empty \<and> inodes u = (inodes t)(ip := r') \<and> mem u = mem t
        \<and> bmapped k L j C P r C' P' r' \<and> a = iaddr C' r' j)"
proof -
  let ?r = "inodes t ip"
  have f1: "ifile k L C1 ?r" using e by (simp add: extended_def)
  have z1: "iaddr C1 ?r j = 0" using extended_iaddr [OF e j(2)] j by simp
  have n1: "iaddrs ?r ! NDIRECT \<noteq> 0" using extended_ind [OF e] i(2) by simp
  have "?r = r\<lparr>iaddrs := iaddrs ?r\<rparr>" using e by (simp add: extended_def enlarged_def)
  then have "idev ?r = idev (r\<lparr>iaddrs := iaddrs ?r\<rparr>)" by (rule arg_cong)
  then have d1: "idev ?r = ROOTDEV" using d by simp
  have r3: "room 3 s0 P1 1" using rm i(4) by (auto simp: room_def)
  show ?thesis unfolding d1
  proof (rule returns_mono [OF wp_new_indirect [OF t f1 [unfolded k_def L_def] r3 j(1,2) z1 refl n1 d1]], clarify)
    fix u C2 P2 r2
    assume u: "ftx p s0 u C2 P2 Map.empty" "inodes u = (inodes t)(ip := r2)" "mem u = mem t"
      and g: "got (sb s0) (log_area (lg_start s0) (lg_size s0)) j C1 P1 ?r C2 P2 r2"
    from got_bmapped [OF f1 j(2) z1 disjI2 [OF n1]] g have "bmapped k L j C1 P1 ?r C2 P2 r2" by (simp add: k_def L_def)
    from bmapped_after_ind [OF e i(2,1,3,4) j(2-4) this]
    show "\<exists>C' P' r'. ftx p s0 u C' P' Map.empty \<and> inodes u = (inodes t)(ip := r') \<and> mem u = mem t
        \<and> bmapped k L j C P r C' P' r' \<and> faddr C2 r2 j = iaddr C' r' j" using u j(2) by (auto simp: faddr_data)
  qed
qed

lemma wp_bmap:
  fixes s0 :: "'z fs_scheme"
  defines "k \<equiv> sb s0" and "L \<equiv> log_area (lg_start s0) (lg_size s0)"
  assumes s: "ftx p s0 s C P Map.empty" and f: "ifile k L C (inodes s ip)" and j: "unat bn < MAXFILE"
    and d: "idev (inodes s ip) = ROOTDEV" 
    and r: "room (ind_cost P (inodes s ip) + (if iaddr C (inodes s ip) (unat bn) = 0 then 3 else 1)) s0 P 1"
  shows "returns (bmap ip bn s) (\<lambda>(a, t). \<exists>C' P' r'. ftx p s0 t C' P' Map.empty \<and> inodes t = (inodes s)(ip := r') \<and> mem t = mem s
        \<and> bmapped k L (unat bn) C P (inodes s ip) C' P' r' \<and> a = iaddr C' r' (unat bn))" (is "returns _ ?Q")
proof (cases "iaddr C (inodes s ip) (unat bn) = 0")
  case False
  let ?r = "inodes s ip"
  have "length P + card (dom (Map.empty :: uint \<rightharpoonup> nat)) < NBUF" using r by (simp add: room_def)
  then show ?thesis
    using wp_bmap_mapped [OF s j d False] bmapped_refl [OF f, of "unat bn" P] False
    by (fastforce elim!: returns_mono intro!: exI [of _ C] exI [of _ P] exI [of _ ?r])
next
  case 0: True
  let ?r = "inodes s ip" and ?j = "unat bn"
  have r0: "room (ind_cost P ?r + 3) s0 P 1" using r 0 by simp
  then have r3: "room 3 s0 P 1" "room 2 s0 P 0" using room_mono [OF r0] by simp_all
  show ?thesis
  proof (cases "?j < NDIRECT")
    case True
    then have z: "iaddrs ?r ! ?j = 0" using 0 by (simp add: iaddr_def)
    have "bmap ip bn s = andthen (balloc ROOTDEV s) (\<lambda>(a, s1). if a = 0 then Ok (0, s1) else Ok (a, set_addr ip ?j a s1))"
      using True z d by (simp add: bmap_def Let_def)
    then show ?thesis
      using wp_new_direct [OF s f [unfolded k_def L_def] r3(2) _ z] got_bmapped [OF f j 0] True
      by (fastforce elim!: returns_mono simp: k_def L_def faddr_def)
  next
    case False
    then have nj: "NDIRECT \<le> ?j" by simp
    show ?thesis
    proof (cases "iaddrs ?r ! NDIRECT = 0")
      case True
      have unf: "bmap ip bn s = andthen (andthen (balloc ROOTDEV s) (\<lambda>(a, s1). if a = 0 then Ok (0, s1) else Ok (a, set_addr ip NDIRECT a s1)))
          (\<lambda>(ind, s1). if ind = 0 then Ok (0, s1)
            else andthen (bread (idev (inodes s1 ip)) ind s1) (\<lambda>(bp, s2). bmap_ind ip (?j - NDIRECT) bp s2))"
        unfolding bmap_unfold [OF nj j] d by (simp only: True if_True simp_thms)
      show ?thesis unfolding unf
      proof (rule returns_andthen [OF wp_new_direct [OF s f [unfolded k_def L_def] r3(2) order_refl True]], clarify)
        fix t C1 P1 r1
        assume t: "ftx p s0 t C1 P1 Map.empty" "inodes t = (inodes s)(ip := r1)" "mem t = mem s"
          and g: "got (sb s0) (log_area (lg_start s0) (lg_size s0)) (if NDIRECT = NDIRECT then MAXFILE else NDIRECT) C P ?r C1 P1 r1"
        let ?a = "faddr C1 r1 (if NDIRECT = NDIRECT then MAXFILE else NDIRECT)"
        have a: "?a = iaddrs r1 ! NDIRECT" and it: "inodes t ip = r1" using t(2) by (simp_all add: faddr_def)
        have g': "got k L MAXFILE C P ?r C1 P1 r1" using g by (simp add: k_def L_def)
        show "returns (if ?a = 0 then Ok (0, t) else andthen (bread (idev (inodes t ip)) ?a t)
            (\<lambda>(bp, s2). bmap_ind ip (?j - NDIRECT) bp s2)) ?Q"
        proof (cases "?a = 0")
          case none: True
          from g' have "C1 = C \<and> P1 = P \<and> r1 = ?r \<and> dev_full k C"
            unfolding got_def using extended_ind none a by fastforce
          then have "bmapped k L ?j C P ?r C1 P1 r1" "iaddr C1 r1 ?j = 0" using bmapped_refl [OF f] 0 by simp_all
          then show ?thesis using none t by (auto intro!: exI [of _ C1] exI [of _ P1] exI [of _ r1])
        next
          case some: False
          from g' obtain i where e: "extended k L MAXFILE i C ?r C1 r1" and i: "of_nat i \<in> set P1" "(of_nat i :: uint) \<noteq> 0"
              "set P \<subseteq> set P1" "length P1 \<le> length P + 2"
            unfolding got_def using some a True by auto
          have r5: "room 5 s0 P 1" using r0 True by (simp add: ind_cost_def)
          from wp_bmap_new_ind [OF t(1) e [folded it, unfolded k_def L_def] i nj j 0 True d r5] show ?thesis
            using some a it t by (simp add: k_def L_def)
        qed
      qed
    next
      case ind: False
      then have "bmap ip bn s = andthen (bread ROOTDEV (iaddrs ?r ! NDIRECT) s) (\<lambda>(bp, s2). bmap_ind ip (?j - NDIRECT) bp s2)"
        using d by (simp add: bmap_unfold [OF nj j])
      then show ?thesis
        using wp_new_indirect [OF s f [unfolded k_def L_def] r3(1) nj j 0 refl ind d] got_bmapped [OF f j 0 disjI2 [OF ind]] j
        by (fastforce elim!: returns_mono simp: k_def L_def faddr_def)
    qed
  qed
qed

end
