(* ===== verification/Writei.thy ===== *)
theory Writei
  imports Inode
begin

text \<open>
  Correctness of \<open>writei\<close> and \<open>iupdate\<close> (\<^verbatim>\<open>kernel/fs.c\<close>): what a write makes of the bytes of a file, of its inode on the disk
  and of the transaction it is part of.
\<close>


section \<open>Writing\<close>

text \<open>The first \<open>m\<close> bytes of \<open>D\<close> have been written to the file from \<open>off\<close> on, and nothing else in it has changed.\<close>

definition wrote ::
  "superblock \<Rightarrow> uint set \<Rightarrow> nat \<Rightarrow> byte list \<Rightarrow> nat \<Rightarrow> (uint \<Rightarrow> block) \<Rightarrow> inode \<Rightarrow> (uint \<Rightarrow> block) \<Rightarrow> inode \<Rightarrow> bool"
where
  "wrote k L off D m C r C' r' \<longleftrightarrow> ifile k L C' r' \<and> enlarged k C r C' r'
     \<and> (\<forall>i. off \<le> i \<and> i < off + m \<longrightarrow> iaddr C' r' (i div BSIZE) \<noteq> 0 \<and> fbyte C' r' i = D ! (i - off))
     \<and> (\<forall>i. i div BSIZE < MAXFILE \<and> iaddr C r (i div BSIZE) \<noteq> 0 \<and> \<not> (off \<le> i \<and> i < off + m) \<longrightarrow> fbyte C' r' i = fbyte C r i)"

lemma wroteD:
  assumes "wrote k L off D m C r C' r'"
  shows "ifile k L C' r'" "enlarged k C r C' r'"
    "off \<le> i \<Longrightarrow> i < off + m \<Longrightarrow> iaddr C' r' (i div BSIZE) \<noteq> 0 \<and> fbyte C' r' i = D ! (i - off)"
    "i div BSIZE < MAXFILE \<Longrightarrow> iaddr C r (i div BSIZE) \<noteq> 0 \<Longrightarrow> \<not> (off \<le> i \<and> i < off + m) \<Longrightarrow> fbyte C' r' i = fbyte C r i"
  using assms unfolding wrote_def by blast+

lemma enlarged_iaddr: "enlarged k C r C' r' \<Longrightarrow> l < MAXFILE \<Longrightarrow> iaddr C r l \<noteq> 0 \<Longrightarrow> iaddr C' r' l = iaddr C r l"
  using enlargedD(2) [of k C r C' r' l] by (simp add: faddr_data)

lemma bmapped_wrote:
  assumes b: "bmapped k L j C P r C' P' r'"
  shows "wrote k L off D 0 C r C' r'"
proof -
  note d = bmappedD [OF b]
  have "fbyte C' r' i = fbyte C r i" if "i div BSIZE < MAXFILE" "iaddr C r (i div BSIZE) \<noteq> 0" for i
    using enlarged_iaddr [OF d(2) that] d(4) [OF that] by (simp add: fbyte_def)
  then show ?thesis unfolding wrote_def using d(1,2) by auto
qed

lemma wrote_trans:
  assumes w: "wrote k L off D m C r C1 r1" "wrote k L (off + m) (drop m D) m' C1 r1 C2 r2"
    and top: "(off + m - 1) div BSIZE < MAXFILE" and D: "m \<le> length D"
  shows "wrote k L off D (m + m') C r C2 r2"
proof -
  note a = wroteD [OF w(1)] and b = wroteD [OF w(2)]
  have "iaddr C2 r2 (i div BSIZE) \<noteq> 0 \<and> fbyte C2 r2 i = D ! (i - off)" if i: "off \<le> i" "i < off + (m + m')" for i
  proof (cases "i < off + m")
    case True
    then have 1: "iaddr C1 r1 (i div BSIZE) \<noteq> 0" "fbyte C1 r1 i = D ! (i - off)" using a(3) [of i] i by simp_all
    have "i div BSIZE \<le> (off + m - 1) div BSIZE" using True by (intro div_le_mono) simp
    then have j: "i div BSIZE < MAXFILE" using top by linarith
    show ?thesis using b(4) [OF j 1(1)] enlarged_iaddr [OF b(2) j 1(1)] 1 True by simp
  next
    case False
    then have "iaddr C2 r2 (i div BSIZE) \<noteq> 0" "fbyte C2 r2 i = drop m D ! (i - (off + m))" using b(3) [of i] i by simp_all
    then show ?thesis using False D i by simp
  qed
  moreover have "fbyte C2 r2 i = fbyte C r i"
    if i: "i div BSIZE < MAXFILE" "iaddr C r (i div BSIZE) \<noteq> 0" "\<not> (off \<le> i \<and> i < off + (m + m'))" for i
  proof -
    have "fbyte C1 r1 i = fbyte C r i" by (rule a(4) [OF i(1,2)]) (use i(3) in auto)
    moreover have "fbyte C2 r2 i = fbyte C1 r1 i" by (rule b(4) [OF i(1)]) (use i enlarged_iaddr [OF a(2) i(1,2)] in auto)
    ultimately show ?thesis by simp
  qed
  ultimately show ?thesis unfolding wrote_def using b(1) enlarged_trans [OF a(2) b(2,1)] by blast
qed


lemma wrote_store:
  assumes f: "ifile k L C r" and j: "off div BSIZE < MAXFILE" and a: "iaddr C r (off div BSIZE) = a" "a \<noteq> 0"
    and m: "off mod BSIZE + m \<le> BSIZE" "m \<le> length D"
  defines "C' \<equiv> C(a := put_bytes (off mod BSIZE) (take m D) (C a))"
  shows "wrote k L off D m C r C' r" "l < MAXFILE \<Longrightarrow> iaddr C' r l = iaddr C r l"
proof -
  let ?j = "off div BSIZE"
  have inj: "l = ?j" if "l < MAXFILE" "iaddr C r l = a" for l
    using ifileD(6) [OF f, of l ?j] that j a by (simp add: faddr_def)
  have "iaddrs r ! NDIRECT \<noteq> a" using ifileD(6) [OF f, of MAXFILE ?j] j a by (auto simp: faddr_def)
  then show addr: "iaddr C' r l = iaddr C r l" for l by (simp add: iaddr_def C'_def)
  then have fa: "faddr C' r = faddr C r" by (simp add: faddr_def fun_eq_iff)
  then have fb: "fblocks C' r = fblocks C r" by (simp add: fblocks_def)
  have ab: "a \<in> fblocks C r" using data_in [OF j, of C r] a by simp
  note ad = ifileD(5) [OF f ab]
  have used: "used k C' b \<longleftrightarrow> used k C b" if "b < nblocks k" for b
    unfolding C'_def by (rule used_other [OF _ that]) (use ad in simp)
  have ca: "length (C n) = BSIZE" for n by (rule ifileD(2) [OF f])
  have len: "length (C' n) = BSIZE" for n using ca m by (simp add: C'_def)
  have map: "map_ok k L C'" using ifileD(3) [OF f] used by (simp add: map_ok_def)
  have "used k C' 0" using used [OF ifileD(7) [OF f]] ifileD(4) [OF f] by simp
  then have "ifile k L C' r"
    using f len map used unfolding ifile_def fb fa by blast
  moreover have "enlarged k C r C' r"
    unfolding enlarged_def fa fb using used ifileD(5) [OF f] ab by (auto simp: C'_def)
  moreover have "iaddr C' r (i div BSIZE) \<noteq> 0 \<and> fbyte C' r i = D ! (i - off)" if "off \<le> i" "i < off + m" for i
  proof -
    define x where "x = i - off"
    have x: "i = off + x" "x < m" using that by (simp_all add: x_def)
    then have lt: "off mod BSIZE + x < BSIZE" using m(1) by linarith
    have "C' a ! (off mod BSIZE + x) = D ! x" using m x(2) ca lt by (simp add: C'_def nth_put_bytes)
    then show ?thesis unfolding fbyte_def addr x(1) in_block [OF lt] a(1) using a(2) by simp
  qed
  moreover have "fbyte C' r i = fbyte C r i" if i: "i div BSIZE < MAXFILE" "\<not> (off \<le> i \<and> i < off + m)" for i
  proof (cases "i div BSIZE = ?j")
    case True
    have "off = ?j * BSIZE + off mod BSIZE" "i = i div BSIZE * BSIZE + i mod BSIZE" by simp_all
    then have "\<not> (off mod BSIZE \<le> i mod BSIZE \<and> i mod BSIZE < off mod BSIZE + m)" using i(2) True by linarith
    then have "C' a ! (i mod BSIZE) = C a ! (i mod BSIZE)" using m ca by (auto simp: C'_def nth_put_bytes)
    then show ?thesis unfolding fbyte_def addr True a(1) .
  next
    case False
    then have "iaddr C r (i div BSIZE) \<noteq> a" using inj [OF i(1)] by blast
    then show ?thesis unfolding fbyte_def addr by (simp add: C'_def)
  qed
  ultimately show "wrote k L off D m C r C' r" unfolding wrote_def by blast
qed


text \<open>A source of the bytes \<open>D\<close>: \<open>src k\<close> is where the bytes from \<open>k\<close> on come from.\<close>

definition gives ::
  "nat \<Rightarrow> uint64 \<Rightarrow> memory \<Rightarrow> (nat \<Rightarrow> source) \<Rightarrow> byte list \<Rightarrow> 'z fs_scheme itself \<Rightarrow> bool"
where
  "gives p pt m0 src D T \<longleftrightarrow> (\<forall>k m. src_add (src k) m = src (k + unat m))
     \<and> (\<forall>k m (t :: 'z fs_scheme). mem t = m0 \<and> calm p t \<and> pagetable (procs t p) = pt \<and> k + m \<le> length D
         \<longrightarrow> either_copyin (src k) m t = Ok (0, take m (drop k D), t))"

lemma givesD:
  fixes t :: "'z fs_scheme"
  assumes "gives p pt m0 src D TYPE('z fs_scheme)"
  shows "src_add (src k) w = src (k + unat w)"
    and "mem t = m0 \<Longrightarrow> calm p t \<Longrightarrow> pagetable (procs t p) = pt \<Longrightarrow> k + m \<le> length D
         \<Longrightarrow> either_copyin (src k) m t = Ok (0, take m (drop k D), t)"
  using assms unfolding gives_def by simp_all

text \<open>What the blocks of a write may add to the transaction.\<close>

definition write_cost :: "(uint \<Rightarrow> block) \<Rightarrow> inode \<Rightarrow> nat \<Rightarrow> nat \<Rightarrow> nat" where
  "write_cost C r off n = (\<Sum>l \<in> (\<lambda>i. i div BSIZE) ` {off..<off + n}. if iaddr C r l = 0 then 2 else 1)"

lemma write_cost_0 [simp]: "write_cost C r off 0 = 0"
  by (simp add: write_cost_def)

lemma rest_blocks:
  assumes "m < n \<longrightarrow> off mod BSIZE + m = BSIZE"
  shows "off div BSIZE \<notin> (\<lambda>i. i div BSIZE) ` {off + m..<off + n}"
proof
  assume "off div BSIZE \<in> (\<lambda>i. i div BSIZE) ` {off + m..<off + n}"
  then obtain i where i: "off + m \<le> i" "i < off + n" "off div BSIZE = i div BSIZE" by auto
  then have "off mod BSIZE + m = BSIZE" using assms by linarith
  then have "off + m = off div BSIZE * BSIZE + BSIZE" using div_mult_mod_eq [of off BSIZE] by linarith
  then have "off div BSIZE + 1 \<le> i div BSIZE" using i(1) by (simp add: less_eq_div_iff_mult_less_eq)
  with i(3) show False by simp
qed

lemma write_cost_split:
  assumes "0 < m" and "m \<le> n" and "off mod BSIZE + m \<le> BSIZE" and "m < n \<longrightarrow> off mod BSIZE + m = BSIZE"
  shows "write_cost C r off n = (if iaddr C r (off div BSIZE) = 0 then 2 else 1) + write_cost C r (off + m) (n - m)"
proof -
  let ?b = "\<lambda>i :: nat. i div BSIZE" and ?c = "\<lambda>l. if iaddr C r l = 0 then 2 else 1 :: nat"
  have img: "?b ` {off..<off + m} = {off div BSIZE}"
  proof
    show "?b ` {off..<off + m} \<subseteq> {off div BSIZE}"
    proof clarify
      fix i
      assume "i \<in> {off..<off + m}"
      then obtain x where x: "i = off + x" "x < m" by (metis atLeastLessThan_iff le_Suc_ex nat_add_left_cancel_less)
      then show "i div BSIZE = off div BSIZE" using in_block(1) [of off x] assms(3) by simp
    qed
    show "{off div BSIZE} \<subseteq> ?b ` {off..<off + m}" using assms(1) by auto
  qed
  have "{off..<off + n} = {off..<off + m} \<union> {off + m..<off + n}" using assms(2) by auto
  then have u: "?b ` {off..<off + n} = {off div BSIZE} \<union> ?b ` {off + m..<off + n}" using img by (simp add: image_Un)
  have "off div BSIZE \<notin> ?b ` {off + m..<off + n}" by (rule rest_blocks [OF assms(4)])
  then have "write_cost C r off n = ?c (off div BSIZE) + sum ?c (?b ` {off + m..<off + n})"
    unfolding write_cost_def u by (subst sum.union_disjoint) auto
  moreover have "off + m + (n - m) = off + n" using assms(2) by simp
  ultimately show ?thesis by (simp only: write_cost_def)
qed

lemma write_cost_cong:
  assumes "\<And>l. l \<in> (\<lambda>i. i div BSIZE) ` {off..<off + n} \<Longrightarrow> iaddr C' r' l = iaddr C r l"
  shows "write_cost C' r' off n = write_cost C r off n"
  unfolding write_cost_def by (rule sum.cong) (use assms in auto)


definition write_post ::
  "nat \<Rightarrow> 'z fs_scheme \<Rightarrow> nat \<Rightarrow> byte list \<Rightarrow> nat \<Rightarrow> (uint \<Rightarrow> block) \<Rightarrow> uint list \<Rightarrow> 'z fs_scheme \<Rightarrow> nat \<Rightarrow> nat \<Rightarrow> 'z fs_scheme \<Rightarrow> bool"
where
  "write_post p s0 off D n C P s ip m t \<longleftrightarrow> (\<exists>C' P' r'. ftx p s0 t C' P' Map.empty \<and> inodes t = (inodes s)(ip := r') \<and> mem t = mem s
     \<and> m \<le> n \<and> wrote (sb s0) (log_area (lg_start s0) (lg_size s0)) off D m C (inodes s ip) C' r'
     \<and> (m < n \<longrightarrow> dev_full (sb s0) C') \<and> set P \<subseteq> set P'
     \<and> length P' + ind_cost P' r' \<le> length P + ind_cost P (inodes s ip) + write_cost C (inodes s ip) off n)"

lemma ind_cost_mono: "set P \<subseteq> set P' \<Longrightarrow> ind_cost P' r \<le> ind_cost P r"
  by (auto simp: ind_cost_def)

text \<open>One round of the loop: the rest of a block, or of the request.\<close>

lemma wp_write_block:
  fixes s0 :: "'z fs_scheme"
  defines "k \<equiv> sb s0" and "L \<equiv> log_area (lg_start s0) (lg_size s0)"
  assumes snk: "gives p (pagetable (procs s0 p)) (mem s) src E TYPE('z fs_scheme)" and x: "x + unat m \<le> length E"
    and s: "ftx p s0 s C P Map.empty" and f: "ifile k L C (inodes s ip)" and d: "idev (inodes s ip) = ROOTDEV"
    and off: "unat off div BSIZE < MAXFILE" "unat off mod BSIZE + unat m \<le> BSIZE"
    and r: "room (ind_cost P (inodes s ip) + (if iaddr C (inodes s ip) (unat off div BSIZE) = 0 then 3 else 2)) s0 P 1"
    and stop: "\<And>C' P' r' t. ftx p s0 t C' P' Map.empty \<Longrightarrow> inodes t = (inodes s)(ip := r') \<Longrightarrow> mem t = mem s \<Longrightarrow>
       bmapped k L (unat off div BSIZE) C P (inodes s ip) C' P' r' \<Longrightarrow> iaddr C' r' (unat off div BSIZE) = 0 \<Longrightarrow> Q (tot, off, t)"
    and go: "\<And>C' P' r' t. ftx p s0 t C' P' Map.empty \<Longrightarrow> inodes t = (inodes s)(ip := r') \<Longrightarrow> mem t = mem s \<Longrightarrow>
       wrote k L (unat off) (drop x E) (unat m) C (inodes s ip) C' r' \<Longrightarrow> set P \<subseteq> set P' \<Longrightarrow>
       (\<And>l. l < MAXFILE \<Longrightarrow> l \<noteq> unat off div BSIZE \<Longrightarrow> iaddr C' r' l = iaddr C (inodes s ip) l) \<Longrightarrow>
       length P' + ind_cost P' r' \<le> length P + ind_cost P (inodes s ip) + (if iaddr C (inodes s ip) (unat off div BSIZE) = 0 then 2 else 1) \<Longrightarrow>
       returns (cont t) Q"
  shows "returns (andthen (bmap ip (off div 1024) s) (\<lambda>(addr, s1).
        if addr = 0 then Ok (tot, off, s1)
        else andthen (bread (idev (inodes s1 ip)) addr s1) (\<lambda>(bp, s2).
          andthen (either_copyin (src x) (unat m) s2) (\<lambda>(r, bs, s3).
          let s4 = set_data bp (put_bytes (unat (off mod 1024)) bs (bdata (bufs s3 bp))) s3 in
          if r = -1 then andthen (brelse bp s4) (\<lambda>s5. Ok (tot, off, s5))
          else andthen (log_write bp s4) (\<lambda>s5.
               andthen (brelse bp s5) (\<lambda>s6. cont s6)))))) Q"
proof -
  let ?j = "unat off div BSIZE" and ?r = "inodes s ip" and ?o = "unat off mod BSIZE"
  have bn: "unat (off div 1024) = ?j" by (simp add: unat_div)
  have r1: "room (ind_cost P ?r + (if iaddr C ?r (unat (off div 1024)) = 0 then 3 else 1)) s0 P 1"
    using room_mono [OF r] by (simp add: bn)
  show ?thesis
  proof (rule returns_andthen [OF wp_bmap [OF s f [unfolded k_def L_def] _ d r1]], unfold bn, rule off(1), clarify)
    fix t C1 P1 r1
    assume t: "ftx p s0 t C1 P1 Map.empty" "inodes t = (inodes s)(ip := r1)" "mem t = mem s"
      and "bmapped (sb s0) (log_area (lg_start s0) (lg_size s0)) ?j C P ?r C1 P1 r1"
    then have b: "bmapped k L ?j C P ?r C1 P1 r1" by (simp add: k_def L_def)
    note bd = bmappedD [OF b]
    let ?a = "iaddr C1 r1 ?j"
    have "idev r1 = idev (?r\<lparr>iaddrs := iaddrs r1\<rparr>)" using enlargedD(1) [OF bd(2)] by (rule arg_cong)
    then have d1: "idev (inodes t ip) = ROOTDEV" using d t(2) by simp
    have more: "returns (andthen (bread ROOTDEV ?a t) (\<lambda>(bp, s2).
          andthen (either_copyin (src x) (unat m) s2) (\<lambda>(r, bs, s3).
          let s4 = set_data bp (put_bytes (unat (off mod 1024)) bs (bdata (bufs s3 bp))) s3 in
          if r = -1 then andthen (brelse bp s4) (\<lambda>s5. Ok (tot, off, s5))
          else andthen (log_write bp s4) (\<lambda>s5. andthen (brelse bp s5) (\<lambda>s6. cont s6))))) Q" if a: "?a \<noteq> 0"
    proof (rule wp_bread_ftx [OF t(1)])
      let ?z = "iaddr C ?r ?j = 0"
      have rm: "room (if ?z then 1 else 2) s0 P1 1" using r bd(8) by (auto simp: room_def split: if_splits)
      show "?a \<in> set P1 \<or> length P1 + card (dom Map.empty) < NBUF" using rm by (auto simp: room_def)
      fix bp u
      assume u: "ftx p s0 u C1 P1 (Map.empty(?a \<mapsto> bp))" "same t u" "bdata (bufs u bp) = C1 ?a"
      let ?bs = "take (unat m) (drop x E)"
      let ?d = "put_bytes ?o ?bs (C1 ?a)"
      have ab: "?a \<in> fblocks C1 r1" by (rule data_in [OF off(1) a])
      have cp: "either_copyin (src x) (unat m) u = Ok (0, ?bs, u)"
        by (rule givesD(2) [OF snk _ ftx_proc [OF u(1)] x]) (use u(2) t(3) in simp)
      have len: "length ?bs = unat m" "length ?d = BSIZE" using x ifileD(2) [OF bd(1)] off(2) by simp_all
      have "unat m \<le> length (drop x E)" using x by simp
      note w = wrote_store [OF bd(1) off(1) refl a off(2) this]
      have "returns (andthen (log_write bp (set_data bp ?d u)) (\<lambda>s5. andthen (brelse bp s5) cont)) Q"
      proof (rule wp_store_then [OF u(1) _ _ _ len(2)])
        show "?a \<notin> log_area (lg_start s0) (lg_size s0)" using ifileD(5) [OF bd(1) ab] by (simp add: L_def)
        show "room 1 s0 P1 0" using room_mono [OF rm] by simp
        fix v
        let ?C2 = "C1(?a := ?d)" and ?P2 = "log_add ?a P1"
        assume v: "ftx p s0 v ?C2 ?P2 ((Map.empty(?a \<mapsto> bp))(?a := None))" "same u v"
        have v1: "ftx p s0 v ?C2 ?P2 Map.empty" using v(1) by simp
        have v2: "inodes v = (inodes s)(ip := r1)" "mem v = mem s" using v(2) u(2) t by simp_all
        have wr: "wrote k L (unat off) (drop x E) (unat m) C ?r ?C2 r1"
        proof -
          have "(unat off + 0 - 1) div BSIZE \<le> ?j" by (intro div_le_mono) simp
          then have "(unat off + 0 - 1) div BSIZE < MAXFILE" using off(1) by linarith
          from wrote_trans [OF bmapped_wrote [OF b, of "unat off" "drop x E"] _ this] w(1) show ?thesis by simp
        qed
        have ic: "ind_cost ?P2 r1 \<le> ind_cost P1 r1" by (rule ind_cost_mono) auto
        have "length ?P2 + ind_cost ?P2 r1 \<le> length P + ind_cost P ?r + (if ?z then 2 else 1)"
          using bd(5) [OF _ a] bd(8) ic by (auto simp: log_add_def split: if_splits)
        then show "returns (cont v) Q"
          by (intro go [OF v1 v2 wr]) (use bd(3,7) w(2) in auto)
      qed simp
      then show "returns (andthen (either_copyin (src x) (unat m) u) (\<lambda>(r, bs, s3).
          let s4 = set_data bp (put_bytes (unat (off mod 1024)) bs (bdata (bufs s3 bp))) s3 in
          if r = -1 then andthen (brelse bp s4) (\<lambda>s5. Ok (tot, off, s5))
          else andthen (log_write bp s4) (\<lambda>s5. andthen (brelse bp s5) (\<lambda>s6. cont s6)))) Q"
        by (simp add: cp Let_def u(3) off_mod)
    qed simp
    show "returns (if ?a = 0 then Ok (tot, off, t)
        else andthen (bread (idev (inodes t ip)) ?a t) (\<lambda>(bp, s2).
          andthen (either_copyin (src x) (unat m) s2) (\<lambda>(r, bs, s3).
          let s4 = set_data bp (put_bytes (unat (off mod 1024)) bs (bdata (bufs s3 bp))) s3 in
          if r = -1 then andthen (brelse bp s4) (\<lambda>s5. Ok (tot, off, s5))
          else andthen (log_write bp s4) (\<lambda>s5. andthen (brelse bp s5) (\<lambda>s6. cont s6))))) Q"
      using stop [OF t b] more unfolding d1 by (cases "?a = 0") simp_all
  qed
qed


lemma wrote_refl: "ifile k L C r \<Longrightarrow> wrote k L off D 0 C r C r"
  using enlarged_refl by (auto simp: wrote_def)

lemma write_post_0:
  assumes "ftx p s0 s C P Map.empty" and "ifile (sb s0) (log_area (lg_start s0) (lg_size s0)) C (inodes s ip)"
  shows "write_post p s0 off D 0 C P s ip 0 s"
  unfolding write_post_def
  by (rule exI [of _ C], rule exI [of _ P], rule exI [of _ "inodes s ip"]) (use assms(1) wrote_refl [OF assms(2)] in simp)

lemma write_post_stop:
  assumes t: "ftx p s0 t C' P' Map.empty" "inodes t = (inodes s)(ip := r')" "mem t = mem s"
    and b: "bmapped (sb s0) (log_area (lg_start s0) (lg_size s0)) j C P (inodes s ip) C' P' r'" and j: "iaddr C' r' j = 0" "j < MAXFILE"
    and c: "2 \<le> write_cost C (inodes s ip) off n"
  shows "write_post p s0 off D n C P s ip 0 t"
proof -
  note d = bmappedD [OF b]
  show ?thesis unfolding write_post_def
    by (rule exI [of _ C'], rule exI [of _ P'], rule exI [of _ r'])
      (use t bmapped_wrote [OF b, of off D] d(6) [OF j(1)] d(7,8) c in \<open>simp split: if_splits\<close>)
qed

lemma write_post_cons:
  fixes s0 :: "'z fs_scheme"
  defines "k \<equiv> sb s0" and "L \<equiv> log_area (lg_start s0) (lg_size s0)"
  assumes w: "wrote k L off D m C (inodes s ip) C1 r1" and top: "(off + m - 1) div BSIZE < MAXFILE" "m \<le> length D" "m \<le> n"
    and t: "inodes t = (inodes s)(ip := r1)" "mem t = mem s" and P: "set P \<subseteq> set P1"
    and c: "length P1 + ind_cost P1 r1 + write_cost C1 r1 (off + m) (n - m) \<le> length P + ind_cost P (inodes s ip) + write_cost C (inodes s ip) off n"
    and r: "write_post p s0 (off + m) (drop m D) (n - m) C1 P1 t ip m' u"
  shows "write_post p s0 off D n C P s ip (m + m') u"
proof -
  obtain C' P' r' where u: "ftx p s0 u C' P' Map.empty" "inodes u = (inodes t)(ip := r')" "mem u = mem t" "m' \<le> n - m"
     "wrote k L (off + m) (drop m D) m' C1 r1 C' r'" "m' < n - m \<longrightarrow> dev_full k C'" "set P1 \<subseteq> set P'"
     "length P' + ind_cost P' r' \<le> length P1 + ind_cost P1 r1 + write_cost C1 r1 (off + m) (n - m)"
    using r t(1) unfolding write_post_def k_def L_def by auto
  have "wrote k L off D (m + m') C (inodes s ip) C' r'" by (rule wrote_trans [OF w u(5) top(1,2)])
  then show ?thesis unfolding write_post_def k_def L_def
    by (intro exI [of _ C'] exI [of _ P'] exI [of _ r']) (use u t P c top(3) in \<open>auto simp: k_def\<close>)
qed

lemma write_cost_rest:
  assumes "m \<le> n" and "m < n \<longrightarrow> off mod BSIZE + m = BSIZE" and "off + n \<le> MAXFILE * BSIZE"
    and a: "\<And>l. l < MAXFILE \<Longrightarrow> l \<noteq> off div BSIZE \<Longrightarrow> iaddr C' r' l = iaddr C r l"
  shows "write_cost C' r' (off + m) (n - m) = write_cost C r (off + m) (n - m)"
proof (rule write_cost_cong, rule a)
  fix l
  assume l: "l \<in> (\<lambda>i. i div BSIZE) ` {off + m..<off + m + (n - m)}"
  have top: "off + m + (n - m) = off + n" using assms(1) by simp
  show "l \<noteq> off div BSIZE" using l rest_blocks [OF assms(2)] unfolding top by metis
  show "l < MAXFILE" using l assms(3) unfolding top by (auto simp: less_mult_imp_div_less)
qed


lemma wp_writei_loop:
  fixes s0 :: "'z fs_scheme"
  assumes snk: "gives p (pagetable (procs s0 p)) m0 src E TYPE('z fs_scheme)" "length E = unat n"
    and fit: "base + unat n \<le> MAXFILE * BSIZE"
    and "ftx p s0 s C P Map.empty" and "ifile (sb s0) (log_area (lg_start s0) (lg_size s0)) C (inodes s ip)"
    and "idev (inodes s ip) = ROOTDEV" and "mem s = m0" and "tot \<le> n" and "unat off = base + unat tot"
    and "room (ind_cost P (inodes s ip) + write_cost C (inodes s ip) (unat off) (unat n - unat tot) + 1) s0 P 1"
  shows "returns (writei_loop ip (src (unat tot)) off tot n s) (\<lambda>(tot', off', t). tot \<le> tot' \<and> unat off' = base + unat tot'
     \<and> write_post p s0 (unat off) (drop (unat tot) E) (unat n - unat tot) C P s ip (unat tot' - unat tot) t)"
  using assms(4-10)
proof (induction "unat n - unat tot" arbitrary: tot off s C P rule: less_induct)
  case less
  note s = less.prems
  let ?k = "sb s0" and ?L = "log_area (lg_start s0) (lg_size s0)" and ?r = "inodes s ip"
  show ?case
  proof (cases "tot < n")
    case False
    then have "tot = n" using s(5) by simp
    then show ?thesis using s(6) write_post_0 [OF s(1,2)] by (subst writei_loop.simps) simp
  next
    case True
    let ?m = "piece (n - tot) off" and ?j = "unat off div BSIZE" and ?rem = "unat n - unat tot"
    note m = piece_add [OF True, of off]
    note nx = piece_next [OF True s(6) fit]
    note j = nx(4)
    have fin: "unat ?m < ?rem \<longrightarrow> unat off mod BSIZE + unat ?m = BSIZE"
    proof -
      have "unat (n - tot) = unat n - unat tot" using True by (intro unat_sub) simp
      then show ?thesis by (simp add: unat_piece)
    qed
    have cost: "write_cost C ?r (unat off) ?rem = (if iaddr C ?r ?j = 0 then 2 else 1) + write_cost C ?r (unat off + unat ?m) (?rem - unat ?m)"
      by (rule write_cost_split [OF _ _ _ fin]) (use m in auto)
    have rm: "room (ind_cost P ?r + (if iaddr C ?r ?j = 0 then 3 else 2)) s0 P 1"
      by (rule room_mono [OF s(7)]) (simp_all add: cost)
    have src: "src_add (src (unat tot)) ?m = src (unat (tot + ?m))" using givesD(1) [OF snk(1)] m(1) by simp
    let ?Q = "\<lambda>(tot', off', t). tot \<le> tot' \<and> unat off' = base + unat tot'
     \<and> write_post p s0 (unat off) (drop (unat tot) E) ?rem C P s ip (unat tot' - unat tot) t"
    show ?thesis
    proof (subst writei_loop.simps, simp only: True if_True Let_def src, rule wp_write_block [OF snk(1) [folded s(4)] _ s(1-3) j _ rm, unfolded Let_def])
      show "unat tot + unat ?m \<le> length E" "unat off mod BSIZE + unat ?m \<le> BSIZE" using m(2,4) snk(2) by simp_all
    next
      fix C' P' r' t
      assume t: "ftx p s0 t C' P' Map.empty" "inodes t = (inodes s)(ip := r')" "mem t = mem s"
        and b: "bmapped ?k ?L ?j C P ?r C' P' r'" and z: "iaddr C' r' ?j = 0"
      have "iaddr C ?r ?j = 0" using enlarged_iaddr [OF bmappedD(2) [OF b] j] z by auto
      then have "2 \<le> write_cost C ?r (unat off) ?rem" using cost by simp
      from write_post_stop [OF t b z j this] show "?Q (tot, off, t)" using s(6) by simp
    next
      fix C1 P1 r1 t
      assume t: "ftx p s0 t C1 P1 Map.empty" "inodes t = (inodes s)(ip := r1)" "mem t = mem s"
        and w: "wrote ?k ?L (unat off) (drop (unat tot) E) (unat ?m) C ?r C1 r1" and P: "set P \<subseteq> set P1"
        and a: "\<And>l. l < MAXFILE \<Longrightarrow> l \<noteq> ?j \<Longrightarrow> iaddr C1 r1 l = iaddr C ?r l"
        and c: "length P1 + ind_cost P1 r1 \<le> length P + ind_cost P ?r + (if iaddr C ?r ?j = 0 then 2 else 1)"
      have rem: "?rem - unat ?m = unat n - unat (tot + ?m)" using m(1) by simp
      have fit': "unat off + ?rem \<le> MAXFILE * BSIZE" "unat ?m \<le> ?rem" using fit s(6) m(2) by simp_all
      have same: "write_cost C1 r1 (unat off + unat ?m) (?rem - unat ?m) = write_cost C ?r (unat off + unat ?m) (?rem - unat ?m)"
        by (rule write_cost_rest [OF fit'(2) fin fit'(1) a])
      have total: "length P1 + ind_cost P1 r1 + write_cost C1 r1 (unat off + unat ?m) (?rem - unat ?m)
          \<le> length P + ind_cost P ?r + write_cost C ?r (unat off) ?rem"
        unfolding same cost using c by simp
      have rm1: "room (ind_cost P1 (inodes t ip) + write_cost C1 (inodes t ip) (unat (off + ?m)) (unat n - unat (tot + ?m)) + 1) s0 P1 1"
        using s(7) total t(2) unfolding nx(1) rem [symmetric] by (auto simp: room_def)
      have f1: "ifile ?k ?L C1 (inodes t ip)" using wroteD(1) [OF w] t(2) by simp
      have "idev r1 = idev (?r\<lparr>iaddrs := iaddrs r1\<rparr>)" using enlargedD(1) [OF wroteD(2) [OF w]] by (rule arg_cong)
      then have d1: "idev (inodes t ip) = ROOTDEV" using s(3) t(2) by simp
      have mt: "mem t = m0" using t(3) s(4) by simp
      show "returns (writei_loop ip (src (unat (tot + ?m))) (off + ?m) (tot + ?m) n t) ?Q"
      proof (rule returns_mono [OF less.hyps [OF nx(3) t(1) f1 d1 mt nx(2,5) rm1]], clarify)
        fix tot' off' u
        assume u: "tot + ?m \<le> tot'" "unat off' = base + unat tot'" "write_post p s0 (unat (off + ?m)) (drop (unat (tot + ?m)) E)
            (unat n - unat (tot + ?m)) C1 P1 t ip (unat tot' - unat (tot + ?m)) u"
        have le: "unat tot + unat ?m \<le> unat tot'" using u(1) m(1) by (simp add: word_le_nat_alt)
        have "unat off + unat ?m - 1 < MAXFILE * BSIZE" using fit s(6) m(2,3) by simp
        then have top: "(unat off + unat ?m - 1) div BSIZE < MAXFILE" by (simp add: less_mult_imp_div_less)
        have mD: "unat ?m \<le> length (drop (unat tot) E)" using m(2) snk(2) by simp
        have mr: "unat ?m \<le> ?rem" using m(2) by linarith
        have "drop (unat (tot + ?m)) E = drop (unat ?m) (drop (unat tot) E)" using m(1) by (simp add: add.commute)
        then have u3: "write_post p s0 (unat off + unat ?m) (drop (unat ?m) (drop (unat tot) E)) (?rem - unat ?m) C1 P1 t ip
            (unat tot' - unat (tot + ?m)) u" using u(3) nx(1) rem by simp
        have "write_post p s0 (unat off) (drop (unat tot) E) ?rem C P s ip (unat ?m + (unat tot' - unat (tot + ?m))) u"
          by (rule write_post_cons [OF w top mD mr t(2,3) P total u3])
        moreover have "unat ?m + (unat tot' - unat (tot + ?m)) = unat tot' - unat tot" using le m(1) by simp
        moreover have "tot \<le> tot'" using le by (simp add: word_le_nat_alt)
        ultimately show "tot \<le> tot' \<and> unat off' = base + unat tot'
            \<and> write_post p s0 (unat off) (drop (unat tot) E) ?rem C P s ip (unat tot' - unat tot) u" using u(2) by simp
      qed
    qed
  qed
qed


section \<open>Inodes on the disk\<close>

lemma put32s:
  assumes "off + 4 * k \<le> length bs"
  shows "length (fold (\<lambda>i. put32 (off + 4 * i) (f i)) [0..<k] bs) = length bs
    \<and> (\<forall>i < k. get32 (off + 4 * i) (fold (\<lambda>i. put32 (off + 4 * i) (f i)) [0..<k] bs) = f i)
    \<and> (\<forall>q n. q + n \<le> off \<or> off + 4 * k \<le> q \<longrightarrow> get_bytes q n (fold (\<lambda>i. put32 (off + 4 * i) (f i)) [0..<k] bs) = get_bytes q n bs)"
  using assms
proof (induction k)
  case (Suc k)
  then show ?case by (auto simp: less_Suc_eq get32_put32_other) (auto simp: put32_def get_put_bytes_other)
qed simp

lemma get16_other: "get_bytes q 2 cs = get_bytes q 2 bs \<Longrightarrow> get16 q cs = get16 q bs"
  by (simp add: get16_def)

lemma get32_other: "get_bytes q 4 cs = get_bytes q 4 bs \<Longrightarrow> get32 q cs = get32 q bs"
  by (simp add: get32_def)

lemma dinode_put:
  assumes "off + 64 \<le> length bs"
  shows "length (dinode_put off d bs) = length bs"
    and "length (d_addrs d) = NDIRECT + 1 \<Longrightarrow> dinode_get off (dinode_put off d bs) = d"
    and "q + n \<le> off \<or> off + 64 \<le> q \<Longrightarrow> get_bytes q n (dinode_put off d bs) = get_bytes q n bs"
proof -
  let ?h = "put32 (off + 8) (d_size d) (put16 (off + 6) (d_nlink d) (put16 (off + 4) (d_minor d)
         (put16 (off + 2) (d_major d) (put16 off (d_type d) bs))))"
  have len: "length ?h = length bs" using assms by simp
  have "off + 12 + 4 * (NDIRECT + 1) \<le> length ?h" using assms len by simp
  note p = put32s [OF this, of "\<lambda>i. d_addrs d ! i", folded dinode_put_def]
  show "length (dinode_put off d bs) = length bs" using p len by simp
  show "get_bytes q n (dinode_put off d bs) = get_bytes q n bs" if "q + n \<le> off \<or> off + 64 \<le> q"
  proof -
    have "get_bytes q n (dinode_put off d bs) = get_bytes q n ?h" using p that by auto
    also have "\<dots> = get_bytes q n bs"
      using that assms by (auto simp: put32_def put16_def get_put_bytes_other)
    finally show ?thesis .
  qed
  assume a: "length (d_addrs d) = NDIRECT + 1"
  have h: "get_bytes q n (dinode_put off d bs) = get_bytes q n ?h" if "q + n \<le> off + 12" for q n using p that by blast
  have "get16 off (dinode_put off d bs) = d_type d" "get16 (off + 2) (dinode_put off d bs) = d_major d"
    "get16 (off + 4) (dinode_put off d bs) = d_minor d" "get16 (off + 6) (dinode_put off d bs) = d_nlink d"
    "get32 (off + 8) (dinode_put off d bs) = d_size d"
    unfolding get16_def get32_def using assms
    by (simp_all add: h put32_def put16_def get_put_bytes_other get_put_bytes_same of_le_le_bytes)
  moreover have "map (\<lambda>i. get32 (off + 12 + 4 * i) (dinode_put off d bs)) [0..<NDIRECT + 1] = d_addrs d"
    using p a by (intro nth_equalityI) auto
  ultimately show "dinode_get off (dinode_put off d bs) = d" by (simp add: dinode_get_def)
qed


definition dino :: "superblock \<Rightarrow> (uint \<Rightarrow> block) \<Rightarrow> uint \<Rightarrow> dinode" where
  "dino k C i = dinode_get (ioff i) (C (IBLOCK i k))"

lemma ioff_le: "ioff i + 64 \<le> BSIZE"
proof -
  have "unat i mod IPB \<le> 15" by (simp add: less_Suc_eq_le [symmetric])
  then show ?thesis by (simp add: ioff_def)
qed

lemma wp_iupdate:
  fixes s0 :: "'z fs_scheme"
  assumes s: "ftx p s0 s C P Map.empty" and d: "idev (inodes s ip) = ROOTDEV"
    and n: "IBLOCK (inum (inodes s ip)) (sb s0) = n" "n \<notin> log_area (lg_start s0) (lg_size s0)" and r: "room 1 s0 P 0"
  shows "returns (iupdate ip s) (\<lambda>t. ftx p s0 t (C(n := dinode_put (ioff (inum (inodes s ip))) (dinode_of (inodes s ip)) (C n)))
     (log_add n P) Map.empty \<and> same s t)"
  unfolding iupdate_def d ftxD(4) [OF s] n(1) Let_def
proof (rule wp_bread_ftx [OF s])
  show "n \<in> set P \<or> length P + card (dom Map.empty) < NBUF" using r by (simp add: room_def)
  fix b t
  assume t: "ftx p s0 t C P (Map.empty(n \<mapsto> b))" "same s t" "bdata (bufs t b) = C n"
  have len: "length (dinode_put (ioff (inum (inodes s ip))) (dinode_of (inodes s ip)) (C n)) = BSIZE"
    using dinode_put(1) [of "ioff (inum (inodes s ip))" "C n"] ftxD(6) [OF s, of n] ioff_le by simp
  show "returns (andthen (log_write b (set_data b (dinode_put (ioff (inum (inodes t ip))) (dinode_of (inodes t ip)) (bdata (bufs t b))) t))
      (brelse b)) (\<lambda>t. ftx p s0 t (C(n := dinode_put (ioff (inum (inodes s ip))) (dinode_of (inodes s ip)) (C n))) (log_add n P) Map.empty
       \<and> same s t)"
    unfolding t(2) [THEN conjunct1] t(3)
    by (rule wp_store [OF t(1) _ n(2) r len]) (use t(2) in simp_all)
qed simp

lemma dino_upd:
  assumes "length (C (IBLOCK i k)) = BSIZE" and "length (d_addrs d) = NDIRECT + 1"
  defines "C' \<equiv> C(IBLOCK i k := dinode_put (ioff i) d (C (IBLOCK i k)))"
  shows "dino k C' i = d" "unat j mod IPB \<noteq> unat i mod IPB \<Longrightarrow> dino k C' j = dino k C j"
proof -
  have "ioff i + 64 \<le> length (C (IBLOCK i k))" using assms(1) ioff_le by simp
  note p = dinode_put [where d = d, OF this]
  show "dino k C' i = d" using p(2) assms(2) by (simp add: dino_def C'_def)
  assume ne: "unat j mod IPB \<noteq> unat i mod IPB"
  have "ioff j + 64 \<le> ioff i \<or> ioff i + 64 \<le> ioff j" using ne by (auto simp: ioff_def)
  then have g: "get_bytes q n (dinode_put (ioff i) d (C (IBLOCK i k))) = get_bytes q n (C (IBLOCK i k))"
    if "ioff j \<le> q" "q + n \<le> ioff j + 64" for q n by (intro p(3)) (use that in auto)
  then have "dinode_get (ioff j) (dinode_put (ioff i) d (C (IBLOCK i k))) = dinode_get (ioff j) (C (IBLOCK i k))"
    by (simp add: dinode_get_def get16_def get32_def)
  then show "dino k C' j = dino k C j" by (simp add: dino_def C'_def)
qed

lemma ifile_other:
  assumes f: "ifile k L C r" and n: "n \<notin> fblocks C r" "n \<notin> bitmap k" and len: "length d = BSIZE"
  shows "ifile k L (C(n := d)) r" "faddr (C(n := d)) r = faddr C r" "iaddr (C(n := d)) r = iaddr C r"
    "i div BSIZE < MAXFILE \<Longrightarrow> iaddr C r (i div BSIZE) \<noteq> 0 \<Longrightarrow> fbyte (C(n := d)) r i = fbyte C r i"
proof -
  have "iaddrs r ! NDIRECT \<noteq> n" if "iaddrs r ! NDIRECT \<noteq> 0" using ind_block [OF that, of C] n by auto
  then show ia: "iaddr (C(n := d)) r = iaddr C r" by (auto simp: iaddr_def fun_eq_iff)
  then show fa: "faddr (C(n := d)) r = faddr C r" by (simp add: faddr_def fun_eq_iff)
  then have fb: "fblocks (C(n := d)) r = fblocks C r" by (simp add: fblocks_def)
  have used: "used k (C(n := d)) b = used k C b" if "b < nblocks k" for b using used_other [OF n(2) that] .
  have "map_ok k L (C(n := d))" using ifileD(3) [OF f] used by (simp add: map_ok_def)
  moreover have "used k (C(n := d)) 0" using used [OF ifileD(7) [OF f]] ifileD(4) [OF f] by simp
  ultimately show "ifile k L (C(n := d)) r"
    using f len used unfolding ifile_def fb fa by auto
  assume "i div BSIZE < MAXFILE" "iaddr C r (i div BSIZE) \<noteq> 0"
  then have "iaddr C r (i div BSIZE) \<noteq> n" using data_in n(1) by auto
  then show "fbyte (C(n := d)) r i = fbyte C r i" by (simp add: fbyte_def ia)
qed


lemma write_cost_le:
  assumes m: "\<And>j. j * BSIZE < sz \<Longrightarrow> iaddr C r j \<noteq> 0" and off: "off \<le> sz" and n: "n \<le> 3 * BSIZE"
  shows "write_cost C r off n \<le> 7"
proof -
  let ?j = "off div BSIZE" and ?c = "\<lambda>l. if iaddr C r l = 0 then 2 else 1 :: nat" and ?B = "(\<lambda>i. i div BSIZE) ` {off..<off + n}"
  have o: "off = ?j * BSIZE + off mod BSIZE" "off mod BSIZE < BSIZE" by simp_all
  show ?thesis
  proof (cases "off mod BSIZE = 0")
    case True
    have "?B \<subseteq> {?j..<?j + 3}"
    proof clarify
      fix i
      assume "i \<in> {off..<off + n}"
      then have i: "?j * BSIZE \<le> i" "i < (?j + 3) * BSIZE" using o(1) True n by (simp_all add: add_mult_distrib)
      then show "i div BSIZE \<in> {?j..<?j + 3}" by (simp add: less_mult_imp_div_less less_eq_div_iff_mult_less_eq)
    qed
    then have "write_cost C r off n \<le> sum ?c {?j..<?j + 3}" unfolding write_cost_def by (intro sum_mono2) auto
    also have "\<dots> \<le> (\<Sum>l \<in> {?j..<?j + 3}. 2)" by (intro sum_mono) simp
    finally show ?thesis by simp
  next
    case False
    have "?B \<subseteq> insert ?j {?j + 1..<?j + 4}"
    proof clarify
      fix i
      assume i: "i \<in> {off..<off + n}" "i div BSIZE \<notin> {?j + 1..<?j + 4}"
      then have "off \<le> i" "i < off + n" by simp_all
      then have "?j * BSIZE \<le> i" "i < ?j * BSIZE + 4 * BSIZE" using o n by linarith+
      then have "?j \<le> i div BSIZE" "i div BSIZE < ?j + 4" by (simp_all add: less_mult_imp_div_less less_eq_div_iff_mult_less_eq)
      with i(2) show "i div BSIZE = ?j" by simp
    qed
    then have "write_cost C r off n \<le> sum ?c (insert ?j {?j + 1..<?j + 4})" unfolding write_cost_def by (intro sum_mono2) auto
    also have "\<dots> = ?c ?j + sum ?c {?j + 1..<?j + 4}" by (intro sum.insert) auto
    also have "?c ?j = 1" using m [of ?j] o False off by auto
    also have "sum ?c {?j + 1..<?j + 4} \<le> (\<Sum>l \<in> {?j + 1..<?j + 4}. 2)" by (intro sum_mono) simp
    finally show ?thesis by simp
  qed
qed

lemma ind_cost_le: "ind_cost P r \<le> 2"
  by (simp add: ind_cost_def)

lemma either_copyin_calm:
  "calm p s \<Longrightarrow> either_copyin src n s =
     (case src of UserSrc a \<Rightarrow> copyin (pagetable (procs s p)) a n s | KernSrc a \<Rightarrow> Ok (0, read_bytes (mem s) a n, s)
      | LocalSrc bs \<Rightarrow> Ok (0, take n bs, s))"
  by (auto simp: either_copyin_def calm_def myproc_ok split: source.splits)

lemma gives_local: "gives p pt m0 (\<lambda>k. LocalSrc (drop k D)) D TYPE('z fs_scheme)"
  unfolding gives_def by (auto simp: either_copyin_calm src_add_def add.commute)

lemma gives_user:
  assumes "\<forall>i < n. user_page m0 pt (a + of_nat i) \<noteq> None"
  shows "gives p pt m0 (\<lambda>k. UserSrc (a + of_nat k)) (user_bytes m0 pt a n) TYPE('z fs_scheme)"
  unfolding gives_def
proof (intro conjI allI impI)
  fix k w
  show "src_add (UserSrc (a + of_nat k)) w = UserSrc (a + of_nat (k + unat w))" by (simp add: src_add_def)
next
  fix k m and t :: "'z fs_scheme"
  assume "mem t = m0 \<and> calm p t \<and> pagetable (procs t p) = pt \<and> k + m \<le> length (user_bytes m0 pt a n)"
  then have t: "mem t = m0" "calm p t" "pagetable (procs t p) = pt" "k + m \<le> n" by simp_all
  have "user_page m0 pt (a + of_nat k + of_nat i) \<noteq> None" if "i < m" for i
  proof -
    have "k + i < n" using that t(4) by simp
    then have "user_page m0 pt (a + of_nat (k + i)) \<noteq> None" using assms by blast
    then show ?thesis by (simp add: add.assoc)
  qed
  then obtain bs where "copyin pt (a + of_nat k) m t = Ok (0, bs, t)" "bs = user_bytes m0 pt (a + of_nat k) m"
    using copyin_spec [of pt "a + of_nat k" m t] t(1) by auto
  moreover have "user_bytes m0 pt (a + of_nat k) m = take m (drop k (user_bytes m0 pt a n))"
    using t(4) by (intro nth_equalityI) (auto simp: user_bytes_def add.assoc)
  ultimately show "either_copyin (UserSrc (a + of_nat k)) m t = Ok (0, take m (drop k (user_bytes m0 pt a n)), t)"
    using t by (simp add: either_copyin_calm)
qed


text \<open>
  An inode of the table that may be written: its file is well formed and has no holes, and the inode itself
  lives in a block outside the log, the bitmap and the file.
\<close>

definition inode_ok :: "'z fs_scheme \<Rightarrow> nat \<Rightarrow> bool" where
  "inode_ok s ip \<longleftrightarrow> (let k = sb s; L = log_area (lg_start s) (lg_size s); C = content s; r = inodes s ip; n = IBLOCK (inum r) k in
     ifile k L C r \<and> no_holes C r \<and> n \<notin> L \<and> n \<notin> bitmap k \<and> n \<notin> fblocks C r \<and> unat n < nblocks k \<and> used k C (unat n))"

abbreviation file_of :: "(uint \<Rightarrow> block) \<Rightarrow> inode \<Rightarrow> byte list" where
  "file_of C r \<equiv> file_bytes C r 0 (unat (isize r))"

lemma iaddr_size [simp]: "iaddr C (r\<lparr>isize := z\<rparr>) = iaddr C r" "faddr C (r\<lparr>isize := z\<rparr>) = faddr C r"
  "fbyte C (r\<lparr>isize := z\<rparr>) = fbyte C r" "fblocks C (r\<lparr>isize := z\<rparr>) = fblocks C r"
  "ifile k L C (r\<lparr>isize := z\<rparr>) = ifile k L C r"
  by (simp_all add: iaddr_def faddr_def fbyte_def fblocks_def ifile_def fun_eq_iff)

text \<open>The file after a write of \<open>x\<close> bytes, with the new size.\<close>

lemma wrote_file:
  assumes w: "wrote k L off D x C r C' r'" and h: "no_holes C r" and x: "x \<le> length D" and off: "off \<le> unat (isize r)"
    and fit: "off + x \<le> MAXFILE * BSIZE"
  defines "sz \<equiv> max (unat (isize r)) (off + x)"
  shows "file_bytes C' r' 0 sz = take off (file_of C r) @ take x D @ drop (off + x) (file_of C r)"
    "j * BSIZE < sz \<Longrightarrow> iaddr C' r' j \<noteq> 0"
proof -
  note d = wroteD [OF w]
  have size: "unat (isize r) \<le> MAXFILE * BSIZE" and map: "j * BSIZE < unat (isize r) \<Longrightarrow> iaddr C r j \<noteq> 0" for j
    using h by (simp_all add: no_holes_def)
  have blk: "i div BSIZE < MAXFILE" "iaddr C r (i div BSIZE) \<noteq> 0" if "i < unat (isize r)" for i
  proof -
    show "i div BSIZE < MAXFILE" using that size by (simp add: less_mult_imp_div_less)
    have "i div BSIZE * BSIZE \<le> i" by simp
    then show "iaddr C r (i div BSIZE) \<noteq> 0" using that by (intro map) linarith
  qed
  show "file_bytes C' r' 0 sz = take off (file_of C r) @ take x D @ drop (off + x) (file_of C r)"
  proof (rule nth_equalityI)
    show "length (file_bytes C' r' 0 sz) = length (take off (file_of C r) @ take x D @ drop (off + x) (file_of C r))"
      using x off by (simp add: sz_def)
    fix i
    assume "i < length (file_bytes C' r' 0 sz)"
    then have i: "i < sz" by simp
    then have b: "file_bytes C' r' 0 sz ! i = fbyte C' r' i" by (simp add: file_bytes_def)
    have old: "file_of C r ! i = fbyte C r i" if "i < unat (isize r)" using that by (simp add: file_bytes_def)
    consider "i < off" | "off \<le> i" "i < off + x" | "off + x \<le> i" by linarith
    then show "file_bytes C' r' 0 sz ! i = (take off (file_of C r) @ take x D @ drop (off + x) (file_of C r)) ! i"
    proof cases
      case 1
      then show ?thesis using b old off d(4) [OF blk] by (simp add: nth_append)
    next
      case 2
      then have "i - off < x" by linarith
      with 2 show ?thesis using b off x d(3) [of i] by (simp add: nth_append)
    next
      case 3
      then have lt: "i < unat (isize r)" using i by (simp add: sz_def)
      have "drop (off + x) (file_of C r) ! (i - (off + x)) = file_of C r ! i" using 3 lt by simp
      moreover have "fbyte C' r' i = fbyte C r i" by (rule d(4) [OF blk [OF lt]]) (use 3 in simp)
      moreover have "(take off (file_of C r) @ take x D @ drop (off + x) (file_of C r)) ! i = drop (off + x) (file_of C r) ! (i - (off + x))"
      proof -
        have "\<not> i - off < x" "i - off - x = i - (off + x)" using 3 by linarith+
        with 3 x off show ?thesis by (simp add: nth_append)
      qed
      ultimately show ?thesis using b old [OF lt] by simp
    qed
  qed
  assume j: "j * BSIZE < sz"
  show "iaddr C' r' j \<noteq> 0"
  proof (cases "j * BSIZE < unat (isize r)")
    case True
    then have "j < MAXFILE" using size by simp
    then show ?thesis using enlarged_iaddr [OF d(2) _ map [OF True]] map [OF True] by simp
  next
    case False
    then have "off \<le> j * BSIZE" "j * BSIZE < off + x" using j off by (simp_all add: sz_def split: if_splits)
    then show ?thesis using d(3) [of "j * BSIZE"] by simp
  qed
qed


lemma writei_unfold:
  assumes "off \<le> isize (inodes s ip)" and "unat off + unat n \<le> MAXFILE * BSIZE"
  shows "writei ip src off n s = andthen (writei_loop ip src off 0 n s) (\<lambda>(tot, off', s1).
     andthen (iupdate ip (if off' > isize (inodes s1 ip) then set_inode ip (\<lambda>r. r\<lparr>isize := off'\<rparr>) s1 else s1)) (\<lambda>s3. Ok (sint tot, s3)))"
proof -
  have "unat (off + n) = unat off + unat n" using assms(2) by (simp add: unat_word_ariths)
  then have "\<not> off + n < off" "\<not> of_nat (MAXFILE * BSIZE) < off + n" using assms(2) by (simp_all add: word_less_nat_alt)
  with assms(1) show ?thesis by (simp add: writei_def Let_def not_less [symmetric])
qed

text \<open>The last steps of \<open>writei\<close>: the size of the file, and the inode on the disk.\<close>

lemma wp_writei_tail:
  fixes s0 :: "'z fs_scheme"
  assumes s1: "ftx p s0 s1 C1 P1 Map.empty" "inodes s1 = (inodes s0)(ip := r1)" "mem s1 = mem s0"
    and w: "wrote (sb s0) (log_area (lg_start s0) (lg_size s0)) (unat off) D x C (inodes s0 ip) C1 r1"
    and off': "unat off' = unat off + x" and rm: "room 1 s0 P1 0" and C: "C = content s0"
    and ok: "inode_ok s0 ip" and x: "x \<le> length D" and o: "unat off \<le> unat (isize (inodes s0 ip))" and fit: "unat off + x \<le> MAXFILE * BSIZE"
  shows "\<exists>t C' r'. iupdate ip (if off' > isize (inodes s1 ip) then set_inode ip (\<lambda>r. r\<lparr>isize := off'\<rparr>) s1 else s1) = Ok t
     \<and> ftx p s0 t C' (log_add (IBLOCK (inum (inodes s0 ip)) (sb s0)) P1) Map.empty
     \<and> mem t = mem s0 \<and> inodes t = (inodes s0)(ip := r') \<and> inode_ok t ip \<and> r' = (inodes s0 ip)\<lparr>isize := isize r', iaddrs := iaddrs r'\<rparr>
     \<and> unat (isize r') = max (unat (isize (inodes s0 ip))) (unat off + x)
     \<and> file_of C' r' = take (unat off) (file_of C (inodes s0 ip)) @ take x D @ drop (unat off + x) (file_of C (inodes s0 ip))
     \<and> dino (sb s0) C' (inum r') = dinode_of r' \<and> inum r' = inum (inodes s0 ip)
     \<and> enlarged (sb s0) C (inodes s0 ip) C1 r1
     \<and> (\<exists>d. C' = C1(IBLOCK (inum r') (sb s0) := d))"
proof -
  let ?k = "sb s0" and ?L = "log_area (lg_start s0) (lg_size s0)" and ?r = "inodes s0 ip"
  let ?n = "IBLOCK (inum ?r) ?k" and ?sz = "max (unat (isize ?r)) (unat off + x)"
  have f: "ifile ?k ?L C ?r" and h: "no_holes C ?r" and n: "?n \<notin> ?L" "?n \<notin> bitmap ?k" "?n \<notin> fblocks C ?r" "unat ?n < nblocks ?k" "used ?k C (unat ?n)"
    using ok unfolding inode_ok_def Let_def C by blast+
  note d = wroteD [OF w] and wf = wrote_file [OF w h x o fit]
  have r1: "r1 = ?r\<lparr>iaddrs := iaddrs r1\<rparr>" by (rule enlargedD(1) [OF d(2)])
  have "idev r1 = idev (?r\<lparr>iaddrs := iaddrs r1\<rparr>)" "inum r1 = inum (?r\<lparr>iaddrs := iaddrs r1\<rparr>)" "isize r1 = isize (?r\<lparr>iaddrs := iaddrs r1\<rparr>)"
    using r1 by (rule arg_cong)+
  then have r1s: "idev r1 = ROOTDEV" "inum r1 = inum ?r" "isize r1 = isize ?r" using h by (simp_all add: no_holes_def)
  define r2 where "r2 = (if off' > isize r1 then r1\<lparr>isize := off'\<rparr> else r1)"
  let ?s2 = "if off' > isize (inodes s1 ip) then set_inode ip (\<lambda>r. r\<lparr>isize := off'\<rparr>) s1 else s1"
  have s2: "ftx p s0 ?s2 C1 P1 Map.empty" "inodes ?s2 = (inodes s0)(ip := r2)" "mem ?s2 = mem s0"
    using s1 ftx_inodes [OF s1(1)] by (auto simp: set_inode_def r2_def)
  have sz: "unat (isize r2) = ?sz" using off' r1s by (auto simp: r2_def word_less_nat_alt)
  have r2: "idev r2 = ROOTDEV" "inum r2 = inum ?r" "iaddr C1 r2 = iaddr C1 r1" "fbyte C1 r2 = fbyte C1 r1" "fblocks C1 r2 = fblocks C1 r1"
      "ifile ?k ?L C1 r2" "iaddrs r2 = iaddrs r1"
    using r1s d(1) by (simp_all add: r2_def)
  have i2: "inodes ?s2 ip = r2" using s2(2) by simp
  let ?C' = "C1(?n := dinode_put (ioff (inum ?r)) (dinode_of r2) (C1 ?n))"
  obtain t where t: "iupdate ip ?s2 = Ok t" "ftx p s0 t ?C' (log_add ?n P1) Map.empty" "same ?s2 t"
    using wp_iupdate [OF s2(1) _ _ n(1) rm, of ip] i2 r2(1,2) by (auto elim!: returnsE)
  have nf: "?n \<notin> fblocks C1 r2" using enlargedD(3) [OF d(2)] n(3,5) r2(5) by auto
  have len: "length (dinode_put (ioff (inum ?r)) (dinode_of r2) (C1 ?n)) = BSIZE"
    using dinode_put(1) [of "ioff (inum ?r)" "C1 ?n"] ifileD(2) [OF d(1), of ?n] ioff_le by simp
  note fo = ifile_other [OF r2(6) nf n(2) len]
  have da: "dino ?k ?C' (inum r2) = dinode_of r2"
    using dino_upd(1) [of C1 "inum ?r" ?k "dinode_of r2"] ifileD(1,2) [OF r2(6)] r2(2) by (simp add: dinode_of_def)
  have map: "iaddr ?C' r2 j \<noteq> 0" if "j * BSIZE < ?sz" for j using wf(2) [OF that] by (simp add: fo(3) r2(3))
  have top: "?sz \<le> MAXFILE * BSIZE" using h fit by (simp add: no_holes_def)
  have "fbyte ?C' r2 i = fbyte C1 r1 i" if "i < ?sz" for i
  proof -
    have "i div BSIZE * BSIZE \<le> i" by simp
    then have "iaddr C1 r2 (i div BSIZE) \<noteq> 0" using wf(2) [of "i div BSIZE"] that unfolding r2(3) by linarith
    moreover have "i div BSIZE < MAXFILE" by (rule less_mult_imp_div_less [OF less_le_trans [OF that top]])
    ultimately show ?thesis using fo(4) [of i] r2(4) by simp
  qed
  then have fo_bytes: "file_of ?C' r2 = take (unat off) (file_of C ?r) @ take x D @ drop (unat off + x) (file_of C ?r)"
    unfolding sz wf(1) [symmetric] by (simp add: file_bytes_def)
  have e: "content t = ?C'" "sb t = ?k" "lg_start t = lg_start s0" "lg_size t = lg_size s0" "inodes t ip = r2"
    using ftx_end [OF t(2)] ftxD [OF t(2)] t(3) i2 by simp_all
  have "used ?k ?C' (unat ?n)"
    using enlargedD(4) [OF d(2) n(4)] n(5) used_other [OF n(2,4), of C1] by simp
  moreover have "no_holes ?C' r2"
    unfolding no_holes_def sz using map top r2(1) ifileD(1) [OF r2(6)] by simp
  moreover have "fblocks ?C' r2 = fblocks C1 r2" using fo(2) by (simp add: fblocks_def)
  ultimately have "inode_ok t ip"
    unfolding inode_ok_def Let_def e r2(2) using fo(1) n nf by simp
  moreover have "r2 = ?r\<lparr>isize := isize r2, iaddrs := iaddrs r2\<rparr>"
  proof -
    obtain A where A: "r1 = ?r\<lparr>iaddrs := A\<rparr>" using r1 by (rule that)
    show ?thesis unfolding r2_def A by (cases ?r) simp
  qed
  ultimately show ?thesis
    using t s2(2,3) sz fo_bytes da r2(2) d(2) by (intro exI [of _ t] exI [of _ ?C'] exI [of _ r2] conjI) auto
qed

text \<open>What a write to one file keeps: the invariants, all other inodes and blocks, and the reservation of the transaction.\<close>

abbreviation write_frame :: "nat \<Rightarrow> 'z fs_scheme \<Rightarrow> nat \<Rightarrow> 'z fs_scheme \<Rightarrow> bool" where
  "write_frame p s ip t \<equiv> dino (sb s) (content t) (inum (inodes s ip)) = dinode_of (inodes t ip)
     \<and> inodes t ip = (inodes s ip)\<lparr>isize := isize (inodes t ip), iaddrs := iaddrs (inodes t ip)\<rparr>
     \<and> log_inv p t \<and> inode_ok t ip \<and> mem t = mem s \<and> disk t = disk s \<and> (\<forall>j. j \<noteq> ip \<longrightarrow> inodes t j = inodes s j)
     \<and> (\<forall>b. used (sb s) (content s) (unat b) \<and> b \<notin> bitmap (sb s) \<and> b \<notin> fblocks (content s) (inodes s ip)
          \<and> b \<noteq> IBLOCK (inum (inodes s ip)) (sb s) \<longrightarrow> content t b = content s b)
     \<and> length (pinned t) \<le> length (pinned s) + MAXOPBLOCKS"

text \<open>Everything \<open>writei\<close> does for a source of \<open>n\<close> bytes, within the blocks one system call may log.\<close>

lemma writei_spec:
  fixes s :: "'z fs_scheme"
  assumes src: "gives p (pagetable (procs s p)) (mem s) src D TYPE('z fs_scheme)" "length D = unat n"
    and inv: "log_inv p s" and ok: "inode_ok s ip" and rm0: "room MAXOPBLOCKS s (pinned s) 1"
    and off: "off \<le> isize (inodes s ip)" and n: "unat n \<le> 3 * BSIZE" and fit0: "unat off + unat n \<le> MAXFILE * BSIZE"
  shows "\<exists>x t. writei ip (src 0) off n s = Ok (int x, t) \<and> x \<le> unat n \<and> (x < unat n \<longrightarrow> dev_full (sb s) (content t))
     \<and> file_of (content t) (inodes t ip) = take (unat off) (file_of (content s) (inodes s ip)) @ take x D
          @ drop (unat off + x) (file_of (content s) (inodes s ip))
     \<and> write_frame p s ip t"
proof -
  let ?k = "sb s" and ?L = "log_area (lg_start s) (lg_size s)" and ?r = "inodes s ip" and ?C = "content s" and ?P = "pinned s"
  note s = ftx_start [OF inv]
  have f: "ifile ?k ?L ?C ?r" and h: "no_holes ?C ?r" using ok unfolding inode_ok_def Let_def by blast+
  have o: "unat off \<le> unat (isize ?r)" using off by (simp add: word_le_nat_alt)
  have map: "\<And>j. j * BSIZE < unat (isize ?r) \<Longrightarrow> iaddr ?C ?r j \<noteq> 0" and id: "idev ?r = ROOTDEV" using h by (simp_all add: no_holes_def)
  have cost: "write_cost ?C ?r (unat off) (unat n) \<le> 7" by (rule write_cost_le [OF map o n])
  have rm: "room (ind_cost ?P ?r + write_cost ?C ?r (unat off) (unat n - unat (0 :: uint)) + 1) s ?P 1"
    by (rule room_mono [OF rm0]) (use cost ind_cost_le [of ?P ?r] in simp_all)
  have "returns (writei_loop ip (src (unat (0 :: uint))) off 0 n s) (\<lambda>(tot', off', t). 0 \<le> tot' \<and> unat off' = unat off + unat tot'
      \<and> write_post p s (unat off) (drop (unat (0 :: uint)) D) (unat n - unat (0 :: uint)) ?C ?P s ip (unat tot' - unat (0 :: uint)) t)"
    by (rule wp_writei_loop [OF src fit0 s f id refl _ _ rm]) simp_all
  then obtain tot off' s1 where l: "writei_loop ip (src 0) off 0 n s = Ok (tot, off', s1)" and off': "unat off' = unat off + unat tot"
    and post: "write_post p s (unat off) D (unat n) ?C ?P s ip (unat tot) s1" by (auto elim!: returnsE)
  obtain C1 P1 r1 where s1: "ftx p s s1 C1 P1 Map.empty" "inodes s1 = (inodes s)(ip := r1)" "mem s1 = mem s" and le: "unat tot \<le> unat n"
    and w: "wrote ?k ?L (unat off) D (unat tot) ?C ?r C1 r1" and full: "unat tot < unat n \<longrightarrow> dev_full ?k C1"
    and P1: "length P1 + ind_cost P1 r1 \<le> length ?P + ind_cost ?P ?r + write_cost ?C ?r (unat off) (unat n)"
    using post unfolding write_post_def by blast
  have len: "length P1 \<le> length ?P + 9" using P1 cost ind_cost_le [of ?P ?r] by linarith
  have rm1: "room 1 s P1 0" using rm0 len by (auto simp: room_def)
  have fit: "unat off + unat tot \<le> MAXFILE * BSIZE" and xD: "unat tot \<le> length D" using le fit0 src(2) by linarith+
  obtain t C' r' d where t: "iupdate ip (if off' > isize (inodes s1 ip) then set_inode ip (\<lambda>r. r\<lparr>isize := off'\<rparr>) s1 else s1) = Ok t"
    "ftx p s t C' (log_add (IBLOCK (inum ?r) ?k) P1) Map.empty" "mem t = mem s" "inodes t = (inodes s)(ip := r')" "inode_ok t ip"
    and fields: "r' = ?r\<lparr>isize := isize r', iaddrs := iaddrs r'\<rparr>"
    and bytes: "file_of C' r' = take (unat off) (file_of ?C ?r) @ take (unat tot) D @ drop (unat off + unat tot) (file_of ?C ?r)"
    and dn: "dino ?k C' (inum r') = dinode_of r'" "inum r' = inum ?r" and e: "enlarged ?k ?C ?r C1 r1" and C': "C' = C1(IBLOCK (inum r') ?k := d)"
    using wp_writei_tail [OF s1 w off' rm1 refl ok xD o fit] by blast
  have big: "unat tot < 2 ^ 31" using le fit0 by simp
  have run: "writei ip (src 0) off n s = Ok (int (unat tot), t)"
    using writei_unfold [OF off fit0, of "src 0"] l t(1) sint_below [OF big] by simp
  have c: "content t = C'" "log_inv p t" "pinned t = log_add (IBLOCK (inum ?r) ?k) P1" using ftx_end [OF t(2)] by simp_all
  have nb: "IBLOCK (inum r') ?k \<notin> bitmap ?k" using ok unfolding inode_ok_def Let_def dn(2) by blast
  have "dev_full ?k C'" if "unat tot < unat n" using full that used_other [OF nb, of _ C1 d] by (simp add: dev_full_def C')
  moreover have "C' b = ?C b" if "used ?k ?C (unat b)" "b \<notin> bitmap ?k" "b \<notin> fblocks ?C ?r" "b \<noteq> IBLOCK (inum ?r) ?k" for b
    using enlargedD(3) [OF e, of b] enlargedD(5) [OF e that(2)] that dn(2) by (auto simp: C')
  moreover have "length (pinned t) \<le> length ?P + MAXOPBLOCKS" using c(3) len length_log_add [of "IBLOCK (inum ?r) ?k" P1] by simp
  moreover have "disk t = disk s" by (rule ftxD [OF t(2)])
  ultimately show ?thesis
    using run le bytes dn c t(3,4,5) fields by (intro exI [of _ "unat tot"] exI [of _ t]) simp
qed

text \<open>
  C0. Writing a file. In a transaction that has room for the \<open>MAXOPBLOCKS\<close> blocks a system call reserves, a request of up to
  three blocks that starts inside the file or at its end returns a number \<open>x\<close> of bytes, all of them
  unless the device is full. The file then is the old one with \<open>x\<close> bytes from \<open>off\<close> on replaced by those of the
  process, longer if need be, whatever blocks, direct, indirect or new, it occupies; its inode is on the disk block it
  belongs to, and the file is well formed again. No used block of anything else has changed, and the transaction
  has grown by at most \<open>MAXOPBLOCKS\<close> blocks.
\<close>

theorem writei_correct:
  fixes s :: "'z fs_scheme"
  assumes "pt = pagetable (procs s p)" and "log_inv p s" and "inode_ok s ip" and "room MAXOPBLOCKS s (pinned s) 1"
    and "off \<le> isize (inodes s ip)" and "unat n \<le> 3 * BSIZE" and "unat off + unat n \<le> MAXFILE * BSIZE"
    and "\<forall>i < unat n. user_page (mem s) pt (a + of_nat i) \<noteq> None"
  shows "\<exists>x t. writei ip (UserSrc a) off n s = Ok (int x, t) \<and> x \<le> unat n \<and> (x < unat n \<longrightarrow> dev_full (sb s) (content t))
     \<and> file_of (content t) (inodes t ip) = take (unat off) (file_of (content s) (inodes s ip)) @ user_bytes (mem s) pt a x
          @ drop (unat off + x) (file_of (content s) (inodes s ip))
     \<and> dino (sb s) (content t) (inum (inodes s ip)) = dinode_of (inodes t ip)
     \<and> log_inv p t \<and> inode_ok t ip \<and> mem t = mem s \<and> disk t = disk s \<and> (\<forall>j. j \<noteq> ip \<longrightarrow> inodes t j = inodes s j)
     \<and> (\<forall>b. used (sb s) (content s) (unat b) \<and> b \<notin> bitmap (sb s) \<and> b \<notin> fblocks (content s) (inodes s ip)
          \<and> b \<noteq> IBLOCK (inum (inodes s ip)) (sb s) \<longrightarrow> content t b = content s b)
     \<and> length (pinned t) \<le> length (pinned s) + MAXOPBLOCKS"
proof -
  let ?D = "user_bytes (mem s) pt a (unat n)"
  have "gives p (pagetable (procs s p)) (mem s) (\<lambda>k. UserSrc (a + of_nat k)) ?D TYPE('z fs_scheme)"
    unfolding assms(1) [symmetric] by (rule gives_user [OF assms(8)])
  from writei_spec [OF this length_user_bytes assms(2-7)] obtain x t where w: "writei ip (UserSrc a) off n s = Ok (int x, t)"
      "x \<le> unat n" "x < unat n \<longrightarrow> dev_full (sb s) (content t)" "file_of (content t) (inodes t ip)
        = take (unat off) (file_of (content s) (inodes s ip)) @ take x ?D @ drop (unat off + x) (file_of (content s) (inodes s ip))"
      and f: "write_frame p s ip t" by auto
  have "take x ?D = user_bytes (mem s) pt a x"
    using w(2) by (intro nth_equalityI) (auto simp: user_bytes_def)
  with w f show ?thesis by (intro exI [of _ x] exI [of _ t]) simp
qed


section \<open>A concrete file\<close>

text \<open>
  A file of three bytes in block 44 of the example device, opened by a process whose address space is the one page of
  the example of \<open>uvmcopy\<close>.
\<close>

definition file_disk :: "uint \<Rightarrow> block" where
  "file_disk = demo_disk(44 := [7, 8, 9] @ replicate 1021 0)"

definition file_inode :: inode where
  "file_inode = \<lparr>idev = ROOTDEV, inum = 1, iref = 1, ivalid = True, itype = T_FILE, imajor = 0, iminor = 0, inlink = 1, isize = 3,
     iaddrs = 44 # replicate 12 0\<rparr>"

definition file_fs :: "memory \<Rightarrow> fs" where
  "file_fs m = (fs_on file_disk demo_sb (\<lambda>_. file_inode))\<lparr>mem := m,
     procs := (\<lambda>q. (procs (fs_on file_disk demo_sb (\<lambda>_. file_inode)) q)\<lparr>pagetable := 0x87e00000\<rparr>)\<rparr>"

lemma log_inv_procs:
  fixes s :: "'z fs_scheme"
  shows "content (s\<lparr>mem := m, procs := ps\<rparr>) = content s" "log_inv p (s\<lparr>mem := m, procs := ps\<rparr>) = log_inv p s"
proof -
  let ?s = "s\<lparr>mem := m, procs := ps\<rparr>"
  have c: "cached ?s = cached s" by (simp add: cached_def fun_eq_iff)
  have g: "disk ?s = disk s" "bufs ?s = bufs s" "slocks ?s = slocks s" by simp_all
  show ct: "content ?s = content s"
    unfolding content_def [abs_def] buf_of_def [abs_def] c g by (rule refl)
  have "refs ?s = refs s" "lockset ?s = lockset s"
    unfolding refs_def [abs_def] lockset_def buf_of_def [abs_def] c g by (rule refl)+
  moreover have "bc_inv ?s = bc_inv s" using c by (simp add: bc_inv_def buf_ok_def dll_def)
  moreover have "calm p ?s = calm p s" by (simp add: calm_def settled_def lock_free_def mycpu_def intr_get_def cpuid_def)
  ultimately show "log_inv p ?s = log_inv p s" by (simp add: log_inv_def pinned_def)
qed

lemma file_fs_sel: "sb (file_fs m) = demo_sb" "inodes (file_fs m) = (\<lambda>_. file_inode)" "mem (file_fs m) = m"
  "pagetable (procs (file_fs m) q) = 0x87e00000" "lg_start (file_fs m) = 2" "lg_size (file_fs m) = 30" "outstanding (file_fs m) = 1"
  by (simp_all add: file_fs_def)

lemma file_fs_inv: "log_inv 0 (file_fs m)" "content (file_fs m) = file_disk" "pinned (file_fs m) = []"
proof -
  have len: "length (file_disk n) = BSIZE" for n by (simp add: file_disk_def demo_disk_def)
  have two: "file_disk 2 = replicate BSIZE 0" by (simp add: file_disk_def demo_disk_def)
  show "log_inv 0 (file_fs m)" "content (file_fs m) = file_disk" "pinned (file_fs m) = []"
    unfolding file_fs_def log_inv_procs using fs_on_inv [where D = file_disk, OF len two] by (simp_all add: pinned_def)
qed

lemma file_iaddr: "iaddr C file_inode j = (if j = 0 then 44 else 0)"
  by (simp add: iaddr_def file_inode_def nth_Cons')

lemma demo_nblocks: "nblocks demo_sb = 1000"
  by (simp add: demo_sb_def)

lemma file_used: "b < nblocks demo_sb \<Longrightarrow> used demo_sb file_disk b \<longleftrightarrow> b < 46"
  using demo_used [of b] by (simp add: file_disk_def used_other demo_bitmap demo_nblocks)

lemma file_ok: "inode_ok (file_fs m) ip"
proof -
  have fa: "faddr C file_inode j = (if j = 0 then 44 else 0)" for C j
    by (simp add: faddr_def file_iaddr) (simp add: file_inode_def)
  have fb: "fblocks C file_inode = {44}" for C unfolding fblocks_def fa by auto
  note nb = demo_nblocks
  have "map_ok demo_sb (log_area 2 30) demo_disk" using demo_may_alloc by (simp add: may_alloc_def demo_inv)
  then have mp: "map_ok demo_sb (log_area 2 30) file_disk" using file_used demo_used by (simp add: map_ok_def nb)
  have "length (file_disk n) = BSIZE" for n by (simp add: file_disk_def demo_disk_def)
  then have "ifile demo_sb (log_area 2 30) file_disk file_inode"
    unfolding ifile_def fb fa using mp file_used nb
    by (simp add: file_inode_def log_area_idle demo_bitmap)
  moreover have "no_holes file_disk file_inode"
    unfolding no_holes_def file_iaddr by (auto simp: file_inode_def)
  moreover have "IBLOCK (inum file_inode) demo_sb = 32" by (simp add: IBLOCK_def file_inode_def demo_sb_def)
  ultimately show ?thesis
    unfolding inode_ok_def Let_def file_fs_sel file_fs_inv fb
    using file_used [of 32] nb by (simp add: log_area_idle demo_bitmap)
qed

lemma file_read: "read_len file_inode 1 5 = 2" "file_bytes file_disk file_inode 1 2 = [8, 9]" "file_of file_disk file_inode = [7, 8, 9]"
  by (simp_all add: read_len_def file_bytes_def fbyte_def file_iaddr file_disk_def upt_rec) (simp_all add: file_inode_def)


lemma low_page: "i < 100 \<Longrightarrow> PGROUNDDOWN (0x10 + of_nat i) = 0"
proof -
  assume i: "i < 100"
  define v :: uint64 where "v = 0x10 + of_nat i"
  have "unat v = 16 + i" using i by (simp add: v_def unat_word_ariths unat_of_nat64)
  then have "unat v mod PGSIZE = unat v" using i by simp
  then have "v - PGROUNDDOWN v = v" using page_base [of v] by simp
  then show ?thesis by (simp add: v_def)
qed

theorem readi_correct_witness:
  "\<exists>m t. readi 0 (UserDst 0x10) 1 5 (file_fs m) = Ok (2, [8, 9], t) \<and> user_bytes (mem t) 0x87e00000 0x10 2 = [8, 9]"
proof -
  obtain s fs where d: "demo_ok s fs" using demo_space by blast
  let ?s = "file_fs (mem s)"
  have h: "no_holes (content ?s) (inodes ?s 0)" using file_ok [of "mem s" 0] unfolding inode_ok_def Let_def by blast
  have w: "\<forall>i < read_len (inodes ?s 0) 1 5. writable (mem ?s) 0x87e00000 (0x10 + of_nat i)"
    by (simp add: file_fs_sel file_read demo_user(3) [OF d] low_page)
  have "0x87e00000 = pagetable (procs ?s 0)" "space_ok (mem ?s) 0x87e00000" using demo_user(1) [OF d] by (simp_all add: file_fs_sel)
  from readi_correct [OF this(1) file_fs_inv(1) h this(2) w] obtain bs t where
    r: "readi 0 (UserDst 0x10) 1 5 ?s = Ok (int (read_len (inodes ?s 0) 1 5), bs, t)"
      "bs = file_bytes (content ?s) (inodes ?s 0) (unat (1 :: uint)) (read_len (inodes ?s 0) 1 5)"
      "user_bytes (mem t) 0x87e00000 0x10 (length bs) = bs" by blast
  have l: "read_len (inodes ?s 0) 1 5 = 2" by (simp add: file_fs_sel file_read)
  have bs: "bs = [8, 9]" using r(2) file_read(2) unfolding l by (simp add: file_fs_sel file_fs_inv)
  have "user_bytes (mem t) 0x87e00000 0x10 2 = [8, 9]" using r(3) unfolding bs by (simp add: numeral_2_eq_2)
  with r(1) bs l show ?thesis by auto
qed

theorem writei_correct_witness:
  "\<exists>m x t. writei 0 (UserSrc 0x10) 2 4 (file_fs m) = Ok (int x, t) \<and> x \<le> 4
     \<and> file_of (content t) (inodes t 0) = [7, 8] @ user_bytes m 0x87e00000 0x10 x @ drop x [9]"
proof -
  obtain s fs where d: "demo_ok s fs" using demo_space by blast
  let ?s = "file_fs (mem s)"
  have pt: "0x87e00000 = pagetable (procs ?s 0)" by (simp add: file_fs_sel)
  have rm: "room MAXOPBLOCKS ?s (pinned ?s) 1" by (simp add: room_def file_fs_sel file_fs_inv)
  have u: "\<forall>i < unat (4 :: uint). user_page (mem ?s) 0x87e00000 (0x10 + of_nat i) \<noteq> None"
    by (simp add: file_fs_sel demo_user(2) [OF d] low_page)
  have le: "2 \<le> isize (inodes ?s 0)" "unat (4 :: uint) \<le> 3 * BSIZE" "unat (2 :: uint) + unat (4 :: uint) \<le> MAXFILE * BSIZE"
    by (simp_all add: file_fs_sel file_inode_def)
  from writei_correct [OF pt file_fs_inv(1) file_ok rm le u] show ?thesis
    by (intro exI [of _ "mem s"]) (auto simp: file_fs_sel file_fs_inv file_read file_read(2) [unfolded One_nat_def])
qed

end
