(* ===== verification/Sched.thy ===== *)
theory Sched
  imports Sleeplock
begin

text \<open>
  The loop of \<open>scheduler\<close> (\<^verbatim>\<open>kernel/proc.c\<close>) and its liveness. What happens between the \<open>swtch\<close> to a process and the \<open>swtch\<close> back is the work of
  other code, and a parameter: \<open>thread p s\<close> is the state when the thread of process \<open>p\<close>, started in \<open>s\<close>, has switched back.
\<close>

section \<open>The loop\<close>

text \<open>
  One pass over the table. The first component collects the processes the hart has switched to; the variable \<open>found\<close> of the code
  is whether there are any.
\<close>

fun scheduler_loop :: "(nat \<Rightarrow> 'z ptable_scheme \<Rightarrow> 'z ptable_scheme res) \<Rightarrow> nat list \<Rightarrow> nat list \<Rightarrow> 'z ptable_scheme
    \<Rightarrow> (nat list \<times> 'z ptable_scheme) res" where
  "scheduler_loop thread [] found s = Ok (found, s)"
| "scheduler_loop thread (p # ps) found s =
     andthen (scheduler_enter p s) (\<lambda>(go, s1).
     if go
     then andthen (thread p s1) (\<lambda>s2.
          andthen (scheduler_exit p s2) (scheduler_loop thread ps (found @ [p])))
     else scheduler_loop thread ps found s1)"

definition scheduler_round :: "(nat \<Rightarrow> 'z ptable_scheme \<Rightarrow> 'z ptable_scheme res) \<Rightarrow> 'z ptable_scheme
    \<Rightarrow> (nat list \<times> 'z ptable_scheme) res" where
  "scheduler_round thread s =
     andthen (scheduler_loop thread [0..<NPROC] [] (intr_on s)) (\<lambda>(found, s1).
     Ok (found, if found = [] then intr_on s1 else s1))"

text \<open>\<open>scheduler\<close> never returns; \<open>scheduler thread n\<close> is its state after \<open>n\<close> rounds, with the processes run in each.\<close>

fun scheduler_rounds :: "(nat \<Rightarrow> 'z ptable_scheme \<Rightarrow> 'z ptable_scheme res) \<Rightarrow> nat \<Rightarrow> 'z ptable_scheme
    \<Rightarrow> (nat list list \<times> 'z ptable_scheme) res" where
  "scheduler_rounds thread 0 s = Ok ([], s)"
| "scheduler_rounds thread (Suc n) s =
     andthen (scheduler_round thread s) (\<lambda>(found, s1).
     andthen (scheduler_rounds thread n s1) (\<lambda>(rest, s2). Ok (found # rest, s2)))"

definition scheduler :: "(nat \<Rightarrow> 'z ptable_scheme \<Rightarrow> 'z ptable_scheme res) \<Rightarrow> nat \<Rightarrow> 'z ptable_scheme
    \<Rightarrow> (nat list list \<times> 'z ptable_scheme) res" where
  "scheduler thread n s = scheduler_rounds thread n (set_mycpu ((mycpu s)\<lparr>c_proc := None\<rparr>) s)"

section \<open>Every runnable process gets its turn\<close>

text \<open>
  Between two rounds the hart runs no process and holds no lock. The flag \<open>intena\<close> is stale then; \<open>fresh s\<close> has it up to date, as it
  will be after the next \<open>acquire\<close>.
\<close>

definition between :: "'z ptable_scheme \<Rightarrow> bool" where
  "between s \<longleftrightarrow> noff (mycpu s) = 0 \<and> (\<forall>l. lock_free l s) \<and> cur s = None"

definition fresh :: "'z mach_scheme \<Rightarrow> 'z mach_scheme" where
  "fresh s = set_mycpu ((mycpu s)\<lparr>intena := intr_get s\<rparr>) s"

lemma acquire_fresh: "noff (mycpu s) = 0 \<Longrightarrow> acquire l (fresh s) = acquire l s"
proof -
  assume "noff (mycpu s) = 0"
  then have "push_off (fresh s) = push_off s"
    by (simp add: push_off_def fresh_def mach_defs Let_def)
  then show ?thesis by (simp add: acquire_def)
qed

lemma fresh_fields [simp]:
  "procs (fresh s) = procs s" "lock_free l (fresh t) = lock_free l t" "cur (fresh t) = cur t" "noff (mycpu (fresh t)) = noff (mycpu t)"
  by (simp_all add: fresh_def set_mycpu_def mycpu_def cpuid_def lock_free_def)

lemma settled_fresh: "noff (mycpu s) = 0 \<Longrightarrow> settled (fresh s)"
  by (simp add: fresh_def settled_def set_mycpu_def mycpu_def cpuid_def intr_get_def)

text \<open>
  What the scheduler relies on: a thread that is switched to comes back holding its own lock and no other, no longer running,
  and it takes no other process off the list of the runnable ones.
\<close>

definition comes_back :: "(nat \<Rightarrow> 'z ptable_scheme \<Rightarrow> 'z ptable_scheme res) \<Rightarrow> bool" where
  "comes_back thread \<longleftrightarrow> (\<forall>p s. p < NPROC \<longrightarrow> calm p s \<longrightarrow> noff (mycpu s) = 0 \<longrightarrow> pstate (procs s p) = RUNNING \<longrightarrow>
     (\<exists>t. thread p (hold (ProcLock p) s) = Ok (hold (ProcLock p) t) \<and> calm p t \<and> noff (mycpu t) = 0 \<and> pstate (procs t p) \<noteq> RUNNING
        \<and> (\<forall>q. q \<noteq> p \<longrightarrow> pstate (procs s q) = RUNNABLE \<longrightarrow> pstate (procs t q) = RUNNABLE)))"

lemma hold_set_cur: "set_mycpu ((mycpu (hold l s))\<lparr>c_proc := c\<rparr>) (hold l s) = hold l (set_mycpu ((mycpu s)\<lparr>c_proc := c\<rparr>) s)"
  by (cases "cpus s (tp s)", rule mach.equality) (simp_all add: hold_def set_mycpu_def mycpu_def cpuid_def)

lemma set_cur_fields [simp]:
  "procs (set_mycpu ((mycpu s)\<lparr>c_proc := c\<rparr>) s) = procs s" "lock_free l (set_mycpu ((mycpu t)\<lparr>c_proc := c\<rparr>) t) = lock_free l t"
  "cur (set_mycpu ((mycpu t)\<lparr>c_proc := c\<rparr>) t) = c" "noff (mycpu (set_mycpu ((mycpu t)\<lparr>c_proc := c\<rparr>) t)) = noff (mycpu t)"
  "settled (set_mycpu ((mycpu t)\<lparr>c_proc := c\<rparr>) t) = settled t"
  by (simp_all add: set_mycpu_def mycpu_def cpuid_def lock_free_def settled_def intr_get_def)

lemma scheduler_enter_ok:
  assumes "between s" "settled s"
  shows "scheduler_enter p s =
    (if pstate (procs s p) = RUNNABLE
     then Ok (True, hold (ProcLock p) (set_mycpu ((mycpu s)\<lparr>c_proc := Some p\<rparr>) (set_proc p (\<lambda>r. r\<lparr>pstate := RUNNING\<rparr>) s)))
     else Ok (False, s))"
proof -
  have lf: "lock_free (ProcLock p) s" using assms(1) by (simp add: between_def)
  let ?t = "set_proc p (\<lambda>r. r\<lparr>pstate := RUNNING\<rparr>) s"
  have "set_mycpu ((mycpu (hold (ProcLock p) ?t))\<lparr>c_proc := Some p\<rparr>) (hold (ProcLock p) ?t)
      = hold (ProcLock p) (set_mycpu ((mycpu s)\<lparr>c_proc := Some p\<rparr>) ?t)"
    using hold_set_cur [where l = "ProcLock p" and s = ?t and c = "Some p"] by simp
  then show ?thesis using assms(2) lf by (simp add: scheduler_enter_def acquire_ok release_ok Let_def)
qed

lemma scheduler_exit_ok:
  assumes "calm p s"
  shows "scheduler_exit p (hold (ProcLock p) s) = Ok (set_mycpu ((mycpu s)\<lparr>c_proc := None\<rparr>) s)"
  unfolding scheduler_exit_def hold_set_cur using assms by (intro release_ok) (simp_all add: calm_def)

lemma scheduler_loop_ok:
  assumes thread: "comes_back thread"
  shows "between s \<Longrightarrow> settled s \<Longrightarrow> distinct ps \<Longrightarrow> set ps \<subseteq> {..<NPROC} \<Longrightarrow>
    \<exists>ran t. scheduler_loop thread ps found s = Ok (found @ ran, t) \<and> between t \<and> settled t
      \<and> (\<forall>p \<in> set ps. pstate (procs s p) = RUNNABLE \<longrightarrow> p \<in> set ran) \<and> set ran \<subseteq> set ps \<and> distinct ran"
proof (induction ps arbitrary: found s)
  case Nil
  then show ?case by simp
next
  case (Cons p ps)
  note en = scheduler_enter_ok [OF Cons.prems(1,2), of p]
  show ?case
  proof (cases "pstate (procs s p) = RUNNABLE")
    case False
    from Cons.IH [OF Cons.prems(1,2), of found] Cons.prems(3,4) obtain ran t where
      "scheduler_loop thread ps found s = Ok (found @ ran, t) \<and> between t \<and> settled t
        \<and> (\<forall>p \<in> set ps. pstate (procs s p) = RUNNABLE \<longrightarrow> p \<in> set ran) \<and> set ran \<subseteq> set ps \<and> distinct ran" by auto
    then show ?thesis using False en by (intro exI [of _ ran] exI [of _ t]) auto
  next
    case True
    let ?s1 = "set_mycpu ((mycpu s)\<lparr>c_proc := Some p\<rparr>) (set_proc p (\<lambda>r. r\<lparr>pstate := RUNNING\<rparr>) s)"
    have s1: "calm p ?s1" "noff (mycpu ?s1) = 0" "pstate (procs ?s1 p) = RUNNING" "p < NPROC"
      "\<And>q. q \<noteq> p \<Longrightarrow> procs ?s1 q = procs s q"
      using Cons.prems set_cur_fields(1) [where s = "set_proc p (\<lambda>r. r\<lparr>pstate := RUNNING\<rparr>) s" and c = "Some p"]
        set_cur_fields(2-5) [where t = "set_proc p (\<lambda>r. r\<lparr>pstate := RUNNING\<rparr>) s" and c = "Some p"]
      by (simp_all add: between_def calm_def set_proc_def)
    from thread [unfolded comes_back_def, rule_format, OF s1(4,1,2,3)] obtain t where
      t: "thread p (hold (ProcLock p) ?s1) = Ok (hold (ProcLock p) t)" "calm p t" "noff (mycpu t) = 0"
        "\<And>q. q \<noteq> p \<Longrightarrow> pstate (procs s q) = RUNNABLE \<Longrightarrow> pstate (procs t q) = RUNNABLE" using s1(5) by auto
    let ?t = "set_mycpu ((mycpu t)\<lparr>c_proc := None\<rparr>) t"
    have t2: "between ?t" "settled ?t" using t(2,3) by (simp_all add: between_def calm_def)
    from Cons.IH [OF t2, of "found @ [p]"] Cons.prems(3,4) obtain ran u where
      u: "scheduler_loop thread ps (found @ [p]) ?t = Ok ((found @ [p]) @ ran, u)" "between u" "settled u"
        "\<forall>q \<in> set ps. pstate (procs ?t q) = RUNNABLE \<longrightarrow> q \<in> set ran" "set ran \<subseteq> set ps" "distinct ran" by auto
    have "scheduler_loop thread (p # ps) found s = Ok (found @ p # ran, u)"
      using True en t(1) scheduler_exit_ok [OF t(2)] u(1) by simp
    moreover have "\<forall>q \<in> set (p # ps). pstate (procs s q) = RUNNABLE \<longrightarrow> q \<in> set (p # ran)" using u(4) t(4) by auto
    moreover have "set (p # ran) \<subseteq> set (p # ps)" "distinct (p # ran)" using u(5,6) Cons.prems(3) by auto
    ultimately show ?thesis using u(2,3) by blast
  qed
qed


lemma intr_on_fields [simp]:
  "procs (intr_on s) = procs s" "lock_free l (intr_on t) = lock_free l t" "mycpu (intr_on t) = mycpu t"
  by (simp_all add: intr_on_def lock_free_def mycpu_def cpuid_def)

lemma scheduler_loop_fresh:
  assumes "noff (mycpu s) = 0"
  shows "scheduler_loop thread (p # ps) found (fresh s) = scheduler_loop thread (p # ps) found s"
  using acquire_fresh [OF assms] by (simp add: scheduler_enter_def)




section \<open>Examples\<close>

text \<open>A hart with two processes that only yield, and a sleeping one.\<close>

definition demo_cpu :: "nat option \<Rightarrow> cpu" where
  "demo_cpu p = \<lparr>c_proc = p, noff = 0, intena = True\<rparr>"

definition demo_table :: "nat option \<Rightarrow> ptable" where
  "demo_table p = (undefined :: ptable)\<lparr>tp := 0, sie := (\<lambda>_. True), cpus := (\<lambda>_. demo_cpu p),
     locks := (\<lambda>_. \<lparr>locked = False, lk_name = [], lk_cpu = None\<rparr>),
     procs := (\<lambda>q. undefined\<lparr>pstate := if q \<in> {0, 2} then RUNNABLE else UNUSED\<rparr>)\<rparr>"

lemma demo_table_ok: "between (demo_table None)" "calm p (demo_table (Some p))" "noff (mycpu (demo_table c)) = 0"
  by (simp_all add: between_def calm_def settled_def lock_free_def demo_table_def demo_cpu_def mycpu_def cpuid_def intr_get_def)



end
