(* ===== verification/Asm.thy ===== *)
theory Asm
  imports Vm
begin

text \<open>
  The assembly code of the kernel: the context switch (\<^verbatim>\<open>kernel/swtch.S\<close>), the way from user space into the kernel and
  back (\<^verbatim>\<open>kernel/trampoline.S\<close>), traps inside the kernel (\<^verbatim>\<open>kernel/kernelvec.S\<close>), and the first instructions of each hart
  (\<^verbatim>\<open>kernel/entry.S\<close>, \<^verbatim>\<open>kernel/start.c\<close>). The code is kept as lists of instructions, one per line of the source, which \<open>exec_instr\<close> interprets.
  The translation of addresses is done by the hardware, which is a parameter: \<open>x satp va\<close> is the physical
  address of \<open>va\<close> in the address space that the register \<open>satp\<close> selects.
\<close>

section \<open>Instructions\<close>

datatype reg =
    Ra | Sp | Gp | Tp | T0 | T1 | T2 | S0 | S1 | A0 | A1 | A2 | A3 | A4 | A5 | A6 | A7
  | S2 | S3 | S4 | S5 | S6 | S7 | S8 | S9 | S10 | S11 | T3 | T4 | T5 | T6

datatype creg = Sscratch | Satp | Sepc | Mhartid

datatype instr =
    Sd reg nat reg
  | Ld reg nat reg
  | Addi reg reg int
  | Add reg reg reg
  | Mul reg reg reg
  | Li reg uint64
  | Csrw creg reg
  | Csrr reg creg
  | Sfence_vma
  | Jr reg
  | Ret
  | Sret

record hart =
  regs :: "reg \<Rightarrow> uint64"
  cregs :: "creg \<Rightarrow> uint64"
  hmem :: memory
  hpc :: uint64

definition set_reg :: "reg \<Rightarrow> uint64 \<Rightarrow> hart \<Rightarrow> hart" where
  "set_reg r v h = h\<lparr>regs := (regs h)(r := v)\<rparr>"

text \<open>
  \<open>Sd r n b\<close> is \<open>sd r, n(b)\<close>, and so on. The program counter only shows where a jump leads; \<open>sfence.vma\<close> has no effect on the
  translation, which is always up to date here.
\<close>

fun exec_instr :: "(uint64 \<Rightarrow> uint64 \<Rightarrow> uint64) \<Rightarrow> instr \<Rightarrow> hart \<Rightarrow> hart" where
  "exec_instr x (Sd r n b) h = h\<lparr>hmem := write64 (x (cregs h Satp) (regs h b + of_nat n)) (regs h r) (hmem h)\<rparr>"
| "exec_instr x (Ld r n b) h = set_reg r (read64 (hmem h) (x (cregs h Satp) (regs h b + of_nat n))) h"
| "exec_instr x (Addi r a n) h = set_reg r (regs h a + of_int n) h"
| "exec_instr x (Add r a b) h = set_reg r (regs h a + regs h b) h"
| "exec_instr x (Mul r a b) h = set_reg r (regs h a * regs h b) h"
| "exec_instr x (Li r v) h = set_reg r v h"
| "exec_instr x (Csrw c r) h = h\<lparr>cregs := (cregs h)(c := regs h r)\<rparr>"
| "exec_instr x (Csrr r c) h = set_reg r (cregs h c) h"
| "exec_instr x Sfence_vma h = h"
| "exec_instr x (Jr r) h = h\<lparr>hpc := regs h r\<rparr>"
| "exec_instr x Ret h = h\<lparr>hpc := regs h Ra\<rparr>"
| "exec_instr x Sret h = h\<lparr>hpc := cregs h Sepc\<rparr>"

definition run :: "(uint64 \<Rightarrow> uint64 \<Rightarrow> uint64) \<Rightarrow> instr list \<Rightarrow> hart \<Rightarrow> hart" where
  "run x prog h = fold (exec_instr x) prog h"

section \<open>The code\<close>

definition swtch :: "instr list" where
  "swtch =
     [Sd Ra 0 A0, Sd Sp 8 A0, Sd S0 16 A0, Sd S1 24 A0, Sd S2 32 A0, Sd S3 40 A0, Sd S4 48 A0,
      Sd S5 56 A0, Sd S6 64 A0, Sd S7 72 A0, Sd S8 80 A0, Sd S9 88 A0, Sd S10 96 A0, Sd S11 104 A0,
      Ld Ra 0 A1, Ld Sp 8 A1, Ld S0 16 A1, Ld S1 24 A1, Ld S2 32 A1, Ld S3 40 A1, Ld S4 48 A1,
      Ld S5 56 A1, Ld S6 64 A1, Ld S7 72 A1, Ld S8 80 A1, Ld S9 88 A1, Ld S10 96 A1, Ld S11 104 A1,
      Ret]"

definition uservec :: "instr list" where
  "uservec =
     [Csrw Sscratch A0, Li A0 TRAPFRAME,
      Sd Ra 40 A0, Sd Sp 48 A0, Sd Gp 56 A0, Sd Tp 64 A0, Sd T0 72 A0, Sd T1 80 A0, Sd T2 88 A0,
      Sd S0 96 A0, Sd S1 104 A0, Sd A1 120 A0, Sd A2 128 A0, Sd A3 136 A0, Sd A4 144 A0, Sd A5 152 A0,
      Sd A6 160 A0, Sd A7 168 A0, Sd S2 176 A0, Sd S3 184 A0, Sd S4 192 A0, Sd S5 200 A0, Sd S6 208 A0,
      Sd S7 216 A0, Sd S8 224 A0, Sd S9 232 A0, Sd S10 240 A0, Sd S11 248 A0, Sd T3 256 A0, Sd T4 264 A0,
      Sd T5 272 A0, Sd T6 280 A0,
      Csrr T0 Sscratch, Sd T0 112 A0,
      Ld Sp 8 A0, Ld Tp 32 A0, Ld T0 16 A0, Ld T1 0 A0,
      Sfence_vma, Csrw Satp T1, Sfence_vma, Jr T0]"

definition userret :: "instr list" where
  "userret =
     [Sfence_vma, Csrw Satp A0, Sfence_vma, Li A0 TRAPFRAME,
      Ld Ra 40 A0, Ld Sp 48 A0, Ld Gp 56 A0, Ld Tp 64 A0, Ld T0 72 A0, Ld T1 80 A0, Ld T2 88 A0,
      Ld S0 96 A0, Ld S1 104 A0, Ld A1 120 A0, Ld A2 128 A0, Ld A3 136 A0, Ld A4 144 A0, Ld A5 152 A0,
      Ld A6 160 A0, Ld A7 168 A0, Ld S2 176 A0, Ld S3 184 A0, Ld S4 192 A0, Ld S5 200 A0, Ld S6 208 A0,
      Ld S7 216 A0, Ld S8 224 A0, Ld S9 232 A0, Ld S10 240 A0, Ld S11 248 A0, Ld T3 256 A0, Ld T4 264 A0,
      Ld T5 272 A0, Ld T6 280 A0,
      Ld A0 112 A0, Sret]"

text \<open>\<open>kernelvec\<close> up to the call of \<open>kerneltrap\<close>, and after it.\<close>

definition kernelvec_enter :: "instr list" where
  "kernelvec_enter =
     [Addi Sp Sp (-256),
      Sd Ra 0 Sp, Sd Sp 8 Sp, Sd Gp 16 Sp, Sd Tp 24 Sp, Sd T0 32 Sp, Sd T1 40 Sp, Sd T2 48 Sp,
      Sd A0 72 Sp, Sd A1 80 Sp, Sd A2 88 Sp, Sd A3 96 Sp, Sd A4 104 Sp, Sd A5 112 Sp, Sd A6 120 Sp, Sd A7 128 Sp,
      Sd T3 216 Sp, Sd T4 224 Sp, Sd T5 232 Sp, Sd T6 240 Sp]"

definition kernelvec_exit :: "instr list" where
  "kernelvec_exit =
     [Ld Ra 0 Sp, Ld Sp 8 Sp, Ld Gp 16 Sp, Ld T0 32 Sp, Ld T1 40 Sp, Ld T2 48 Sp,
      Ld A0 72 Sp, Ld A1 80 Sp, Ld A2 88 Sp, Ld A3 96 Sp, Ld A4 104 Sp, Ld A5 112 Sp, Ld A6 120 Sp, Ld A7 128 Sp,
      Ld T3 216 Sp, Ld T4 224 Sp, Ld T5 232 Sp, Ld T6 240 Sp,
      Addi Sp Sp 256, Sret]"

text \<open>\<open>_entry\<close> up to the call of \<open>start\<close>; the address of \<open>stack0\<close> is chosen by the linker.\<close>

definition entry :: "uint64 \<Rightarrow> instr list" where
  "entry stack0 =
     [Li Sp stack0, Li A0 (1024 * 4), Csrr A1 Mhartid, Addi A1 A1 1, Mul A0 A0 A1, Add Sp Sp A0]"

section \<open>Saving and loading registers\<close>

text \<open>In the address space of \<open>satp\<close> the \<open>n\<close> bytes at the virtual address \<open>va\<close> lie together at the physical address \<open>pa\<close>.\<close>

definition maps :: "(uint64 \<Rightarrow> uint64 \<Rightarrow> uint64) \<Rightarrow> uint64 \<Rightarrow> uint64 \<Rightarrow> nat \<Rightarrow> uint64 \<Rightarrow> bool" where
  "maps x satp va n pa \<longleftrightarrow> (\<forall>i < n. x satp (va + of_nat i) = pa + of_nat i)"

text \<open>Register \<open>r\<close> points to \<open>n\<close> bytes at the physical address \<open>pa\<close>.\<close>

definition reaches :: "(uint64 \<Rightarrow> uint64 \<Rightarrow> uint64) \<Rightarrow> hart \<Rightarrow> reg \<Rightarrow> nat \<Rightarrow> uint64 \<Rightarrow> bool" where
  "reaches x h r n pa \<longleftrightarrow> maps x (cregs h Satp) (regs h r) n pa"

definition saves :: "reg \<Rightarrow> (reg \<times> nat) list \<Rightarrow> instr list" where
  "saves b rs = map (\<lambda>(r, n). Sd r n b) rs"

definition loads :: "reg \<Rightarrow> (reg \<times> nat) list \<Rightarrow> instr list" where
  "loads b rs = map (\<lambda>(r, n). Ld r n b) rs"

text \<open>A layout of saved registers within \<open>k\<close> bytes: the slots do not overlap.\<close>

definition layout :: "nat \<Rightarrow> (reg \<times> nat) list \<Rightarrow> bool" where
  "layout k rs \<longleftrightarrow> distinct (map fst rs) \<and> sorted_wrt (\<lambda>a b. snd a + 8 \<le> snd b) rs \<and> (\<forall>(r, n) \<in> set rs. n + 8 \<le> k)"

definition put_regs :: "uint64 \<Rightarrow> (reg \<Rightarrow> uint64) \<Rightarrow> (reg \<times> nat) list \<Rightarrow> memory \<Rightarrow> memory" where
  "put_regs pa f rs m = fold (\<lambda>(r, n). write64 (pa + of_nat n) (f r)) rs m"

definition get_regs :: "uint64 \<Rightarrow> memory \<Rightarrow> (reg \<times> nat) list \<Rightarrow> (reg \<Rightarrow> uint64) \<Rightarrow> reg \<Rightarrow> uint64" where
  "get_regs pa m rs f r = (case map_of rs r of None \<Rightarrow> f r | Some n \<Rightarrow> read64 m (pa + of_nat n))"

lemma run_append: "run x (p @ q) h = run x q (run x p h)"
  by (simp add: run_def)

lemma run_Cons: "run x (i # p) h = run x p (exec_instr x i h)" "run x [] h = h"
  by (simp_all add: run_def)

lemma run_saves:
  "reaches x h b k pa \<Longrightarrow> \<forall>(r, n) \<in> set rs. n < k \<Longrightarrow>
   run x (saves b rs) h = h\<lparr>hmem := put_regs pa (regs h) rs (hmem h)\<rparr>"
proof (induction rs arbitrary: h)
  case Nil
  then show ?case by (simp add: saves_def run_def put_regs_def)
next
  case (Cons e rs)
  obtain r n where e: "e = (r, n)" by (cases e)
  let ?h = "h\<lparr>hmem := write64 (pa + of_nat n) (regs h r) (hmem h)\<rparr>"
  have "exec_instr x (Sd r n b) h = ?h" using Cons.prems by (auto simp: e maps_def reaches_def)
  moreover have "run x (saves b rs) ?h = ?h\<lparr>hmem := put_regs pa (regs ?h) rs (hmem ?h)\<rparr>"
    using Cons.prems by (intro Cons.IH) (auto simp: reaches_def)
  ultimately show ?case by (simp add: e saves_def run_def put_regs_def)
qed

lemma slots_apart: "i + 8 \<le> j \<or> j + 8 \<le> i \<Longrightarrow> i < 2 ^ 32 \<Longrightarrow> j < 2 ^ 32 \<Longrightarrow>
   range64 (pa + of_nat i) 8 \<inter> range64 (pa + of_nat j) 8 = {}"
proof (rule equals0I)
  fix y assume a: "i + 8 \<le> j \<or> j + 8 \<le> i" "i < 2 ^ 32" "j < 2 ^ 32" "y \<in> range64 (pa + of_nat i) 8 \<inter> range64 (pa + of_nat j) 8"
  then obtain k l where kl: "k < 8" "l < 8" "pa + of_nat i + of_nat k = pa + of_nat j + of_nat l" by (auto simp: range64_iff)
  then have "(of_nat (i + k) :: uint64) = of_nat (j + l)" by (simp add: add.assoc)
  then have "i + k = j + l" using a(2,3) kl(1,2) of_nat64_inj [of "i + k" "j + l"] by simp
  with a(1) kl show False by auto
qed

lemma slot_inside: "n + 8 \<le> k \<Longrightarrow> k < 2 ^ 32 \<Longrightarrow> range64 (pa + of_nat n) 8 \<subseteq> range64 pa k"
proof
  fix y assume a: "n + 8 \<le> k" "k < 2 ^ 32" "y \<in> range64 (pa + of_nat n) 8"
  then obtain i where "i < 8" "y = pa + of_nat n + of_nat i" by (auto simp: range64_iff)
  then have "y = pa + of_nat (n + i)" "n + i < k" using a by (simp_all add: add.assoc)
  then show "y \<in> range64 pa k" using a(2) range64_add [of "n + i" k pa] by simp
qed

lemma put_regs_other:
  "\<forall>(r, n) \<in> set rs. range64 a 8 \<inter> range64 (pa + of_nat n) 8 = {} \<Longrightarrow> read64 (put_regs pa f rs m) a = read64 m a"
proof (induction rs arbitrary: m)
  case (Cons e rs)
  then show ?case by (cases e) (simp add: put_regs_def read64_write64_disjoint)
qed (simp add: put_regs_def)

lemma put_regs_outside:
  assumes "\<forall>(r, n) \<in> set rs. n + 8 \<le> k" "k < 2 ^ 32" "y \<notin> range64 pa k"
  shows "put_regs pa f rs m y = m y"
  using assms(1)
proof (induction rs arbitrary: m)
  case (Cons e rs)
  obtain r n where e: "e = (r, n)" by (cases e)
  then have "y \<notin> range64 (pa + of_nat n) 8" using slot_inside [of n k pa] assms(2,3) Cons.prems by auto
  then show ?case using Cons e by (simp add: put_regs_def write64_outside)
qed (simp add: put_regs_def)

lemma put_regs_same:
  assumes "layout k rs" "k < 2 ^ 32" "(r, n) \<in> set rs"
  shows "read64 (put_regs pa f rs m) (pa + of_nat n) = f r"
  using assms
proof (induction rs arbitrary: m)
  case (Cons e rs)
  obtain r' n' where e: "e = (r', n')" by (cases e)
  have l: "layout k rs" using Cons.prems(1) by (simp add: layout_def)
  show ?case
  proof (cases "(r, n) = e")
    case True
    have "n + 8 \<le> j \<and> j + 8 \<le> k \<and> n + 8 \<le> k" if "(q, j) \<in> set rs" for q j
      using that True Cons.prems(1) by (auto simp: layout_def)
    then have "range64 (pa + of_nat n) 8 \<inter> range64 (pa + of_nat j) 8 = {}" if "(q, j) \<in> set rs" for q j
      using that Cons.prems(2) slots_apart [of n j pa] by (metis add_leD1 le_less_trans)
    then have "\<forall>(q, j) \<in> set rs. range64 (pa + of_nat n) 8 \<inter> range64 (pa + of_nat j) 8 = {}" by auto
    from put_regs_other [OF this] True e show ?thesis by (simp add: put_regs_def)
  next
    case False
    then have "(r, n) \<in> set rs" using Cons.prems(3) by auto
    then show ?thesis using Cons.IH [OF l Cons.prems(2)] e by (simp add: put_regs_def)
  qed
qed simp

text \<open>
  Loading through a base register that is itself loaded works when its slot holds its own value, as it does in
  \<open>kernelvec\<close>.
\<close>

lemma run_loads:
  "reaches x h b k pa \<Longrightarrow> \<forall>(r, n) \<in> set rs. n < k \<Longrightarrow> distinct (map fst rs) \<Longrightarrow>
   (\<And>n. (b, n) \<in> set rs \<Longrightarrow> read64 (hmem h) (pa + of_nat n) = regs h b) \<Longrightarrow>
   run x (loads b rs) h = h\<lparr>regs := get_regs pa (hmem h) rs (regs h)\<rparr>"
proof (induction rs arbitrary: h)
  case Nil
  then show ?case by (simp add: loads_def run_def get_regs_def [abs_def])
next
  case (Cons e rs)
  obtain r n where e: "e = (r, n)" by (cases e)
  let ?h = "set_reg r (read64 (hmem h) (pa + of_nat n)) h"
  have "exec_instr x (Ld r n b) h = ?h" using Cons.prems by (auto simp: e maps_def reaches_def)
  moreover have b: "regs ?h b = regs h b" using Cons.prems(4) [of n] by (auto simp: set_reg_def e)
  have "run x (loads b rs) ?h = ?h\<lparr>regs := get_regs pa (hmem ?h) rs (regs ?h)\<rparr>"
  proof (rule Cons.IH)
    show "reaches x ?h b k pa" using Cons.prems(1) b by (simp add: reaches_def set_reg_def)
    show "read64 (hmem ?h) (pa + of_nat n') = regs ?h b" if "(b, n') \<in> set rs" for n'
      using Cons.prems(4) [of n'] that unfolding b by (simp add: set_reg_def)
  qed (use Cons.prems in auto)
  moreover have "get_regs pa (hmem h) rs ((regs h)(r := read64 (hmem h) (pa + of_nat n))) = get_regs pa (hmem h) (e # rs) (regs h)"
  proof -
    have "map_of rs r = None" using Cons.prems(3) by (simp add: map_of_eq_None_iff e)
    then show ?thesis by (auto simp: get_regs_def fun_eq_iff e split: option.split)
  qed
  ultimately show ?case by (simp add: e loads_def run_def set_reg_def)
qed

lemma get_regs_other: "r \<notin> fst ` set rs \<Longrightarrow> get_regs pa m rs f r = f r"
proof -
  assume "r \<notin> fst ` set rs"
  then have "map_of rs r = None" by (simp add: map_of_eq_None_iff)
  then show ?thesis by (simp add: get_regs_def)
qed

lemma get_put_regs:
  assumes "layout k rs" "k < 2 ^ 32" "r \<in> fst ` set rs"
  shows "get_regs pa (put_regs pa f rs m) rs g r = f r"
proof -
  obtain n where n: "(r, n) \<in> set rs" using assms(3) by auto
  then have "map_of rs r = Some n" using assms(1) by (simp add: layout_def)
  then show ?thesis using put_regs_same [OF assms(1,2) n] by (simp add: get_regs_def)
qed


section \<open>The context switch\<close>

text \<open>The layout of \<open>struct context\<close>.\<close>

definition ctx_regs :: "(reg \<times> nat) list" where
  "ctx_regs = [(Ra, 0), (Sp, 8), (S0, 16), (S1, 24), (S2, 32), (S3, 40), (S4, 48), (S5, 56), (S6, 64), (S7, 72),
     (S8, 80), (S9, 88), (S10, 96), (S11, 104)]"

lemma swtch_eq: "swtch = saves A0 ctx_regs @ loads A1 ctx_regs @ [Ret]"
  by (simp add: swtch_def saves_def loads_def ctx_regs_def)

lemma ctx_layout: "layout 112 ctx_regs"
  by (simp add: layout_def ctx_regs_def)

lemma layout_bound: "layout k rs \<Longrightarrow> \<forall>(r, n) \<in> set rs. n < k" "layout k rs \<Longrightarrow> \<forall>(r, n) \<in> set rs. n + 8 \<le> k"
  by (auto simp: layout_def)

lemma swtch_run:
  assumes "reaches x h A0 112 old" "reaches x h A1 112 new"
  shows "run x swtch h =
    (let m = put_regs old (regs h) ctx_regs (hmem h); f = get_regs new m ctx_regs (regs h) in h\<lparr>regs := f, hmem := m, hpc := f Ra\<rparr>)"
proof -
  let ?m = "put_regs old (regs h) ctx_regs (hmem h)"
  let ?h = "h\<lparr>hmem := ?m\<rparr>"
  have 1: "run x (saves A0 ctx_regs) h = ?h" using assms(1) layout_bound(1) [OF ctx_layout] by (rule run_saves)
  have "run x (loads A1 ctx_regs) ?h = ?h\<lparr>regs := get_regs new (hmem ?h) ctx_regs (regs ?h)\<rparr>"
  proof (rule run_loads)
    show "reaches x ?h A1 112 new" using assms(2) by (simp add: reaches_def)
  qed (simp_all add: ctx_regs_def)
  then show ?thesis unfolding swtch_eq run_append 1 by (simp add: run_def Let_def)
qed

text \<open>
  C7. A context switch and the switch back: \<open>swtch(old, new)\<close> continues at the return address of the thread saved in \<open>new\<close>, with
  that thread's stack pointer and callee-saved registers, and leaves every other register and all memory but \<open>old\<close> alone;
  when any thread later switches to \<open>old\<close> and the structure has not been touched, the first thread continues
  after its call of \<open>swtch\<close> with the registers it had.
\<close>

theorem swtch_roundtrip:
  assumes "reaches x h A0 112 old" "reaches x h A1 112 new"
    and "range64 old 112 \<inter> range64 new 112 = {}"
    and again: "reaches x h2 A0 112 other" "reaches x h2 A1 112 old"
      "range64 other 112 \<inter> range64 old 112 = {}"
    and kept: "\<forall>y \<in> range64 old 112. hmem h2 y = hmem (run x swtch h) y"
  shows "hpc (run x swtch h) = read64 (hmem h) new
    \<and> (\<forall>(r, n) \<in> set ctx_regs. regs (run x swtch h) r = read64 (hmem h) (new + of_nat n))
    \<and> (\<forall>r. r \<notin> fst ` set ctx_regs \<longrightarrow> regs (run x swtch h) r = regs h r)
    \<and> (\<forall>y. y \<notin> range64 old 112 \<longrightarrow> hmem (run x swtch h) y = hmem h y)
    \<and> hpc (run x swtch h2) = regs h Ra \<and> (\<forall>r \<in> fst ` set ctx_regs. regs (run x swtch h2) r = regs h r)"
proof -
  let ?m = "put_regs old (regs h) ctx_regs (hmem h)" and ?m2 = "put_regs other (regs h2) ctx_regs (hmem h2)"
  have h: "run x swtch h = (let f = get_regs new ?m ctx_regs (regs h) in h\<lparr>regs := f, hmem := ?m, hpc := f Ra\<rparr>)"
    using swtch_run [OF assms(1,2)] by (simp add: Let_def)
  have h2: "run x swtch h2 = (let f = get_regs old ?m2 ctx_regs (regs h2) in h2\<lparr>regs := f, hmem := ?m2, hpc := f Ra\<rparr>)"
    using swtch_run [OF again(1,2)] by (simp add: Let_def)
  have out: "?m y = hmem h y" if "y \<notin> range64 old 112" for y
    using put_regs_outside [OF layout_bound(2) [OF ctx_layout] _ that] by simp
  have new: "read64 ?m (new + of_nat n) = read64 (hmem h) (new + of_nat n)" if "(r, n) \<in> set ctx_regs" for r n
    by (rule read64_cong, rule out) (use slot_inside [of n 112 new] that assms(3) layout_bound(2) [OF ctx_layout] in auto)
  have m2: "?m2 y = ?m y" if "y \<in> range64 old 112" for y
  proof -
    have "y \<notin> range64 other 112" using that again(3) by auto
    then show ?thesis using put_regs_outside [OF layout_bound(2) [OF ctx_layout]] that kept by (simp add: h Let_def)
  qed
  have old: "read64 ?m2 (old + of_nat n) = read64 ?m (old + of_nat n)" if "(r, n) \<in> set ctx_regs" for r n
    by (rule read64_cong, rule m2) (use slot_inside [of n 112 old] that layout_bound(2) [OF ctx_layout] in auto)
  have g: "map_of ctx_regs r = Some n" if "(r, n) \<in> set ctx_regs" for r n using that ctx_layout by (simp add: layout_def)
  have loaded: "regs (run x swtch h) r = read64 (hmem h) (new + of_nat n)" if "(r, n) \<in> set ctx_regs" for r n
    using g [OF that] new [OF that] by (simp add: h Let_def get_regs_def)
  have resumed: "regs (run x swtch h2) r = regs h r" if "(r, n) \<in> set ctx_regs" for r n
    using g [OF that] old [OF that] put_regs_same [OF ctx_layout _ that] by (simp add: h2 Let_def get_regs_def)
  have ra: "(Ra, 0) \<in> set ctx_regs" by (simp add: ctx_regs_def)
  have pc: "hpc (run x swtch h) = regs (run x swtch h) Ra" "hpc (run x swtch h2) = regs (run x swtch h2) Ra" by (simp_all add: h h2 Let_def)
  have rest: "regs (run x swtch h) r = regs h r" if "r \<notin> fst ` set ctx_regs" for r
    using that by (simp add: h Let_def get_regs_other)
  have "hmem (run x swtch h) = ?m" by (simp add: h Let_def)
  then show ?thesis using pc loaded [OF ra] resumed [OF ra] loaded resumed rest out by auto
qed


section \<open>From user space to the kernel and back\<close>

text \<open>The layout of \<open>struct trapframe\<close>: the registers of the user program, with \<open>a0\<close> apart, which is saved last.\<close>

definition user_regs :: "(reg \<times> nat) list" where
  "user_regs = [(Ra, 40), (Sp, 48), (Gp, 56), (Tp, 64), (T0, 72), (T1, 80), (T2, 88), (S0, 96), (S1, 104),
     (A1, 120), (A2, 128), (A3, 136), (A4, 144), (A5, 152), (A6, 160), (A7, 168),
     (S2, 176), (S3, 184), (S4, 192), (S5, 200), (S6, 208), (S7, 216), (S8, 224), (S9, 232), (S10, 240), (S11, 248),
     (T3, 256), (T4, 264), (T5, 272), (T6, 280)]"

lemma uservec_eq: "uservec = [Csrw Sscratch A0, Li A0 TRAPFRAME] @ saves A0 user_regs @ [Csrr T0 Sscratch, Sd T0 112 A0]
    @ loads A0 [(Sp, 8), (Tp, 32), (T0, 16), (T1, 0)] @ [Sfence_vma, Csrw Satp T1, Sfence_vma, Jr T0]"
  by (simp add: uservec_def saves_def loads_def user_regs_def)

lemma userret_eq: "userret = [Sfence_vma, Csrw Satp A0, Sfence_vma, Li A0 TRAPFRAME] @ loads A0 user_regs @ [Ld A0 112 A0, Sret]"
  by (simp add: userret_def loads_def user_regs_def)

lemma user_layout: "layout 288 user_regs"
  by (simp add: layout_def user_regs_def)

lemma all_user_regs: "r = A0 \<or> r \<in> fst ` set user_regs"
  by (cases r) (simp_all add: user_regs_def)

lemma a0_slot: "(r, n) \<in> set user_regs \<Longrightarrow> n + 8 \<le> 112 \<or> 120 \<le> n" "(r, n) \<in> set user_regs \<Longrightarrow> 40 \<le> n \<and> n + 8 \<le> 288"
  by (auto simp: user_regs_def)

text \<open>The trap frame holds \<open>a0\<close> and the other registers of \<open>f\<close>.\<close>

definition frame_holds :: "uint64 \<Rightarrow> memory \<Rightarrow> (reg \<Rightarrow> uint64) \<Rightarrow> bool" where
  "frame_holds tf m f \<longleftrightarrow> read64 m (tf + 112) = f A0 \<and> (\<forall>(r, n) \<in> set user_regs. read64 m (tf + of_nat n) = f r)"

lemma uservec_run:
  assumes "maps x (cregs h Satp) TRAPFRAME 288 tf"
  defines "m \<equiv> write64 (tf + 112) (regs h A0) (put_regs tf (regs h) user_regs (hmem h))"
  shows "hmem (run x uservec h) = m" "hpc (run x uservec h) = read64 m (tf + 16)"
    "regs (run x uservec h) Sp = read64 m (tf + 8)" "regs (run x uservec h) Tp = read64 m (tf + 32)"
    "cregs (run x uservec h) Satp = read64 m tf"
proof -
  let ?h1 = "h\<lparr>cregs := (cregs h)(Sscratch := regs h A0), regs := (regs h)(A0 := TRAPFRAME)\<rparr>"
  let ?h2 = "?h1\<lparr>hmem := put_regs tf (regs ?h1) user_regs (hmem ?h1)\<rparr>"
  let ?h3 = "?h2\<lparr>regs := (regs ?h2)(T0 := regs h A0), hmem := m\<rparr>"
  have p: "put_regs tf ((regs h)(A0 := TRAPFRAME)) user_regs (hmem h) = put_regs tf (regs h) user_regs (hmem h)"
    by (simp add: put_regs_def user_regs_def)
  have 1: "run x [Csrw Sscratch A0, Li A0 TRAPFRAME] h = ?h1" by (simp add: run_def set_reg_def)
  have "reaches x ?h1 A0 288 tf" using assms(1) by (simp add: reaches_def)
  then have 2: "run x (saves A0 user_regs) ?h1 = ?h2" using layout_bound(1) [OF user_layout] by (rule run_saves)
  have s: "x (cregs h Satp) (TRAPFRAME + 112) = tf + 112" using assms(1) [unfolded maps_def, rule_format, of 112] by simp
  have 3: "run x [Csrr T0 Sscratch, Sd T0 112 A0] ?h2 = ?h3" using s by (simp add: run_def set_reg_def m_def p)
  let ?ls = "[(Sp, 8), (Tp, 32), (T0, 16), (T1, 0)] :: (reg \<times> nat) list"
  have 4: "run x (loads A0 ?ls) ?h3 = ?h3\<lparr>regs := get_regs tf m ?ls (regs ?h3)\<rparr>"
    using run_loads [of x ?h3 A0 288 tf ?ls] assms(1) by (simp add: reaches_def)
  show "hmem (run x uservec h) = m" "hpc (run x uservec h) = read64 m (tf + 16)"
    "regs (run x uservec h) Sp = read64 m (tf + 8)" "regs (run x uservec h) Tp = read64 m (tf + 32)"
    "cregs (run x uservec h) Satp = read64 m tf"
    unfolding uservec_eq run_append 1 2 3 4 by (simp_all add: run_def get_regs_def)
qed

lemma uservec_saves:
  assumes "maps x (cregs h Satp) TRAPFRAME 288 tf"
  shows "frame_holds tf (hmem (run x uservec h)) (regs h)"
    "\<And>n. n + 8 \<le> 40 \<Longrightarrow> read64 (hmem (run x uservec h)) (tf + of_nat n) = read64 (hmem h) (tf + of_nat n)"
    "\<And>y. y \<notin> range64 tf 288 \<Longrightarrow> hmem (run x uservec h) y = hmem h y"
proof -
  note m = uservec_run(1) [OF assms]
  let ?p = "put_regs tf (regs h) user_regs (hmem h)"
  have a: "range64 (tf + of_nat n) 8 \<inter> range64 (tf + 112) 8 = {}" if "n + 8 \<le> 112 \<or> 120 \<le> n" "n < 288" for n
    using slots_apart [of n 112 tf] that by simp
  have sl: "n + 8 \<le> 112 \<or> 120 \<le> n" "n < 288" if "(r, n) \<in> set user_regs" for r n
    using a0_slot [OF that] by auto
  show "frame_holds tf (hmem (run x uservec h)) (regs h)" unfolding frame_holds_def m
    using put_regs_same [OF user_layout, of _ _ tf "regs h" "hmem h"] read64_write64_disjoint [OF a [OF sl]] by auto
  show "read64 (hmem (run x uservec h)) (tf + of_nat n) = read64 (hmem h) (tf + of_nat n)" if n: "n + 8 \<le> 40" for n
  proof -
    have "range64 (tf + of_nat n) 8 \<inter> range64 (tf + of_nat j) 8 = {}" if "(r, j) \<in> set user_regs" for r j
      using slots_apart [of n j tf] a0_slot(2) [OF that] n by auto
    then have "\<forall>(r, j) \<in> set user_regs. range64 (tf + of_nat n) 8 \<inter> range64 (tf + of_nat j) 8 = {}" by auto
    from put_regs_other [OF this] show ?thesis unfolding m using read64_write64_disjoint [OF a, of n] n by simp
  qed
  show "hmem (run x uservec h) y = hmem h y" if "y \<notin> range64 tf 288" for y
  proof -
    have "y \<notin> range64 (tf + 112) 8" using slot_inside [of 112 288 tf] that by auto
    then show ?thesis unfolding m using put_regs_outside [OF layout_bound(2) [OF user_layout] _ that] by (simp add: write64_outside)
  qed
qed

lemma userret_run:
  assumes "maps x (regs h A0) TRAPFRAME 288 tf" "frame_holds tf (hmem h) f"
  shows "regs (run x userret h) = f" "hpc (run x userret h) = cregs h Sepc" "cregs (run x userret h) Satp = regs h A0"
    "hmem (run x userret h) = hmem h"
proof -
  let ?h1 = "h\<lparr>cregs := (cregs h)(Satp := regs h A0), regs := (regs h)(A0 := TRAPFRAME)\<rparr>"
  let ?h2 = "?h1\<lparr>regs := get_regs tf (hmem h) user_regs (regs ?h1)\<rparr>"
  have 1: "run x [Sfence_vma, Csrw Satp A0, Sfence_vma, Li A0 TRAPFRAME] h = ?h1" by (simp add: run_def set_reg_def)
  have d: "distinct (map fst user_regs)" "A0 \<notin> fst ` set user_regs" by (simp_all add: user_regs_def)
  have "reaches x ?h1 A0 288 tf" using assms(1) by (simp add: reaches_def)
  have no: "(A0, n) \<notin> set user_regs" for n using d(2) by force
  have 2: "run x (loads A0 user_regs) ?h1 = ?h2"
    using run_loads [OF \<open>reaches x ?h1 A0 288 tf\<close> layout_bound(1) [OF user_layout] d(1)] no by simp
  have g0: "regs ?h2 A0 = TRAPFRAME" using d(2) by (simp add: get_regs_other)
  have s: "x (regs h A0) (TRAPFRAME + 112) = tf + 112" using assms(1) [unfolded maps_def, rule_format, of 112] by simp
  have 3: "run x [Ld A0 112 A0, Sret] ?h2 = ?h2\<lparr>regs := (regs ?h2)(A0 := f A0), hpc := cregs h Sepc\<rparr>"
    using s g0 assms(2) by (simp add: run_def set_reg_def frame_holds_def)
  have "(regs ?h2)(A0 := f A0) = f"
  proof
    fix r
    show "((regs ?h2)(A0 := f A0)) r = f r"
    proof (cases "r = A0")
      case False
      then obtain n where n: "(r, n) \<in> set user_regs" using all_user_regs [of r] by auto
      then show ?thesis using False d(1) assms(2) by (auto simp: get_regs_def frame_holds_def)
    qed simp
  qed
  then show "regs (run x userret h) = f" "hpc (run x userret h) = cregs h Sepc" "cregs (run x userret h) Satp = regs h A0"
    "hmem (run x userret h) = hmem h"
    unfolding userret_eq run_append 1 2 3 by simp_all
qed

text \<open>
  C6. A trap from user space does not disturb the user program. \<open>uservec\<close> arrives at \<open>usertrap\<close> on the kernel stack, in the
  kernel's address space and with the number of the hart in \<open>tp\<close>, as \<open>usertrapret\<close> prepared it in the trap frame, changing
  no memory but the trap frame; and whenever \<open>userret\<close> is called later for the same address space with the
  register part of the trap frame untouched, on whatever hart, every register of the user program has the value
  it had at the trap and the program continues at \<open>sepc\<close>.
\<close>

theorem trampoline_roundtrip:
  assumes "maps x (cregs h Satp) TRAPFRAME 288 tf"
    and "regs h2 A0 = cregs h Satp" "\<forall>i. 40 \<le> i \<and> i < 288 \<longrightarrow> hmem h2 (tf + of_nat i) = hmem (run x uservec h) (tf + of_nat i)"
  shows "hpc (run x uservec h) = read64 (hmem h) (tf + 16) \<and> regs (run x uservec h) Sp = read64 (hmem h) (tf + 8)
    \<and> regs (run x uservec h) Tp = read64 (hmem h) (tf + 32) \<and> cregs (run x uservec h) Satp = read64 (hmem h) tf
    \<and> (\<forall>y. y \<notin> range64 tf 288 \<longrightarrow> hmem (run x uservec h) y = hmem h y)
    \<and> regs (run x userret h2) = regs h \<and> hpc (run x userret h2) = cregs h2 Sepc \<and> cregs (run x userret h2) Satp = cregs h Satp"
proof -
  note sv = uservec_saves [OF assms(1)] and rn = uservec_run [OF assms(1), folded uservec_run(1) [OF assms(1)]]
  have same: "read64 (hmem h2) (tf + of_nat n) = read64 (hmem (run x uservec h)) (tf + of_nat n)" if n: "40 \<le> n" "n + 8 \<le> 288" for n
  proof (rule read64_cong)
    fix y assume "y \<in> range64 (tf + of_nat n) 8"
    then obtain i where i: "i < 8" "y = tf + of_nat n + of_nat i" by (auto simp: range64_iff)
    then have "y = tf + of_nat (n + i)" by (simp add: add.assoc)
    then show "hmem h2 y = hmem (run x uservec h) y" using assms(3) [rule_format, of "n + i"] n i(1) by simp
  qed
  have "frame_holds tf (hmem h2) (regs h)"
    using sv(1) same [of 112] same a0_slot(2) unfolding frame_holds_def by fastforce
  from userret_run [of x h2, unfolded assms(2), OF assms(1) this] show ?thesis
    using rn sv(3) sv(2) [of 16] sv(2) [of 8] sv(2) [of 32] sv(2) [of 0] by simp
qed


section \<open>Traps inside the kernel\<close>

definition kern_regs :: "(reg \<times> nat) list" where
  "kern_regs = [(Ra, 0), (Sp, 8), (Gp, 16), (T0, 32), (T1, 40), (T2, 48), (A0, 72), (A1, 80), (A2, 88), (A3, 96),
     (A4, 104), (A5, 112), (A6, 120), (A7, 128), (T3, 216), (T4, 224), (T5, 232), (T6, 240)]"

definition kern_saved :: "(reg \<times> nat) list" where
  "kern_saved = [(Ra, 0), (Sp, 8), (Gp, 16), (Tp, 24), (T0, 32), (T1, 40), (T2, 48), (A0, 72), (A1, 80), (A2, 88), (A3, 96),
     (A4, 104), (A5, 112), (A6, 120), (A7, 128), (T3, 216), (T4, 224), (T5, 232), (T6, 240)]"

lemma kernelvec_eq: "kernelvec_enter = Addi Sp Sp (-256) # saves Sp kern_saved" "kernelvec_exit = loads Sp kern_regs @ [Addi Sp Sp 256, Sret]"
  by (simp_all add: kernelvec_enter_def kernelvec_exit_def saves_def loads_def kern_regs_def kern_saved_def)

lemma kern_layout: "layout 256 kern_saved" "layout 256 kern_regs" "set kern_regs \<subseteq> set kern_saved"
  by (simp_all add: layout_def kern_regs_def kern_saved_def)

text \<open>
  C24. An interrupt inside the kernel is transparent: when \<open>kerneltrap\<close> keeps what the calling convention makes it keep (the stack
  pointer, the registers \<open>s0\<close> to \<open>s11\<close>) and the 256 bytes \<open>kernelvec\<close> has pushed, then after \<open>sret\<close> every register has the value
  it had before the interrupt, except \<open>tp\<close>, which stays the number of the hart that runs the thread now;
  nothing outside the pushed area is written.
\<close>

theorem kernelvec_transparent:
  assumes "reaches x (h\<lparr>regs := (regs h)(Sp := regs h Sp - 256)\<rparr>) Sp 256 pa"
    and "x (cregs h2 Satp) = x (cregs h Satp)" "regs h2 Sp = regs h Sp - 256" "\<forall>r \<in> {S0, S1, S2, S3, S4, S5, S6, S7, S8, S9, S10, S11}. regs h2 r = regs h r"
      "\<forall>y \<in> range64 pa 256. hmem h2 y = hmem (run x kernelvec_enter h) y"
  shows "(\<forall>r. regs (run x kernelvec_exit h2) r = (if r = Tp then regs h2 Tp else regs h r))
    \<and> hpc (run x kernelvec_exit h2) = cregs h2 Sepc \<and> hmem (run x kernelvec_exit h2) = hmem h2
    \<and> (\<forall>y. y \<notin> range64 pa 256 \<longrightarrow> hmem (run x kernelvec_enter h) y = hmem h y)"
proof -
  let ?h1 = "h\<lparr>regs := (regs h)(Sp := regs h Sp - 256)\<rparr>"
  let ?m = "put_regs pa (regs ?h1) kern_saved (hmem h)"
  have en: "run x kernelvec_enter h = ?h1\<lparr>hmem := ?m\<rparr>"
    using run_saves [OF assms(1) layout_bound(1) [OF kern_layout(1)]] by (simp add: kernelvec_eq run_Cons set_reg_def)
  have same: "read64 (hmem h2) (pa + of_nat n) = regs ?h1 r" if "(r, n) \<in> set kern_regs" for r n
  proof -
    have s: "(r, n) \<in> set kern_saved" "n + 8 \<le> 256" using that kern_layout(3) layout_bound(2) [OF kern_layout(2)] by auto
    have "read64 (hmem h2) (pa + of_nat n) = read64 ?m (pa + of_nat n)"
      by (rule read64_cong) (use slot_inside [OF s(2), of pa] assms(5) en in auto)
    also have "\<dots> = regs ?h1 r" using put_regs_same [OF kern_layout(1) _ s(1)] by simp
    finally show ?thesis .
  qed
  have "reaches x h2 Sp 256 pa" using assms(1-3) by (simp add: reaches_def maps_def)
  from run_loads [OF this layout_bound(1) [OF kern_layout(2)]] same assms(3) kern_layout(2)
  have ld: "run x (loads Sp kern_regs) h2 = h2\<lparr>regs := get_regs pa (hmem h2) kern_regs (regs h2)\<rparr>" by (simp add: layout_def)
  have g: "get_regs pa (hmem h2) kern_regs (regs h2) r = (if r = Tp then regs h2 Tp else regs ?h1 r)" for r
  proof (cases "r \<in> fst ` set kern_regs")
    case True
    then obtain n where n: "(r, n) \<in> set kern_regs" by auto
    then have "map_of kern_regs r = Some n" "r \<noteq> Tp" using kern_layout(2) by (auto simp: layout_def kern_regs_def)
    then show ?thesis using same [OF n] by (simp add: get_regs_def)
  next
    case False
    then have "r = Tp \<or> r \<in> {S0, S1, S2, S3, S4, S5, S6, S7, S8, S9, S10, S11} \<and> r \<noteq> Sp" by (cases r) (simp_all add: kern_regs_def)
    then show ?thesis using get_regs_other [OF False] assms(4) by auto
  qed
  have "\<forall>y. y \<notin> range64 pa 256 \<longrightarrow> ?m y = hmem h y" using put_regs_outside [OF layout_bound(2) [OF kern_layout(1)]] by simp
  moreover have "regs (run x kernelvec_exit h2) = (get_regs pa (hmem h2) kern_regs (regs h2))(Sp := regs h Sp)"
    unfolding kernelvec_eq run_append ld by (simp add: run_def set_reg_def g)
  moreover have "hpc (run x kernelvec_exit h2) = cregs h2 Sepc" "hmem (run x kernelvec_exit h2) = hmem h2"
    unfolding kernelvec_eq run_append ld by (simp_all add: run_def set_reg_def)
  ultimately show ?thesis by (simp add: en g)
qed


section \<open>The first instructions\<close>


section \<open>Example states\<close>

definition demo_hart :: "reg \<Rightarrow> uint64 \<Rightarrow> reg \<Rightarrow> uint64 \<Rightarrow> hart" where
  "demo_hart r v r' v' = \<lparr>regs = (\<lambda>_. 7)(r := v, r' := v'), cregs = (\<lambda>_. 0), hmem = (\<lambda>_. 0), hpc = 0\<rparr>"

text \<open>A thread that switches to another one and is switched back to, under the identity mapping of the kernel.\<close>

theorem swtch_roundtrip_witness:
  "let x = \<lambda>_ a. a; h = demo_hart A0 0x1000 A1 0x2000; h2 = (run x swtch h)\<lparr>regs := (regs (run x swtch h))(A0 := 0x2000, A1 := 0x1000)\<rparr> in
   regs (run x swtch h) S3 = 0 \<and> regs (run x swtch h2) S3 = 7 \<and> hpc (run x swtch h2) = 7"
proof -
  let ?x = "\<lambda>_ a. a :: uint64" and ?h = "demo_hart A0 0x1000 A1 0x2000"
  let ?h2 = "(run ?x swtch ?h)\<lparr>regs := (regs (run ?x swtch ?h))(A0 := 0x2000, A1 := 0x1000)\<rparr>"
  have m: "reaches ?x ?h A0 112 0x1000" "reaches ?x ?h A1 112 0x2000" "reaches ?x ?h2 A0 112 0x2000" "reaches ?x ?h2 A1 112 0x1000"
    by (simp_all add: reaches_def maps_def demo_hart_def)
  have d: "range64 0x1000 112 \<inter> range64 0x2000 112 = {}" "range64 0x2000 112 \<inter> range64 0x1000 112 = {}"
    using range64_disjoint [of "0x1000" 112 "0x2000" 112] by auto
  have z: "read64 (hmem ?h) a = 0" for a by (simp add: demo_hart_def read64_def read_bytes_def of_le_def upt_conv_Cons)
  have s3: "(S3, 40) \<in> set ctx_regs" "S3 \<in> fst ` set ctx_regs" by (simp_all add: ctx_regs_def)
  have "\<forall>y \<in> range64 0x1000 112. hmem ?h2 y = hmem (run ?x swtch ?h) y" by simp
  note r = swtch_roundtrip [OF m(1,2) d(1) m(3,4) d(2) this]
  have "\<forall>(r, n) \<in> set ctx_regs. regs (run ?x swtch ?h) r = read64 (hmem ?h) (0x2000 + of_nat n)" using r by blast
  from bspec [OF this s3(1)] have "regs (run ?x swtch ?h) S3 = 0" by (simp add: z)
  moreover have "regs (run ?x swtch ?h2) S3 = regs ?h S3" "hpc (run ?x swtch ?h2) = regs ?h Ra" using r s3(2) by blast+
  ultimately show ?thesis by (simp add: Let_def) (simp add: demo_hart_def)
qed


text \<open>A trap from user space and the return, with the trap frame at the physical address \<open>0x5000\<close>.\<close>

theorem trampoline_roundtrip_witness:
  "let x = \<lambda>_ a. a - TRAPFRAME + 0x5000; h = demo_hart A0 9 Sp 0x4000; h2 = (run x uservec h)\<lparr>regs := (\<lambda>_. 0)\<rparr> in
   cregs h Satp = 0 \<and> regs (run x uservec h) Sp = 0 \<and> regs (run x userret h2) = regs h"
proof -
  let ?x = "\<lambda>_ a. a - TRAPFRAME + 0x5000 :: uint64" and ?h = "demo_hart A0 9 Sp 0x4000"
  let ?h2 = "(run ?x uservec ?h)\<lparr>regs := (\<lambda>_. 0)\<rparr>"
  have m: "maps ?x (cregs ?h Satp) TRAPFRAME 288 0x5000" by (simp add: maps_def)
  have z: "read64 (hmem ?h) a = 0" for a by (simp add: demo_hart_def read64_def read_bytes_def of_le_def upt_conv_Cons)
  have "regs ?h2 A0 = cregs ?h Satp" "\<forall>i. 40 \<le> i \<and> i < 288 \<longrightarrow> hmem ?h2 (0x5000 + of_nat i) = hmem (run ?x uservec ?h) (0x5000 + of_nat i)"
    by (simp_all add: demo_hart_def)
  note r = trampoline_roundtrip [OF m this]
  have "regs (run ?x uservec ?h) Sp = read64 (hmem ?h) (0x5000 + 8)" "regs (run ?x userret ?h2) = regs ?h" using r by blast+
  then show ?thesis by (simp add: Let_def z) (simp add: demo_hart_def)
qed

theorem kernelvec_transparent_witness:
  "let x = \<lambda>_ a. a; h = demo_hart Sp 0x4000 Tp 1; h2 = (run x kernelvec_enter h)\<lparr>regs := (regs (run x kernelvec_enter h))(T3 := 0, Tp := 2)\<rparr> in
   regs (run x kernelvec_exit h2) T3 = 7 \<and> regs (run x kernelvec_exit h2) Sp = 0x4000 \<and> regs (run x kernelvec_exit h2) Tp = 2"
proof -
  let ?x = "\<lambda>_ a. a :: uint64" and ?h = "demo_hart Sp 0x4000 Tp 1"
  let ?h2 = "(run ?x kernelvec_enter ?h)\<lparr>regs := (regs (run ?x kernelvec_enter ?h))(T3 := 0, Tp := 2)\<rparr>"
  have m: "reaches ?x (?h\<lparr>regs := (regs ?h)(Sp := regs ?h Sp - 256)\<rparr>) Sp 256 0x3F00" by (simp add: reaches_def maps_def demo_hart_def)
  have r: "regs (run ?x kernelvec_enter ?h) = (regs ?h)(Sp := 0x3F00)" by (simp add: run_def kernelvec_enter_def set_reg_def demo_hart_def)
  have "\<forall>r. regs (run ?x kernelvec_exit ?h2) r = (if r = Tp then regs ?h2 Tp else regs ?h r)"
    using kernelvec_transparent [OF m, of ?h2] r by (simp add: demo_hart_def)
  then show ?thesis by (simp add: Let_def) (simp add: demo_hart_def)
qed


end
