(* ===== verification/Start.thy ===== *)
theory Start
  imports Spinlock
begin

text \<open>
  Machine mode (\<^verbatim>\<open>kernel/start.c\<close>, and the access functions of \<^verbatim>\<open>kernel/riscv.h\<close> it uses): what each hart does between \<open>_entry\<close> and
  \<open>main\<close>. The control and status registers of the hart are a record.
\<close>

section \<open>Registers\<close>

record mregs =
  mhartid :: uint64
  mstatus :: uint64
  mepc :: uint64
  medeleg :: uint64
  mideleg :: uint64
  m_sie :: uint64
  mie :: uint64
  m_satp :: uint64
  pmpaddr0 :: uint64
  pmpcfg0 :: uint64
  menvcfg :: uint64
  mcounteren :: uint64
  m_time :: uint64
  m_stimecmp :: uint64
  m_tp :: uint64

definition MSTATUS_MPP_MASK :: uint64 where "MSTATUS_MPP_MASK = push_bit 11 3"
definition MSTATUS_MPP_S :: uint64 where "MSTATUS_MPP_S = push_bit 11 1"
definition SIE_SEIE :: uint64 where "SIE_SEIE = push_bit 9 1"
definition SIE_STIE :: uint64 where "SIE_STIE = push_bit 5 1"
definition SIE_SSIE :: uint64 where "SIE_SSIE = push_bit 1 1"
definition MIE_STIE :: uint64 where "MIE_STIE = push_bit 5 1"

definition r_mhartid :: "mregs \<Rightarrow> uint64" where "r_mhartid = mhartid"
definition r_mstatus :: "mregs \<Rightarrow> uint64" where "r_mstatus = mstatus"
definition w_mstatus :: "uint64 \<Rightarrow> mregs \<Rightarrow> mregs" where "w_mstatus v s = s\<lparr>mstatus := v\<rparr>"
definition w_mepc :: "uint64 \<Rightarrow> mregs \<Rightarrow> mregs" where "w_mepc v s = s\<lparr>mepc := v\<rparr>"
definition r_sie :: "mregs \<Rightarrow> uint64" where "r_sie = m_sie"
definition w_sie :: "uint64 \<Rightarrow> mregs \<Rightarrow> mregs" where "w_sie v s = s\<lparr>m_sie := v\<rparr>"
definition r_mie :: "mregs \<Rightarrow> uint64" where "r_mie = mie"
definition w_mie :: "uint64 \<Rightarrow> mregs \<Rightarrow> mregs" where "w_mie v s = s\<lparr>mie := v\<rparr>"
definition w_medeleg :: "uint64 \<Rightarrow> mregs \<Rightarrow> mregs" where "w_medeleg v s = s\<lparr>medeleg := v\<rparr>"
definition w_mideleg :: "uint64 \<Rightarrow> mregs \<Rightarrow> mregs" where "w_mideleg v s = s\<lparr>mideleg := v\<rparr>"
definition w_stimecmp :: "uint64 \<Rightarrow> mregs \<Rightarrow> mregs" where "w_stimecmp v s = s\<lparr>m_stimecmp := v\<rparr>"
definition r_menvcfg :: "mregs \<Rightarrow> uint64" where "r_menvcfg = menvcfg"
definition w_menvcfg :: "uint64 \<Rightarrow> mregs \<Rightarrow> mregs" where "w_menvcfg v s = s\<lparr>menvcfg := v\<rparr>"
definition w_pmpcfg0 :: "uint64 \<Rightarrow> mregs \<Rightarrow> mregs" where "w_pmpcfg0 v s = s\<lparr>pmpcfg0 := v\<rparr>"
definition w_pmpaddr0 :: "uint64 \<Rightarrow> mregs \<Rightarrow> mregs" where "w_pmpaddr0 v s = s\<lparr>pmpaddr0 := v\<rparr>"
definition w_satp :: "uint64 \<Rightarrow> mregs \<Rightarrow> mregs" where "w_satp v s = s\<lparr>m_satp := v\<rparr>"
definition w_mcounteren :: "uint64 \<Rightarrow> mregs \<Rightarrow> mregs" where "w_mcounteren v s = s\<lparr>mcounteren := v\<rparr>"
definition r_mcounteren :: "mregs \<Rightarrow> uint64" where "r_mcounteren = mcounteren"
definition r_time :: "mregs \<Rightarrow> uint64" where "r_time = m_time"
definition w_tp :: "uint64 \<Rightarrow> mregs \<Rightarrow> mregs" where "w_tp v s = s\<lparr>m_tp := v\<rparr>"

lemmas csr_defs =
  r_mhartid_def r_mstatus_def w_mstatus_def w_mepc_def r_sie_def w_sie_def r_mie_def w_mie_def w_medeleg_def w_mideleg_def
  w_stimecmp_def r_menvcfg_def w_menvcfg_def w_pmpcfg0_def w_pmpaddr0_def w_satp_def w_mcounteren_def r_mcounteren_def
  r_time_def w_tp_def

section \<open>The code\<close>

definition timerinit :: "mregs \<Rightarrow> mregs" where
  "timerinit s =
     (let s1 = w_mie (r_mie s OR MIE_STIE) s;
          s2 = w_menvcfg (r_menvcfg s1 OR push_bit 63 1) s1;
          s3 = w_mcounteren (r_mcounteren s2 OR 2) s2 in
      w_stimecmp (r_time s3 + 1000000) s3)"

text \<open>\<open>start\<close> up to \<open>mret\<close>; \<open>int id = r_mhartid()\<close> keeps the low 32 bits, which \<open>w_tp\<close> sign-extends.\<close>

definition start :: "uint64 \<Rightarrow> mregs \<Rightarrow> mregs" where
  "start main_addr s =
     (let x = (r_mstatus s AND NOT MSTATUS_MPP_MASK) OR MSTATUS_MPP_S;
          s1 = w_satp 0 (w_mepc main_addr (w_mstatus x s));
          s2 = w_mideleg 0xffff (w_medeleg 0xffff s1);
          s3 = w_sie (r_sie s2 OR SIE_SEIE OR SIE_STIE OR SIE_SSIE) s2;
          s4 = timerinit (w_pmpcfg0 0xf (w_pmpaddr0 0x3fffffffffffff s3)) in
      w_tp (scast (ucast (r_mhartid s4) :: uint)) s4)"

text \<open>\<open>mret\<close> continues at \<open>mepc\<close> in the mode that the field MPP of \<open>mstatus\<close> holds (0 user, 1 supervisor, 3 machine).\<close>

definition mret :: "mregs \<Rightarrow> uint64 \<times> uint64" where
  "mret s = (mepc s, drop_bit 11 (mstatus s) AND 3)"

text \<open>
  C26. Each hart enters \<open>main\<close> in supervisor mode with paging off, its number in \<open>tp\<close>, every trap delegated to supervisor mode, the
  external, timer and software interrupts enabled, all memory accessible, and a timer interrupt due in a million ticks,
  whatever the registers held at reset.
\<close>

theorem start_correct:
  assumes "unat (mhartid s) < 2 ^ 31"
  shows "let t = start main_addr s in mret t = (main_addr, 1) \<and> m_satp t = 0 \<and> m_tp t = mhartid s
    \<and> medeleg t = 0xffff \<and> mideleg t = 0xffff \<and> (\<forall>i \<in> {1, 5, 9}. bit (m_sie t) i) \<and> bit (mie t) 5
    \<and> bit (menvcfg t) 63 \<and> bit (mcounteren t) 1 \<and> m_stimecmp t = m_time s + 1000000 \<and> pmpcfg0 t = 0xf"
proof -
  let ?x = "(mstatus s AND NOT MSTATUS_MPP_MASK) OR MSTATUS_MPP_S"
  have b3: "(3 :: uint64) = mask 2" by (simp add: mask_eq_exp_minus_1)
  have "drop_bit 11 ?x AND 3 = (1 :: uint64)"
    unfolding b3 MSTATUS_MPP_MASK_def MSTATUS_MPP_S_def by (rule bit_eqI) (auto simp: bit_simps simp del: mask_numeral push_bit_numeral)
  moreover have "scast (ucast (mhartid s) :: uint) = mhartid s"
  proof -
    have "\<not> bit (mhartid s) n" if "31 \<le> n" for n
    proof -
      have "unat (mhartid s) < 2 ^ n" using assms that by (metis le_less_trans less_le_trans one_le_numeral order_less_imp_le power_increasing)
      then have "\<not> bit (unat (mhartid s)) n" by (simp add: bit_iff_odd)
      then show ?thesis by (simp add: bit_unsigned_iff)
    qed
    then show ?thesis by (intro bit_eqI) (auto simp: bit_simps min_def)
  qed
  ultimately show ?thesis
    by (simp add: start_def timerinit_def csr_defs Let_def mret_def SIE_SEIE_def SIE_STIE_def SIE_SSIE_def MIE_STIE_def bit_simps)
qed


definition reset_regs :: "uint64 \<Rightarrow> mregs" where
  "reset_regs i = \<lparr>mhartid = i, mstatus = 0x1800, mepc = 0, medeleg = 0, mideleg = 0, m_sie = 0, mie = 0, m_satp = 0, pmpaddr0 = 0,
     pmpcfg0 = 0, menvcfg = 0, mcounteren = 0, m_time = 5, m_stimecmp = 0, m_tp = 0\<rparr>"

theorem start_correct_witness:
  "mret (start 0x80001000 (reset_regs 3)) = (0x80001000, 1) \<and> m_tp (start 0x80001000 (reset_regs 3)) = 3"
  using start_correct [of "reset_regs 3" "0x80001000"] by (simp add: Let_def) (simp add: reset_regs_def)

end
