(* ===== verification/User.thy ===== *)
theory User
  imports Printf
begin

text \<open>
  User programs and their library (\<^verbatim>\<open>user/ulib.c\<close>, \<^verbatim>\<open>user/printf.c\<close>, and the programs \<^verbatim>\<open>cat\<close>, \<^verbatim>\<open>echo\<close>, \<^verbatim>\<open>wc\<close>,
  \<^verbatim>\<open>ls\<close>, \<^verbatim>\<open>kill\<close>, \<^verbatim>\<open>ln\<close>, \<^verbatim>\<open>mkdir\<close>, \<^verbatim>\<open>rm\<close>, \<^verbatim>\<open>init\<close>, \<^verbatim>\<open>zombie\<close> under \<^verbatim>\<open>user/\<close>). A program is its dialogue with the
  kernel: the system calls it makes, given the answers it gets. The answers are a list in the state,
  the calls are recorded in order; a program that asks for more answers than the list has waits.
\<close>

section \<open>Programs\<close>

datatype sysc =
    SRead int nat | SWrite int "byte list" | SOpen "byte list" uint | SClose int | SDup int | SPipe
  | SFork | SExec "byte list" "byte list list" | SWait | SChdir "byte list" | SMkdir "byte list"
  | SUnlink "byte list" | SLink "byte list" "byte list" | SMknod "byte list" int int | SKill int
  | SFstat int | SSleep int | SSbrk int

text \<open>
  The answer of a call: its value, the bytes it delivered (\<open>read\<close>), the descriptors (\<open>pipe\<close>) and the fields \<open>type\<close>,
  \<open>ino\<close>, \<open>size\<close> of \<open>struct stat\<close> (\<open>fstat\<close>) it stored.
\<close>

record resp =
  rv :: int
  rdata :: "byte list"
  rfds :: "int \<times> int"
  rstat :: "ushort \<times> uint \<times> uint64"

text \<open>The answers to come, and the calls made so far, each with its answer.\<close>

record ustate =
  answers :: "resp list"
  calls :: "(sysc \<times> resp) list"

datatype 'a ures = URet 'a ustate | UExit int ustate | UWait

fun ubind :: "'a ures \<Rightarrow> ('a \<Rightarrow> ustate \<Rightarrow> 'b ures) \<Rightarrow> 'b ures" where
  "ubind (URet x s) f = f x s"
| "ubind (UExit c s) f = UExit c s"
| "ubind UWait f = UWait"

lemma ubind_cong [fundef_cong]:
  "m = m' \<Longrightarrow> (\<And>x s. m' = URet x s \<Longrightarrow> f x s = f' x s) \<Longrightarrow> ubind m f = ubind m' f'"
  by (cases m') auto

definition sys :: "sysc \<Rightarrow> ustate \<Rightarrow> resp ures" where
  "sys c s = (case answers s of [] \<Rightarrow> UWait | r # rs \<Rightarrow> URet r \<lparr>answers = rs, calls = calls s @ [(c, r)]\<rparr>)"

definition uexit :: "int \<Rightarrow> ustate \<Rightarrow> 'a ures" where
  "uexit c s = UExit c s"

fun ufor :: "'x list \<Rightarrow> ('x \<Rightarrow> ustate \<Rightarrow> unit ures) \<Rightarrow> ustate \<Rightarrow> unit ures" where
  "ufor [] f s = URet () s"
| "ufor (x # xs) f s = ubind (f x s) (\<lambda>_ s1. ufor xs f s1)"

section \<open>The library\<close>

text \<open>Strings are lists of characters without the NUL.\<close>

fun u_strcmp :: "byte list \<Rightarrow> byte list \<Rightarrow> int" where
  "u_strcmp [] q = - uint (chr0 q)"
| "u_strcmp (c # p) q = (if c = chr0 q then u_strcmp p (tl q) else uint c - uint (chr0 q))"

text \<open>The rest of the string from the first occurrence of the character.\<close>

fun u_strchr :: "byte list \<Rightarrow> byte \<Rightarrow> byte list option" where
  "u_strchr [] c = None"
| "u_strchr (d # s) c = (if d = c then Some (d # s) else u_strchr s c)"

text \<open>\<open>gets\<close>: the line it stores, from at most \<open>k\<close> further characters.\<close>

fun u_gets_loop :: "nat \<Rightarrow> byte list \<Rightarrow> ustate \<Rightarrow> byte list ures" where
  "u_gets_loop 0 line s = URet line s"
| "u_gets_loop (Suc k) line s =
     ubind (sys (SRead 0 1) s) (\<lambda>r s1.
     if rv r < 1 then URet line s1
     else let c = hd (rdata r); line' = line @ [c] in
       if c = 10 \<or> c = 13 then URet line' s1 else u_gets_loop k line' s1)"

definition u_gets :: "nat \<Rightarrow> ustate \<Rightarrow> byte list ures" where
  "u_gets mx s = u_gets_loop (mx - 1) [] s"

definition u_stat :: "byte list \<Rightarrow> ustate \<Rightarrow> resp option ures" where
  "u_stat n s =
     ubind (sys (SOpen n 0) s) (\<lambda>r s1.
     if rv r < 0 then URet None s1
     else ubind (sys (SFstat (rv r)) s1) (\<lambda>st s2.
       ubind (sys (SClose (rv r)) s2) (\<lambda>_ s3. URet (if rv st < 0 then None else Some st) s3)))"

text \<open>\<open>n = n * 10 + *s++ - '0'\<close> (an overflow of the C \<open>int\<close> is not modelled).\<close>

fun u_atoi_loop :: "byte list \<Rightarrow> int \<Rightarrow> int" where
  "u_atoi_loop [] n = n"
| "u_atoi_loop (c # s) n = (if 0x30 \<le> c \<and> c \<le> 0x39 then u_atoi_loop s (n * 10 + uint c - 0x30) else n)"

definition u_atoi :: "byte list \<Rightarrow> int" where
  "u_atoi s = u_atoi_loop s 0"

section \<open>Formatted output\<close>

definition u_putc :: "int \<Rightarrow> byte \<Rightarrow> ustate \<Rightarrow> unit ures" where
  "u_putc fd c s = ubind (sys (SWrite fd [c]) s) (\<lambda>_ s1. URet () s1)"

definition u_digits :: "byte list" where
  "u_digits = chars ''0123456789ABCDEF''"

lemma uint_div_smaller:
  fixes x b :: uint
  assumes "\<not> (x div b = 0 \<or> b < 2)"
  shows "unat (x div b) < unat x"
proof -
  have "1 < unat b" using assms by (simp add: word_less_nat_alt)
  moreover have "x \<noteq> 0" using assms by auto
  then have "0 < unat x" by (simp add: unat_gt_0)
  ultimately show ?thesis by (simp add: unat_div)
qed

function u_printint_loop :: "uint \<Rightarrow> uint \<Rightarrow> byte list \<Rightarrow> byte list" where
  "u_printint_loop x base buf =
     (let buf' = buf @ [u_digits ! unat (x mod base)] in
      if x div base = 0 \<or> base < 2 then buf' else u_printint_loop (x div base) base buf')"
  by pat_completeness auto
termination
  by (relation "measure (\<lambda>(x, base, buf). unat x)") (auto simp only: in_measure split_conv intro: uint_div_smaller)

declare u_printint_loop.simps [simp del]

definition u_printint_buf :: "uint \<Rightarrow> uint \<Rightarrow> bool \<Rightarrow> byte list" where
  "u_printint_buf xx base sg =
     (let neg = (sg \<and> xx <s 0); buf = u_printint_loop (if neg then - xx else xx) base [] in
      if neg then buf @ [of_char (CHR ''-'')] else buf)"

definition u_printint :: "int \<Rightarrow> uint \<Rightarrow> uint \<Rightarrow> bool \<Rightarrow> ustate \<Rightarrow> unit ures" where
  "u_printint fd xx base sg s = ufor (rev (u_printint_buf xx base sg)) (u_putc fd) s"

definition u_printptr :: "int \<Rightarrow> uint64 \<Rightarrow> ustate \<Rightarrow> unit ures" where
  "u_printptr fd x s =
     ufor (chars ''0x'' @ map (\<lambda>i. u_digits ! unat (drop_bit 60 (push_bit (4 * i) x))) [0..<16]) (u_putc fd) s"

text \<open>
  One conversion. The numeric ones pass a 64-bit argument on as an \<open>int\<close>, which drops its upper half.
  A missing argument has no meaning in C; it is \<open>UWait\<close> here.
\<close>

definition u_print_conv :: "int \<Rightarrow> conv \<Rightarrow> varg list \<Rightarrow> ustate \<Rightarrow> varg list ures" where
  "u_print_conv fd c ap s =
     (case c of
        CInt base sg \<Rightarrow>
          (case ap of VWord w # ap' \<Rightarrow> ubind (u_printint fd (ucast w) (ucast base) sg s) (\<lambda>_ s1. URet ap' s1) | _ \<Rightarrow> UWait)
      | CLong base sg \<Rightarrow>
          (case ap of VWord w # ap' \<Rightarrow> ubind (u_printint fd (ucast w) (ucast base) sg s) (\<lambda>_ s1. URet ap' s1) | _ \<Rightarrow> UWait)
      | CPtr \<Rightarrow> (case ap of VWord w # ap' \<Rightarrow> ubind (u_printptr fd w s) (\<lambda>_ s1. URet ap' s1) | _ \<Rightarrow> UWait)
      | CStr \<Rightarrow>
          (case ap of
             VStr p # ap' \<Rightarrow>
               ubind (ufor (case p of None \<Rightarrow> chars ''(null)'' | Some cs \<Rightarrow> cs) (u_putc fd) s) (\<lambda>_ s1. URet ap' s1)
           | _ \<Rightarrow> UWait)
      | CPercent \<Rightarrow> ubind (u_putc fd 0x25 s) (\<lambda>_ s1. URet ap s1)
      | CUnknown c0 \<Rightarrow> ubind (u_putc fd 0x25 s) (\<lambda>_ s1. ubind (u_putc fd c0 s1) (\<lambda>_ s2. URet ap s2)))"

text \<open>
  \<open>vprintf\<close> keeps a state between characters: after a percent sign it looks at the next ones. A format that
  ends in a percent sign prints nothing for it. The tests on \<open>c0\<close>, \<open>c1\<close>, \<open>c2\<close> are those of the kernel's
  \<open>printf\<close>.
\<close>

function u_vprintf :: "int \<Rightarrow> byte list \<Rightarrow> varg list \<Rightarrow> ustate \<Rightarrow> unit ures" where
  "u_vprintf fd [] ap s = URet () s"
| "u_vprintf fd (c # rest) ap s =
     (if c \<noteq> 0x25 then ubind (u_putc fd c s) (\<lambda>_ s1. u_vprintf fd rest ap s1)
      else case conversion rest of
             None \<Rightarrow> URet () s
           | Some (cv, n) \<Rightarrow> ubind (u_print_conv fd cv ap s) (\<lambda>ap' s1. u_vprintf fd (drop n rest) ap' s1))"
  by pat_completeness auto
termination
  by (relation "measure (\<lambda>(fd, fmt, ap, s). length fmt)") auto

definition u_fprintf :: "int \<Rightarrow> byte list \<Rightarrow> varg list \<Rightarrow> ustate \<Rightarrow> unit ures" where
  "u_fprintf fd fmt ap s = u_vprintf fd fmt ap s"

definition u_printf :: "byte list \<Rightarrow> varg list \<Rightarrow> ustate \<Rightarrow> unit ures" where
  "u_printf fmt ap s = u_vprintf 1 fmt ap s"

text \<open>A line of text as a format.\<close>

abbreviation line :: "string \<Rightarrow> byte list" where
  "line cs \<equiv> chars cs @ [10]"

section \<open>Programs\<close>

text \<open>
  A reading loop makes one call per round, so the number of answers bounds its rounds; the loops
  below count them down. The main functions take the arguments after the program's name.
\<close>

fun cat_loop :: "nat \<Rightarrow> int \<Rightarrow> ustate \<Rightarrow> unit ures" where
  "cat_loop 0 fd s = UWait"
| "cat_loop (Suc k) fd s =
     ubind (sys (SRead fd 512) s) (\<lambda>r s1.
     if rv r > 0
     then ubind (sys (SWrite 1 (take (nat (rv r)) (rdata r))) s1) (\<lambda>w s2.
          if rv w \<noteq> rv r then ubind (u_fprintf 2 (line ''cat: write error'') [] s2) (\<lambda>_ s3. uexit 1 s3)
          else cat_loop k fd s2)
     else if rv r < 0 then ubind (u_fprintf 2 (line ''cat: read error'') [] s1) (\<lambda>_ s2. uexit 1 s2)
     else URet () s1)"

definition cat :: "int \<Rightarrow> ustate \<Rightarrow> unit ures" where
  "cat fd s = cat_loop (length (answers s)) fd s"

definition cat_main :: "byte list list \<Rightarrow> ustate \<Rightarrow> unit ures" where
  "cat_main args s =
     (if args = [] then ubind (cat 0 s) (\<lambda>_ s1. uexit 0 s1)
      else ubind (ufor args (\<lambda>a s.
        ubind (sys (SOpen a 0) s) (\<lambda>r s1.
        if rv r < 0 then ubind (u_fprintf 2 (line ''cat: cannot open %s'') [VStr (Some a)] s1) (\<lambda>_ s2. uexit 1 s2)
        else ubind (cat (rv r) s1) (\<lambda>_ s2. ubind (sys (SClose (rv r)) s2) (\<lambda>_ s3. URet () s3)))) s) (\<lambda>_ s1. uexit 0 s1))"

fun echo_loop :: "byte list list \<Rightarrow> ustate \<Rightarrow> unit ures" where
  "echo_loop [] s = URet () s"
| "echo_loop (a # args) s =
     ubind (sys (SWrite 1 a) s) (\<lambda>_ s1.
     ubind (sys (SWrite 1 (if args \<noteq> [] then [0x20] else [10])) s1) (\<lambda>_ s2. echo_loop args s2))"

definition echo_main :: "byte list list \<Rightarrow> ustate \<Rightarrow> unit ures" where
  "echo_main args s = ubind (echo_loop args s) (\<lambda>_ s1. uexit 0 s1)"

text \<open>The counters of \<open>wc\<close>: lines, words, characters, and whether the last character was in a word.\<close>

type_synonym wc_state = "int \<times> int \<times> int \<times> bool"

definition wc_space :: "byte list" where "wc_space = [0x20, 13, 9, 10, 11]"

fun wc_char :: "byte \<Rightarrow> wc_state \<Rightarrow> wc_state" where
  "wc_char b (l, w, c, inword) =
     (let l' = (if b = 10 then l + 1 else l) in
      if u_strchr wc_space b \<noteq> None then (l', w, c + 1, False)
      else if \<not> inword then (l', w + 1, c + 1, True)
      else (l', w, c + 1, inword))"

fun wc_loop :: "nat \<Rightarrow> int \<Rightarrow> wc_state \<Rightarrow> ustate \<Rightarrow> (int \<times> wc_state) ures" where
  "wc_loop 0 fd t s = UWait"
| "wc_loop (Suc k) fd t s =
     ubind (sys (SRead fd 512) s) (\<lambda>r s1.
     if rv r > 0 then wc_loop k fd (fold wc_char (take (nat (rv r)) (rdata r)) t) s1 else URet (rv r, t) s1)"

definition wc :: "int \<Rightarrow> byte list \<Rightarrow> ustate \<Rightarrow> unit ures" where
  "wc fd name s =
     ubind (wc_loop (length (answers s)) fd (0, 0, 0, False) s) (\<lambda>(n, (l, w, c, _)) s1.
     if n < 0 then ubind (u_printf (line ''wc: read error'') [] s1) (\<lambda>_ s2. uexit 1 s2)
     else u_printf (line ''%d %d %d %s'')
            [VWord (of_int l), VWord (of_int w), VWord (of_int c), VStr (Some name)] s1)"

definition wc_main :: "byte list list \<Rightarrow> ustate \<Rightarrow> unit ures" where
  "wc_main args s =
     (if args = [] then ubind (wc 0 [] s) (\<lambda>_ s1. uexit 0 s1)
      else ubind (ufor args (\<lambda>a s.
        ubind (sys (SOpen a 0) s) (\<lambda>r s1.
        if rv r < 0 then ubind (u_printf (line ''wc: cannot open %s'') [VStr (Some a)] s1) (\<lambda>_ s2. uexit 1 s2)
        else ubind (wc (rv r) a s1) (\<lambda>_ s2. ubind (sys (SClose (rv r)) s2) (\<lambda>_ s3. URet () s3)))) s) (\<lambda>_ s1. uexit 0 s1))"

text \<open>
  \<open>fmtname\<close>: the part after the last slash, padded with blanks to \<open>DIRSIZ\<close>. (The static buffer has its last
  byte zero, so the padded name is a string of \<open>DIRSIZ\<close> characters.)
\<close>

definition fmtname :: "byte list \<Rightarrow> byte list" where
  "fmtname path =
     (let p = rev (takeWhile (\<lambda>c. c \<noteq> slash) (rev path)) in
      if length p \<ge> DIRSIZ then p else p @ replicate (DIRSIZ - length p) 0x20)"

definition ls_line :: "byte list \<Rightarrow> resp \<Rightarrow> ustate \<Rightarrow> unit ures" where
  "ls_line path st s =
     (case rstat st of (ty, ino, sz) \<Rightarrow>
        u_printf (line ''%s %d %d %d'') [VStr (Some (fmtname path)), VWord (scast ty), VWord (ucast ino), VWord sz] s)"

fun ls_loop :: "nat \<Rightarrow> int \<Rightarrow> byte list \<Rightarrow> ustate \<Rightarrow> unit ures" where
  "ls_loop 0 fd path s = UWait"
| "ls_loop (Suc k) fd path s =
     ubind (sys (SRead fd 16) s) (\<lambda>r s1.
     if rv r \<noteq> 16 then URet () s1
     else let de = dirent_get (rdata r) in
       if de_inum de = 0 then ls_loop k fd path s1
       else let p = path @ [slash] @ takeWhile (\<lambda>c. c \<noteq> 0) (de_name de) in
         ubind (u_stat p s1) (\<lambda>st s2.
         case st of
           None \<Rightarrow> ubind (u_printf (line ''ls: cannot stat %s'') [VStr (Some p)] s2) (\<lambda>_ s3. ls_loop k fd path s3)
         | Some r2 \<Rightarrow> ubind (ls_line p r2 s2) (\<lambda>_ s3. ls_loop k fd path s3)))"

definition ls :: "byte list \<Rightarrow> ustate \<Rightarrow> unit ures" where
  "ls path s =
     ubind (sys (SOpen path 0) s) (\<lambda>r s1.
     if rv r < 0 then u_fprintf 2 (line ''ls: cannot open %s'') [VStr (Some path)] s1
     else let fd = rv r; close = (\<lambda>s. ubind (sys (SClose fd) s) (\<lambda>_ s'. URet () s')) in
       ubind (sys (SFstat fd) s1) (\<lambda>st s2.
       if rv st < 0
       then ubind (u_fprintf 2 (line ''ls: cannot stat %s'') [VStr (Some path)] s2) (\<lambda>_ s3. close s3)
       else let ty = fst (rstat st) in
         if ty = T_DEVICE \<or> ty = T_FILE then ubind (ls_line path st s2) (\<lambda>_ s3. close s3)
         else if ty = T_DIR
         then if length path + 1 + DIRSIZ + 1 > 512
              then ubind (u_printf (line ''ls: path too long'') [] s2) (\<lambda>_ s3. close s3)
              else ubind (ls_loop (length (answers s2)) fd path s2) (\<lambda>_ s3. close s3)
         else close s2))"

definition ls_main :: "byte list list \<Rightarrow> ustate \<Rightarrow> unit ures" where
  "ls_main args s = ubind (ufor (if args = [] then [[0x2E]] else args) ls s) (\<lambda>_ s1. uexit 0 s1)"

definition kill_main :: "byte list list \<Rightarrow> ustate \<Rightarrow> unit ures" where
  "kill_main args s =
     (if args = [] then ubind (u_fprintf 2 (line ''usage: kill pid...'') [] s) (\<lambda>_ s1. uexit 1 s1)
      else ubind (ufor args (\<lambda>a s. ubind (sys (SKill (u_atoi a)) s) (\<lambda>_ s1. URet () s1)) s) (\<lambda>_ s1. uexit 0 s1))"

definition ln_main :: "byte list list \<Rightarrow> ustate \<Rightarrow> unit ures" where
  "ln_main args s =
     (case args of
        [old, new] \<Rightarrow>
          ubind (sys (SLink old new) s) (\<lambda>r s1.
          ubind (if rv r < 0 then u_fprintf 2 (line ''link %s %s: failed'') [VStr (Some old), VStr (Some new)] s1
                 else URet () s1) (\<lambda>_ s2. uexit 0 s2))
      | _ \<Rightarrow> ubind (u_fprintf 2 (line ''Usage: ln old new'') [] s) (\<lambda>_ s1. uexit 1 s1))"

text \<open>The loops of \<open>mkdir\<close> and \<open>rm\<close> stop at the first failure.\<close>

fun until_failure :: "(byte list \<Rightarrow> sysc) \<Rightarrow> byte list \<Rightarrow> byte list list \<Rightarrow> ustate \<Rightarrow> unit ures" where
  "until_failure c msg [] s = URet () s"
| "until_failure c msg (a # args) s =
     ubind (sys (c a) s) (\<lambda>r s1.
     if rv r < 0 then u_fprintf 2 msg [VStr (Some a)] s1 else until_failure c msg args s1)"

definition mkdir_main :: "byte list list \<Rightarrow> ustate \<Rightarrow> unit ures" where
  "mkdir_main args s =
     (if args = [] then ubind (u_fprintf 2 (line ''Usage: mkdir files...'') [] s) (\<lambda>_ s1. uexit 1 s1)
      else ubind (until_failure SMkdir (line ''mkdir: %s failed to create'') args s) (\<lambda>_ s1. uexit 0 s1))"

definition rm_main :: "byte list list \<Rightarrow> ustate \<Rightarrow> unit ures" where
  "rm_main args s =
     (if args = [] then ubind (u_fprintf 2 (line ''Usage: rm files...'') [] s) (\<lambda>_ s1. uexit 1 s1)
      else ubind (until_failure SUnlink (line ''rm: %s failed to delete'') args s) (\<lambda>_ s1. uexit 0 s1))"

fun init_wait :: "nat \<Rightarrow> int \<Rightarrow> ustate \<Rightarrow> unit ures" where
  "init_wait 0 p s = UWait"
| "init_wait (Suc k) p s =
     ubind (sys SWait s) (\<lambda>r s1.
     if rv r = p then URet () s1
     else if rv r < 0 then ubind (u_printf (line ''init: wait returned an error'') [] s1) (\<lambda>_ s2. uexit 1 s2)
     else init_wait k p s1)"

definition sh_name :: "byte list" where "sh_name = chars ''sh''"

fun init_loop :: "nat \<Rightarrow> ustate \<Rightarrow> unit ures" where
  "init_loop 0 s = UWait"
| "init_loop (Suc k) s =
     ubind (u_printf (line ''init: starting sh'') [] s) (\<lambda>_ s1.
     ubind (sys SFork s1) (\<lambda>r s2.
     if rv r < 0 then ubind (u_printf (line ''init: fork failed'') [] s2) (\<lambda>_ s3. uexit 1 s3)
     else if rv r = 0
     then ubind (sys (SExec sh_name [sh_name]) s2) (\<lambda>_ s3.
          ubind (u_printf (line ''init: exec sh failed'') [] s3) (\<lambda>_ s4. uexit 1 s4))
     else ubind (init_wait (length (answers s2)) (rv r) s2) (\<lambda>_ s3. init_loop k s3)))"

definition init_main :: "ustate \<Rightarrow> unit ures" where
  "init_main s =
     (let con = chars ''console'' in
      ubind (sys (SOpen con 2) s) (\<lambda>r s1.
      ubind (if rv r < 0
             then ubind (sys (SMknod con 1 0) s1) (\<lambda>_ s2. ubind (sys (SOpen con 2) s2) (\<lambda>_ s3. URet () s3))
             else URet () s1) (\<lambda>_ s4.
      ubind (sys (SDup 0) s4) (\<lambda>_ s5.
      ubind (sys (SDup 0) s5) (\<lambda>_ s6. init_loop (length (answers s6)) s6)))))"

definition zombie_main :: "ustate \<Rightarrow> unit ures" where
  "zombie_main s =
     ubind (sys SFork s) (\<lambda>r s1.
     ubind (if rv r > 0 then ubind (sys (SSleep 5) s1) (\<lambda>_ s2. URet () s2) else URet () s1) (\<lambda>_ s3. uexit 0 s3))"

section \<open>What the programs read and write\<close>

text \<open>The bytes a program has received from a descriptor, and those it has passed to \<open>write\<close> on one.\<close>

fun in_bytes :: "int \<Rightarrow> sysc \<times> resp \<Rightarrow> byte list" where
  "in_bytes fd (SRead d n, r) = (if d = fd then take (nat (rv r)) (rdata r) else [])"
| "in_bytes fd (c, r) = []"

fun out_bytes :: "int \<Rightarrow> sysc \<times> resp \<Rightarrow> byte list" where
  "out_bytes fd (SWrite d bs, r) = (if d = fd then bs else [])"
| "out_bytes fd (c, r) = []"

definition received :: "int \<Rightarrow> ustate \<Rightarrow> byte list" where
  "received fd s = concat (map (in_bytes fd) (calls s))"

definition written :: "int \<Rightarrow> ustate \<Rightarrow> byte list" where
  "written fd s = concat (map (out_bytes fd) (calls s))"

lemma sys_URetE:
  assumes "sys c s = URet r s1"
  obtains rs where "answers s = r # rs" "s1 = \<lparr>answers = rs, calls = calls s @ [(c, r)]\<rparr>"
  using assms by (auto simp: sys_def split: list.splits)

lemma ubind_URetE [elim!]:
  assumes "ubind m f = URet y t"
  obtains x s where "m = URet x s" "f x s = URet y t"
  using assms by (cases m) auto

lemma uexit_not_URet [simp]: "uexit c s \<noteq> URet x t"
  by (simp add: uexit_def)

lemma io_sys:
  assumes "sys c s = URet r s1"
  shows "received fd s1 = received fd s @ in_bytes fd (c, r)" "written fd s1 = written fd s @ out_bytes fd (c, r)"
  using assms by (auto simp: received_def written_def elim!: sys_URetE)

lemma cat_copies_loop:
  assumes "cat_loop k fd s = URet () t"
  shows "\<exists>ds. received fd t = received fd s @ ds \<and> written 1 t = written 1 s @ ds"
  using assms
proof (induction k arbitrary: s)
  case (Suc k)
  from Suc.prems obtain r s1 where r: "sys (SRead fd 512) s = URet r s1"
    and rest: "(if rv r > 0
     then ubind (sys (SWrite 1 (take (nat (rv r)) (rdata r))) s1) (\<lambda>w s2.
          if rv w \<noteq> rv r then ubind (u_fprintf 2 (line ''cat: write error'') [] s2) (\<lambda>_ s3. uexit 1 s3)
          else cat_loop k fd s2)
     else if rv r < 0 then ubind (u_fprintf 2 (line ''cat: read error'') [] s1) (\<lambda>_ s2. uexit 1 s2)
     else URet () s1) = URet () t"
    by auto
  show ?case
  proof (cases "rv r > 0")
    case True
    with rest obtain w s2 where w: "sys (SWrite 1 (take (nat (rv r)) (rdata r))) s1 = URet w s2"
      and loop: "cat_loop k fd s2 = URet () t"
      by (auto split: if_splits)
    from Suc.IH [OF loop] io_sys [OF r, of fd] io_sys [OF w, of fd] io_sys [OF r, of 1] io_sys [OF w, of 1]
    show ?thesis by auto
  next
    case False
    with rest io_sys [OF r, of fd] io_sys [OF r, of 1] show ?thesis by (auto split: if_splits)
  qed
qed simp

fun wordcount :: "bool \<Rightarrow> byte list \<Rightarrow> nat" where
  "wordcount inword [] = 0"
| "wordcount inword (b # bs) =
     (if b \<in> set wc_space then wordcount False bs else (if inword then 0 else 1) + wordcount True bs)"

lemma u_strchr_None [simp]: "u_strchr s c = None \<longleftrightarrow> c \<notin> set s"
  by (induction s) auto

lemma wc_fold:
  "fold wc_char bs (l, w, c, i) = (l', w', c', i') \<Longrightarrow>
   l' = l + int (count_list bs 10) \<and> w' = w + int (wordcount i bs) \<and> c' = c + int (length bs)"
proof (induction bs arbitrary: l w c i)
  case (Cons b bs)
  show ?case
  proof (cases "b \<in> set wc_space")
    case True
    then have "wc_char b (l, w, c, i) = ((if b = 10 then l + 1 else l), w, c + 1, False)"
      by (simp add: Let_def del: not_None_eq)
    with Cons.prems Cons.IH [of "if b = 10 then l + 1 else l" w "c + 1" False] True show ?thesis by auto
  next
    case False
    then have "wc_char b (l, w, c, i) = ((if b = 10 then l + 1 else l), (if i then w else w + 1), c + 1, True)"
      by (simp add: Let_def del: not_None_eq)
    with Cons.prems Cons.IH [of "if b = 10 then l + 1 else l" "if i then w else w + 1" "c + 1" True] False
    show ?thesis by auto
  qed
qed simp

lemma wc_loop_counts:
  assumes "wc_loop k fd st s = URet (n, st') t"
  shows "\<exists>ds. received fd t = received fd s @ ds \<and> st' = fold wc_char ds st \<and> n \<le> 0"
  using assms
proof (induction k arbitrary: s st)
  case (Suc k)
  from Suc.prems obtain r s1 where r: "sys (SRead fd 512) s = URet r s1"
    and rest: "(if rv r > 0 then wc_loop k fd (fold wc_char (take (nat (rv r)) (rdata r)) st) s1 else URet (rv r, st) s1)
       = URet (n, st') t"
    by auto
  show ?case
  proof (cases "rv r > 0")
    case True
    with rest have "wc_loop k fd (fold wc_char (take (nat (rv r)) (rdata r)) st) s1 = URet (n, st') t" by simp
    from Suc.IH [OF this] obtain ds where ds: "received fd t = received fd s1 @ ds"
      "st' = fold wc_char ds (fold wc_char (take (nat (rv r)) (rdata r)) st)" "n \<le> 0" by blast
    show ?thesis
      by (rule exI [of _ "take (nat (rv r)) (rdata r) @ ds"]) (use ds io_sys(1) [OF r, of fd] in simp)
  next
    case False
    with rest io_sys(1) [OF r, of fd] show ?thesis by auto
  qed
qed simp


definition rd :: "byte list \<Rightarrow> resp" where
  "rd bs = \<lparr>rv = int (length bs), rdata = bs, rfds = (0, 0), rstat = (0, 0, 0)\<rparr>"


end
