(* ===== verification/Shell.thy ===== *)
theory Shell
  imports User
begin

text \<open>
  The shell (\<^verbatim>\<open>user/sh.c\<close>). The parser works on positions in the command line, as the C code works on
  pointers into its buffer: a token is a pair of positions, and \<open>nulterminate\<close> turns the tokens into C
  strings by storing NUL bytes in the line. The end of the line is \<open>es\<close>, the length of the string.
\<close>

section \<open>Commands\<close>

text \<open>The commands, with the positions \<open>(argv[i], eargv[i])\<close> and \<open>(file, efile)\<close> of their words.\<close>

datatype cmd =
    ExecCmd "(nat \<times> nat) list"
  | RedirCmd cmd nat nat uint int
  | PipeCmd cmd cmd
  | ListCmd cmd cmd
  | BackCmd cmd

abbreviation (input) MAXARGS :: nat where "MAXARGS \<equiv> 10"

definition whitespace :: "byte list" where "whitespace = [0x20, 9, 13, 10, 11]"
definition symbols :: "byte list" where "symbols = chars ''<|>&;()''"

definition is_ws :: "byte \<Rightarrow> bool" where "is_ws c \<longleftrightarrow> u_strchr whitespace c \<noteq> None"
definition is_sym :: "byte \<Rightarrow> bool" where "is_sym c \<longleftrightarrow> u_strchr symbols c \<noteq> None"

section \<open>Tokens\<close>

text \<open>The character at a position; the NUL that ends the line.\<close>

definition ch_at :: "byte list \<Rightarrow> nat \<Rightarrow> byte" where
  "ch_at ln i = (if i < length ln then ln ! i else 0)"

function scan_while :: "(byte \<Rightarrow> bool) \<Rightarrow> byte list \<Rightarrow> nat \<Rightarrow> nat" where
  "scan_while P ln s = (if s < length ln \<and> P (ln ! s) then scan_while P ln (Suc s) else s)"
  by pat_completeness auto
termination
  by (relation "measure (\<lambda>(P, ln, s). length ln - s)") auto

declare scan_while.simps [simp del]

definition skip_ws :: "byte list \<Rightarrow> nat \<Rightarrow> nat" where
  "skip_ws ln s = scan_while is_ws ln s"

text \<open>\<open>gettoken\<close> returns the kind of token, the positions \<open>q\<close> and \<open>eq\<close>, and the new position.\<close>

definition gettoken :: "byte list \<Rightarrow> nat \<Rightarrow> byte \<times> nat \<times> nat \<times> nat" where
  "gettoken ln ps =
     (let q = skip_ws ln ps; c = ch_at ln q;
          (ret, eq) =
            (if c = 0 then (0, q)
             else if c \<in> set (chars ''|();&<'') then (c, q + 1)
             else if c = of_char (CHR ''>'')
             then (if ch_at ln (q + 1) = of_char (CHR ''>'') then (of_char (CHR ''+''), q + 2) else (c, q + 1))
             else (of_char (CHR ''a''), scan_while (\<lambda>c. \<not> is_ws c \<and> \<not> is_sym c) ln q))
      in (ret, q, eq, skip_ws ln eq))"

definition peek :: "byte list \<Rightarrow> nat \<Rightarrow> byte list \<Rightarrow> bool \<times> nat" where
  "peek ln ps toks =
     (let s = skip_ws ln ps in (ch_at ln s \<noteq> 0 \<and> u_strchr toks (ch_at ln s) \<noteq> None, s))"

section \<open>The parser\<close>

text \<open>
  A parsing function returns a result and the new position, or ends in \<open>panic\<close> with a message. The
  functions call each other; a counter bounds the number of calls, and \<open>PMore\<close> is the result when it is
  used up. (Theorem \<open>parse_total\<close> shows that the bound of \<open>parsecmd\<close> is never reached.)
\<close>

datatype 'a pres = POk 'a nat | PErr string | PMore

fun pbind :: "'a pres \<Rightarrow> ('a \<Rightarrow> nat \<Rightarrow> 'b pres) \<Rightarrow> 'b pres" where
  "pbind (POk x i) f = f x i"
| "pbind (PErr e) f = PErr e"
| "pbind PMore f = PMore"

definition next_pos :: "byte list \<Rightarrow> nat \<Rightarrow> nat" where
  "next_pos ln i = (case gettoken ln i of (_, _, _, j) \<Rightarrow> j)"

fun parseredirs :: "nat \<Rightarrow> byte list \<Rightarrow> cmd \<Rightarrow> nat \<Rightarrow> cmd pres" where
  "parseredirs 0 ln c ps = PMore"
| "parseredirs (Suc n) ln c ps =
     (case peek ln ps (chars ''<>'') of
        (False, i) \<Rightarrow> POk c i
      | (True, i) \<Rightarrow>
          (case gettoken ln i of (tok, _, _, j) \<Rightarrow>
           case gettoken ln j of (tok2, q, eq, k) \<Rightarrow>
             if tok2 \<noteq> of_char (CHR ''a'') then PErr ''missing file for redirection''
             else if tok = of_char (CHR ''<'') then parseredirs n ln (RedirCmd c q eq 0 0) k
             else if tok = of_char (CHR ''>'') then parseredirs n ln (RedirCmd c q eq 0x601 1) k
             else parseredirs n ln (RedirCmd c q eq 0x201 1) k))"

text \<open>The loop over \<open>&\<close> in \<open>parseline\<close>.\<close>

fun parseback :: "nat \<Rightarrow> byte list \<Rightarrow> cmd \<Rightarrow> nat \<Rightarrow> cmd pres" where
  "parseback 0 ln c ps = PMore"
| "parseback (Suc n) ln c ps =
     (case peek ln ps (chars ''&'') of
        (False, i) \<Rightarrow> POk c i
      | (True, i) \<Rightarrow> parseback n ln (BackCmd c) (next_pos ln i))"

text \<open>
  The loop of \<open>parseexec\<close>. The \<open>execcmd\<close> is the innermost command and gets its arguments while redirections
  are wrapped around it; \<open>add_arg\<close> is the assignment to \<open>argv[argc]\<close> and \<open>eargv[argc]\<close>.
\<close>

fun add_arg :: "nat \<times> nat \<Rightarrow> cmd \<Rightarrow> cmd" where
  "add_arg a (ExecCmd as) = ExecCmd (as @ [a])"
| "add_arg a (RedirCmd c q eq m fd) = RedirCmd (add_arg a c) q eq m fd"
| "add_arg a c = c"

fun parseargs :: "nat \<Rightarrow> byte list \<Rightarrow> cmd \<Rightarrow> nat \<Rightarrow> nat \<Rightarrow> cmd pres" where
  "parseargs 0 ln c argc ps = PMore"
| "parseargs (Suc n) ln c argc ps =
     (case peek ln ps (chars ''|)&;'') of
        (True, i) \<Rightarrow> POk c i
      | (False, i) \<Rightarrow>
          (case gettoken ln i of (tok, q, eq, j) \<Rightarrow>
             if tok = 0 then POk c j
             else if tok \<noteq> of_char (CHR ''a'') then PErr ''syntax''
             else if argc + 1 \<ge> MAXARGS then PErr ''too many args''
             else pbind (parseredirs n ln (add_arg (q, eq) c) j) (\<lambda>c' k. parseargs n ln c' (argc + 1) k)))"

fun parseline :: "nat \<Rightarrow> byte list \<Rightarrow> nat \<Rightarrow> cmd pres"
and parsepipe :: "nat \<Rightarrow> byte list \<Rightarrow> nat \<Rightarrow> cmd pres"
and parseexec :: "nat \<Rightarrow> byte list \<Rightarrow> nat \<Rightarrow> cmd pres"
and parseblock :: "nat \<Rightarrow> byte list \<Rightarrow> nat \<Rightarrow> cmd pres"
where
  "parseline 0 ln ps = PMore"
| "parseline (Suc n) ln ps =
     pbind (parsepipe n ln ps) (\<lambda>c i.
     pbind (parseback n ln c i) (\<lambda>c j.
     case peek ln j (chars '';'') of
       (False, k) \<Rightarrow> POk c k
     | (True, k) \<Rightarrow> pbind (parseline n ln (next_pos ln k)) (\<lambda>d m. POk (ListCmd c d) m)))"
| "parsepipe 0 ln ps = PMore"
| "parsepipe (Suc n) ln ps =
     pbind (parseexec n ln ps) (\<lambda>c i.
     case peek ln i (chars ''|'') of
       (False, j) \<Rightarrow> POk c j
     | (True, j) \<Rightarrow> pbind (parsepipe n ln (next_pos ln j)) (\<lambda>d k. POk (PipeCmd c d) k))"
| "parseexec 0 ln ps = PMore"
| "parseexec (Suc n) ln ps =
     (case peek ln ps (chars ''('') of
        (True, i) \<Rightarrow> parseblock n ln i
      | (False, i) \<Rightarrow> pbind (parseredirs n ln (ExecCmd []) i) (\<lambda>c j. parseargs n ln c 0 j))"
| "parseblock 0 ln ps = PMore"
| "parseblock (Suc n) ln ps =
     (case peek ln ps (chars ''('') of
        (False, i) \<Rightarrow> PErr ''parseblock''
      | (True, i) \<Rightarrow>
          pbind (parseline n ln (next_pos ln i)) (\<lambda>c j.
          case peek ln j (chars '')'') of
            (False, k) \<Rightarrow> PErr ''syntax - missing )''
          | (True, k) \<Rightarrow> parseredirs n ln c (next_pos ln k)))"

text \<open>The bytes \<open>nulterminate\<close> stores, on the line with its final NUL.\<close>

fun nulterminate :: "cmd \<Rightarrow> byte list \<Rightarrow> byte list" where
  "nulterminate (ExecCmd as) b = fold (\<lambda>(q, eq) b. b[eq := 0]) as b"
| "nulterminate (RedirCmd c q eq m fd) b = (nulterminate c b)[eq := 0]"
| "nulterminate (PipeCmd c d) b = nulterminate d (nulterminate c b)"
| "nulterminate (ListCmd c d) b = nulterminate d (nulterminate c b)"
| "nulterminate (BackCmd c) b = nulterminate c b"

definition parse_fuel :: "byte list \<Rightarrow> nat" where
  "parse_fuel ln = 5 * length ln + 10"

section \<open>Running commands\<close>

text \<open>The C string at a position of the line.\<close>

definition str_at :: "byte list \<Rightarrow> nat \<Rightarrow> byte list" where
  "str_at b q = takeWhile (\<lambda>c. c \<noteq> 0) (drop q b)"

definition sh_panic :: "string \<Rightarrow> ustate \<Rightarrow> 'a ures" where
  "sh_panic msg s = ubind (u_fprintf 2 (line ''%s'') [VStr (Some (chars msg))] s) (\<lambda>_ s1. uexit 1 s1)"

text \<open>\<open>parsecmd\<close>: the command, and the line after \<open>nulterminate\<close>.\<close>

definition parsecmd :: "byte list \<Rightarrow> ustate \<Rightarrow> (cmd \<times> byte list) ures" where
  "parsecmd ln s =
     (case parseline (parse_fuel ln) ln 0 of
        PMore \<Rightarrow> UWait
      | PErr msg \<Rightarrow> sh_panic msg s
      | POk c i \<Rightarrow>
          let p = snd (peek ln i []) in
          if p \<noteq> length ln
          then ubind (u_fprintf 2 (line ''leftovers: %s'') [VStr (Some (drop p ln))] s) (\<lambda>_ s1. sh_panic ''syntax'' s1)
          else URet (c, nulterminate c (ln @ [0])) s)"

definition fork1 :: "ustate \<Rightarrow> int ures" where
  "fork1 s = ubind (sys SFork s) (\<lambda>r s1. if rv r = -1 then sh_panic ''fork'' s1 else URet (rv r) s1)"

definition sys0 :: "sysc \<Rightarrow> ustate \<Rightarrow> unit ures" where
  "sys0 c s = ubind (sys c s) (\<lambda>_ s1. URet () s1)"

fun runcmd :: "byte list \<Rightarrow> cmd \<Rightarrow> ustate \<Rightarrow> unit ures" where
  "runcmd b (ExecCmd as) s =
     (if as = [] then uexit 1 s
      else let argv = map (\<lambda>(q, _). str_at b q) as in
        ubind (sys (SExec (hd argv) argv) s) (\<lambda>_ s1.
        ubind (u_fprintf 2 (line ''exec %s failed'') [VStr (Some (hd argv))] s1) (\<lambda>_ s2. uexit 0 s2)))"
| "runcmd b (RedirCmd c q eq m fd) s =
     ubind (sys0 (SClose fd) s) (\<lambda>_ s1.
     ubind (sys (SOpen (str_at b q) m) s1) (\<lambda>r s2.
     if rv r < 0
     then ubind (u_fprintf 2 (line ''open %s failed'') [VStr (Some (str_at b q))] s2) (\<lambda>_ s3. uexit 1 s3)
     else runcmd b c s2))"
| "runcmd b (ListCmd c d) s =
     ubind (fork1 s) (\<lambda>p s1.
     if p = 0 then runcmd b c s1 else ubind (sys0 SWait s1) (\<lambda>_ s2. runcmd b d s2))"
| "runcmd b (PipeCmd c d) s =
     ubind (sys SPipe s) (\<lambda>r s1.
     if rv r < 0 then sh_panic ''pipe'' s1
     else let (p0, p1) = rfds r in
       ubind (fork1 s1) (\<lambda>p s2.
       if p = 0
       then ubind (sys0 (SClose 1) s2) (\<lambda>_ s3. ubind (sys0 (SDup p1) s3) (\<lambda>_ s4.
            ubind (sys0 (SClose p0) s4) (\<lambda>_ s5. ubind (sys0 (SClose p1) s5) (\<lambda>_ s6. runcmd b c s6))))
       else ubind (fork1 s2) (\<lambda>p s3.
         if p = 0
         then ubind (sys0 (SClose 0) s3) (\<lambda>_ s4. ubind (sys0 (SDup p0) s4) (\<lambda>_ s5.
              ubind (sys0 (SClose p0) s5) (\<lambda>_ s6. ubind (sys0 (SClose p1) s6) (\<lambda>_ s7. runcmd b d s7))))
         else ubind (sys0 (SClose p0) s3) (\<lambda>_ s4. ubind (sys0 (SClose p1) s4) (\<lambda>_ s5.
              ubind (sys0 SWait s5) (\<lambda>_ s6. ubind (sys0 SWait s6) (\<lambda>_ s7. uexit 0 s7)))))))"
| "runcmd b (BackCmd c) s =
     ubind (fork1 s) (\<lambda>p s1. if p = 0 then runcmd b c s1 else uexit 0 s1)"

section \<open>The main loop\<close>

text \<open>\<open>getcmd\<close> returns the line, empty at the end of the input.\<close>

definition getcmd :: "nat \<Rightarrow> ustate \<Rightarrow> byte list ures" where
  "getcmd nbuf s = ubind (sys0 (SWrite 2 (chars ''$ '')) s) (\<lambda>_ s1. u_gets nbuf s1)"

definition run_line :: "byte list \<Rightarrow> ustate \<Rightarrow> unit ures" where
  "run_line ln s = ubind (parsecmd ln s) (\<lambda>(c, b) s1. runcmd b c s1)"

fun open_console :: "nat \<Rightarrow> ustate \<Rightarrow> unit ures" where
  "open_console 0 s = UWait"
| "open_console (Suc k) s =
     ubind (sys (SOpen (chars ''console'') 2) s) (\<lambda>r s1.
     if rv r < 0 then URet () s1
     else if rv r \<ge> 3 then sys0 (SClose (rv r)) s1
     else open_console k s1)"

fun sh_loop :: "nat \<Rightarrow> ustate \<Rightarrow> unit ures" where
  "sh_loop 0 s = UWait"
| "sh_loop (Suc k) s =
     ubind (getcmd 100 s) (\<lambda>ln s1.
     if ln = [] \<or> hd ln = 0 then uexit 0 s1
     else let str = takeWhile (\<lambda>c. c \<noteq> 0) ln in
       if take 3 ln = chars ''cd ''
       then let dir = drop 3 (butlast str) in
         ubind (sys (SChdir dir) s1) (\<lambda>r s2.
         ubind (if rv r < 0 then u_fprintf 2 (line ''cannot cd %s'') [VStr (Some dir)] s2 else URet () s2) (\<lambda>_ s3.
         sh_loop k s3))
       else ubind (fork1 s1) (\<lambda>p s2.
         if p = 0 then run_line str s2 else ubind (sys0 SWait s2) (\<lambda>_ s3. sh_loop k s3)))"

definition sh_main :: "ustate \<Rightarrow> unit ures" where
  "sh_main s = ubind (open_console (length (answers s)) s) (\<lambda>_ s1. sh_loop (length (answers s1)) s1)"

section \<open>Tokens make progress\<close>

lemma scan_while_ge: "s \<le> scan_while P ln s"
  by (induction P ln s rule: scan_while.induct) (subst scan_while.simps, auto)

lemma scan_while_le: "s \<le> length ln \<Longrightarrow> scan_while P ln s \<le> length ln"
  by (induction P ln s rule: scan_while.induct) (subst scan_while.simps, auto)

lemma scan_while_all: "s \<le> i \<Longrightarrow> i < scan_while P ln s \<Longrightarrow> i < length ln \<and> P (ln ! i)"
proof (induction P ln s rule: scan_while.induct)
  case (1 P ln s)
  show ?case
  proof (cases "s < length ln \<and> P (ln ! s)")
    case True
    with 1 show ?thesis by (subst (asm) (2) scan_while.simps) (cases "i = s", auto)
  next
    case False
    with 1 show ?thesis by (subst (asm) scan_while.simps) auto
  qed
qed

lemma scan_while_cases:
  "s < length ln \<and> P (ln ! s) \<Longrightarrow> scan_while P ln s = scan_while P ln (Suc s)"
  "\<not> (s < length ln \<and> P (ln ! s)) \<Longrightarrow> scan_while P ln s = s"
  by (subst scan_while.simps, simp)+

lemma scan_while_stop: "scan_while P ln s < length ln \<Longrightarrow> \<not> P (ln ! scan_while P ln s)"
proof (induction P ln s rule: scan_while.induct)
  case (1 P ln s)
  show ?case
  proof (cases "s < length ln \<and> P (ln ! s)")
    case True
    with 1 show ?thesis by (simp add: scan_while_cases(1))
  next
    case False
    with 1(2) show ?thesis by (simp add: scan_while_cases(2))
  qed
qed

lemma scan_while_step: "s < length ln \<Longrightarrow> P (ln ! s) \<Longrightarrow> s < scan_while P ln s"
  by (subst scan_while.simps) (use scan_while_ge [of "Suc s" P ln] in auto)

lemma skip_ws_bounds: "s \<le> skip_ws ln s" "s \<le> length ln \<Longrightarrow> skip_ws ln s \<le> length ln"
  by (simp_all add: skip_ws_def scan_while_ge scan_while_le)

lemma skip_ws_stop: "skip_ws ln s < length ln \<Longrightarrow> \<not> is_ws (ln ! skip_ws ln s)"
  by (simp add: skip_ws_def scan_while_stop)

lemma ch_at_nonzero: "ch_at ln i \<noteq> 0 \<Longrightarrow> i < length ln \<and> ch_at ln i = ln ! i"
  by (simp add: ch_at_def split: if_splits)

text \<open>The words of a command: nonempty, free of white space and symbols, and followed by one or by the end.\<close>

definition word_at :: "byte list \<Rightarrow> nat \<times> nat \<Rightarrow> bool" where
  "word_at ln w \<longleftrightarrow> (case w of (q, eq) \<Rightarrow> q < eq \<and> eq \<le> length ln
     \<and> (\<forall>i. q \<le> i \<and> i < eq \<longrightarrow> \<not> is_ws (ln ! i) \<and> \<not> is_sym (ln ! i))
     \<and> (eq < length ln \<longrightarrow> is_ws (ln ! eq) \<or> is_sym (ln ! eq)))"

lemma is_sym_iff: "is_sym c \<longleftrightarrow> c \<in> set symbols"
  by (simp add: is_sym_def del: not_None_eq)

lemma symbols_eq: "symbols = [0x3C, 0x7C, 0x3E, 0x26, 0x3B, 0x28, 0x29]"
  by (simp add: symbols_def chars_def)

lemma token_chars: "set (chars ''|();&<'') = {0x7C, 0x28, 0x29, 0x3B, 0x26, 0x3C}"
  by (simp add: chars_def)

lemma token_codes: "of_char (CHR ''>'') = (0x3E :: byte)" "of_char (CHR ''+'') = (0x2B :: byte)" "of_char (CHR ''a'') = (0x61 :: byte)"
  "of_char (CHR ''<'') = (0x3C :: byte)"
  by simp_all

lemma gettoken_word:
  assumes "gettoken ln i = (0x61, q, eq, j)" and "i \<le> length ln"
  shows "word_at ln (q, eq) \<and> i < j \<and> j \<le> length ln"
proof -
  let ?P = "\<lambda>c. \<not> is_ws c \<and> \<not> is_sym c"
  have q: "q = skip_ws ln i" using assms by (auto simp: gettoken_def Let_def split: prod.splits)
  have eq: "eq = scan_while ?P ln q" and j: "j = skip_ws ln eq" and c: "ch_at ln q \<noteq> 0"
    and ns: "ch_at ln q \<notin> set (chars ''|();&<'')" "ch_at ln q \<noteq> 0x3E"
    using assms(1) unfolding gettoken_def Let_def q [symmetric] token_codes token_chars
    by (auto split: if_splits prod.splits)
  have lt: "q < length ln" and c': "ch_at ln q = ln ! q" using ch_at_nonzero [OF c] by auto
  have P: "?P (ln ! q)"
    using skip_ws_stop [of ln i] lt ns c' by (auto simp: q [symmetric] is_sym_iff symbols_eq token_chars)
  have "q < eq" unfolding eq using lt P by (intro scan_while_step)
  moreover have le: "eq \<le> length ln" unfolding eq using lt by (intro scan_while_le) simp
  moreover have "eq < length ln \<longrightarrow> is_ws (ln ! eq) \<or> is_sym (ln ! eq)"
    using scan_while_stop [of ?P ln q] eq by auto
  moreover have "\<forall>k. q \<le> k \<and> k < eq \<longrightarrow> ?P (ln ! k)"
    using scan_while_all [of q _ ?P ln] eq by auto
  moreover have "i \<le> q" "eq \<le> j" using skip_ws_bounds(1) q j by simp_all
  moreover have "j \<le> length ln" unfolding j using le by (rule skip_ws_bounds(2))
  ultimately show ?thesis by (simp add: word_at_def)
qed

lemma next_pos_progress:
  assumes "ch_at ln (skip_ws ln i) \<noteq> 0" and "i \<le> length ln"
  shows "i < next_pos ln i \<and> next_pos ln i \<le> length ln"
proof -
  obtain tok q eq j where g: "gettoken ln i = (tok, q, eq, j)" by (cases "gettoken ln i") auto
  then have q: "q = skip_ws ln i" and j: "j = skip_ws ln eq" by (auto simp: gettoken_def Let_def split: prod.splits)
  have lt: "q < length ln" using ch_at_nonzero assms(1) q by blast
  have "q < eq \<and> eq \<le> length ln"
  proof (cases "tok = 0x61")
    case True
    with gettoken_word [OF g [unfolded True]] assms(2) show ?thesis by (simp add: word_at_def)
  next
    case False
    with g assms(1) q lt ch_at_nonzero [of ln "q + 1"] show ?thesis
      unfolding gettoken_def Let_def q [symmetric] token_codes
      by (auto split: if_splits prod.splits)
  qed
  with skip_ws_bounds [of eq ln] skip_ws_bounds(1) [of i ln] j q show ?thesis by (simp add: next_pos_def g)
qed

lemma peek_bounds: "peek ln i ts = (b, j) \<Longrightarrow> i \<le> j" "peek ln i ts = (b, j) \<Longrightarrow> i \<le> length ln \<Longrightarrow> j \<le> length ln"
  using skip_ws_bounds by (auto simp: peek_def Let_def)

lemma skip_ws_twice [simp]: "skip_ws ln (skip_ws ln s) = skip_ws ln s"
  using scan_while_stop [of is_ws ln s] unfolding skip_ws_def by (subst scan_while.simps) auto

lemma peek_True: "peek ln i ts = (True, j) \<Longrightarrow> i \<le> length ln \<Longrightarrow> i \<le> j \<and> j < next_pos ln j \<and> next_pos ln j \<le> length ln"
  using next_pos_progress [of ln j] peek_bounds(2) [of ln i ts True j] skip_ws_bounds(1) [of i ln]
  by (auto simp: peek_def Let_def)

section \<open>The parser ends, and its words are words of the line\<close>

fun words :: "cmd \<Rightarrow> (nat \<times> nat) list" where
  "words (ExecCmd as) = as"
| "words (RedirCmd c q eq m fd) = words c @ [(q, eq)]"
| "words (PipeCmd c d) = words c @ words d"
| "words (ListCmd c d) = words c @ words d"
| "words (BackCmd c) = words c"

abbreviation words_ok :: "byte list \<Rightarrow> cmd \<Rightarrow> bool" where
  "words_ok ln c \<equiv> \<forall>w \<in> set (words c). word_at ln w"

text \<open>
  \<open>parsed ln ps need n r\<close>: the result \<open>r\<close> of a parsing function called at \<open>ps\<close> with bound \<open>n\<close> is a command of
  words further on in the line, or a message, or \<open>n\<close> is less than \<open>need\<close>.
\<close>

definition parsed :: "byte list \<Rightarrow> nat \<Rightarrow> nat \<Rightarrow> nat \<Rightarrow> cmd pres \<Rightarrow> bool" where
  "parsed ln ps need n r \<longleftrightarrow>
     (case r of
        PMore \<Rightarrow> n < need
      | PErr e \<Rightarrow> True
      | POk c j \<Rightarrow> ps \<le> j \<and> j \<le> length ln \<and> words_ok ln c)"

lemma parsed_simps [simp]:
  "parsed ln ps need n PMore \<longleftrightarrow> n < need" "parsed ln ps need n (PErr e)"
  "parsed ln ps need n (POk c j) \<longleftrightarrow> ps \<le> j \<and> j \<le> length ln \<and> words_ok ln c"
  by (simp_all add: parsed_def)

lemma parsed_weaken:
  "parsed ln ps need n r \<Longrightarrow> ps' \<le> ps \<Longrightarrow> n' < need' \<or> need \<le> n \<Longrightarrow> parsed ln ps' need' n' r"
  by (cases r) auto

lemma parsed_bind:
  assumes "parsed ln ps need n m"
    and "n' < need' \<or> need \<le> n"
    and "\<And>c j. m = POk c j \<Longrightarrow> ps \<le> j \<Longrightarrow> j \<le> length ln \<Longrightarrow> words_ok ln c \<Longrightarrow> parsed ln ps' need' n' (f c j)"
  shows "parsed ln ps' need' n' (pbind m f)"
  using assms by (cases m) auto

lemma gettoken_bounds:
  assumes "gettoken ln i = (tok, q, eq, j)" and "i \<le> length ln"
  shows "i \<le> j \<and> j \<le> length ln"
proof (cases "ch_at ln (skip_ws ln i) = 0")
  case True
  with assms skip_ws_bounds [of i ln] show ?thesis by (auto simp: gettoken_def Let_def)
next
  case False
  with next_pos_progress [OF False assms(2)] assms(1) show ?thesis by (simp add: next_pos_def)
qed

lemma parseredirs_ok:
  "ps \<le> length ln \<Longrightarrow> words_ok ln c \<Longrightarrow> parsed ln ps (length ln - ps + 1) n (parseredirs n ln c ps)"
proof (induction n arbitrary: c ps)
  case (Suc n)
  obtain b i where p: "peek ln ps (chars ''<>'') = (b, i)" by force
  note pb = peek_bounds [OF p]
  show ?case
  proof (cases b)
    case False
    with p pb Suc.prems show ?thesis by simp
  next
    case True
    with p have p': "peek ln ps (chars ''<>'') = (True, i)" by simp
    note pt = peek_True [OF p' Suc.prems(1)]
    obtain tok q0 eq0 j where g: "gettoken ln i = (tok, q0, eq0, j)" by (cases "gettoken ln i") auto
    with pt have j: "ps < j" "j \<le> length ln" by (auto simp: next_pos_def)
    obtain tok2 q eq k where g2: "gettoken ln j = (tok2, q, eq, k)" by (cases "gettoken ln j") auto
    show ?thesis
    proof (cases "tok2 = 0x61")
      case False
      with p True g g2 show ?thesis by simp
    next
      case tok2: True
      from gettoken_word [OF g2 [unfolded tok2] j(2)] have w: "word_at ln (q, eq)" and k: "j < k" "k \<le> length ln" by auto
      have IH: "parsed ln ps (length ln - ps + 1) (Suc n) (parseredirs n ln (RedirCmd c q eq m fd) k)" for m fd
        by (rule parsed_weaken [OF Suc.IH [of k "RedirCmd c q eq m fd"]]) (use Suc.prems(2) w k j in auto)
      show ?thesis using p True g g2 tok2 IH by simp
    qed
  qed
qed simp

lemma parseback_ok:
  "ps \<le> length ln \<Longrightarrow> words_ok ln c \<Longrightarrow> parsed ln ps (length ln - ps + 1) n (parseback n ln c ps)"
proof (induction n arbitrary: c ps)
  case (Suc n)
  obtain b i where p: "peek ln ps (chars ''&'') = (b, i)" by force
  show ?case
  proof (cases b)
    case False
    with p peek_bounds [OF p] Suc.prems show ?thesis by simp
  next
    case True
    with p have p': "peek ln ps (chars ''&'') = (True, i)" by simp
    note pt = peek_True [OF p' Suc.prems(1)]
    have "parsed ln ps (length ln - ps + 1) (Suc n) (parseback n ln (BackCmd c) (next_pos ln i))"
      by (rule parsed_weaken [OF Suc.IH [of "next_pos ln i" "BackCmd c"]]) (use Suc.prems(2) pt in auto)
    with p True show ?thesis by simp
  qed
qed simp

lemma words_add_arg: "set (words (add_arg w c)) \<subseteq> insert w (set (words c))"
  by (induction w c rule: add_arg.induct) auto

lemma parseargs_ok:
  "ps \<le> length ln \<Longrightarrow> words_ok ln c \<Longrightarrow> parsed ln ps (length ln - ps + 1) n (parseargs n ln c argc ps)"
proof (induction n arbitrary: c argc ps)
  case (Suc n)
  obtain b i where p: "peek ln ps (chars ''|)&;'') = (b, i)" by force
  note pb = peek_bounds(1) [OF p] peek_bounds(2) [OF p Suc.prems(1)]
  show ?case
  proof (cases b)
    case True
    with p pb Suc.prems show ?thesis by simp
  next
    case False
    obtain tok q eq j where g: "gettoken ln i = (tok, q, eq, j)" by (cases "gettoken ln i") auto
    note gb = gettoken_bounds [OF g pb(2)]
    show ?thesis
    proof (cases "tok = 0x61 \<and> argc + 1 < MAXARGS")
      case False
      with p g \<open>\<not> b\<close> pb gb Suc.prems show ?thesis by auto
    next
      case True
      with gettoken_word [of ln i q eq j] g pb(2) have w: "word_at ln (q, eq)" and j: "i < j" "j \<le> length ln" by auto
      have ok: "words_ok ln (add_arg (q, eq) c)" using words_add_arg [of "(q, eq)" c] Suc.prems(2) w by blast
      have "parsed ln ps (length ln - ps + 1) (Suc n)
         (pbind (parseredirs n ln (add_arg (q, eq) c) j) (\<lambda>c' k. parseargs n ln c' (argc + 1) k))"
      proof (rule parsed_bind [OF parseredirs_ok [OF j(2) ok]])
        show "Suc n < length ln - ps + 1 \<or> length ln - j + 1 \<le> n" using j pb by auto
        fix c' k
        assume k: "j \<le> k" "k \<le> length ln" "words_ok ln c'"
        show "parsed ln ps (length ln - ps + 1) (Suc n) (parseargs n ln c' (argc + 1) k)"
          by (rule parsed_weaken [OF Suc.IH [OF k(2,3)]]) (use k(1) j pb in auto)
      qed
      with p \<open>\<not> b\<close> g True show ?thesis by simp
    qed
  qed
qed simp


text \<open>The functions that call each other, together.\<close>

lemma parse_ok:
  "ps \<le> length ln \<Longrightarrow> parsed ln ps (4 * (length ln - ps) + 6) n (parseline n ln ps)"
  "ps \<le> length ln \<Longrightarrow> parsed ln ps (4 * (length ln - ps) + 5) n (parsepipe n ln ps)"
  "ps \<le> length ln \<Longrightarrow> parsed ln ps (4 * (length ln - ps) + 4) n (parseexec n ln ps)"
  "ps \<le> length ln \<Longrightarrow> parsed ln ps (4 * (length ln - ps) + 3) n (parseblock n ln ps)"
proof (induction n arbitrary: ps)
  case (Suc n)
  { case 1
    show ?case unfolding parseline.simps
    proof (rule parsed_bind [OF Suc.IH(2) [OF 1]])
      fix c i
      assume i: "ps \<le> i" "i \<le> length ln" "words_ok ln c"
      show "parsed ln ps (4 * (length ln - ps) + 6) (Suc n)
         (pbind (parseback n ln c i) (\<lambda>c j. case peek ln j (chars '';'') of
             (False, k) \<Rightarrow> POk c k
           | (True, k) \<Rightarrow> pbind (parseline n ln (next_pos ln k)) (\<lambda>d m. POk (ListCmd c d) m)))"
      proof (rule parsed_bind [OF parseback_ok [OF i(2,3)]])
        fix c j
        assume j: "i \<le> j" "j \<le> length ln" "words_ok ln c"
        obtain b k where p: "peek ln j (chars '';'') = (b, k)" by force
        show "parsed ln ps (4 * (length ln - ps) + 6) (Suc n)
          (case peek ln j (chars '';'') of
             (False, k) \<Rightarrow> POk c k
           | (True, k) \<Rightarrow> pbind (parseline n ln (next_pos ln k)) (\<lambda>d m. POk (ListCmd c d) m))"
        proof (cases b)
          case False
          with p peek_bounds [OF p] i j show ?thesis by simp
        next
          case True
          with p have pt: "j \<le> k \<and> k < next_pos ln k \<and> next_pos ln k \<le> length ln" using peek_True [OF _ j(2)] by simp
          have "parsed ln ps (4 * (length ln - ps) + 6) (Suc n)
             (pbind (parseline n ln (next_pos ln k)) (\<lambda>d m. POk (ListCmd c d) m))"
            by (rule parsed_bind [OF Suc.IH(1)]) (use pt i j in auto)
          with p True show ?thesis by simp
        qed
      qed (use i in auto)
    qed auto }
  { case 2
    show ?case unfolding parsepipe.simps
    proof (rule parsed_bind [OF Suc.IH(3) [OF 2]])
      fix c i
      assume i: "ps \<le> i" "i \<le> length ln" "words_ok ln c"
      obtain b j where p: "peek ln i (chars ''|'') = (b, j)" by force
      show "parsed ln ps (4 * (length ln - ps) + 5) (Suc n)
        (case peek ln i (chars ''|'') of
           (False, j) \<Rightarrow> POk c j
         | (True, j) \<Rightarrow> pbind (parsepipe n ln (next_pos ln j)) (\<lambda>d k. POk (PipeCmd c d) k))"
      proof (cases b)
        case False
        with p peek_bounds [OF p] i show ?thesis by simp
      next
        case True
        with p have pt: "i \<le> j \<and> j < next_pos ln j \<and> next_pos ln j \<le> length ln" using peek_True [OF _ i(2)] by simp
        have "parsed ln ps (4 * (length ln - ps) + 5) (Suc n)
           (pbind (parsepipe n ln (next_pos ln j)) (\<lambda>d k. POk (PipeCmd c d) k))"
          by (rule parsed_bind [OF Suc.IH(2)]) (use pt i in auto)
        with p True show ?thesis by simp
      qed
    qed auto }
  { case 3
    obtain b i where p: "peek ln ps (chars ''('') = (b, i)" by force
    note pb = peek_bounds(1) [OF p] peek_bounds(2) [OF p 3]
    show ?case
    proof (cases b)
      case True
      have "parsed ln ps (4 * (length ln - ps) + 4) (Suc n) (parseblock n ln i)"
        by (rule parsed_weaken [OF Suc.IH(4) [OF pb(2)]]) (use pb in auto)
      with p True show ?thesis by simp
    next
      case False
      have "parsed ln ps (4 * (length ln - ps) + 4) (Suc n)
         (pbind (parseredirs n ln (ExecCmd []) i) (\<lambda>c j. parseargs n ln c 0 j))"
      proof (rule parsed_bind [OF parseredirs_ok [OF pb(2)]])
        fix c j
        assume j: "i \<le> j" "j \<le> length ln" "words_ok ln c"
        show "parsed ln ps (4 * (length ln - ps) + 4) (Suc n) (parseargs n ln c 0 j)"
          by (rule parsed_weaken [OF parseargs_ok [OF j(2,3)]]) (use j pb in auto)
      qed (use pb in auto)
      with p False show ?thesis by simp
    qed }
  { case 4
    obtain b i where p: "peek ln ps (chars ''('') = (b, i)" by force
    show ?case
    proof (cases b)
      case False
      with p show ?thesis by simp
    next
      case True
      with p have pt: "ps \<le> i \<and> i < next_pos ln i \<and> next_pos ln i \<le> length ln" using peek_True [OF _ 4] by simp
      have "parsed ln ps (4 * (length ln - ps) + 3) (Suc n)
         (pbind (parseline n ln (next_pos ln i)) (\<lambda>c j.
          case peek ln j (chars '')'') of
            (False, k) \<Rightarrow> PErr ''syntax - missing )''
          | (True, k) \<Rightarrow> parseredirs n ln c (next_pos ln k)))"
      proof (rule parsed_bind [OF Suc.IH(1)])
        fix c j
        assume j: "next_pos ln i \<le> j" "j \<le> length ln" "words_ok ln c"
        obtain b' k where p': "peek ln j (chars '')'') = (b', k)" by force
        show "parsed ln ps (4 * (length ln - ps) + 3) (Suc n)
          (case peek ln j (chars '')'') of
            (False, k) \<Rightarrow> PErr ''syntax - missing )''
          | (True, k) \<Rightarrow> parseredirs n ln c (next_pos ln k))"
        proof (cases b')
          case True
          with p' have pt': "j \<le> k \<and> k < next_pos ln k \<and> next_pos ln k \<le> length ln" using peek_True [OF _ j(2)] by simp
          have "parsed ln ps (4 * (length ln - ps) + 3) (Suc n) (parseredirs n ln c (next_pos ln k))"
            by (rule parsed_weaken [OF parseredirs_ok]) (use pt pt' j in auto)
          with p' True show ?thesis by simp
        qed (simp add: p')
      qed (use pt in auto)
      with p True show ?thesis by simp
    qed }
qed simp_all

lemma nth_update_at: "j < length xs \<Longrightarrow> xs[i := x] ! j = (if i = j then x else xs ! j)"
  by simp

lemma zero_words: "length (fold (\<lambda>(q, eq) b. b[eq := 0]) as b) = length b"
  "i < length b \<Longrightarrow> fold (\<lambda>(q, eq) b. b[eq := 0]) as b ! i = (if i \<in> snd ` set as then 0 else b ! i :: byte)"
  by (induction as arbitrary: b) (auto simp: nth_update_at rev_image_eqI)

lemma nulterminate_length [simp]: "length (nulterminate c b) = length b"
  by (induction c arbitrary: b) (auto simp: zero_words)

lemma nulterminate_nth: "i < length b \<Longrightarrow> nulterminate c b ! i = (if i \<in> snd ` set (words c) then 0 else b ! i)"
  by (induction c arbitrary: b) (simp_all add: zero_words nth_update_at image_Un)

lemma word_not_end: "word_at ln (q, eq) \<Longrightarrow> word_at ln (q', eq') \<Longrightarrow> q \<le> i \<Longrightarrow> i < eq \<Longrightarrow> i \<noteq> eq'"
  by (auto simp: word_at_def)

lemma str_at_upto: "q \<le> e \<Longrightarrow> e < length b \<Longrightarrow> b ! e = 0 \<Longrightarrow> (\<And>i. q \<le> i \<Longrightarrow> i < e \<Longrightarrow> b ! i \<noteq> 0) \<Longrightarrow>
    str_at b q = take (e - q) (drop q b)"
  unfolding str_at_def by (rule takeWhile_eq_take_P_nth) auto

lemma nulterminate_str:
  assumes ok: "words_ok ln c" and nul: "0 \<notin> set ln" and w: "(q, eq) \<in> set (words c)"
  shows "str_at (nulterminate c (ln @ [0])) q = take (eq - q) (drop q ln)"
proof -
  let ?b = "nulterminate c (ln @ [0])"
  have wa: "word_at ln (q, eq)" using ok w by blast
  have in_word: "?b ! i = ln ! i" "ln ! i \<noteq> 0" if "q \<le> i" "i < eq" for i
  proof -
    have "i \<notin> snd ` set (words c)" using ok word_not_end [OF wa _ that] by fastforce
    with that wa show "?b ! i = ln ! i" by (simp add: nulterminate_nth nth_append word_at_def)
    show "ln ! i \<noteq> 0" using that wa nul by (metis (mono_tags, lifting) case_prodD nth_mem order_less_le_trans word_at_def)
  qed
  have "?b ! eq = 0" using wa w by (force simp: nulterminate_nth word_at_def)
  then have "str_at ?b q = take (eq - q) (drop q ?b)"
    by (intro str_at_upto) (use wa in_word in \<open>auto simp: word_at_def\<close>)
  also have "\<dots> = take (eq - q) (drop q ln)"
    by (rule nth_equalityI) (use wa in_word in \<open>auto simp: word_at_def\<close>)
  finally show ?thesis .
qed

text \<open>
  C30. The shell's parser ends on every line: the bound that \<open>parsecmd\<close> puts on the number of nested calls, and any
  larger one, is never used up, so that a line gives a command or one of the error messages. (The functions of the
  parser call each other in a cycle, and only the progress that \<open>gettoken\<close> makes in the line ends it.)
\<close>

theorem parse_total: "parseline (parse_fuel ln + k) ln 0 \<noteq> PMore"
  using parse_ok(1) [of 0 ln "parse_fuel ln + k"] by (cases "parseline (parse_fuel ln + k) ln 0") (auto simp: parse_fuel_def)



end
