(* ===== verification/Grep.thy ===== *)
theory Grep
  imports User
begin

text \<open>
  The matcher and the line filter of \<^verbatim>\<open>user/grep.c\<close>. Patterns and texts are C strings, lists of characters
  without the NUL; the buffer of the filter is its first \<open>m\<close> bytes, which may hold any byte.
\<close>

section \<open>The matcher\<close>

abbreviation (input) c_star :: byte where "c_star \<equiv> 0x2A"
abbreviation (input) c_dot :: byte where "c_dot \<equiv> 0x2E"
abbreviation (input) c_dollar :: byte where "c_dollar \<equiv> 0x24"
abbreviation (input) c_caret :: byte where "c_caret \<equiv> 0x5E"

function matchhere :: "byte list \<Rightarrow> byte list \<Rightarrow> bool" and matchstar :: "byte \<Rightarrow> byte list \<Rightarrow> byte list \<Rightarrow> bool" where
  "matchhere re text =
     (case re of
        [] \<Rightarrow> True
      | c # re1 \<Rightarrow>
          if chr0 re1 = c_star then matchstar c (tl re1) text
          else if c = c_dollar \<and> re1 = [] then text = []
          else (case text of [] \<Rightarrow> False | t # text1 \<Rightarrow> (c = c_dot \<or> c = t) \<and> matchhere re1 text1))"
| "matchstar c re text =
     (if matchhere re text then True
      else (case text of [] \<Rightarrow> False | t # text1 \<Rightarrow> (t = c \<or> c = c_dot) \<and> matchstar c re text1))"
  by pat_completeness auto
termination
  by (relation "inv_image (less_than <*lex*> less_than <*lex*> less_than) (\<lambda>x. case x of
        Inl (re, text) \<Rightarrow> (length re, length text, 0)
      | Inr (c, re, text) \<Rightarrow> (length re, length text, 1 :: nat))")
    (auto simp: chr0_def split: list.splits)

declare matchhere.simps [simp del] matchstar.simps [simp del]

fun match_from :: "byte list \<Rightarrow> byte list \<Rightarrow> bool" where
  "match_from re [] = matchhere re []"
| "match_from re (t # text) = (matchhere re (t # text) \<or> match_from re text)"

definition match :: "byte list \<Rightarrow> byte list \<Rightarrow> bool" where
  "match re text = (if chr0 re = c_caret then matchhere (tl re) text else match_from re text)"

section \<open>The filter\<close>

abbreviation (input) GREP_BUF :: nat where "GREP_BUF \<equiv> 1024"

text \<open>
  The inner loop: the lines it writes, and what is left after the last newline. \<open>strchr\<close> does not look
  beyond a NUL byte of the input.
\<close>

function grep_lines :: "byte list \<Rightarrow> byte list \<Rightarrow> byte list list \<times> byte list" where
  "grep_lines pat p =
     (case u_strchr (takeWhile (\<lambda>c. c \<noteq> 0) p) 10 of
        None \<Rightarrow> ([], p)
      | Some q \<Rightarrow>
          let l = takeWhile (\<lambda>c. c \<noteq> 10) p; (out, rest) = grep_lines pat (drop (length l + 1) p) in
          (if match pat l then (l @ [10]) # out else out, rest))"
  by pat_completeness auto
termination
proof (relation "measure (\<lambda>(pat, p). length p)", goal_cases)
  case (2 pat p q l)
  then have "p \<noteq> []" by auto
  then show ?case by simp
qed simp

declare grep_lines.simps [simp del]

fun grep_loop :: "nat \<Rightarrow> byte list \<Rightarrow> int \<Rightarrow> byte list \<Rightarrow> ustate \<Rightarrow> unit ures" where
  "grep_loop 0 pat fd b s = UWait"
| "grep_loop (Suc k) pat fd b s =
     ubind (sys (SRead fd (GREP_BUF - length b - 1)) s) (\<lambda>r s1.
     if rv r > 0
     then let (out, rest) = grep_lines pat (b @ take (nat (rv r)) (rdata r)) in
       ubind (ufor out (\<lambda>l s. ubind (sys (SWrite 1 l) s) (\<lambda>_ s2. URet () s2)) s1) (\<lambda>_ s2. grep_loop k pat fd rest s2)
     else URet () s1)"

definition grep :: "byte list \<Rightarrow> int \<Rightarrow> ustate \<Rightarrow> unit ures" where
  "grep pat fd s = grep_loop (length (answers s)) pat fd [] s"

definition grep_main :: "byte list list \<Rightarrow> ustate \<Rightarrow> unit ures" where
  "grep_main args s =
     (case args of
        [] \<Rightarrow> ubind (u_fprintf 2 (line ''usage: grep pattern [file ...]'') [] s) (\<lambda>_ s1. uexit 1 s1)
      | [pat] \<Rightarrow> ubind (grep pat 0 s) (\<lambda>_ s1. uexit 0 s1)
      | pat # fs \<Rightarrow>
          ubind (ufor fs (\<lambda>a s.
            ubind (sys (SOpen a 0) s) (\<lambda>r s1.
            if rv r < 0 then ubind (u_printf (line ''grep: cannot open %s'') [VStr (Some a)] s1) (\<lambda>_ s2. uexit 1 s2)
            else ubind (grep pat (rv r) s1) (\<lambda>_ s2. ubind (sys (SClose (rv r)) s2) (\<lambda>_ s3. URet () s3)))) s) (\<lambda>_ s1. uexit 0 s1))"

section \<open>Patterns and what they match\<close>

datatype item = IOne byte | IStar byte | IEnd

text \<open>The items of a pattern, as the C code reads them.\<close>

fun items :: "byte list \<Rightarrow> item list" where
  "items [] = []"
| "items [c] = (if c = c_dollar then [IEnd] else [IOne c])"
| "items (c # d # re) = (if d = c_star then IStar c # items re else IOne c # items (d # re))"

definition fits :: "byte \<Rightarrow> byte \<Rightarrow> bool" where
  "fits c t \<longleftrightarrow> c = c_dot \<or> c = t"

text \<open>\<open>denotes is u r\<close>: the items match the text \<open>u\<close> when it is followed by \<open>r\<close>.\<close>

inductive denotes :: "item list \<Rightarrow> byte list \<Rightarrow> byte list \<Rightarrow> bool" where
  nil: "denotes [] [] r"
| one: "fits c t \<Longrightarrow> denotes is u r \<Longrightarrow> denotes (IOne c # is) (t # u) r"
| star: "(\<forall>t \<in> set v. fits c t) \<Longrightarrow> denotes is u r \<Longrightarrow> denotes (IStar c # is) (v @ u) r"
| at_end: "denotes is [] [] \<Longrightarrow> denotes (IEnd # is) [] []"

inductive_cases denotes_nilE [elim!]: "denotes [] u r"
inductive_cases denotes_oneE [elim]: "denotes (IOne c # is) u r"
inductive_cases denotes_starE: "denotes (IStar c # is) u r"
inductive_cases denotes_endE [elim!]: "denotes (IEnd # is) u r"

definition prefix_matches :: "item list \<Rightarrow> byte list \<Rightarrow> bool" where
  "prefix_matches is tt \<longleftrightarrow> (\<exists>u r. tt = u @ r \<and> denotes is u r)"

lemma prefix_matches_Nil [simp]: "prefix_matches [] tt"
  by (auto simp: prefix_matches_def intro: denotes.nil)

lemma prefix_matches_End [simp]: "prefix_matches [IEnd] tt \<longleftrightarrow> tt = []"
  by (auto simp: prefix_matches_def intro: denotes.intros)

lemma prefix_matches_One [simp]:
  "prefix_matches (IOne c # is) tt \<longleftrightarrow> (\<exists>t ts. tt = t # ts \<and> fits c t \<and> prefix_matches is ts)"
proof
  assume "\<exists>t ts. tt = t # ts \<and> fits c t \<and> prefix_matches is ts"
  then obtain t ts u r where "tt = t # ts" "fits c t" "ts = u @ r" "denotes is u r"
    unfolding prefix_matches_def by blast
  moreover from this have "denotes (IOne c # is) (t # u) r" by (intro denotes.one)
  ultimately have "tt = (t # u) @ r \<and> denotes (IOne c # is) (t # u) r" by simp
  then show "prefix_matches (IOne c # is) tt" unfolding prefix_matches_def by (intro exI)
next
  assume "prefix_matches (IOne c # is) tt"
  then obtain u r where "tt = u @ r" "denotes (IOne c # is) u r" unfolding prefix_matches_def by (elim exE conjE)
  then show "\<exists>t ts. tt = t # ts \<and> fits c t \<and> prefix_matches is ts"
    unfolding prefix_matches_def by (elim denotes_oneE) (simp, intro exI conjI, (rule refl | assumption)+)
qed

lemma prefix_matches_Star:
  "prefix_matches (IStar c # is) tt \<longleftrightarrow>
     prefix_matches is tt \<or> (\<exists>t ts. tt = t # ts \<and> fits c t \<and> prefix_matches (IStar c # is) ts)"
  (is "?L tt \<longleftrightarrow> ?M tt \<or> ?R")
proof
  assume "?L tt"
  then obtain v u r where t: "tt = v @ u @ r" and v: "\<forall>t \<in> set v. fits c t" and d: "denotes is u r"
    by (auto simp: prefix_matches_def elim!: denotes_starE)
  show "?M tt \<or> ?R"
  proof (cases v)
    case Nil
    with t d show ?thesis by (auto simp: prefix_matches_def)
  next
    case (Cons a w)
    with v d have "denotes (IStar c # is) (w @ u) r" by (auto intro: denotes.star)
    with Cons t v show ?thesis by (auto simp: prefix_matches_def)
  qed
next
  assume "?M tt \<or> ?R"
  then show "?L tt"
  proof
    assume "?M tt"
    then obtain u r where "tt = u @ r" "denotes is u r" by (auto simp: prefix_matches_def)
    with denotes.star [of "[]" c "is" u r] show ?thesis by (auto simp: prefix_matches_def)
  next
    assume ?R
    then obtain t v u r where t: "tt = t # (v @ u) @ r" and f: "fits c t" and v: "\<forall>t \<in> set v. fits c t" and d: "denotes is u r"
      by (auto simp: prefix_matches_def elim!: denotes_starE)
    from f v d have "denotes (IStar c # is) ((t # v) @ u) r" by (intro denotes.star) auto
    moreover from t have "tt = ((t # v) @ u) @ r" by simp
    ultimately show ?thesis unfolding prefix_matches_def by (intro exI conjI)
  qed
qed

lemma items_Cons: "re \<noteq> [] \<Longrightarrow> hd re \<noteq> c_star \<Longrightarrow> items (c # re) = IOne c # items re"
  by (cases re) auto

lemma matcher_items:
  "matchhere re tt \<longleftrightarrow> prefix_matches (items re) tt"
  "matchstar c re' tt' \<longleftrightarrow> prefix_matches (IStar c # items re') tt'"
proof (induction re tt and c re' tt' rule: matchhere_matchstar.induct)
  case (1 re tt)
  show ?case
  proof (cases re)
    case Nil
    then show ?thesis by (simp add: matchhere.simps)
  next
    case (Cons c re1)
    show ?thesis
    proof (cases re1)
      case Nil
      show ?thesis
      proof (cases "c = c_dollar")
        case True
        with Nil Cons show ?thesis by (simp add: matchhere.simps chr0_def)
      next
        case False
        have "matchhere [] ts" for ts by (simp add: matchhere.simps)
        with False Nil Cons show ?thesis
          by (subst matchhere.simps) (auto simp: chr0_def fits_def split: list.splits)
      qed
    next
      case (Cons d re2)
      show ?thesis
      proof (cases "d = c_star")
        case True
        with Cons 1(1) [OF \<open>re = c # re1\<close>] \<open>re = c # re1\<close> show ?thesis
          by (subst matchhere.simps) (simp add: chr0_def)
      next
        case False
        with Cons \<open>re = c # re1\<close> have "items re = IOne c # items re1" by simp
        with Cons False 1(2) [OF \<open>re = c # re1\<close>] \<open>re = c # re1\<close> show ?thesis
          by (subst matchhere.simps) (auto simp: chr0_def fits_def split: list.splits)
      qed
    qed
  qed
next
  case (2 c re tt)
  show ?case
    unfolding matchstar.simps [of c re tt] prefix_matches_Star [of c _ tt]
    using 2 by (auto simp: fits_def split: list.splits)
qed

lemma suffix_Cons_iff: "(\<exists>v w. t # ts = v @ w \<and> P w) \<longleftrightarrow> P (t # ts) \<or> (\<exists>v w. ts = v @ w \<and> P w)"
proof
  assume "\<exists>v w. t # ts = v @ w \<and> P w"
  then obtain v w where "t # ts = v @ w" "P w" by blast
  then show "P (t # ts) \<or> (\<exists>v w. ts = v @ w \<and> P w)" by (cases v) auto
next
  assume "P (t # ts) \<or> (\<exists>v w. ts = v @ w \<and> P w)"
  then show "\<exists>v w. t # ts = v @ w \<and> P w" by (metis append_Cons append_Nil)
qed

lemma match_from_iff: "match_from re tt \<longleftrightarrow> (\<exists>v w. tt = v @ w \<and> prefix_matches (items re) w)"
proof (induction tt)
  case Nil
  show ?case by (simp add: matcher_items(1))
next
  case (Cons t tt)
  show ?case by (simp only: match_from.simps Cons.IH matcher_items(1) suffix_Cons_iff)
qed

text \<open>
  C32. The backtracking matcher decides the language of patterns: without a leading caret it accepts
  exactly the texts some part of which the items of the pattern denote, with a caret those with such a
  prefix. A star takes any number of fitting characters, a dollar sign at the end of the pattern
  stands for the end of the text.
\<close>

theorem match_correct:
  "match re tt \<longleftrightarrow>
     (if chr0 re = c_caret then \<exists>u r. tt = u @ r \<and> denotes (items (tl re)) u r
      else \<exists>v u r. tt = v @ u @ r \<and> denotes (items re) u r)"
  by (auto simp: match_def matcher_items(1) match_from_iff prefix_matches_def)

section \<open>The filter over a whole input\<close>

text \<open>The complete lines of a text (without their newlines), and what follows the last newline.\<close>

fun lines_of :: "byte list \<Rightarrow> byte list list \<times> byte list" where
  "lines_of [] = ([], [])"
| "lines_of (c # cs) =
     (let (ls, r) = lines_of cs in
      if c = 10 then ([] # ls, r)
      else case ls of [] \<Rightarrow> ([], c # r) | l # ls' \<Rightarrow> ((c # l) # ls', r))"

lemma lines_of_append:
  "lines_of (p @ d) = (fst (lines_of p) @ fst (lines_of (snd (lines_of p) @ d)), snd (lines_of (snd (lines_of p) @ d)))"
  by (induction p) (auto simp: Let_def split_beta split: list.splits prod.splits)

lemma lines_of_line: "10 \<notin> set l \<Longrightarrow> lines_of (l @ 10 # p) = (l # fst (lines_of p), snd (lines_of p))"
  by (induction l) (auto simp: Let_def split_beta)

lemma lines_of_none: "10 \<notin> set p \<Longrightarrow> lines_of p = ([], p)"
  by (induction p) auto

lemma lines_of_split:
  assumes "10 \<in> set p"
  shows "lines_of p = (takeWhile (\<lambda>c. c \<noteq> 10) p # fst (lines_of (drop (length (takeWhile (\<lambda>c. c \<noteq> 10) p) + 1) p)),
    snd (lines_of (drop (length (takeWhile (\<lambda>c. c \<noteq> 10) p) + 1) p)))"
proof -
  obtain l p' where p: "p = l @ 10 # p'" and l: "10 \<notin> set l" using split_list_first [OF assms] by blast
  from l have "x \<noteq> 10" if "x \<in> set l" for x using that by blast
  then have "takeWhile (\<lambda>c. c \<noteq> 10) p = l" unfolding p by (subst takeWhile_append2) simp_all
  moreover from this p have "drop (length (takeWhile (\<lambda>c. c \<noteq> 10) p) + 1) p = p'" by simp
  ultimately show ?thesis using lines_of_line [OF l, of p'] p by simp
qed

lemma rest_subset: "set (snd (lines_of p)) \<subseteq> set p"
  by (induction p) (auto simp: Let_def split_beta split: list.splits)

abbreviation matching :: "byte list \<Rightarrow> byte list \<Rightarrow> byte list list" where
  "matching pat p \<equiv> map (\<lambda>l. l @ [10]) (filter (match pat) (fst (lines_of p)))"

lemma takeWhile_id: "0 \<notin> set p \<Longrightarrow> takeWhile (\<lambda>c. c \<noteq> (0 :: byte)) p = p"
  by (simp add: takeWhile_eq_all_conv) blast

lemma grep_lines_correct: "0 \<notin> set p \<Longrightarrow> grep_lines pat p = (matching pat p, snd (lines_of p))"
proof (induction pat p rule: grep_lines.induct)
  case (1 pat p)
  show ?case
  proof (cases "10 \<in> set p")
    case False
    then have n: "u_strchr p 10 = None" by simp
    show ?thesis
      unfolding grep_lines.simps [of pat p] takeWhile_id [OF 1(2)] n by (simp add: False lines_of_none)
  next
    case True
    then obtain q where q: "u_strchr p 10 = Some q" by (cases "u_strchr p 10") auto
    let ?l = "takeWhile (\<lambda>c. c \<noteq> 10) p" and ?p' = "drop (length (takeWhile (\<lambda>c. c \<noteq> 10) p) + 1) p"
    have ls: "lines_of p = (?l # fst (lines_of ?p'), snd (lines_of ?p'))"
      by (rule lines_of_split [OF True])
    have "0 \<notin> set ?p'" using 1(2) in_set_dropD by fastforce
    with 1(1) [of q ?l] q 1(2) have "grep_lines pat ?p' = (matching pat ?p', snd (lines_of ?p'))"
      by (simp add: takeWhile_id)
    with q 1(2) ls show ?thesis
      by (subst grep_lines.simps) (simp add: takeWhile_id Let_def)
  qed
qed

lemma write_all:
  assumes "ufor outs (\<lambda>l s. ubind (sys (SWrite 1 l) s) (\<lambda>_ s2. URet () s2)) s = URet () t"
  shows "written 1 t = written 1 s @ concat outs \<and> received fd t = received fd s"
  using assms
proof (induction outs arbitrary: s)
  case (Cons l outs)
  from Cons.prems obtain r s1 where r: "sys (SWrite 1 l) s = URet r s1"
    and "ufor outs (\<lambda>l s. ubind (sys (SWrite 1 l) s) (\<lambda>_ s2. URet () s2)) s1 = URet () t" by auto
  with Cons.IH [OF this(2)] io_sys [OF r, of 1] io_sys [OF r, of fd] show ?case by simp
qed simp

lemma grep_received: "grep_loop k pat fd b s = URet () t \<Longrightarrow> \<exists>ds. received fd t = received fd s @ ds"
proof (induction k arbitrary: s b)
  case (Suc k)
  from Suc.prems obtain r s1 where r: "sys (SRead fd (GREP_BUF - length b - 1)) s = URet r s1"
    and rest: "(if rv r > 0
     then let (out, rest) = grep_lines pat (b @ take (nat (rv r)) (rdata r)) in
       ubind (ufor out (\<lambda>l s. ubind (sys (SWrite 1 l) s) (\<lambda>_ s2. URet () s2)) s1) (\<lambda>_ s2. grep_loop k pat fd rest s2)
     else URet () s1) = URet () t"
    by auto
  show ?case
  proof (cases "rv r > 0")
    case True
    obtain out rs where g: "grep_lines pat (b @ take (nat (rv r)) (rdata r)) = (out, rs)" by force
    with rest True obtain s2 where w: "ufor out (\<lambda>l s. ubind (sys (SWrite 1 l) s) (\<lambda>_ s2. URet () s2)) s1 = URet () s2"
      and loop: "grep_loop k pat fd rs s2 = URet () t" by auto
    from Suc.IH [OF loop] write_all [OF w, of fd] io_sys(1) [OF r, of fd] show ?thesis by auto
  next
    case False
    with rest io_sys(1) [OF r, of fd] show ?thesis by simp
  qed
qed simp

lemma grep_loop_correct:
  assumes "grep_loop k pat fd b s = URet () t" and "0 \<notin> set (received fd t)" and "b = snd (lines_of (received fd s))"
    and "written 1 s = concat (matching pat (received fd s))"
  shows "written 1 t = concat (matching pat (received fd t))"
  using assms
proof (induction k arbitrary: s b)
  case (Suc k)
  from Suc.prems(1) obtain r s1 where r: "sys (SRead fd (GREP_BUF - length b - 1)) s = URet r s1"
    and rest: "(if rv r > 0
     then let (out, rest) = grep_lines pat (b @ take (nat (rv r)) (rdata r)) in
       ubind (ufor out (\<lambda>l s. ubind (sys (SWrite 1 l) s) (\<lambda>_ s2. URet () s2)) s1) (\<lambda>_ s2. grep_loop k pat fd rest s2)
     else URet () s1) = URet () t"
    by auto
  note io = io_sys(1) [OF r, of fd] io_sys(2) [OF r, of 1]
  show ?case
  proof (cases "rv r > 0")
    case True
    let ?d = "take (nat (rv r)) (rdata r)"
    obtain out rs where g: "grep_lines pat (b @ ?d) = (out, rs)" by force
    with rest True obtain s2 where w: "ufor out (\<lambda>l s. ubind (sys (SWrite 1 l) s) (\<lambda>_ s2. URet () s2)) s1 = URet () s2"
      and loop: "grep_loop k pat fd rs s2 = URet () t" by auto
    have s1: "received fd s1 = received fd s @ ?d" "written 1 s1 = written 1 s" using io by simp_all
    have s2: "received fd s2 = received fd s1" "written 1 s2 = written 1 s1 @ concat out"
      using write_all [OF w, of fd] by simp_all
    obtain ds where "received fd t = received fd s2 @ ds"
      using grep_received [OF loop] by blast
    with Suc.prems(2) s1 s2 have nz: "0 \<notin> set (received fd s @ ?d)" by simp
    with Suc.prems(3) rest_subset have "0 \<notin> set (b @ ?d)" by fastforce
    from grep_lines_correct [OF this, of pat] g have "out = matching pat (b @ ?d)" "rs = snd (lines_of (b @ ?d))" by simp_all
    with s1 s2 Suc.prems(3,4) lines_of_append [of "received fd s" ?d]
    show ?thesis by (intro Suc.IH [OF loop Suc.prems(2)]) simp_all
  next
    case False
    with rest io Suc.prems show ?thesis by simp
  qed
qed simp


text \<open>
  C33. \<open>grep\<close> prints exactly the lines of its input that match, in order and with their newlines, however \<open>read\<close>
  cuts the input into pieces. What follows the last newline is not a line for it and is never printed;
  the input is what was read before the first \<open>read\<close> that delivered nothing, and has no NUL bytes.
\<close>

theorem grep_correct:
  assumes "grep pat fd s = URet () t" and "0 \<notin> set (received fd t)" and "received fd s = []" and "written 1 s = []"
  shows "written 1 t = concat (map (\<lambda>l. l @ [10]) (filter (match pat) (fst (lines_of (received fd t)))))"
  using grep_loop_correct [of "length (answers s)" pat fd "[]" s t] assms by (simp add: grep_def)

theorem grep_correct_witness:
  "let s = \<lparr>answers = [rd [0x61, 10, 0x62], rd [], rd [0x62, 10, 0x63], rd []], calls = []\<rparr> in
   \<exists>t. grep [0x61] 0 s = URet () t \<and> written 1 t = [0x61, 10]"
proof -
  let ?s = "\<lparr>answers = [rd [0x61, 10, 0x62], rd [], rd [0x62, 10, 0x63], rd []], calls = []\<rparr>"
  have m: "match [0x61] [0x61]" "\<not> match [0x61] [0x62, 0x62]"
    by (simp_all add: match_def chr0_def matchhere.simps)
  have g: "grep_lines [0x61] [0x61, 10, 0x62] = ([[0x61, 10]], [0x62])"
    "grep_lines [0x61] [0x62, 0x62, 10, 0x63] = ([], [0x63])"
    using m by (simp_all add: grep_lines_correct)
  obtain t where t: "grep [0x61] 0 ?s = URet () t" "received 0 t = [0x61, 10, 0x62, 0x62, 10, 0x63]"
    using g by (simp add: grep_def sys_def rd_def received_def eval_nat_numeral)
  moreover have "received 0 ?s = []" "written 1 ?s = []" by (simp_all add: received_def written_def)
  ultimately have "written 1 t = [0x61, 10]" using grep_correct [of "[0x61]" 0 ?s t] m by simp
  with t show ?thesis by auto
qed

end
