(* ===== verification/Umalloc.thy ===== *)
theory Umalloc
  imports User
begin

text \<open>
  The memory allocator of user programs (\<^verbatim>\<open>user/umalloc.c\<close>). The heap is the headers of its blocks, by
  address; a header is 16 bytes, the unit of all sizes. The free blocks form a circular list through
  \<open>base\<close>. The loops over the list carry a bound on the number of their rounds, as a list that is not
  circular would never end them.
\<close>

record umem =
  h_ptr :: "uint64 \<Rightarrow> uint64"
  h_size :: "uint64 \<Rightarrow> uint"
  freep :: uint64
  base :: uint64

abbreviation (input) HDR :: uint64 where "HDR \<equiv> 16"

text \<open>The address \<open>p + n\<close> of pointer arithmetic on headers.\<close>

definition hadd :: "uint64 \<Rightarrow> uint \<Rightarrow> uint64" where
  "hadd p n = p + HDR * ucast n"

definition set_ptr :: "uint64 \<Rightarrow> uint64 \<Rightarrow> umem \<Rightarrow> umem" where
  "set_ptr p q h = h\<lparr>h_ptr := (h_ptr h)(p := q)\<rparr>"

definition set_size :: "uint64 \<Rightarrow> uint \<Rightarrow> umem \<Rightarrow> umem" where
  "set_size p n h = h\<lparr>h_size := (h_size h)(p := n)\<rparr>"

section \<open>Free\<close>

text \<open>The search for the place of \<open>bp\<close> in the list.\<close>

fun free_find :: "nat \<Rightarrow> uint64 \<Rightarrow> uint64 \<Rightarrow> umem \<Rightarrow> uint64 option" where
  "free_find 0 bp p h = None"
| "free_find (Suc k) bp p h =
     (if bp > p \<and> bp < h_ptr h p then Some p
      else if p \<ge> h_ptr h p \<and> (bp > p \<or> bp < h_ptr h p) then Some p
      else free_find k bp (h_ptr h p) h)"

text \<open>Linking the block in after \<open>p\<close>, joined with its neighbours where they are adjacent.\<close>

definition free_link :: "uint64 \<Rightarrow> uint64 \<Rightarrow> umem \<Rightarrow> umem" where
  "free_link bp p h =
     (let h1 = (if hadd bp (h_size h bp) = h_ptr h p
                then set_ptr bp (h_ptr h (h_ptr h p)) (set_size bp (h_size h bp + h_size h (h_ptr h p)) h)
                else set_ptr bp (h_ptr h p) h);
          h2 = (if hadd p (h_size h1 p) = bp
                then set_ptr p (h_ptr h1 bp) (set_size p (h_size h1 p + h_size h1 bp) h1)
                else set_ptr p bp h1)
      in h2\<lparr>freep := p\<rparr>)"

definition free :: "nat \<Rightarrow> uint64 \<Rightarrow> umem \<Rightarrow> umem option" where
  "free k ap h =
     (let bp = ap - HDR in
      case free_find k bp (freep h) h of None \<Rightarrow> None | Some p \<Rightarrow> Some (free_link bp p h))"

section \<open>Malloc\<close>

definition morecore :: "nat \<Rightarrow> uint \<Rightarrow> umem \<Rightarrow> ustate \<Rightarrow> (uint64 \<times> umem) ures" where
  "morecore k nu h s =
     (let n = (if nu < 4096 then 4096 else nu) in
      ubind (sys (SSbrk (sint (ucast (ucast n * HDR :: uint64) :: uint))) s) (\<lambda>r s1.
      if rv r = -1 then URet (0, h) s1
      else let hp = of_int (rv r) in
        case free k (hp + HDR) (set_size hp n h) of
          None \<Rightarrow> UWait
        | Some h1 \<Rightarrow> URet (freep h1, h1) s1))"

definition malloc_units :: "uint \<Rightarrow> uint" where
  "malloc_units nbytes = ucast ((ucast nbytes + HDR - 1) div HDR + 1 :: uint64)"

text \<open>Taking \<open>n\<close> units from the free block \<open>p\<close>: all of it, or its tail end.\<close>

definition take_block :: "uint64 \<Rightarrow> uint64 \<Rightarrow> uint \<Rightarrow> umem \<Rightarrow> uint64 \<times> umem" where
  "take_block prevp p n h =
     (if h_size h p = n then (p + HDR, (set_ptr prevp (h_ptr h p) h)\<lparr>freep := prevp\<rparr>)
      else let h1 = set_size p (h_size h p - n) h; q = hadd p (h_size h1 p)
           in (q + HDR, (set_size q n h1)\<lparr>freep := prevp\<rparr>))"

fun malloc_loop :: "nat \<Rightarrow> uint \<Rightarrow> uint64 \<Rightarrow> uint64 \<Rightarrow> umem \<Rightarrow> ustate \<Rightarrow> (uint64 \<times> umem) ures" where
  "malloc_loop 0 n prevp p h s = UWait"
| "malloc_loop (Suc k) n prevp p h s =
     (if h_size h p \<ge> n then URet (take_block prevp p n h) s
      else if p = freep h
      then ubind (morecore (Suc k) n h s) (\<lambda>(p', h1) s1.
           if p' = 0 then URet (0, h1) s1 else malloc_loop k n p' (h_ptr h1 p') h1 s1)
      else malloc_loop k n p (h_ptr h p) h s)"

definition malloc :: "nat \<Rightarrow> uint \<Rightarrow> umem \<Rightarrow> ustate \<Rightarrow> (uint64 \<times> umem) ures" where
  "malloc k nbytes h s =
     (let h0 = (if freep h = 0 then set_size (base h) 0 (set_ptr (base h) (base h) (h\<lparr>freep := base h\<rparr>)) else h)
      in malloc_loop k (malloc_units nbytes) (freep h0) (h_ptr h0 (freep h0)) h0 s)"

end
