(* ===== verification/Mkfs.thy ===== *)
theory Mkfs
  imports Dir
begin

text \<open>
  The program that makes the initial file system (\<^verbatim>\<open>mkfs/mkfs.c\<close>). The image is an array of blocks; the
  input files are given by their names and the sequence of pieces in which they are read. \<open>xint\<close> and
  \<open>xshort\<close> store a number in the byte order of the target, which is the order of the structures here.
\<close>

section \<open>State and layout\<close>

abbreviation (input) FSSIZE :: nat where "FSSIZE \<equiv> 2000"
abbreviation (input) NINODES :: nat where "NINODES \<equiv> 200"

definition nbitmap :: nat where "nbitmap = FSSIZE div BPB + 1"
definition ninodeblocks :: nat where "ninodeblocks = NINODES div IPB + 1"
definition nlog :: nat where "nlog = LOGSIZE"
definition nmeta :: nat where "nmeta = 2 + nlog + ninodeblocks + nbitmap"

definition mkfs_sb :: superblock where
  "mkfs_sb = \<lparr>sb_magic = FSMAGIC, sb_size = of_nat FSSIZE, sb_nblocks = of_nat (FSSIZE - nmeta), sb_ninodes = of_nat NINODES,
     sb_nlog = of_nat nlog, sb_logstart = 2, sb_inodestart = of_nat (2 + nlog),
     sb_bmapstart = of_nat (2 + nlog + ninodeblocks)\<rparr>"

record image =
  img :: "uint \<Rightarrow> block"
  freeinode :: uint
  freeblock :: uint

definition wsect :: "uint \<Rightarrow> block \<Rightarrow> image \<Rightarrow> image" where
  "wsect sec b s = s\<lparr>img := (img s)(sec := b)\<rparr>"

text \<open>The image file has \<open>FSSIZE\<close> blocks when a block is first read; reading beyond its end is fatal.\<close>

definition rsect :: "uint \<Rightarrow> image \<Rightarrow> block res" where
  "rsect sec s = (if unat sec < FSSIZE then Ok (img s sec) else Panic ''read'')"

definition sb_put :: "superblock \<Rightarrow> byte list" where
  "sb_put k = concat (map (le_bytes 4) [sb_magic k, sb_size k, sb_nblocks k, sb_ninodes k, sb_nlog k, sb_logstart k,
     sb_inodestart k, sb_bmapstart k])"

section \<open>Inodes\<close>

definition winode :: "uint \<Rightarrow> dinode \<Rightarrow> image \<Rightarrow> image res" where
  "winode i d s =
     (let bn = IBLOCK i mkfs_sb in
      andthen (rsect bn s) (\<lambda>b. Ok (wsect bn (dinode_put (ioff i) d b) s)))"

definition rinode :: "uint \<Rightarrow> image \<Rightarrow> dinode res" where
  "rinode i s = andthen (rsect (IBLOCK i mkfs_sb) s) (\<lambda>b. Ok (dinode_get (ioff i) b))"

definition mkfs_ialloc :: "ushort \<Rightarrow> image \<Rightarrow> (uint \<times> image) res" where
  "mkfs_ialloc ty s =
     (let i = freeinode s;
          d = \<lparr>d_type = ty, d_major = 0, d_minor = 0, d_nlink = 1, d_size = 0, d_addrs = replicate (NDIRECT + 1) 0\<rparr>
      in andthen (winode i d (s\<lparr>freeinode := freeinode s + 1\<rparr>)) (\<lambda>s1. Ok (i, s1)))"

text \<open>\<open>balloc\<close> marks the first \<open>used\<close> blocks in the bitmap, which must fit in one block.\<close>

definition mkfs_balloc :: "nat \<Rightarrow> image \<Rightarrow> image res" where
  "mkfs_balloc used s =
     (if used \<ge> BPB then Panic ''assert''
      else Ok (wsect (sb_bmapstart mkfs_sb) (fold bm_set [0..<used] (replicate BSIZE 0)) s))"

section \<open>Appending to a file\<close>

text \<open>The next unused block, and the state after \<open>freeblock++\<close>.\<close>

definition take_free :: "image \<Rightarrow> uint \<times> image" where
  "take_free s = (freeblock s, s\<lparr>freeblock := freeblock s + 1\<rparr>)"

text \<open>The block of the file that holds block number \<open>fbn\<close>, with the inode changed by the allocation.\<close>

definition iappend_block :: "nat \<Rightarrow> dinode \<Rightarrow> image \<Rightarrow> (uint \<times> dinode \<times> image) res" where
  "iappend_block fbn d s =
     (if fbn < NDIRECT
      then if d_addrs d ! fbn = 0
           then let (x, s1) = take_free s in Ok (x, d\<lparr>d_addrs := (d_addrs d)[fbn := x]\<rparr>, s1)
           else Ok (d_addrs d ! fbn, d, s)
      else let
        (d1, s1) = (if d_addrs d ! NDIRECT = 0
                    then let (x, s1) = take_free s in (d\<lparr>d_addrs := (d_addrs d)[NDIRECT := x]\<rparr>, s1)
                    else (d, s));
        ind = d_addrs d1 ! NDIRECT; k = fbn - NDIRECT
      in andthen (rsect ind s1) (\<lambda>tab.
         if get32 (4 * k) tab = 0
         then let (x, s2) = take_free s1 in Ok (x, d1, wsect ind (put32 (4 * k) x tab) s2)
         else Ok (get32 (4 * k) tab, d1, s1)))"

lemma block_room: "0 < (unat off div BSIZE + 1) * BSIZE - unat (off :: uint)"
proof -
  have "unat off = unat off div BSIZE * BSIZE + unat off mod BSIZE" by (rule div_mult_mod_eq [symmetric])
  moreover have "unat off mod BSIZE < BSIZE" by simp
  ultimately show ?thesis unfolding add_mult_distrib by linarith
qed

function iappend_loop :: "byte list \<Rightarrow> uint \<Rightarrow> dinode \<Rightarrow> image \<Rightarrow> (uint \<times> dinode \<times> image) res" where
  "iappend_loop p off d s =
     (if p \<noteq> []
      then let fbn = unat off div BSIZE in
        if fbn \<ge> MAXFILE then Panic ''assert''
        else andthen (iappend_block fbn d s) (\<lambda>(x, d1, s1).
          let n1 = min (length p) ((fbn + 1) * BSIZE - unat off) in
          andthen (rsect x s1) (\<lambda>b.
          iappend_loop (drop n1 p) (off + of_nat n1) d1
            (wsect x (put_bytes (unat off - fbn * BSIZE) (take n1 p) b) s1)))
      else Ok (off, d, s))"
  by pat_completeness auto
termination
proof (relation "measure (\<lambda>(p, off, d, s). length p)", goal_cases)
  case (2 p off d s)
  with block_room [of off] show ?case by simp
qed simp

declare iappend_loop.simps [simp del]

definition iappend :: "uint \<Rightarrow> byte list \<Rightarrow> image \<Rightarrow> image res" where
  "iappend i xp s =
     andthen (rinode i s) (\<lambda>d.
     andthen (iappend_loop xp (d_size d) d s) (\<lambda>(off, d1, s1).
     winode i (d1\<lparr>d_size := off\<rparr>) s1))"

section \<open>The program\<close>

text \<open>The name under which a file is stored: without \<^verbatim>\<open>user/\<close> and without a leading underscore.\<close>

definition shortname :: "byte list \<Rightarrow> byte list" where
  "shortname a =
     (let pre = [0x75, 0x73, 0x65, 0x72, 0x2F]; n = (if take 5 a = pre then drop 5 a else a) in
      if chr0 n = 0x5F then tl n else n)"

definition mkfs_add :: "byte list \<times> byte list list \<Rightarrow> image \<Rightarrow> image res" where
  "mkfs_add f s =
     (case f of (a, pieces) \<Rightarrow>
        let pre = [0x75, 0x73, 0x65, 0x72, 0x2F]; n = (if take 5 a = pre then drop 5 a else a) in
        if slash \<in> set n then Panic ''assert''
        else if length (shortname a) > DIRSIZ then Panic ''assert''
        else andthen (mkfs_ialloc T_FILE s) (\<lambda>(i, s1).
          let de = \<lparr>de_inum = ucast i, de_name = strncpy_l (shortname a) DIRSIZ\<rparr> in
          andthen (iappend ROOTINO (dirent_put de) s1) (\<lambda>s2.
          for_each pieces (iappend i) s2)))"

definition mkfs_start :: image where
  "mkfs_start =
     wsect 1 (put_bytes 0 (sb_put mkfs_sb) (replicate BSIZE 0))
       \<lparr>img = (\<lambda>_. replicate BSIZE 0), freeinode = 1, freeblock = of_nat nmeta\<rparr>"

definition mkfs_main :: "(byte list \<times> byte list list) list \<Rightarrow> image res" where
  "mkfs_main fls =
     andthen (mkfs_ialloc T_DIR mkfs_start) (\<lambda>(rootino, s1).
     if rootino \<noteq> ROOTINO then Panic ''assert''
     else andthen (iappend rootino (dirent_put \<lparr>de_inum = ucast rootino, de_name = strncpy_l [0x2E] DIRSIZ\<rparr>) s1) (\<lambda>s2.
       andthen (iappend rootino (dirent_put \<lparr>de_inum = ucast rootino, de_name = strncpy_l [0x2E, 0x2E] DIRSIZ\<rparr>) s2) (\<lambda>s3.
       andthen (for_each fls mkfs_add s3) (\<lambda>s4.
       andthen (rinode rootino s4) (\<lambda>d.
       andthen (winode rootino (d\<lparr>d_size := (d_size d div 1024 + 1) * 1024\<rparr>) s4) (\<lambda>s5.
       mkfs_balloc (unat (freeblock s5)) s5))))))"

end
