(* ===== verification/Spec2Isabelle.thy ===== *)
theory Spec2Isabelle
  imports Trap Writei Sched Asm Start Shell Grep Umalloc Mkfs
begin

text \<open>A verification of the xv6 kernel.\<close>

end
